(* ===== verification/Prelude.thy ===== *)
theory Prelude
  imports Main "HOL-Library.Word" "HOL-Library.Sublist"
begin

text \<open>
  Shared vocabulary of the development: byte strings, panics and error results, slices and
  \<open>copy\<close>, first-match search in a list, and the generic lemmas on lists that the
  components share. A Go \<open>[]byte\<close> and a Go \<open>string\<close> are both lists of
  characters (a HOL character is one byte). A Go run-time panic is a value of type
  \<open>panic\<close> on the left of a sum; a Go \<open>error\<close> result is an ordinary value.
\<close>

named_theorems step_simps \<open>one-step equations of the operations\<close>
named_theorems inv_intros \<open>preservation of the component invariants\<close>

type_synonym bytes = "char list"

type_synonym u8 = "8 word"
type_synonym u32 = "32 word"
type_synonym u64 = "64 word"
type_synonym i32 = "32 word"
type_synonym i64 = "64 word"

datatype panic =
    IndexOutOfRange
  | SliceOutOfRange
  | NilDereference
  | DivideByZero
  | CloseOfClosedChannel
  | SendOnClosedChannel
  | TypeAssertionFailed
  | ExplicitPanic string
  | FatalExit string

type_synonym 'a run = "panic + 'a"

text \<open>A Go \<open>int64\<close> (and \<open>int\<close>) as an integer: the value a wrapped sum or product has.\<close>

definition int64 :: "int \<Rightarrow> int" where
  "int64 x = (x + 2 ^ 63) mod 2 ^ 64 - 2 ^ 63"

lemma int64_id [simp]: "- (2 ^ 63) \<le> x \<Longrightarrow> x < 2 ^ 63 \<Longrightarrow> int64 x = x"
  by (simp add: int64_def)

definition run_bind :: "'a run \<Rightarrow> ('a \<Rightarrow> 'b run) \<Rightarrow> 'b run" where
  "run_bind m f = (case m of Inl e \<Rightarrow> Inl e | Inr x \<Rightarrow> f x)"

lemma run_bind_simps [simp]:
  "run_bind (Inl e) f = Inl e"
  "run_bind (Inr x) f = f x"
  by (simp_all add: run_bind_def)

lemma run_bind_Inr_iff: "run_bind m f = Inr y \<longleftrightarrow> (\<exists>x. m = Inr x \<and> f x = Inr y)"
  by (cases m) auto

subsection \<open>Slices and copy\<close>

text \<open>
  The Go slice expression \<open>s[i:j]\<close>; the model checks the bounds where Go would panic.
\<close>

definition subslice :: "nat \<Rightarrow> nat \<Rightarrow> 'a list \<Rightarrow> 'a list" where
  "subslice i j xs = take (j - i) (drop i xs)"

lemma length_subslice [simp]: "j \<le> length xs \<Longrightarrow> length (subslice i j xs) = j - i"
  by (auto simp: subslice_def)

lemma subslice_take: "j \<le> k \<Longrightarrow> subslice i j (take k xs) = subslice i j xs"
  by (simp add: subslice_def drop_take min_def)

lemma subslice_append:
  assumes "i \<le> j" "j \<le> k"
  shows "subslice i j xs @ subslice j k xs = subslice i k xs"
proof -
  have "drop j xs = drop (j - i) (drop i xs)" using assms by simp
  moreover have "k - i = (j - i) + (k - j)" using assms by simp
  ultimately show ?thesis by (simp only: subslice_def take_add)
qed

lemma subslice_0 [simp]: "subslice 0 j xs = take j xs"
  by (simp add: subslice_def)

lemma subslice_full: "subslice i (length xs) xs = drop i xs"
  by (simp add: subslice_def)

lemma subslice_empty [simp]: "subslice i i xs = []"
  by (simp add: subslice_def)

text \<open>
  \<open>copy(dst[off:], src)\<close>: writes as many bytes as fit, never changes the length of the
  destination.
\<close>

definition copy_at :: "nat \<Rightarrow> 'a list \<Rightarrow> 'a list \<Rightarrow> 'a list" where
  "copy_at off src dst =
     (let n = min (length src) (length dst - off)
      in take off dst @ take n src @ drop (off + n) dst)"

lemma length_copy_at [simp]: "length (copy_at off src dst) = length dst"
  by (auto simp: copy_at_def Let_def)

lemma copy_at_Nil [simp]: "copy_at off src dst = [] \<longleftrightarrow> dst = []"
  by (metis length_copy_at length_0_conv)

lemma copy_at_fits:
  "off + length src \<le> length dst \<Longrightarrow>
   copy_at off src dst = take off dst @ src @ drop (off + length src) dst"
  by (auto simp: copy_at_def Let_def min_def)

lemma take_copy_at:
  "off + length src \<le> length dst \<Longrightarrow>
   take (off + length src) (copy_at off src dst) = take off dst @ src"
  by (simp add: copy_at_fits)

subsection \<open>First match in a list\<close>

fun find_index :: "('a \<Rightarrow> bool) \<Rightarrow> 'a list \<Rightarrow> nat option" where
  "find_index P [] = None"
| "find_index P (x # xs) = (if P x then Some 0 else map_option Suc (find_index P xs))"

lemma find_index_Some:
  "find_index P xs = Some i \<Longrightarrow> i < length xs \<and> P (xs ! i) \<and> (\<forall>j<i. \<not> P (xs ! j))"
  by (induction xs arbitrary: i) (auto simp: less_Suc_eq_0_disj split: if_splits)

lemma find_index_None: "find_index P xs = None \<longleftrightarrow> (\<forall>x\<in>set xs. \<not> P x)"
  by (induction xs) auto

lemma find_index_upto:
  "find_index P xs = Some i \<longleftrightarrow> i < length xs \<and> P (xs ! i) \<and> (\<forall>j<i. \<not> P (xs ! j))"
proof
  assume r: "i < length xs \<and> P (xs ! i) \<and> (\<forall>j<i. \<not> P (xs ! j))"
  then have "find_index P xs \<noteq> None" by (auto simp: find_index_None)
  then obtain k where k: "find_index P xs = Some k" by blast
  from find_index_Some [OF k] r have "k = i" by (metis linorder_neqE_nat)
  with k show "find_index P xs = Some i" by simp
qed (rule find_index_Some)

subsection \<open>Lists as sets kept without duplicates\<close>

text \<open>
  The repository's \<open>for ... if x == y return; append\<close> idiom: append an element unless it is
  already there.
\<close>

definition append_new :: "'a list \<Rightarrow> 'a \<Rightarrow> 'a list" where
  "append_new xs x = (if x \<in> set xs then xs else xs @ [x])"

lemma set_append_new [simp]: "set (append_new xs x) = insert x (set xs)"
  by (auto simp: append_new_def)

lemma distinct_append_new [simp]: "distinct (append_new xs x) = distinct xs"
  by (auto simp: append_new_def)

lemma append_new_known [simp]: "x \<in> set xs \<Longrightarrow> append_new xs x = xs"
  by (simp add: append_new_def)

lemma mono_append_new: "set xs \<subseteq> set (append_new xs x)"
  by auto

subsection \<open>Prefixes and drops\<close>

lemma drop_add: "drop (i + j) xs = drop j (drop i xs)"
  by (simp add: add.commute)

lemma take_eq_append_drop: "take n xs = ys \<Longrightarrow> xs = ys @ drop n xs"
  by (metis append_take_drop_id)

lemma prefix_take_eq: "prefix p xs \<longleftrightarrow> take (length p) xs = p"
  by (metis append_eq_conv_conj prefix_def take_is_prefix)

lemma list_update_nth_split:
  "i < length xs \<Longrightarrow> xs[i := x] = take i xs @ x # drop (Suc i) xs"
  by (rule upd_conv_take_nth_drop)

lemma unat_of_nat_u32: "n < 2 ^ 32 \<Longrightarrow> unat (of_nat n :: u32) = n"
  by (simp add: unat_of_nat)

end
