(* ===== verification/Tries.thy ===== *)
theory Tries
  imports Prelude "HOL-Library.Multiset"
begin

text \<open>
  \<open>shared/trie.go\<close>: the prefix tree the transition parser keeps its tokens in. The
  pointers of the code form a tree without sharing, so a node is a value: replacing a child in its
  parent (\<open>replace\<close>) is putting the node that \<open>addPath\<close> returns in the child's
  place. A payload is optional because the code stores \<open>nil\<close> in branching nodes.
\<close>

datatype 'p trie =
  TrieNode (tsuffix: bytes) (children: "'p trie list") (longestPath: nat) (PathLen: nat) (Payload: "'p option")

definition NewTrie :: "bytes \<Rightarrow> 'p option \<Rightarrow> 'p trie" where
  "NewTrie data payload = TrieNode data [] (length data) (length data) payload"

subsection \<open>Adding a path\<close>

text \<open>The position of a new child: before all trailing children whose longest path is not longer.\<close>

fun child_position :: "'p trie list \<Rightarrow> nat \<Rightarrow> nat \<Rightarrow> nat" where
  "child_position cs pathLen 0 = 0"
| "child_position cs pathLen (Suc nextIdx) =
     (if longestPath (cs ! nextIdx) > pathLen then Suc nextIdx else child_position cs pathLen nextIdx)"

definition addNewChild :: "bytes \<Rightarrow> 'p option \<Rightarrow> nat \<Rightarrow> 'p trie \<Rightarrow> 'p trie" where
  "addNewChild data payload pathLen node =
     (let idx = child_position (children node) pathLen (length (children node));
          child = TrieNode data [] pathLen pathLen payload
      in TrieNode (tsuffix node) (take idx (children node) @ child # drop idx (children node))
           (if longestPath node < pathLen then pathLen else longestPath node)
           (PathLen node) (Payload node))"

text \<open>\<open>splitIdx\<close>: the first position where data and suffix differ.\<close>

fun split_index :: "bytes \<Rightarrow> bytes \<Rightarrow> nat" where
  "split_index (x # xs) (y # ys) = (if x = y then Suc (split_index xs ys) else 0)"
| "split_index _ _ = 0"

text \<open>
  \<open>addPath\<close> and its loop over the children. \<open>child.suffix[0]\<close> panics for a child
  with an empty suffix. The loop's result is \<open>None\<close> when no child starts with the byte.
\<close>

fun addPath :: "bytes \<Rightarrow> 'p option \<Rightarrow> nat \<Rightarrow> 'p trie \<Rightarrow> 'p trie run"
  and addChild :: "bytes \<Rightarrow> 'p option \<Rightarrow> nat \<Rightarrow> 'p trie list \<Rightarrow> 'p trie list option run" where
  "addPath data payload pathLen (TrieNode sfx cs lp pl pay) =
     (if split_index data sfx = length sfx then
        if split_index data sfx = length data then Inr (TrieNode sfx cs lp pl payload)
        else if length sfx > 0 then
          (case addChild (drop (split_index data sfx) data) payload pathLen cs of
             Inl e \<Rightarrow> Inl e
           | Inr (Some cs') \<Rightarrow> Inr (TrieNode sfx cs' lp pl pay)
           | Inr None \<Rightarrow>
               Inr (addNewChild (drop (split_index data sfx) data) payload pathLen (TrieNode sfx cs lp pl pay)))
        else Inr (addNewChild (drop (split_index data sfx) data) payload pathLen (TrieNode sfx cs lp pl pay))
      else if split_index data sfx = length data then
        Inr (TrieNode data [TrieNode (drop (split_index data sfx) sfx) cs lp pl pay] lp pathLen payload)
      else
        Inr (addNewChild (drop (split_index data sfx) data) payload pathLen
               (TrieNode (take (split_index data sfx) data)
                  [TrieNode (drop (split_index data sfx) sfx) cs lp pl pay] lp 0 None)))"
| "addChild data payload pathLen [] = Inr None"
| "addChild data payload pathLen (child # cs) =
     (case tsuffix child of
        [] \<Rightarrow> Inl IndexOutOfRange
      | x # _ \<Rightarrow>
          if x = hd data then
            (case addPath data payload pathLen child of
               Inl e \<Rightarrow> Inl e
             | Inr child' \<Rightarrow> Inr (Some (child' # cs)))
          else (case addChild data payload pathLen cs of
                  Inl e \<Rightarrow> Inl e
                | Inr None \<Rightarrow> Inr None
                | Inr (Some cs') \<Rightarrow> Inr (Some (child # cs'))))"

definition Add :: "'p trie \<Rightarrow> bytes \<Rightarrow> 'p option \<Rightarrow> 'p trie run" where
  "Add node data payload = addPath data payload (length data) node"

subsection \<open>Matching\<close>

fun Match :: "'p trie \<Rightarrow> bytes \<Rightarrow> 'p trie option"
  and matchChildren :: "'p trie list \<Rightarrow> bytes \<Rightarrow> 'p trie option" where
  "Match (TrieNode sfx cs lp pl pay) data =
     (if length data < length sfx then None
      else if take (length sfx) data \<noteq> sfx then None
      else if length data = length sfx then
        (if pl > 0 then Some (TrieNode sfx cs lp pl pay) else None)
      else matchChildren cs (drop (length sfx) data))"
| "matchChildren [] data = None"
| "matchChildren (c # cs) data =
     (case Match c data of Some n \<Rightarrow> Some n | None \<Rightarrow> matchChildren cs data)"

fun MatchStart :: "'p trie \<Rightarrow> bytes \<Rightarrow> 'p trie option"
  and matchStartChildren :: "'p trie list \<Rightarrow> bytes \<Rightarrow> 'p trie option" where
  "MatchStart (TrieNode sfx cs lp pl pay) data =
     (if length data < length sfx then None
      else if take (length sfx) data \<noteq> sfx then None
      else case matchStartChildren cs (drop (length sfx) data) of
             Some n \<Rightarrow> Some n
           | None \<Rightarrow> if pl > 0 then Some (TrieNode sfx cs lp pl pay) else None)"
| "matchStartChildren [] data = None"
| "matchStartChildren (c # cs) data =
     (case MatchStart c data of Some n \<Rightarrow> Some n | None \<Rightarrow> matchStartChildren cs data)"

fun ForEach :: "('p trie \<Rightarrow> 's \<Rightarrow> 's) \<Rightarrow> 'p trie \<Rightarrow> 's \<Rightarrow> 's"
  and forEachChild :: "('p trie \<Rightarrow> 's \<Rightarrow> 's) \<Rightarrow> 'p trie list \<Rightarrow> 's \<Rightarrow> 's" where
  "ForEach callback (TrieNode sfx cs lp pl pay) s =
     forEachChild callback cs (callback (TrieNode sfx cs lp pl pay) s)"
| "forEachChild callback [] s = s"
| "forEachChild callback (c # cs) s = forEachChild callback cs (ForEach callback c s)"

subsection \<open>Invariant\<close>

text \<open>
  \<open>radix k t\<close>: below the \<open>k\<close> bytes already consumed, no suffix is empty, siblings
  start with different bytes, and a stored path length is the length of the path to its node.
\<close>

fun radix :: "nat \<Rightarrow> 'p trie \<Rightarrow> bool" where
  "radix k (TrieNode sfx cs lp pl pay) =
     (sfx \<noteq> [] \<and> (pl = 0 \<or> pl = k + length sfx) \<and>
      distinct (map (\<lambda>c. hd (tsuffix c)) cs) \<and> (\<forall>c\<in>set cs. radix (k + length sfx) c))"

definition radix_list :: "nat \<Rightarrow> 'p trie list \<Rightarrow> bool" where
  "radix_list k cs \<longleftrightarrow> distinct (map (\<lambda>c. hd (tsuffix c)) cs) \<and> (\<forall>c\<in>set cs. radix k c)"

lemma radix_node: "radix k (TrieNode sfx cs lp pl pay) \<longleftrightarrow>
    sfx \<noteq> [] \<and> (pl = 0 \<or> pl = k + length sfx) \<and> radix_list (k + length sfx) cs"
  by (auto simp: radix_list_def)

lemma radix_list_Nil [simp]: "radix_list k []"
  by (simp add: radix_list_def)

lemma radix_list_Cons: "radix_list k (c # cs) \<longleftrightarrow>
    radix k c \<and> hd (tsuffix c) \<notin> (\<lambda>c. hd (tsuffix c)) ` set cs \<and> radix_list k cs"
  by (auto simp: radix_list_def)

declare radix.simps [simp del]

lemma radix_suffix: "radix k t \<Longrightarrow> tsuffix t \<noteq> []"
  by (cases t) (simp add: radix_node)

lemma split_index_le: "split_index xs ys \<le> length xs \<and> split_index xs ys \<le> length ys"
  by (induction xs ys rule: split_index.induct) auto

lemma split_index_take: "take (split_index xs ys) xs = take (split_index xs ys) ys"
  by (induction xs ys rule: split_index.induct) auto

lemma split_index_diff:
  "split_index xs ys < length xs \<Longrightarrow> split_index xs ys < length ys \<Longrightarrow>
   xs ! split_index xs ys \<noteq> ys ! split_index xs ys"
  by (induction xs ys rule: split_index.induct) auto

lemma split_index_simps [simp]:
  "split_index xs xs = length xs" "split_index (xs @ d) xs = length xs" "split_index xs (xs @ d) = length xs"
  by (induction xs) auto

lemma split_index_common [simp]: "x \<noteq> y \<Longrightarrow> split_index (us @ x # d) (us @ y # s) = length us"
  by (induction us) auto

lemma split_index_hd: "xs \<noteq> [] \<Longrightarrow> ys \<noteq> [] \<Longrightarrow> hd xs = hd ys \<Longrightarrow> 0 < split_index xs ys"
  by (cases xs; cases ys) auto

text \<open>What a trie stores under a key: the path length and the payload of the matched node.\<close>

definition stored :: "'p trie \<Rightarrow> bytes \<Rightarrow> (nat \<times> 'p option) option" where
  "stored t x = map_option (\<lambda>n. (PathLen n, Payload n)) (Match t x)"

definition stored_list :: "'p trie list \<Rightarrow> bytes \<Rightarrow> (nat \<times> 'p option) option" where
  "stored_list cs x = map_option (\<lambda>n. (PathLen n, Payload n)) (matchChildren cs x)"

lemma stored_node:
  "stored (TrieNode sfx cs lp pl pay) x =
     (if take (length sfx) x \<noteq> sfx then None
      else if length x = length sfx then (if pl > 0 then Some (pl, pay) else None)
      else stored_list cs (drop (length sfx) x))"
  by (auto simp: stored_def stored_list_def)

lemma stored_list_Nil [simp]: "stored_list [] x = None"
  by (simp add: stored_list_def)

lemma stored_list_Cons: "stored_list (c # cs) x = (case stored c x of Some r \<Rightarrow> Some r | None \<Rightarrow> stored_list cs x)"
  by (simp add: stored_def stored_list_def split: option.splits)

lemma stored_hd: "radix k t \<Longrightarrow> stored t x \<noteq> None \<Longrightarrow> x \<noteq> [] \<and> hd x = hd (tsuffix t)"
  by (cases t; cases "tsuffix t"; cases x) (auto simp: stored_node radix_node split: if_splits)

lemma stored_list_none: "radix_list k cs \<Longrightarrow> (\<forall>c\<in>set cs. hd (tsuffix c) \<noteq> hd x) \<Longrightarrow> stored_list cs x = None"
proof (induction cs)
  case (Cons c cs)
  then have "stored c x = None" using stored_hd [of k c x] by (auto simp: radix_list_Cons)
  with Cons show ?case by (simp add: stored_list_Cons radix_list_Cons)
qed simp

lemma stored_list_one:
  "radix_list k cs \<Longrightarrow> c \<in> set cs \<Longrightarrow> hd (tsuffix c) = hd x \<Longrightarrow> stored_list cs x = stored c x"
proof (induction cs)
  case (Cons b cs)
  show ?case
  proof (cases "c = b")
    case True
    with Cons.prems have "stored_list cs x = None"
      by (intro stored_list_none [of k]) (auto simp: radix_list_Cons image_iff)
    with True show ?thesis by (simp add: stored_list_Cons split: option.splits)
  next
    case False
    with Cons.prems have "hd (tsuffix b) \<noteq> hd x" by (force simp: radix_list_Cons)
    then have "stored b x = None" using stored_hd [of k b x] Cons.prems by (auto simp: radix_list_Cons)
    with False Cons show ?thesis by (auto simp: stored_list_Cons radix_list_Cons)
  qed
qed simp

lemma radix_list_set:
  "radix_list k cs \<Longrightarrow> mset cs = mset ds \<Longrightarrow> radix_list k ds"
  by (metis (no_types, lifting) mset_eq_imp_distinct_iff mset_eq_setD mset_map radix_list_def)

text \<open>Inserting a child with a fresh first byte anywhere among its siblings.\<close>

lemma stored_list_insert:
  assumes "radix_list k (xs @ ys)" "radix k c" "hd (tsuffix c) \<notin> (\<lambda>c. hd (tsuffix c)) ` set (xs @ ys)"
  shows "radix_list k (xs @ c # ys)"
    and "stored_list (xs @ c # ys) x =
           (if hd x = hd (tsuffix c) then stored c x else stored_list (xs @ ys) x)"
proof -
  show r: "radix_list k (xs @ c # ys)" using assms by (auto simp: radix_list_def)
  show "stored_list (xs @ c # ys) x =
           (if hd x = hd (tsuffix c) then stored c x else stored_list (xs @ ys) x)"
  proof (cases "\<exists>d\<in>set (xs @ c # ys). hd (tsuffix d) = hd x")
    case True
    then obtain d where d: "d \<in> set (xs @ c # ys)" "hd (tsuffix d) = hd x" by blast
    from r d have e: "stored_list (xs @ c # ys) x = stored d x" by (rule stored_list_one)
    show ?thesis
    proof (cases "d = c")
      case True
      with e d show ?thesis by simp
    next
      case False
      with d have m: "d \<in> set (xs @ ys)" by auto
      then have "hd x \<noteq> hd (tsuffix c)" using assms(3) d(2) by (metis image_eqI)
      with m e d(2) stored_list_one [OF assms(1)] show ?thesis by simp
    qed
  next
    case False
    with stored_list_none [OF r, of x] stored_list_none [OF assms(1), of x] show ?thesis by auto
  qed
qed

lemma stored_leaf: "stored (TrieNode d [] lp n p) x = (if x = d \<and> 0 < n then Some (n, p) else None)"
  by (auto simp: stored_node)

lemma child_position_le: "child_position cs n i \<le> i"
  by (induction cs n i rule: child_position.induct) auto

lemma addNewChild_radix:
  assumes "radix b (TrieNode sfx cs lp pl pay)" "d \<noteq> []"
    and "hd d \<notin> (\<lambda>c. hd (tsuffix c)) ` set cs" "n = b + length sfx + length d"
  shows "radix b (addNewChild d p n (TrieNode sfx cs lp pl pay))"
    and "stored (addNewChild d p n (TrieNode sfx cs lp pl pay)) x =
           (if x = sfx @ d then Some (n, p) else stored (TrieNode sfx cs lp pl pay) x)"
proof -
  let ?i = "child_position cs n (length cs)" and ?c = "TrieNode d [] n n p"
  have c: "radix (b + length sfx) ?c" using assms(2,4) by (simp add: radix_node)
  have "radix_list (b + length sfx) (take ?i cs @ drop ?i cs)"
    using assms(1) by (simp add: radix_node)
  note ins = stored_list_insert [OF this c]
  have fresh: "hd (tsuffix ?c) \<notin> (\<lambda>c. hd (tsuffix c)) ` set (take ?i cs @ drop ?i cs)"
    using assms(3) by simp
  show "radix b (addNewChild d p n (TrieNode sfx cs lp pl pay))"
    using assms(1) ins(1) [OF fresh] by (simp add: addNewChild_def radix_node Let_def)
  have sl: "stored_list (take ?i cs @ ?c # drop ?i cs) y =
      (if y = d then Some (n, p) else stored_list cs y)" if "y \<noteq> []" for y
  proof (cases "hd y = hd d")
    case True
    have "stored_list cs y = None"
      using assms(1,3) True by (intro stored_list_none [of "b + length sfx"]) (auto simp: radix_node image_iff)
    with True ins(2) [OF fresh, of y] assms(2,4) show ?thesis by (simp add: stored_leaf)
  qed (use ins(2) [OF fresh, of y] in auto)
  show "stored (addNewChild d p n (TrieNode sfx cs lp pl pay)) x =
           (if x = sfx @ d then Some (n, p) else stored (TrieNode sfx cs lp pl pay) x)"
  proof (cases "take (length sfx) x = sfx \<and> length x \<noteq> length sfx")
    case True
    then obtain y where "x = sfx @ y" "y \<noteq> []" by (metis append_self_conv append_take_drop_id)
    then show ?thesis by (simp add: addNewChild_def stored_node Let_def sl)
  next
    case False
    with assms(2) show ?thesis by (auto simp: addNewChild_def stored_node Let_def)
  qed
qed

text \<open>Splitting a node: the upper part keeps the first \<open>j\<close> bytes of the suffix.\<close>

lemma split_radix:
  assumes "radix b (TrieNode sfx cs lp pl pay)" "0 < j" "j < length sfx" "pl' = 0 \<or> pl' = b + j"
  shows "radix b (TrieNode (take j sfx) [TrieNode (drop j sfx) cs lp pl pay] lp' pl' pay')"
    and "stored (TrieNode (take j sfx) [TrieNode (drop j sfx) cs lp pl pay] lp' pl' pay') x =
           (if x = take j sfx then (if pl' > 0 then Some (pl', pay') else None)
            else stored (TrieNode sfx cs lp pl pay) x)"
proof -
  show "radix b (TrieNode (take j sfx) [TrieNode (drop j sfx) cs lp pl pay] lp' pl' pay')"
    using assms by (auto simp: radix_node radix_list_Cons)
  show "stored (TrieNode (take j sfx) [TrieNode (drop j sfx) cs lp pl pay] lp' pl' pay') x =
           (if x = take j sfx then (if pl' > 0 then Some (pl', pay') else None)
            else stored (TrieNode sfx cs lp pl pay) x)"
  proof (cases "take j x = take j sfx")
    case True
    have "take (length sfx) x = sfx \<longleftrightarrow> take (length sfx - j) (drop j x) = drop j sfx"
      (is "?l \<longleftrightarrow> ?r")
    proof
      assume ?r
      then have "take j x @ take (length sfx - j) (drop j x) = take j sfx @ drop j sfx"
        using True by simp
      then show ?l using assms(3) by (metis append_take_drop_id le_add_diff_inverse less_imp_le take_add)
    qed (metis drop_take)
    then show ?thesis using True assms(2,3)
      by (auto simp: stored_node stored_list_Cons min_def split: option.splits)
  next
    case False
    then have "take (length sfx) x \<noteq> sfx" using assms(3) by (metis less_imp_le min.absorb1 take_take)
    with False assms(3) show ?thesis by (auto simp: stored_node min_def)
  qed
qed

subsection \<open>What Add does\<close>

text \<open>A key that ends at a branching node, which has no path length of its own.\<close>

fun hole :: "'p trie \<Rightarrow> bytes \<Rightarrow> bool" and hole_list :: "'p trie list \<Rightarrow> bytes \<Rightarrow> bool" where
  "hole (TrieNode sfx cs lp pl pay) x =
     (take (length sfx) x = sfx \<and> (if length x = length sfx then pl = 0 else hole_list cs (drop (length sfx) x)))"
| "hole_list [] x = False"
| "hole_list (c # cs) x = (hole c x \<or> hole_list cs x)"

declare hole.simps [simp del]

lemma hole_hd: "radix k t \<Longrightarrow> hole t x \<Longrightarrow> x \<noteq> [] \<and> hd x = hd (tsuffix t)"
  by (cases t; cases "tsuffix t"; cases x) (auto simp: hole.simps radix_node)

lemma hole_list_hd: "radix_list k cs \<Longrightarrow> hole_list cs x \<Longrightarrow> \<exists>c\<in>set cs. hd (tsuffix c) = hd x"
  by (induction cs) (auto simp: radix_list_Cons dest: hole_hd)

text \<open>The result of adding \<open>d\<close>: only the entry of \<open>d\<close> changes.\<close>

definition added :: "nat \<Rightarrow> bytes \<Rightarrow> 'p option \<Rightarrow> bool \<Rightarrow> (bytes \<Rightarrow> (nat \<times> 'p option) option) \<Rightarrow>
    (bytes \<Rightarrow> (nat \<times> 'p option) option) \<Rightarrow> bool" where
  "added n d p h f g \<longleftrightarrow> (\<forall>x. g x = (if x = d then (if h then None else Some (n, p)) else f x))"

lemma added_new:
  assumes "\<And>x. g x = (if x = d then Some (n, p) else h x)"
    and "\<And>x. h x = (if x = e then None else f x)" and "f e = None"
  shows "added n d p False f g"
  using assms by (auto simp: added_def)

text \<open>What the two functions owe each other.\<close>

definition node_added :: "nat \<Rightarrow> bytes \<Rightarrow> 'p option \<Rightarrow> nat \<Rightarrow> 'p trie \<Rightarrow> bool" where
  "node_added b d p n t \<longleftrightarrow>
     (\<exists>t'. addPath d p n t = Inr t' \<and> radix b t' \<and> hd (tsuffix t') = hd d \<and> added n d p (hole t d) (stored t) (stored t'))"

abbreviation heads :: "'p trie list \<Rightarrow> char set" where
  "heads cs \<equiv> (\<lambda>c. hd (tsuffix c)) ` set cs"

definition child_added :: "nat \<Rightarrow> bytes \<Rightarrow> 'p option \<Rightarrow> nat \<Rightarrow> 'p trie list \<Rightarrow> bool" where
  "child_added b d p n cs \<longleftrightarrow>
     (case addChild d p n cs of
        Inl e \<Rightarrow> False
      | Inr None \<Rightarrow> hd d \<notin> heads cs
      | Inr (Some cs') \<Rightarrow> radix_list b cs' \<and> heads cs' = heads cs \<and> added n d p (hole_list cs d) (stored_list cs) (stored_list cs'))"

lemma node_addedI:
  "addPath d p n t = Inr t' \<Longrightarrow> radix b t' \<Longrightarrow> hd (tsuffix t') = hd d \<Longrightarrow> added n d p (hole t d) (stored t) (stored t') \<Longrightarrow>
   node_added b d p n t"
  by (auto simp: node_added_def)

lemma addPath_below:
  assumes r: "radix b (TrieNode sfx cs lp pl pay)" and data: "data = sfx @ d" "d \<noteq> []" and n: "n = b + length data"
    and c: "child_added (b + length sfx) d p n cs"
  shows "node_added b data p n (TrieNode sfx cs lp pl pay)"
proof -
  let ?t = "TrieNode sfx cs lp pl pay"
  have sfx: "sfx \<noteq> []" and rcs: "radix_list (b + length sfx) cs" and pl: "pl = 0 \<or> pl = b + length sfx"
    using r by (simp_all add: radix_node)
  have j: "split_index data sfx = length sfx" by (simp add: data)
  have nd: "n = b + length sfx + length d" using n data by simp
  show ?thesis
  proof (cases "addChild d p n cs")
    case (Inl e)
    with c show ?thesis by (simp add: child_added_def)
  next
    case (Inr r')
    show ?thesis
    proof (cases r')
      case None
      with c Inr have fresh: "hd d \<notin> heads cs" by (simp add: child_added_def)
      have "\<not> hole ?t data" using hole_list_hd [OF rcs, of d] fresh data by (force simp: hole.simps)
      then have "added n data p (hole ?t data) (stored ?t) (stored (addNewChild d p n ?t))"
        using addNewChild_radix(2) [OF r data(2) fresh nd] data by (auto simp: added_def)
      moreover have "tsuffix (addNewChild d p n ?t) = sfx" by (simp add: addNewChild_def Let_def)
      ultimately show ?thesis using addNewChild_radix(1) [OF r data(2) fresh nd] sfx None Inr j data
        by (intro node_addedI) simp_all
    next
      case (Some cs')
      with c Inr have cs': "radix_list (b + length sfx) cs'" and ad: "added n d p (hole_list cs d) (stored_list cs) (stored_list cs')"
        by (simp_all add: child_added_def)
      have "added n data p (hole ?t data) (stored ?t) (stored (TrieNode sfx cs' lp pl pay))"
        using ad data by (auto simp: added_def stored_node hole.simps) (metis append_take_drop_id)+
      with cs' pl sfx Some Inr j data show ?thesis by (intro node_addedI) (simp_all add: radix_node)
    qed
  qed
qed

lemma addPath_above:
  assumes r: "radix b (TrieNode sfx cs lp pl pay)" and d: "data \<noteq> []" "sfx = data @ s" "s \<noteq> []" and n: "n = b + length data"
  shows "node_added b data p n (TrieNode sfx cs lp pl pay)"
proof -
  have sp: "radix b (TrieNode data [TrieNode s cs lp pl pay] lp n p)"
    "stored (TrieNode data [TrieNode s cs lp pl pay] lp n p) x = (if x = data then (if n > 0 then Some (n, p) else None)
       else stored (TrieNode sfx cs lp pl pay) x)" for x
    using split_radix [OF r, of "length data" n lp p] d n by simp_all
  have "\<not> hole (TrieNode sfx cs lp pl pay) data" using d by (auto simp: hole.simps)
  moreover have "0 < n" using d(1) n by simp
  ultimately have "added n data p (hole (TrieNode sfx cs lp pl pay) data) (stored (TrieNode sfx cs lp pl pay))
      (stored (TrieNode data [TrieNode s cs lp pl pay] lp n p))" by (simp add: added_def sp(2))
  moreover have "addPath data p n (TrieNode sfx cs lp pl pay) = Inr (TrieNode data [TrieNode s cs lp pl pay] lp n p)"
    using d(3) by (simp add: d(2))
  ultimately show ?thesis using sp(1) by (intro node_addedI) simp_all
qed

lemma addPath_branch:
  assumes r: "radix b (TrieNode sfx cs lp pl pay)" and d: "data = c # cs1 @ x # d'" "sfx = c # cs1 @ y # s'" "x \<noteq> y"
    and n: "n = b + length data"
  shows "node_added b data p n (TrieNode sfx cs lp pl pay)"
proof -
  let ?t = "TrieNode sfx cs lp pl pay" and ?top = "c # cs1"
  let ?m = "TrieNode ?top [TrieNode (y # s') cs lp pl pay] lp 0 None"
  let ?t' = "addNewChild (x # d') p n ?m"
  have j: "split_index data sfx = length ?top" using d split_index_common [of x y ?top d' s'] by simp
  have sp: "radix b ?m" "stored ?m z = (if z = ?top then None else stored ?t z)" for z
    using split_radix [OF r, of "length ?top" 0 lp None] d(2) by simp_all
  have fresh: "hd (x # d') \<notin> heads [TrieNode (y # s') cs lp pl pay]" using d(3) by simp
  have n': "n = b + length ?top + length (x # d')" using n d by simp
  have st: "stored ?t' z = (if z = data then Some (n, p) else stored ?m z)" for z
    using addNewChild_radix(2) [OF sp(1) _ fresh n'] d(1) by simp
  have "stored ?t ?top = None" "\<not> hole ?t data" using d by (simp_all add: stored_node hole.simps)
  then have "added n data p (hole ?t data) (stored ?t) (stored ?t')" using added_new [OF st sp(2)] by simp
  moreover have "hd (tsuffix ?t') = hd data" by (simp add: addNewChild_def d Let_def)
  moreover have "radix b ?t'" using addNewChild_radix(1) [OF sp(1) _ fresh n'] by simp
  moreover have "addPath data p n ?t = Inr ?t'" using j by (simp add: d)
  ultimately show ?thesis by (intro node_addedI) 
qed

lemma addChild_first:
  assumes "radix_list b (child # cs)" "tsuffix child = hd d # xs" "d \<noteq> []" "node_added b d p n child"
  shows "child_added b d p n (child # cs)"
proof -
  obtain t' where t': "addPath d p n child = Inr t'" "radix b t'" "hd (tsuffix t') = hd d" "added n d p (hole child d) (stored child) (stored t')"
    using assms(4) by (auto simp: node_added_def)
  have "radix_list b (t' # cs)" using assms(1,2) t' by (simp add: radix_list_Cons)
  moreover have "stored_list cs d = None" "\<not> hole_list cs d"
    using assms(1-3) stored_list_none [of b cs d] hole_list_hd [of b cs d] by (force simp: radix_list_Cons image_iff)+
  then have "added n d p (hole_list (child # cs) d) (stored_list (child # cs)) (stored_list (t' # cs))"
    using t'(4) by (auto simp: added_def stored_list_Cons)
  ultimately show ?thesis using assms(2) t' by (simp add: child_added_def)
qed

lemma addChild_later:
  assumes "radix_list b (child # cs)" "tsuffix child = x # xs" "x \<noteq> hd d" "child_added b d p n cs"
  shows "child_added b d p n (child # cs)"
proof -
  have "stored child d = None" "\<not> hole child d"
    using assms(1-3) stored_hd [of b child d] hole_hd [of b child d] by (auto simp: radix_list_Cons)
  with assms show ?thesis
    by (cases "addChild d p n cs") (auto simp: child_added_def radix_list_Cons added_def stored_list_Cons split: option.splits)
qed

text \<open>How two strings with the same first byte can go on.\<close>

lemma common_cases:
  fixes xs ys :: bytes
  obtains "xs = ys" | d where "xs = ys @ d" "d \<noteq> []" | d where "ys = xs @ d" "d \<noteq> []"
    | us x xs' y ys' where "xs = us @ x # xs'" "ys = us @ y # ys'" "x \<noteq> y"
proof -
  have "xs = ys \<or> (\<exists>d. xs = ys @ d \<and> d \<noteq> []) \<or> (\<exists>d. ys = xs @ d \<and> d \<noteq> []) \<or>
      (\<exists>us x xs' y ys'. xs = us @ x # xs' \<and> ys = us @ y # ys' \<and> x \<noteq> y)"
  proof (induction xs ys rule: list_induct2')
    case (4 x xs y ys)
    show ?case
    proof (cases "x = y")
      case True
      with 4 show ?thesis by simp (metis append_Cons)
    next
      case False
      then show ?thesis by (metis append_Nil)
    qed
  qed simp_all
  then show thesis using that by blast
qed

lemma addPath_spec:
  fixes t :: "'p trie" and cs :: "'p trie list"
  shows "\<And>b. radix b t \<Longrightarrow> d \<noteq> [] \<Longrightarrow> hd d = hd (tsuffix t) \<Longrightarrow> n = b + length d \<Longrightarrow> node_added b d p n t"
    and "\<And>b. radix_list b cs \<Longrightarrow> d \<noteq> [] \<Longrightarrow> n = b + length d \<Longrightarrow> child_added b d p n cs"
proof (induction d p n t and d p n cs rule: addPath_addChild.induct)
  case (1 data payload pathLen sfx cs lp pl pay)
  let ?t = "TrieNode sfx cs lp pl pay"
  from "1.prems"(1) have sfx: "sfx \<noteq> []" and rcs: "radix_list (b + length sfx) cs" by (simp_all add: radix_node)
  show ?case
  proof (cases rule: common_cases [of data sfx])
    case 1
    then show ?thesis using "1.prems"(1,2,4)
      by (intro node_addedI [where t' = "TrieNode sfx cs lp pl payload"]) (auto simp: added_def stored_node hole.simps radix_node)
  next
    case (2 d)
    have "child_added (b + length sfx) (drop (split_index data sfx) data) payload pathLen cs"
      using 2 "1.prems"(4) rcs sfx by (intro "1.IH") simp_all
    then show ?thesis using 2 "1.prems" by (intro addPath_below [of _ _ _ _ _ _ _ d]) simp_all
  next
    case (3 s)
    then show ?thesis using "1.prems" by (intro addPath_above [of _ _ _ _ _ _ _ s]) simp_all
  next
    case (4 us x xs' y ys')
    then obtain c us' where "us = c # us'" using "1.prems"(3) by (cases us) auto
    with 4 show ?thesis using "1.prems" by (intro addPath_branch [of _ _ _ _ _ _ _ c us' x xs' y ys']) simp_all
  qed
next
  case (2 data payload pathLen)
  then show ?case by (simp add: child_added_def)
next
  case (3 data payload pathLen child cs)
  then obtain x xs where x: "tsuffix child = x # xs" using radix_suffix by (metis list.exhaust radix_list_Cons)
  show ?case
  proof (cases "x = hd data")
    case True
    then have "node_added b data payload pathLen child" using 3(3-5) x by (intro 3(1) [OF x True]) (simp_all add: radix_list_Cons)
    then show ?thesis using 3(3,4) x True by (intro addChild_first) simp_all
  next
    case False
    then have "child_added b data payload pathLen cs" using 3(3-5) x by (intro 3(2) [OF x False]) (simp_all add: radix_list_Cons)
    then show ?thesis using 3(3) x False by (intro addChild_later)
  qed
qed

subsection \<open>MatchStart finds the longest stored prefix\<close>


definition longest_match :: "nat \<Rightarrow> (bytes \<Rightarrow> 'p trie option) \<Rightarrow> bytes \<Rightarrow> 'p trie option \<Rightarrow> bool" where
  "longest_match b f x r \<longleftrightarrow>
     (case r of
        None \<Rightarrow> \<forall>m\<le>length x. f (take m x) = None
      | Some n \<Rightarrow> \<exists>m\<le>length x. f (take m x) = Some n \<and> 0 < PathLen n \<and> PathLen n = b + m \<and>
                   (\<forall>m'\<le>length x. m < m' \<longrightarrow> f (take m' x) = None))"

lemma longest_match_shift:
  assumes "longest_match (b + length sfx) g y r" "x = sfx @ y"
    and "\<And>m. m < length sfx \<Longrightarrow> f (take m x) = None"
    and "\<And>m. 0 < m \<Longrightarrow> m \<le> length y \<Longrightarrow> f (sfx @ take m y) = g (take m y)"
    and "g [] = None"
    and "f sfx = (case r of None \<Rightarrow> t | Some _ \<Rightarrow> f sfx)"
    and "\<And>n. t = Some n \<Longrightarrow> 0 < PathLen n \<and> PathLen n = b + length sfx"
  shows "longest_match b f x (case r of Some n \<Rightarrow> Some n | None \<Rightarrow> t)"
proof -
  have beyond: "f (take m' x) = g (take (m' - length sfx) y)" if "length sfx < m'" "m' \<le> length x" for m'
    using assms(2) assms(4) [of "m' - length sfx"] that by simp
  show ?thesis
  proof (cases r)
    case None
    with assms(1) have g: "g (take m y) = None" if "m \<le> length y" for m
      using that by (simp add: longest_match_def)
    have none: "f (take m' x) = None" if "m' \<le> length x" "m' \<noteq> length sfx" for m'
    proof (cases "m' < length sfx")
      case False
      with that beyond [of m'] g [of "m' - length sfx"] assms(2) show ?thesis by simp
    qed (rule assms(3))
    have fs: "f sfx = t" using assms(6) None by simp
    show ?thesis
    proof (cases t)
      case None
      have "f (take m x) = None" if "m \<le> length x" for m
        using none [OF that] fs None assms(2) by (cases "m = length sfx") simp_all
      with None \<open>r = None\<close> show ?thesis by (simp add: longest_match_def)
    next
      case (Some n)
      have "f (take (length sfx) x) = Some n" using fs Some assms(2) by simp
      moreover have "\<forall>m'\<le>length x. length sfx < m' \<longrightarrow> f (take m' x) = None" using none by simp
      moreover have "length sfx \<le> length x" using assms(2) by simp
      ultimately show ?thesis using Some assms(7) [OF Some] \<open>r = None\<close>
        unfolding longest_match_def by auto
    qed
  next
    case (Some n)
    with assms(1) obtain m where m: "m \<le> length y" "g (take m y) = Some n" "0 < PathLen n"
      "PathLen n = b + length sfx + m" "\<And>m'. m' \<le> length y \<Longrightarrow> m < m' \<Longrightarrow> g (take m' y) = None"
      by (auto simp: longest_match_def)
    have m0: "0 < m" using m(2) assms(5) by (cases m) auto
    have "f (take (length sfx + m) x) = Some n" using m(1,2) m0 assms(2,4) by simp
    moreover have "f (take m' x) = None" if "m' \<le> length x" "length sfx + m < m'" for m'
      using beyond [of m'] m(5) [of "m' - length sfx"] that assms(2) by simp
    moreover have "length sfx + m \<le> length x" "PathLen n = b + (length sfx + m)"
      using m(1,4) assms(2) by simp_all
    ultimately show ?thesis using m(3) Some unfolding longest_match_def by auto
  qed
qed

lemma Match_hd: "radix k t \<Longrightarrow> Match t x \<noteq> None \<Longrightarrow> x \<noteq> [] \<and> hd x = hd (tsuffix t)"
  using stored_hd [of k t x] by (simp add: stored_def)

lemma matchChildren_Nil: "radix_list k cs \<Longrightarrow> matchChildren cs [] = None"
  by (induction cs) (auto simp: radix_list_Cons split: option.splits dest: Match_hd)

lemma matchChildren_none:
  "radix_list k cs \<Longrightarrow> (\<forall>c\<in>set cs. hd (tsuffix c) \<noteq> hd x) \<Longrightarrow> matchChildren cs x = None"
  using stored_list_none [of k cs x] by (simp add: stored_list_def)

lemma MatchStart_longest_match:
  fixes t :: "'p trie" and cs :: "'p trie list"
  shows "\<And>b. radix b t \<Longrightarrow> longest_match b (Match t) x (MatchStart t x)"
    and "\<And>b. radix_list b cs \<Longrightarrow> longest_match b (matchChildren cs) x (matchStartChildren cs x)"
proof (induction t x and cs x rule: MatchStart_matchStartChildren.induct)
  case (1 sfx cs lp pl pay data)
  let ?t = "TrieNode sfx cs lp pl pay"
  show ?case
  proof (cases "take (length sfx) data = sfx \<and> length sfx \<le> length data")
    case False
    have "Match ?t (take m data) = None" for m
    proof -
      have "take (length sfx) (take m data) \<noteq> sfx \<or> length (take m data) < length sfx"
        using False by (metis length_take linorder_not_le min.absorb1 min_def order_trans take_take)
      then show ?thesis by auto
    qed
    with False show ?thesis by (auto simp: longest_match_def)
  next
    case True
    define y where "y = drop (length sfx) data"
    have x: "data = sfx @ y" using True by (metis append_take_drop_id y_def)
    have rcs: "radix_list (b + length sfx) cs" and pl: "pl = 0 \<or> pl = b + length sfx"
      using "1.prems" by (simp_all add: radix_node)
    have "longest_match (b + length sfx) (matchChildren cs) y (matchStartChildren cs y)"
      unfolding y_def using "1.IH" True rcs by (simp add: not_less)
    then have "longest_match b (Match ?t) data
        (case matchStartChildren cs y of Some n \<Rightarrow> Some n | None \<Rightarrow> if pl > 0 then Some ?t else None)"
      by (rule longest_match_shift [OF _ x]) (use x pl matchChildren_Nil [OF rcs] in \<open>auto split: option.splits if_splits\<close>)
    moreover have "MatchStart ?t data =
        (case matchStartChildren cs y of Some n \<Rightarrow> Some n | None \<Rightarrow> if pl > 0 then Some ?t else None)"
      using True by (simp add: y_def)
    ultimately show ?thesis by (simp only:)
  qed
next
  case (2 data)
  then show ?case by (simp add: longest_match_def)
next
  case (3 c cs data)
  then have rc: "radix b c" "radix_list b cs" "hd (tsuffix c) \<notin> (\<lambda>c. hd (tsuffix c)) ` set cs"
    by (auto simp: radix_list_Cons)
  show ?case
  proof (cases "MatchStart c data")
    case None
    then have n: "Match c (take m data) = None" if "m \<le> length data" for m
      using 3(1) [OF rc(1)] that by (simp add: longest_match_def)
    have "longest_match b (matchChildren cs) data (matchStartChildren cs data)"
      using 3(2) [OF None rc(2)] .
    with n None show ?thesis by (auto simp: longest_match_def split: option.splits)
  next
    case (Some n)
    then obtain m where m: "m \<le> length data" "Match c (take m data) = Some n"
      using 3(1) [OF rc(1)] by (auto simp: longest_match_def)
    have "hd data = hd (tsuffix c)"
      using Match_hd [OF rc(1), of "take m data"] m by (cases m; cases data) auto
    then have "matchChildren cs (take m' data) = None" for m'
      using matchChildren_none [OF rc(2), of "take m' data"] matchChildren_Nil [OF rc(2)] rc(3)
      by (cases m'; cases data) (force simp: image_iff)+
    then have "matchChildren (c # cs) (take m' data) = Match c (take m' data)" for m'
      by (simp split: option.splits)
    with 3(1) [OF rc(1)] Some show ?thesis by (simp add: longest_match_def)
  qed
qed

subsection \<open>Tries of any shape\<close>

text \<open>
  What every trie built by \<open>NewTrie\<close> and \<open>Add\<close> has, also one whose root suffix is
  empty: no child has an empty suffix (so \<open>child.suffix[0]\<close> does not panic), path lengths are
  depths, and a node with a path length has a payload.
\<close>

fun sane :: "nat \<Rightarrow> 'p trie \<Rightarrow> bool" where
  "sane k (TrieNode sfx cs lp pl pay) =
     ((pl = 0 \<or> pl = k + length sfx) \<and> (0 < pl \<longrightarrow> pay \<noteq> None) \<and>
      (\<forall>c\<in>set cs. tsuffix c \<noteq> [] \<and> sane (k + length sfx) c))"

lemma sane_NewTrie [simp]: "sane 0 (NewTrie d (Some p))"
  by (simp add: NewTrie_def)

lemma sane_addNewChild:
  assumes "sane k (TrieNode sfx cs lp pl pay)" "d \<noteq> []" "n = k + length sfx + length d"
  shows "sane k (addNewChild d (Some p) n (TrieNode sfx cs lp pl pay))"
  using assms by (auto simp: addNewChild_def Let_def dest: in_set_takeD in_set_dropD)

lemma addPath_sane:
  fixes t :: "'p trie" and cs :: "'p trie list"
  assumes "q \<noteq> None"
  shows "\<And>k. sane k t \<Longrightarrow> n = k + length d \<Longrightarrow>
      \<exists>t'. addPath d q n t = Inr t' \<and> sane k t' \<and>
           (tsuffix t \<noteq> [] \<and> d \<noteq> [] \<and> hd d = hd (tsuffix t) \<longrightarrow> tsuffix t' \<noteq> [])"
    and "\<And>k. (\<forall>c\<in>set cs. tsuffix c \<noteq> [] \<and> sane k c) \<Longrightarrow> d \<noteq> [] \<Longrightarrow> n = k + length d \<Longrightarrow>
      (case addChild d q n cs of
         Inl e \<Rightarrow> False
       | Inr None \<Rightarrow> True
       | Inr (Some cs') \<Rightarrow> \<forall>c\<in>set cs'. tsuffix c \<noteq> [] \<and> sane k c)"
  using assms
proof (induction d q n t and d q n cs rule: addPath_addChild.induct)
  case (1 data payload pathLen sfx cs lp pl pay)
  let ?j = "split_index data sfx" and ?t = "TrieNode sfx cs lp pl pay"
  obtain p where p: "payload = Some p" using "1.prems"(3) by blast
  have jle: "?j \<le> length data" "?j \<le> length sfx" using split_index_le [of data sfx] by simp_all
  have jt: "take ?j data = take ?j sfx" by (rule split_index_take)
  have sfx0: "tsuffix (addNewChild (drop ?j data) payload pathLen m) = tsuffix m" for m :: "'p trie"
    by (simp add: addNewChild_def Let_def)
  consider (same) "?j = length sfx" "?j = length data" | (down) "?j = length sfx" "?j < length data"
    | (up) "?j < length sfx" "?j = length data" | (split) "?j < length sfx" "?j < length data"
    using jle by linarith
  then show ?case
  proof cases
    case same
    with "1.prems" p show ?thesis by auto
  next
    case down
    have d: "drop ?j data \<noteq> []" "pathLen = k + length sfx + length (drop ?j data)"
      using down "1.prems"(2) by simp_all
    have new: "sane k (addNewChild (drop ?j data) payload pathLen ?t)"
      using sane_addNewChild [OF "1.prems"(1) d(1)] d(2) p by simp
    show ?thesis
    proof (cases "length sfx > 0")
      case False
      with down new show ?thesis by simp
    next
      case True
      have "case addChild (drop ?j data) payload pathLen cs of
             Inl e \<Rightarrow> False | Inr None \<Rightarrow> True
           | Inr (Some cs') \<Rightarrow> \<forall>c\<in>set cs'. tsuffix c \<noteq> [] \<and> sane (k + length sfx) c"
        using "1.prems" d down True by (intro "1.IH") auto
      with "1.prems"(1) down True new sfx0 show ?thesis by (auto split: sum.splits option.splits)
    qed
  next
    case up
    with "1.prems" p show ?thesis by auto
  next
    case split
    have d: "drop ?j data \<noteq> []" using split by simp
    have "sane k (TrieNode (take ?j data) [TrieNode (drop ?j sfx) cs lp pl pay] lp 0 None)"
      using "1.prems"(1) split by (auto simp: min_def)
    from sane_addNewChild [OF this d, of pathLen p] split "1.prems"(2) p
    have "sane k (addNewChild (drop ?j data) payload pathLen
        (TrieNode (take ?j data) [TrieNode (drop ?j sfx) cs lp pl pay] lp 0 None))" by simp
    moreover have "sfx \<noteq> [] \<and> data \<noteq> [] \<and> hd data = hd sfx \<longrightarrow> take ?j data \<noteq> []"
      using split_index_hd [of data sfx] by auto
    ultimately show ?thesis using split by (simp add: sfx0)
  qed
next
  case (2 data payload pathLen)
  then show ?case by simp
next
  case (3 data payload pathLen child cs)
  then obtain x xs where x: "tsuffix child = x # xs" by (auto simp: neq_Nil_conv)
  show ?case
  proof (cases "x = hd data")
    case True
    have ok: "sane k child" "tsuffix child \<noteq> []" "hd data = hd (tsuffix child)"
      using 3(3) x True by auto
    from 3(1) [OF x True ok(1) 3(5) 3(6)] obtain t' where
      t': "addPath data payload pathLen child = Inr t'" "sane k t'" "tsuffix t' \<noteq> []"
      using ok 3(4) by blast
    with 3(3) x True show ?thesis by simp
  next
    case False
    have "\<forall>c\<in>set cs. tsuffix c \<noteq> [] \<and> sane k c" using 3(3) by simp
    from 3(2) [OF x False this 3(4-6)] 3(3) x False show ?thesis
      by (auto split: sum.splits option.splits)
  qed
qed

lemma Add_sane: "sane 0 t \<Longrightarrow> \<exists>t'. Add t d (Some p) = Inr t' \<and> sane 0 t'"
  using addPath_sane(1) [of "Some p" 0 t "length d" d] by (auto simp: Add_def)

lemma MatchStart_sane:
  fixes t :: "'p trie" and cs :: "'p trie list"
  shows "\<And>k n. sane k t \<Longrightarrow> MatchStart t x = Some n \<Longrightarrow>
           0 < PathLen n \<and> PathLen n \<le> k + length x \<and> Payload n \<noteq> None"
    and "\<And>k n. \<forall>c\<in>set cs. sane k c \<Longrightarrow> matchStartChildren cs x = Some n \<Longrightarrow>
           0 < PathLen n \<and> PathLen n \<le> k + length x \<and> Payload n \<noteq> None"
proof (induction t x and cs x rule: MatchStart_matchStartChildren.induct)
  case (1 sfx cs lp pl pay data)
  show ?case
  proof (cases "matchStartChildren cs (drop (length sfx) data)")
    case None
    with "1.prems" show ?thesis by (auto split: if_splits)
  next
    case (Some m)
    with "1.prems" have "m = n" "length sfx \<le> length data" "take (length sfx) data = sfx"
      by (auto split: if_splits)
    with "1.IH" [of "k + length sfx" n] "1.prems" Some show ?thesis by auto
  qed
next
  case (2 data)
  then show ?case by simp
next
  case (3 c cs data)
  then show ?case by (auto split: option.splits)
qed

text \<open>The payloads of a trie: adding a path adds at most its own, and a match returns one of them.\<close>

lemma addPath_payloads:
  fixes t :: "'p trie" and cs :: "'p trie list"
  shows "addPath d (Some p) n t = Inr t' \<Longrightarrow> set_trie t' \<subseteq> insert p (set_trie t)"
    and "addChild d (Some p) n cs = Inr (Some cs') \<Longrightarrow>
           (\<Union>c\<in>set cs'. set_trie c) \<subseteq> insert p (\<Union>c\<in>set cs. set_trie c)"
proof (induction d "Some p" n t and d "Some p" n cs arbitrary: t' and cs' rule: addPath_addChild.induct)
  case (1 data pathLen sfx cs lp pl pay)
  have new: "set_trie (addNewChild d (Some p) m u) \<subseteq> insert p (set_trie u)" for d m and u :: "'p trie"
    by (cases u) (auto simp: addNewChild_def Let_def dest: in_set_takeD in_set_dropD)
  show ?case
  proof (cases "split_index data sfx = length sfx \<and> split_index data sfx \<noteq> length data \<and> length sfx > 0")
    case True
    show ?thesis
    proof (cases "addChild (drop (split_index data sfx) data) (Some p) pathLen cs")
      case (Inl e)
      with "1.prems" True show ?thesis by simp
    next
      case (Inr r)
      show ?thesis
      proof (cases r)
        case None
        with "1.prems" True Inr new [of _ _ "TrieNode sfx cs lp pl pay"] show ?thesis by auto
      next
        case (Some cs')
        with "1.hyps" [of cs'] True Inr have "(\<Union>c\<in>set cs'. set_trie c) \<subseteq> insert p (\<Union>c\<in>set cs. set_trie c)"
          by simp
        moreover have "t' = TrieNode sfx cs' lp pl pay" using "1.prems" True Inr Some by simp
        ultimately show ?thesis by (simp only: trie.set Union_Un_distrib) blast
      qed
    qed
  next
    case False
    have n1: "set_trie (addNewChild (drop (split_index data sfx) data) (Some p) pathLen (TrieNode sfx cs lp pl pay))
        \<subseteq> insert p (set_trie (TrieNode sfx cs lp pl pay))" by (rule new)
    have n2: "set_trie (addNewChild (drop (split_index data sfx) data) (Some p) pathLen
         (TrieNode (take (split_index data sfx) data) [TrieNode (drop (split_index data sfx) sfx) cs lp pl pay] lp 0 None))
        \<subseteq> insert p (set_trie (TrieNode sfx cs lp pl pay))"
      by (rule subset_trans [OF new]) auto
    from "1.prems" False n1 n2 show ?thesis by (auto split: if_splits)
  qed
next
  case (2 data pathLen)
  then show ?case by simp
next
  case (3 data pathLen child cs)
  then obtain x xs where x: "tsuffix child = x # xs" by (auto split: list.splits)
  show ?case
  proof (cases "x = hd data")
    case True
    with 3(3) x obtain c where c: "addPath data (Some p) pathLen child = Inr c" "cs' = c # cs"
      by (auto split: sum.splits)
    from 3(1) [OF x True c(1)] c(2) show ?thesis by auto
  next
    case False
    with 3(3) x obtain ds where d: "addChild data (Some p) pathLen cs = Inr (Some ds)" "cs' = child # ds"
      by (auto split: sum.splits option.splits)
    from 3(2) [OF x False d(1)] d(2) show ?thesis by auto
  qed
qed

lemma Add_payloads: "Add t d (Some p) = Inr t' \<Longrightarrow> set_trie t' \<subseteq> insert p (set_trie t)"
  unfolding Add_def by (rule addPath_payloads)

lemma set_trie_NewTrie [simp]: "set_trie (NewTrie d (Some p)) = {p}"
  by (simp add: NewTrie_def)

lemma MatchStart_payloads:
  fixes t :: "'p trie" and cs :: "'p trie list"
  shows "MatchStart t x = Some n \<Longrightarrow> Payload n = Some q \<Longrightarrow> q \<in> set_trie t"
    and "matchStartChildren cs x = Some n \<Longrightarrow> Payload n = Some q \<Longrightarrow> q \<in> (\<Union>c\<in>set cs. set_trie c)"
  by (induction t x and cs x rule: MatchStart_matchStartChildren.induct)
     (auto split: option.splits if_splits)


subsection \<open>The root with an empty suffix\<close>

text \<open>
  A key whose first byte is not the one of the root's suffix leaves a root without a suffix. There
  \<open>addPath\<close> does not look for a child with the first byte of the key (\<open>suffixLen > 0\<close>)
  but always adds a leaf. \<open>rooted\<close> is what every trie built by \<open>NewTrie\<close> and
  \<open>Add\<close> has; \<open>flat\<close> is the root without a suffix with nothing but leaves, the longest
  first: what becomes of a single key when a key with another first byte is added.
\<close>

fun rooted :: "'p trie \<Rightarrow> bool" where
  "rooted (TrieNode sfx cs lp pl pay) \<longleftrightarrow>
     radix 0 (TrieNode sfx cs lp pl pay) \<or> (sfx = [] \<and> pl = 0 \<and> (\<forall>c\<in>set cs. radix 0 c))"

fun leaf :: "'p trie \<Rightarrow> bool" where
  "leaf (TrieNode sfx cs lp pl pay) \<longleftrightarrow> sfx \<noteq> [] \<and> cs = [] \<and> pl = length sfx \<and> lp = length sfx"

fun flat :: "'p trie \<Rightarrow> bool" where
  "flat (TrieNode sfx cs lp pl pay) \<longleftrightarrow>
     sfx = [] \<and> pl = 0 \<and> (\<forall>c\<in>set cs. leaf c) \<and> sorted_wrt (\<lambda>a b. PathLen b \<le> PathLen a) cs"

lemma leaf_radix: "leaf t \<Longrightarrow> radix 0 t"
  by (cases t) (simp add: radix_node)

lemma flat_rooted: "flat t \<Longrightarrow> rooted t"
  by (cases t) (auto intro: leaf_radix)

lemma radix_rooted: "radix 0 t \<Longrightarrow> rooted t"
  by (cases t) simp

lemma stored_list_append:
  "stored_list (xs @ ys) x = (case stored_list xs x of Some r \<Rightarrow> Some r | None \<Rightarrow> stored_list ys x)"
  by (induction xs) (simp_all add: stored_list_Cons split: option.splits)

text \<open>
  The key keeps the entry it has: the empty key has none, a branching node gets no path length, and
  below a root without a suffix the new leaf can stand behind a child that already stores the key.
\<close>

definition kept :: "'p trie \<Rightarrow> bytes \<Rightarrow> bool" where
  "kept t d \<longleftrightarrow> d = [] \<or>
     (if tsuffix t \<noteq> [] then hole t d
      else stored_list (take (child_position (children t) (length d) (length (children t))) (children t)) d \<noteq> None)"

lemma hole_stored:
  fixes t :: "'p trie" and cs :: "'p trie list"
  shows "\<And>k. radix k t \<Longrightarrow> hole t x \<Longrightarrow> stored t x = None"
    and "\<And>k. radix_list k cs \<Longrightarrow> hole_list cs x \<Longrightarrow> stored_list cs x = None"
proof (induction t x and cs x rule: hole_hole_list.induct)
  case (1 sfx cs lp pl pay x)
  then show ?case by (cases "length x = length sfx") (auto simp: hole.simps stored_node radix_node)
next
  case (2 x)
  then show ?case by simp
next
  case (3 c cs x)
  then have r: "radix k c" "radix_list k cs" "hd (tsuffix c) \<notin> heads cs" by (auto simp: radix_list_Cons)
  show ?case
  proof (cases "hole c x")
    case True
    then have "\<forall>d\<in>set cs. hd (tsuffix d) \<noteq> hd x" using hole_hd [OF r(1)] r(3) by (auto simp: image_iff)
    with 3(1) [OF r(1) True] stored_list_none [OF r(2)] show ?thesis by (simp add: stored_list_Cons)
  next
    case False
    with 3(4) have h: "hole_list cs x" by simp
    then obtain b where "b \<in> set cs" "hd (tsuffix b) = hd x" using hole_list_hd [OF r(2)] by blast
    then have "hd x \<noteq> hd (tsuffix c)" using r(3) by (metis image_eqI)
    then have "stored c x = None" using stored_hd [OF r(1), of x] by blast
    with 3(2) [OF r(2) h] show ?thesis by (simp add: stored_list_Cons)
  qed
qed

lemma added_kept: "radix 0 t \<Longrightarrow> added n d p (hole t d) (stored t) g \<Longrightarrow>
    g x = (if x = d \<and> \<not> hole t d then Some (n, p) else stored t x)"
  using hole_stored(1) [of 0 t d] by (auto simp: added_def)

lemma addNewChild_rooted:
  assumes "rooted (TrieNode [] cs lp pl pay)" "d \<noteq> []"
  shows "rooted (addNewChild d p (length d) (TrieNode [] cs lp pl pay))"
    and "stored (addNewChild d p (length d) (TrieNode [] cs lp pl pay)) x =
           (if x = d \<and> stored_list (take (child_position cs (length d) (length cs)) cs) d = None
            then Some (length d, p) else stored (TrieNode [] cs lp pl pay) x)"
proof -
  let ?i = "child_position cs (length d) (length cs)"
  have cs: "pl = 0" "\<forall>c\<in>set cs. radix 0 c" using assms(1) by (simp_all add: radix_node)
  have "radix 0 (TrieNode d [] (length d) (length d) p)" using assms(2) by (simp add: radix_node)
  with cs show "rooted (addNewChild d p (length d) (TrieNode [] cs lp pl pay))"
    by (auto simp: addNewChild_def Let_def dest: in_set_takeD in_set_dropD)
  have split: "stored_list cs x = (case stored_list (take ?i cs) x of Some r \<Rightarrow> Some r | None \<Rightarrow> stored_list (drop ?i cs) x)"
    by (metis append_take_drop_id stored_list_append)
  show "stored (addNewChild d p (length d) (TrieNode [] cs lp pl pay)) x =
           (if x = d \<and> stored_list (take ?i cs) d = None then Some (length d, p) else stored (TrieNode [] cs lp pl pay) x)"
    using assms(2) cs(1)
    by (auto simp: addNewChild_def Let_def stored_node stored_list_append stored_list_Cons stored_leaf split
             split: option.splits)
qed

text \<open>Splitting before the first byte.\<close>

lemma raise_root:
  assumes "radix 0 (TrieNode sfx cs lp pl pay)"
  shows "rooted (TrieNode [] [TrieNode sfx cs lp pl pay] lp 0 q)"
    and "stored (TrieNode [] [TrieNode sfx cs lp pl pay] lp 0 q) x = stored (TrieNode sfx cs lp pl pay) x"
  using assms stored_hd [OF assms, of x] by (auto simp: stored_node [of "[]"] stored_list_Cons split: option.splits)

lemma raise_then_add:
  fixes p :: "'p option"
  assumes r: "radix 0 (TrieNode sfx cs lp pl pay)" and d: "d \<noteq> []" "hd d \<noteq> hd sfx"
  defines "t' \<equiv> addNewChild d p (length d) (TrieNode [] [TrieNode sfx cs lp pl pay] lp 0 None)"
  shows "rooted t'"
    and "stored t' x = (if x = d then Some (length d, p) else stored (TrieNode sfx cs lp pl pay) x)"
proof -
  let ?m = "[TrieNode sfx cs lp pl pay]"
  show "rooted t'" unfolding t'_def by (rule addNewChild_rooted(1) [OF raise_root(1) [OF r] d(1)])
  have "stored_list (take i ?m) d = None" for i
    using stored_hd [OF r, of d] d by (cases i) (auto simp: stored_list_Cons split: option.splits)
  then show "stored t' x = (if x = d then Some (length d, p) else stored (TrieNode sfx cs lp pl pay) x)"
    unfolding t'_def by (simp add: addNewChild_rooted(2) [OF raise_root(1) [OF r] d(1)] raise_root(2) [OF r])
qed

lemma Add_rooted:
  assumes "rooted t"
  shows "\<exists>t'. Add t d p = Inr t' \<and> rooted t' \<and>
    (\<forall>x. stored t' x = (if x = d \<and> \<not> kept t d then Some (length d, p) else stored t x))"
proof (cases t)
  case t: (TrieNode sfx cs lp pl pay)
  show ?thesis
  proof (cases "sfx = []")
    case True
    then have pl: "pl = 0" using assms t by (simp add: radix_node)
    show ?thesis
    proof (cases "d = []")
      case d: True
      have "Add t d p = Inr (TrieNode sfx cs lp pl p)" using True d by (simp add: Add_def t)
      moreover have "rooted (TrieNode sfx cs lp pl p)" using assms True by (simp add: t radix_node)
      ultimately show ?thesis using True d pl by (simp add: t stored_node kept_def)
    next
      case d: False
      have "Add t d p = Inr (addNewChild d p (length d) t)" using True d by (simp add: Add_def t)
      with addNewChild_rooted [OF assms [unfolded t True] d, of p] True d show ?thesis by (auto simp: t kept_def)
    qed
  next
    case False
    then have r: "radix 0 (TrieNode sfx cs lp pl pay)" using assms t by simp
    consider (empty) "d = []" | (same) "d \<noteq> []" "hd d = hd sfx" | (other) "d \<noteq> []" "hd d \<noteq> hd sfx" by blast
    then show ?thesis
    proof cases
      case empty
      have "Add t d p = Inr (TrieNode [] [TrieNode sfx cs lp pl pay] lp 0 p)"
        using False empty by (simp add: Add_def t)
      with raise_root [OF r] empty show ?thesis by (simp add: t kept_def)
    next
      case same
      from addPath_spec(1) [OF r same(1) _ refl, of p] same(2) obtain t' where
        t': "Add t d p = Inr t'" "radix 0 t'" "added (length d) d p (hole t d) (stored t) (stored t')"
        by (auto simp: node_added_def Add_def t)
      with added_kept [OF _ t'(3)] r False same(1) radix_rooted show ?thesis by (simp add: t kept_def)
    next
      case other
      have "split_index d sfx = 0" using other False by (cases d; cases sfx) auto
      then have "Add t d p = Inr (addNewChild d p (length d) (TrieNode [] [TrieNode sfx cs lp pl pay] lp 0 None))"
        using False other by (simp add: Add_def t)
      moreover have "\<not> hole t d" using hole_hd [OF r, of d] other by (auto simp: t)
      ultimately show ?thesis using raise_then_add [OF r other, of p] False other by (simp add: t kept_def)
    qed
  qed
qed

lemma Add_radix:
  assumes "radix 0 t" "d \<noteq> []" "hd d = hd (tsuffix t)" "Add t d p = Inr t'"
  shows "radix 0 t' \<and> hd (tsuffix t') = hd d"
  using addPath_spec(1) [OF assms(1-3) refl, of p] assms(4) by (auto simp: Add_def node_added_def)


text \<open>A flat trie stays flat, and never shadows a new entry.\<close>

lemma sorted_child_position:
  assumes "\<forall>c\<in>set cs. leaf c" "sorted_wrt (\<lambda>a b. PathLen b \<le> PathLen a) cs" "i \<le> length cs"
    and "\<forall>c\<in>set (drop i cs). PathLen c \<le> n"
  shows "(\<forall>c\<in>set (take (child_position cs n i) cs). n < PathLen c) \<and>
         (\<forall>c\<in>set (drop (child_position cs n i) cs). PathLen c \<le> n)"
  using assms
proof (induction cs n i rule: child_position.induct)
  case (2 cs n i)
  have l: "longestPath (cs ! i) = PathLen (cs ! i)" using 2(2,4) by (cases "cs ! i") (metis Suc_le_eq leaf.simps nth_mem trie.sel)
  show ?case
  proof (cases "PathLen (cs ! i) > n")
    case True
    have "\<forall>c\<in>set (take (Suc i) cs). PathLen (cs ! i) \<le> PathLen c"
      using 2(3,4) by (auto simp: in_set_conv_nth sorted_wrt_iff_nth_less less_Suc_eq)
    with True l 2(5) show ?thesis by force
  next
    case False
    have "\<forall>c\<in>set (drop i cs). PathLen c \<le> n"
      using False 2(4,5) by (simp add: Cons_nth_drop_Suc [symmetric])
    with False l 2 show ?thesis by simp
  qed
qed simp

lemma leaf_stored: "leaf t \<Longrightarrow> stored t x = (if x = tsuffix t then Some (PathLen t, Payload t) else None)"
  by (cases t) (auto simp: stored_leaf)

lemma leaf_PathLen: "leaf t \<Longrightarrow> PathLen t = length (tsuffix t) \<and> tsuffix t \<noteq> []"
  by (cases t) simp

lemma stored_leaves_none: "\<forall>c\<in>set cs. leaf c \<and> n < PathLen c \<Longrightarrow> length d \<le> n \<Longrightarrow> stored_list cs d = None"
  by (induction cs) (auto simp: stored_list_Cons leaf_stored dest: leaf_PathLen)

lemma flat_Add:
  assumes "flat t" "d \<noteq> []" "Add t d p = Inr t'"
  shows "flat t' \<and> \<not> kept t d"
proof (cases t)
  case t: (TrieNode sfx cs lp pl pay)
  let ?i = "child_position cs (length d) (length cs)"
  have cs: "sfx = []" "pl = 0" "\<forall>c\<in>set cs. leaf c" "sorted_wrt (\<lambda>a b. PathLen b \<le> PathLen a) cs"
    using assms(1) by (simp_all add: t)
  have t': "t' = addNewChild d p (length d) t" using assms(2,3) cs(1) by (simp add: Add_def t)
  have pos: "\<forall>c\<in>set (take ?i cs). length d < PathLen c" "\<forall>c\<in>set (drop ?i cs). PathLen c \<le> length d"
    using sorted_child_position [OF cs(3,4) order_refl, of "length d"] by simp_all
  have sw: "sorted_wrt (\<lambda>a b. PathLen b \<le> PathLen a) (take ?i cs @ drop ?i cs)" using cs(4) by simp
  have "flat t'" using cs(3) pos sw assms(2)
    by (fastforce simp: t' t addNewChild_def Let_def cs(1,2) sorted_wrt_append dest: in_set_takeD in_set_dropD)
  moreover have "stored_list (take ?i cs) d = None"
    using cs(3) pos(1) by (intro stored_leaves_none [of _ "length d"]) (auto dest: in_set_takeD)
  ultimately show ?thesis using assms(2) cs(1) by (simp add: kept_def t)
qed

lemma leaf_Add_flat:
  assumes "leaf t" "d \<noteq> []" "hd d \<noteq> hd (tsuffix t)" "Add t d p = Inr t'"
  shows "flat t'"
proof (cases t)
  case t: (TrieNode sfx cs lp pl pay)
  have "split_index d sfx = 0" using assms by (cases d; cases sfx) (auto simp: t)
  then have t': "t' = addNewChild d p (length d) (TrieNode [] [t] lp 0 None)" using assms by (simp add: Add_def t)
  have i: "child_position [t] (length d) (length [t]) \<le> 1" using child_position_le [of "[t]" "length d" "length [t]"] by simp
  have p: "(\<forall>c\<in>set (take (child_position [t] (length d) (length [t])) [t]). length d < PathLen c) \<and>
         (\<forall>c\<in>set (drop (child_position [t] (length d) (length [t])) [t]). PathLen c \<le> length d)"
    using assms(1) by (intro sorted_child_position) simp_all
  from i consider "child_position [t] (length d) (length [t]) = 0" | "child_position [t] (length d) (length [t]) = 1" by linarith
  then show ?thesis using assms(1,2) p by cases (simp_all add: t' addNewChild_def Let_def)
qed

subsection \<open>MatchStart below a root without a suffix\<close>

text \<open>What holds of every result: it is the node of a stored prefix, and its path length is the length
  of the prefix.\<close>

definition prefix_match :: "(bytes \<Rightarrow> 'p trie option) \<Rightarrow> bytes \<Rightarrow> 'p trie option \<Rightarrow> bool" where
  "prefix_match f x r \<longleftrightarrow>
     (case r of
        None \<Rightarrow> \<forall>m\<le>length x. f (take m x) = None
      | Some n \<Rightarrow> 0 < PathLen n \<and> PathLen n \<le> length x \<and> f (take (PathLen n) x) = Some n)"

lemma longest_prefix_match: "longest_match 0 f x r \<Longrightarrow> prefix_match f x r"
  by (auto simp: longest_match_def prefix_match_def split: option.splits)

lemma matchChildren_prefix:
  "\<forall>c\<in>set cs. radix 0 c \<Longrightarrow> prefix_match (matchChildren cs) x (matchStartChildren cs x)"
proof (induction cs)
  case Nil
  then show ?case by (simp add: prefix_match_def)
next
  case (Cons c cs)
  have c: "prefix_match (Match c) x (MatchStart c x)"
    using Cons.prems by (intro longest_prefix_match MatchStart_longest_match(1)) simp
  have cs: "prefix_match (matchChildren cs) x (matchStartChildren cs x)" using Cons by simp
  show ?case
  proof (cases "MatchStart c x")
    case None
    with c cs show ?thesis by (auto simp: prefix_match_def split: option.splits)
  next
    case (Some n)
    with c show ?thesis by (simp add: prefix_match_def)
  qed
qed

lemma longest_match_cong:
  "(\<And>m. m \<le> length x \<Longrightarrow> f (take m x) = g (take m x)) \<Longrightarrow> longest_match b f x r = longest_match b g x r"
  by (cases r) (auto simp: longest_match_def)

lemma leaf_Match:
  assumes "leaf c"
  shows "Match c y = (if y = tsuffix c then Some c else None)"
    and "MatchStart c x = (if take (PathLen c) x = tsuffix c then Some c else None)"
  using assms by (cases c; auto)+

lemma matchChildren_longest:
  "\<forall>c\<in>set cs. leaf c \<Longrightarrow> sorted_wrt (\<lambda>a b. PathLen b \<le> PathLen a) cs \<Longrightarrow>
   longest_match 0 (matchChildren cs) x (matchStartChildren cs x)"
proof (induction cs)
  case Nil
  then show ?case by (simp add: longest_match_def)
next
  case (Cons c cs)
  have IH: "longest_match 0 (matchChildren cs) x (matchStartChildren cs x)" using Cons by simp
  have c: "leaf c" "PathLen c = length (tsuffix c)" "tsuffix c \<noteq> []" using Cons.prems leaf_PathLen by auto
  show ?case
  proof (cases "take (PathLen c) x = tsuffix c")
    case True
    then have le: "PathLen c \<le> length x" using c(2) by (metis length_take min.cobounded1 min.commute)
    have short: "matchChildren ds y = None" if "\<forall>d\<in>set ds. leaf d \<and> PathLen d < length y" for ds y
      using that by (induction ds) (auto simp: leaf_Match dest: leaf_PathLen)
    have "matchChildren (c # cs) (take m x) = None" if "m \<le> length x" "PathLen c < m" for m
      using Cons.prems that by (intro short) auto
    with True c le show ?thesis by (auto simp: longest_match_def leaf_Match)
  next
    case False
    have "take m x \<noteq> tsuffix c" if "m \<le> length x" for m
    proof
      assume eq: "take m x = tsuffix c"
      then have "length (tsuffix c) = m" using that by (metis length_take min.absorb2)
      with eq c(2) False show False by simp
    qed
    then have "Match c (take m x) = None" if "m \<le> length x" for m
      using c(1) that by (simp add: leaf_Match)
    then have "matchChildren (c # cs) (take m x) = matchChildren cs (take m x)" if "m \<le> length x" for m
      using that by simp
    moreover have "matchStartChildren (c # cs) x = matchStartChildren cs x" using False c(1) by (simp add: leaf_Match)
    ultimately show ?thesis using IH longest_match_cong [of x "matchChildren (c # cs)" "matchChildren cs"] by metis
  qed
qed

lemma root_Match:
  assumes "\<forall>c\<in>set cs. radix 0 c"
  shows "MatchStart (TrieNode [] cs lp 0 pay) x = matchStartChildren cs x"
    and "Match (TrieNode [] cs lp 0 pay) x = matchChildren cs x"
proof -
  have "matchChildren cs [] = None" using assms by (induction cs) (auto split: option.splits dest: Match_hd)
  then show "Match (TrieNode [] cs lp 0 pay) x = matchChildren cs x" by simp
qed (simp split: option.splits)

lemma MatchStart_rooted:
  assumes "rooted t"
  shows "prefix_match (Match t) x (MatchStart t x)"
    and "radix 0 t \<or> flat t \<Longrightarrow> longest_match 0 (Match t) x (MatchStart t x)"
proof -
  obtain sfx cs lp pl pay where t: "t = TrieNode sfx cs lp pl pay" by (cases t)
  show "prefix_match (Match t) x (MatchStart t x)"
  proof (cases "radix 0 t")
    case True
    then show ?thesis by (intro longest_prefix_match MatchStart_longest_match(1))
  next
    case False
    with assms t have "sfx = []" "pl = 0" "\<forall>c\<in>set cs. radix 0 c" by auto
    with matchChildren_prefix root_Match show ?thesis by (metis ext t)
  qed
  assume "radix 0 t \<or> flat t"
  then show "longest_match 0 (Match t) x (MatchStart t x)"
  proof
    assume "flat t"
    then have cs: "sfx = []" "pl = 0" "\<forall>c\<in>set cs. leaf c" "sorted_wrt (\<lambda>a b. PathLen b \<le> PathLen a) cs"
      by (simp_all add: t)
    have "\<forall>c\<in>set cs. radix 0 c" using cs(3) leaf_radix by blast
    with matchChildren_longest [OF cs(3,4)] show ?thesis using root_Match cs(1,2) by (metis ext t)
  qed (rule MatchStart_longest_match(1))
qed

lemma NewTrie_rooted: "rooted (NewTrie d p)" "d \<noteq> [] \<Longrightarrow> leaf (NewTrie d p)" "flat (NewTrie [] p)"
  by (auto simp: NewTrie_def radix_node)

text \<open>
  Longest match is lost when keys with one first byte are added before and after a key with another
  one: the later leaf is placed by the length the earlier child had when it was made. Here
  \<open>Match\<close> finds the key \<open>abcdef\<close>, and \<open>MatchStart\<close> returns \<open>abc\<close>.
\<close>

lemma trie_MatchStart_not_longest:
  "\<exists>t. fold (\<lambda>d r. run_bind r (\<lambda>t. Add t d (Some d))) [''ab'', ''abcdef'', ''x'', ''abc''] (Inr (NewTrie ''a'' (Some ''a''))) = Inr t \<and>
       map_option PathLen (Match t ''abcdef'') = Some 6 \<and> map_option PathLen (MatchStart t ''abcdef'') = Some 3"
  by (simp add: NewTrie_def Add_def addNewChild_def)

subsection \<open>Properties\<close>

text \<open>C7: adding a key to a trie made by \<open>NewTrie\<close> and \<open>Add\<close> never panics, leaves every
  other key as it was and stores the key with its length and the payload, unless it is \<open>kept\<close>:
  the empty key, a key that ends at a branching node without a path length, or, below a root without
  a suffix, a key an earlier child already stores; such a key keeps the entry it had. As long as all
  keys share their first byte the trie stays a radix trie, and once a single key has been joined by
  one with another first byte it stays flat and every key is stored.\<close>

theorem trie_Add_spec:
  assumes "rooted t"
  shows "\<exists>t'. Add t d p = Inr t' \<and> rooted t' \<and>
    (\<forall>x. stored t' x = (if x = d \<and> \<not> kept t d then Some (length d, p) else stored t x)) \<and>
    (radix 0 t \<and> d \<noteq> [] \<and> hd d = hd (tsuffix t) \<longrightarrow> radix 0 t' \<and> hd (tsuffix t') = hd d) \<and>
    (d \<noteq> [] \<and> (flat t \<or> leaf t \<and> hd d \<noteq> hd (tsuffix t)) \<longrightarrow> flat t' \<and> \<not> kept t d)"
proof -
  obtain t' where t': "Add t d p = Inr t'" "rooted t'"
    "\<forall>x. stored t' x = (if x = d \<and> \<not> kept t d then Some (length d, p) else stored t x)"
    using Add_rooted [OF assms, of d p] by blast
  have "leaf t \<Longrightarrow> d \<noteq> [] \<Longrightarrow> hd d \<noteq> hd (tsuffix t) \<Longrightarrow> \<not> kept t d"
    using leaf_PathLen [of t] hole_hd [of 0 t d] leaf_radix [of t] by (auto simp: kept_def)
  with t' show ?thesis
    using Add_radix [OF _ _ _ t'(1)] flat_Add [OF _ _ t'(1)] leaf_Add_flat [OF _ _ _ t'(1)] by blast
qed

theorem trie_Add_spec_witness:
  "\<exists>t'. Add (NewTrie ''ab'' (Some (1::nat))) ''ac'' (Some 2) = Inr t' \<and>
    stored t' ''ac'' = Some (2, Some 2) \<and> stored t' ''ab'' = Some (2, Some 1)"
proof -
  let ?t = "NewTrie ''ab'' (Some (1::nat))"
  have t: "rooted ?t" by (rule NewTrie_rooted)
  have k: "\<not> kept ?t ''ac''" "stored ?t ''ab'' = Some (2, Some 1)"
    by (simp_all add: NewTrie_def kept_def stored_def hole.simps)
  from trie_Add_spec [OF t, of "''ac''" "Some 2"] k show ?thesis by auto
qed



end
