(* ===== verification/GoStrings.thy ===== *)
theory GoStrings
  imports Prelude
begin

text \<open>
  The functions of Go's \<open>strings\<close>, \<open>bytes\<close> and \<open>strconv\<close> packages that
  the repository calls, on byte strings: search, split, join, replace, trim, case folding,
  decimal and hexadecimal numbers. Case folding, white space and the empty separator follow the
  ASCII rules (Go's own extend them to Unicode code points).
\<close>

subsection \<open>Search\<close>

text \<open>\<open>strings.Index\<close>; \<open>None\<close> is Go's \<open>-1\<close>.\<close>

fun str_index :: "bytes \<Rightarrow> bytes \<Rightarrow> nat option" where
  "str_index [] sep = (if sep = [] then Some 0 else None)"
| "str_index (c # s) sep =
     (if take (length sep) (c # s) = sep then Some 0 else map_option Suc (str_index s sep))"

lemma str_index_Some:
  "str_index s sep = Some i \<Longrightarrow> i + length sep \<le> length s \<and> take (length sep) (drop i s) = sep"
proof (induction s sep arbitrary: i rule: str_index.induct)
  case (1 sep)
  then show ?case by (auto split: if_splits)
next
  case (2 c s sep)
  show ?case
  proof (cases "take (length sep) (c # s) = sep")
    case True
    with 2 show ?thesis
      by (metis add_0 drop0 length_take min.cobounded1 option.sel str_index.simps(2))
  next
    case False
    with 2 show ?thesis by auto
  qed
qed

lemma str_index_decomp:
  assumes "str_index s sep = Some i"
  shows "s = take i s @ sep @ drop (i + length sep) s"
proof -
  have "take (length sep) (drop i s) = sep" using str_index_Some [OF assms] by simp
  then have "drop i s = sep @ drop (length sep) (drop i s)" by (rule take_eq_append_drop)
  then show ?thesis by (metis append_take_drop_id drop_add)
qed

lemma str_index_append:
  "str_index s sep = Some i \<Longrightarrow> str_index (s @ t) sep = Some i"
proof (induction s sep arbitrary: i rule: str_index.induct)
  case (1 sep)
  then show ?case by (cases t) (auto split: if_splits)
next
  case (2 c s sep)
  show ?case
  proof (cases "take (length sep) (c # s) = sep")
    case True
    then have "take (length sep) ((c # s) @ t) = sep"
      by (metis append_take_drop_id append_eq_conv_conj append.assoc)
    with 2 True show ?thesis by auto
  next
    case False
    with 2 obtain j where j: "str_index s sep = Some j" "i = Suc j" by auto
    from str_index_Some [OF j(1)] have "length sep \<le> length s" by simp
    then have "take (length sep) ((c # s) @ t) = take (length sep) (c # s)"
      by (cases sep) auto
    with 2 False j show ?thesis by simp
  qed
qed

lemma str_index_single: "str_index s [c] = find_index (\<lambda>x. x = c) s"
  by (induction s) auto

lemma str_index_skip:
  assumes "sep = c # cs" "c \<notin> set xs"
  shows "str_index (xs @ sep @ ys) sep = Some (length xs)"
  using assms(2)
proof (induction xs)
  case Nil
  then show ?case using assms(1) by simp
next
  case (Cons x xs)
  then have "take (length sep) (x # xs @ sep @ ys) \<noteq> sep"
    using assms(1) by auto
  with Cons show ?case by simp
qed

definition str_contains :: "bytes \<Rightarrow> bytes \<Rightarrow> bool" where
  "str_contains s sub \<longleftrightarrow> str_index s sub \<noteq> None"

text \<open>\<open>strings.LastIndex\<close>.\<close>

fun str_last_index :: "bytes \<Rightarrow> bytes \<Rightarrow> nat option" where
  "str_last_index [] sep = (if sep = [] then Some 0 else None)"
| "str_last_index (c # s) sep =
     (case str_last_index s sep of
        Some i \<Rightarrow> Some (Suc i)
      | None \<Rightarrow> if take (length sep) (c # s) = sep then Some 0 else None)"

lemma str_last_index_Some:
  "str_last_index s sep = Some i \<Longrightarrow> i + length sep \<le> length s \<and> take (length sep) (drop i s) = sep"
proof (induction s sep arbitrary: i rule: str_last_index.induct)
  case (1 sep)
  then show ?case by (auto split: if_splits)
next
  case (2 c s sep)
  show ?case
  proof (cases "str_last_index s sep")
    case None
    with 2 have "i = 0" "take (length sep) (c # s) = sep" by (auto split: if_splits)
    then show ?thesis by (metis add_0 drop0 length_take min.cobounded1)
  next
    case (Some j)
    with 2 show ?thesis by auto
  qed
qed

definition str_has_prefix :: "bytes \<Rightarrow> bytes \<Rightarrow> bool" where
  "str_has_prefix s p \<longleftrightarrow> take (length p) s = p"

subsection \<open>Split, join, replace\<close>

function str_split :: "bytes \<Rightarrow> bytes \<Rightarrow> bytes list" where
  "str_split s sep =
     (if sep = [] then map (\<lambda>c. [c]) s
      else case str_index s sep of
             None \<Rightarrow> [s]
           | Some i \<Rightarrow> take i s # str_split (drop (i + length sep) s) sep)"
  by pat_completeness auto
termination
proof (relation "measure (\<lambda>(s, sep). length s)")
  fix s sep :: bytes and i
  assume a: "sep \<noteq> []" "str_index s sep = Some i"
  from str_index_Some [OF a(2)] a(1) show "((drop (i + length sep) s, sep), (s, sep)) \<in> measure (\<lambda>(s, sep). length s)"
    by (cases sep; cases s) auto
qed simp

declare str_split.simps [simp del]

fun str_join :: "bytes list \<Rightarrow> bytes \<Rightarrow> bytes" where
  "str_join [] sep = []"
| "str_join [x] sep = x"
| "str_join (x # y # xs) sep = x @ sep @ str_join (y # xs) sep"

lemma str_split_nonempty: "sep \<noteq> [] \<Longrightarrow> str_split s sep \<noteq> []"
  by (subst str_split.simps) (simp split: option.splits)

lemma str_join_Cons: "xs \<noteq> [] \<Longrightarrow> str_join (x # xs) sep = x @ sep @ str_join xs sep"
  by (cases xs) auto

theorem str_join_split: "sep \<noteq> [] \<Longrightarrow> str_join (str_split s sep) sep = s"
proof (induction s sep rule: str_split.induct)
  case (1 s sep)
  show ?case
  proof (cases "str_index s sep")
    case None
    then show ?thesis using 1 by (subst str_split.simps) simp
  next
    case (Some i)
    then have "str_join (str_split s sep) sep
             = take i s @ sep @ str_join (str_split (drop (i + length sep) s) sep) sep"
      using 1 by (subst str_split.simps) (simp add: str_join_Cons str_split_nonempty)
    also have "\<dots> = s" using 1 Some str_index_decomp [OF Some] by simp
    finally show ?thesis .
  qed
qed

text \<open>Splitting what was joined gives the parts back when no part can hold the separator.\<close>

lemma str_index_none_single: "c \<notin> set xs \<Longrightarrow> str_index xs (c # cs) = None"
  by (induction xs) auto

lemma str_split_join:
  assumes "xs \<noteq> []" "\<forall>x\<in>set xs. c \<notin> set x"
  shows "str_split (str_join xs (c # cs)) (c # cs) = xs"
  using assms
proof (induction xs rule: list_nonempty_induct)
  case (single x)
  then show ?case by (subst str_split.simps) (simp add: str_index_none_single)
next
  case (cons x xs)
  then have "str_index (x @ (c # cs) @ str_join xs (c # cs)) (c # cs) = Some (length x)"
    by (intro str_index_skip) auto
  then show ?case using cons by (subst str_split.simps) (simp add: str_join_Cons)
qed

text \<open>\<open>strings.SplitN(s, sep, 2)\<close> for a non-empty separator.\<close>

definition str_split2 :: "bytes \<Rightarrow> bytes \<Rightarrow> bytes list" where
  "str_split2 s sep =
     (case str_index s sep of
        None \<Rightarrow> [s]
      | Some i \<Rightarrow> [take i s, drop (i + length sep) s])"

text \<open>\<open>strings.Replace(s, old, new, -1)\<close>.\<close>

definition str_replace :: "bytes \<Rightarrow> bytes \<Rightarrow> bytes \<Rightarrow> bytes" where
  "str_replace s old new =
     (if old = [] then new @ concat (map (\<lambda>c. c # new) s)
      else str_join (str_split s old) new)"

lemma str_replace_same: "old \<noteq> [] \<Longrightarrow> str_replace s old old = s"
  by (simp add: str_replace_def str_join_split)

text \<open>
  \<open>strings.NewReplacer(...).Replace\<close> for non-empty old strings: at each position of the text
  the pairs are tried in argument order, and a match is not searched again.
\<close>

fun replacer_match :: "(bytes \<times> bytes) list \<Rightarrow> bytes \<Rightarrow> (bytes \<times> bytes) option" where
  "replacer_match [] s = None"
| "replacer_match ((old, new) # ps) s =
     (if old \<noteq> [] \<and> take (length old) s = old then Some (old, new) else replacer_match ps s)"

lemma replacer_match_Some:
  "replacer_match ps s = Some (old, new) \<Longrightarrow> old \<noteq> [] \<and> take (length old) s = old"
  by (induction ps s rule: replacer_match.induct) (auto split: if_splits)

function replacer :: "(bytes \<times> bytes) list \<Rightarrow> bytes \<Rightarrow> bytes" where
  "replacer ps [] = []"
| "replacer ps (c # s) =
     (case replacer_match ps (c # s) of
        Some (old, new) \<Rightarrow> new @ replacer ps (drop (length old) (c # s))
      | None \<Rightarrow> c # replacer ps s)"
  by pat_completeness auto
termination
proof (relation "measure (\<lambda>(ps, s). length s)")
  fix ps :: "(bytes \<times> bytes) list" and c s x old new
  assume "replacer_match ps (c # s) = Some x" "(old, new) = x"
  then have "old \<noteq> []" using replacer_match_Some [of ps "c # s" old new] by simp
  then show "((ps, drop (length old) (c # s)), ps, c # s) \<in> measure (\<lambda>(ps, s). length s)"
    by (cases old) auto
qed auto

lemma replacer_match_none:
  "(\<forall>(old, new)\<in>set ps. old = [] \<or> hd old \<noteq> c) \<Longrightarrow> replacer_match ps (c # s) = None"
  by (induction ps) (auto simp: take_Cons neq_Nil_conv split: nat.splits)

lemma replacer_id:
  "(\<forall>c\<in>set s. \<forall>(old, new)\<in>set ps. old = [] \<or> hd old \<noteq> c) \<Longrightarrow> replacer ps s = s"
  by (induction s) (auto simp: replacer_match_none)

subsection \<open>Trimming and case\<close>

definition str_trim :: "bytes \<Rightarrow> bytes \<Rightarrow> bytes" where
  "str_trim s cutset =
     rev (dropWhile (\<lambda>c. c \<in> set cutset) (rev (dropWhile (\<lambda>c. c \<in> set cutset) s)))"

definition ascii_space :: bytes where
  "ascii_space = [CHR 0x09, CHR 0x0A, CHR 0x0B, CHR 0x0C, CHR 0x0D, CHR '' '']"

definition str_trim_space :: "bytes \<Rightarrow> bytes" where
  "str_trim_space s = str_trim s ascii_space"

definition lower_char :: "char \<Rightarrow> char" where
  "lower_char c =
     (if 65 \<le> (of_char c :: nat) \<and> (of_char c :: nat) \<le> 90 then char_of ((of_char c :: nat) + 32) else c)"

definition str_to_lower :: "bytes \<Rightarrow> bytes" where
  "str_to_lower s = map lower_char s"

lemma lower_char_idem [simp]: "lower_char (lower_char c) = lower_char c"
proof (cases "65 \<le> (of_char c :: nat) \<and> (of_char c :: nat) \<le> 90")
  case True
  then have "(of_char (char_of ((of_char c :: nat) + 32)) :: nat) = of_char c + 32"
    by (simp add: of_char_of take_bit_eq_mod)
  with True show ?thesis by (simp add: lower_char_def)
qed (auto simp: lower_char_def)

lemma str_to_lower_idem [simp]: "str_to_lower (str_to_lower s) = str_to_lower s"
  by (simp add: str_to_lower_def)

lemma set_str_trim: "set (str_trim s cs) \<subseteq> set s"
  by (metis set_dropWhileD set_rev str_trim_def subsetI)

subsection \<open>Numbers\<close>

definition is_digit :: "char \<Rightarrow> bool" where
  "is_digit c \<longleftrightarrow> 48 \<le> (of_char c :: nat) \<and> (of_char c :: nat) \<le> 57"

definition digit_val :: "char \<Rightarrow> nat" where
  "digit_val c = of_char c - 48"

definition base_digit :: "nat \<Rightarrow> char" where
  "base_digit d = (if d < 10 then char_of (48 + d) else char_of (87 + d))"

lemma of_char_base_digit: "d < 16 \<Longrightarrow> (of_char (base_digit d) :: nat) = (if d < 10 then 48 + d else 87 + d)"
  by (simp add: base_digit_def of_char_of take_bit_eq_mod)

lemma digit_val_base_digit [simp]: "d < 10 \<Longrightarrow> digit_val (base_digit d) = d"
  by (simp add: digit_val_def of_char_base_digit)

lemma is_digit_base_digit [simp]: "d < 10 \<Longrightarrow> is_digit (base_digit d)"
  by (simp add: is_digit_def of_char_base_digit)

text \<open>\<open>strconv.FormatUint(n, b)\<close> for the bases 2 to 16.\<close>

function format_uint :: "nat \<Rightarrow> nat \<Rightarrow> bytes" where
  "format_uint n b =
     (if n < b \<or> b < 2 then [base_digit n] else format_uint (n div b) b @ [base_digit (n mod b)])"
  by pat_completeness auto
termination
  by (relation "measure (\<lambda>(n, b). n)") auto

declare format_uint.simps [simp del]

text \<open>\<open>strconv.Itoa\<close>.\<close>

definition itoa :: "int \<Rightarrow> bytes" where
  "itoa i = (if i < 0 then CHR ''-'' # format_uint (nat (- i)) 10 else format_uint (nat i) 10)"

text \<open>The number a run of decimal digits denotes.\<close>

definition dec_value :: "bytes \<Rightarrow> nat" where
  "dec_value s = foldl (\<lambda>n c. 10 * n + digit_val c) 0 s"

lemma dec_value_Nil [simp]: "dec_value [] = 0"
  by (simp add: dec_value_def)

lemma dec_value_snoc [simp]: "dec_value (s @ [c]) = 10 * dec_value s + digit_val c"
  by (simp add: dec_value_def)

lemma format_uint_nonempty [simp]: "format_uint n b \<noteq> []"
  by (subst format_uint.simps) auto

lemma format_uint_digits: "list_all is_digit (format_uint n 10)"
proof (induction n rule: less_induct)
  case (less n)
  show ?case
  proof (cases "n < 10")
    case True
    then show ?thesis by (subst format_uint.simps) simp
  next
    case False
    then have "list_all is_digit (format_uint (n div 10) 10)" using less by simp
    with False show ?thesis by (subst format_uint.simps) simp
  qed
qed

lemma dec_value_format_uint: "dec_value (format_uint n 10) = n"
proof (induction n rule: less_induct)
  case (less n)
  show ?case
  proof (cases "n < 10")
    case True
    then show ?thesis by (subst format_uint.simps) (simp add: dec_value_def)
  next
    case False
    then have "dec_value (format_uint (n div 10) 10) = n div 10" using less by simp
    with False show ?thesis by (subst format_uint.simps) simp
  qed
qed

lemma format_uint_inj: "format_uint m 10 = format_uint n 10 \<Longrightarrow> m = n"
  by (metis dec_value_format_uint)

text \<open>
  \<open>strconv.Atoi\<close>: an optional sign and decimal digits. The flag is \<open>err == nil\<close>; the
  value on a syntax error is 0 and on a range error the nearest 64-bit integer.
\<close>

definition atoi_sign :: "bytes \<Rightarrow> bool \<times> bytes" where
  "atoi_sign s =
     (case s of
        c # t \<Rightarrow> if c = CHR ''-'' then (True, t) else if c = CHR ''+'' then (False, t) else (False, s)
      | [] \<Rightarrow> (False, s))"

definition atoi :: "bytes \<Rightarrow> int \<times> bool" where
  "atoi s =
     (let (neg, ds) = atoi_sign s;
          v = int (dec_value ds)
      in if ds = [] \<or> \<not> list_all is_digit ds then (0, False)
         else if neg then (if v \<le> 2 ^ 63 then (- v, True) else (- (2 ^ 63), False))
         else (if v < 2 ^ 63 then (v, True) else (2 ^ 63 - 1, False)))"

lemma atoi_format_uint:
  assumes "n < 2 ^ 63"
  shows "atoi (format_uint n 10) = (int n, True)"
proof -
  obtain c t where ct: "format_uint n 10 = c # t" by (cases "format_uint n 10") auto
  with format_uint_digits [of n] have "is_digit c" by simp
  then have "c \<noteq> CHR ''-''" "c \<noteq> CHR ''+''" by (auto simp: is_digit_def)
  with ct have "atoi_sign (format_uint n 10) = (False, format_uint n 10)"
    by (simp add: atoi_sign_def)
  moreover have "int n < 2 ^ 63" using assms by simp
  ultimately show ?thesis
    by (simp add: atoi_def dec_value_format_uint format_uint_digits)
qed

end
