(* ===== verification/TransitionParsers.thy ===== *)
theory TransitionParsers
  imports Tries GoStrings
begin

text \<open>
  \<open>shared/parser.go\<close>: a table-driven parser. Each state owns a trie of tokens; a matched
  token yields a transition with flags, an optional callback and the next state. The value between
  two tokens is handed to the callback. A callback is a value of type \<open>'cb\<close>; a function
  \<open>run\<close> says what it does to the caller's state \<open>'s\<close>. \<open>Parse\<close> is a
  partial function because a transition with the continue flag does not advance.
\<close>

unbundle bit_operations_syntax

definition ParserFlagContinue :: u64 where "ParserFlagContinue = 1"
definition ParserFlagAppend :: u64 where "ParserFlagAppend = 2"
definition ParserFlagInclude :: u64 where "ParserFlagInclude = 4"
definition ParserFlagPush :: u64 where "ParserFlagPush = 8"
definition ParserFlagPop :: u64 where "ParserFlagPop = 16"

definition ParserStateStop :: u32 where "ParserStateStop = 0xFFFFFFFF"

definition has_flag :: "u64 \<Rightarrow> u64 \<Rightarrow> bool" where
  "has_flag flags f \<longleftrightarrow> flags AND f \<noteq> 0"

record 'cb transition =
  nextState :: u32
  flags :: u64
  callback :: "'cb option"

record 'cb directive =
  d_State :: bytes
  d_Token :: bytes
  d_NextState :: bytes
  d_Flags :: u64
  d_Callback :: "'cb option"

record 'cb transition_parser =
  lookup :: "bytes list"
  tokens :: "'cb transition trie option list"
  stack :: "u32 list"

definition NewTransition :: "u32 \<Rightarrow> u64 \<Rightarrow> 'cb option \<Rightarrow> 'cb transition" where
  "NewTransition next fl cb = \<lparr>nextState = next, flags = fl, callback = cb\<rparr>"

definition NewTransitionParser :: "'cb transition_parser" where
  "NewTransitionParser = \<lparr>lookup = [], tokens = [], stack = []\<rparr>"

subsection \<open>Directives\<close>

definition directive_escape :: "(bytes \<times> bytes) list" where
  "directive_escape =
     [([CHR 0x5C, CHR ''n''], [CHR 0x0A]), ([CHR 0x5C, CHR ''r''], [CHR 0x0D]),
      ([CHR 0x5C, CHR ''t''], [CHR 0x09]), ([CHR 0x5C, CHR '':''], [CHR 0x08])]"

definition directive_restore :: "(bytes \<times> bytes) list" where
  "directive_restore = [([CHR 0x08], '':'')]"

definition directive_flag :: "bytes \<Rightarrow> u64" where
  "directive_flag flagName =
     (let name = str_to_lower (str_trim_space flagName)
      in if name = ''continue'' then ParserFlagContinue
         else if name = ''append'' then ParserFlagAppend
         else if name = ''include'' then ParserFlagInclude
         else if name = ''push'' then ParserFlagPush
         else if name = ''pop'' then ParserFlagPop
         else 0)"

text \<open>The error is \<open>None\<close>: "Parser directive requires 5 tokens."\<close>

definition ParseTransitionDirective :: "bytes \<Rightarrow> (bytes \<rightharpoonup> 'cb) \<Rightarrow> 'cb directive option" where
  "ParseTransitionDirective config callbacks =
     (case map (replacer directive_restore) (str_split (replacer directive_escape config) '':'') of
        [t0, t1, t2, t3, t4] \<Rightarrow>
          Some \<lparr>d_State = str_trim_space t0, d_Token = t1, d_NextState = str_trim_space t2,
                d_Flags = foldl (\<lambda>fl name. fl OR directive_flag name) 0 (str_split t3 '',''),
                d_Callback = callbacks (str_trim_space t4)\<rparr>
      | _ \<Rightarrow> None)"

subsection \<open>Building the table\<close>

definition GetStateID :: "'cb transition_parser \<Rightarrow> bytes \<Rightarrow> u32 \<times> 'cb transition_parser" where
  "GetStateID parser stateName =
     (if stateName = [] then (ParserStateStop, parser)
      else case find_index (\<lambda>name. name = stateName) (lookup parser) of
             Some i \<Rightarrow> (of_nat i, parser)
           | None \<Rightarrow> (of_nat (length (lookup parser)),
                      parser\<lparr>lookup := lookup parser @ [stateName], tokens := tokens parser @ [None]\<rparr>))"

definition GetStateName :: "'cb transition_parser \<Rightarrow> u32 \<Rightarrow> bytes" where
  "GetStateName parser i = (if unat i < length (lookup parser) then lookup parser ! unat i else [])"

definition AddTransition ::
  "'cb transition_parser \<Rightarrow> bytes \<Rightarrow> 'cb transition \<Rightarrow> bytes \<Rightarrow> 'cb transition_parser run" where
  "AddTransition parser stateName newTrans token =
     (let (stateID, parser) = GetStateID parser stateName;
          i = unat stateID
      in if i \<ge> length (tokens parser) then Inl IndexOutOfRange
         else case tokens parser ! i of
                None \<Rightarrow> Inr (parser\<lparr>tokens := (tokens parser)[i := Some (NewTrie token (Some newTrans))]\<rparr>)
              | Some state \<Rightarrow>
                  run_bind (Add state token (Some newTrans))
                    (\<lambda>state. Inr (parser\<lparr>tokens := (tokens parser)[i := Some state]\<rparr>)))"

definition parser_Add ::
  "'cb transition_parser \<Rightarrow> bytes \<Rightarrow> bytes \<Rightarrow> bytes \<Rightarrow> u64 \<Rightarrow> 'cb option \<Rightarrow> 'cb transition_parser run" where
  "parser_Add parser stateName token nextStateName fl cb =
     (let (nextStateID, parser) = GetStateID parser nextStateName
      in AddTransition parser stateName (NewTransition nextStateID fl cb) token)"

definition parser_Stop ::
  "'cb transition_parser \<Rightarrow> bytes \<Rightarrow> bytes \<Rightarrow> u64 \<Rightarrow> 'cb option \<Rightarrow> 'cb transition_parser run" where
  "parser_Stop parser stateName token fl cb =
     AddTransition parser stateName (NewTransition ParserStateStop fl cb) token"

fun AddDirectives :: "'cb transition_parser \<Rightarrow> 'cb directive list \<Rightarrow> 'cb transition_parser run" where
  "AddDirectives parser [] = Inr parser"
| "AddDirectives parser (dir # directives) =
     run_bind (parser_Add parser (d_State dir) (d_Token dir) (d_NextState dir) (d_Flags dir) (d_Callback dir))
       (\<lambda>parser. AddDirectives parser directives)"

subsection \<open>Parsing\<close>

text \<open>The value handed to the callback, with the token when the include flag is set.\<close>

definition parsed_value :: "u64 \<Rightarrow> bytes \<Rightarrow> nat \<Rightarrow> nat \<Rightarrow> nat \<Rightarrow> bytes run" where
  "parsed_value fl data readStartIdx parseIdx pathLen =
     (let hi = (if has_flag fl ParserFlagInclude then parseIdx + pathLen else parseIdx)
      in if hi > length data \<or> readStartIdx > hi then Inl SliceOutOfRange
         else Inr (subslice readStartIdx hi data))"

text \<open>Pop before push: the next state and the stack after a transition.\<close>

definition next_state :: "'cb transition \<Rightarrow> u32 \<Rightarrow> u32 list \<Rightarrow> u32 \<times> u32 list" where
  "next_state t currentStateID stk =
     (let (nextStateID, stk) =
            (if has_flag (flags t) ParserFlagPop \<and> stk \<noteq> [] then (last stk, butlast stk)
             else (nextState t, stk))
      in (nextStateID, if has_flag (flags t) ParserFlagPush then stk @ [currentStateID] else stk))"

text \<open>
  The loop of \<open>Parse\<close>. \<open>continueIdx\<close>, the position the code sets after a match, is
  the next \<open>parseIdx\<close>: unchanged with the continue flag, past the token without it.
\<close>

partial_function (option) parse_loop ::
  "('cb \<Rightarrow> bytes \<Rightarrow> u32 \<Rightarrow> 's \<Rightarrow> 's) \<Rightarrow> 'cb transition trie option list \<Rightarrow> bytes \<Rightarrow>
   nat \<Rightarrow> nat \<Rightarrow> u32 \<Rightarrow> 'cb transition trie option \<Rightarrow> u32 list \<Rightarrow> 's \<Rightarrow>
   (nat \<times> u32 \<times> u32 list \<times> 's) run option" where
  "parse_loop run toks data parseIdx readStartIdx cur state stk s =
     (if parseIdx \<ge> length data then Some (Inr (readStartIdx, cur, stk, s))
      else case state of
        None \<Rightarrow> Some (Inl NilDereference)
      | Some trie \<Rightarrow>
          (case MatchStart trie (drop parseIdx data) of
             None \<Rightarrow> parse_loop run toks data (Suc parseIdx) readStartIdx cur state stk s
           | Some node \<Rightarrow>
               (case Payload node of
                  None \<Rightarrow> Some (Inl TypeAssertionFailed)
                | Some t \<Rightarrow>
                    (case (case callback t of
                             None \<Rightarrow> Inr s
                           | Some cb \<Rightarrow> run_bind (parsed_value (flags t) data readStartIdx parseIdx (PathLen node))
                                          (\<lambda>v. Inr (run cb v cur s))) of
                       Inl e \<Rightarrow> Some (Inl e)
                     | Inr s \<Rightarrow>
                         let continueIdx = (if has_flag (flags t) ParserFlagContinue then parseIdx
                                            else parseIdx + PathLen node);
                             readStartIdx = (if has_flag (flags t) ParserFlagAppend then readStartIdx
                                             else continueIdx);
                             (nextID, stk) = next_state t cur stk
                         in if nextID = ParserStateStop then Some (Inr (readStartIdx, nextID, stk, s))
                            else if unat nextID \<ge> length toks then Some (Inl IndexOutOfRange)
                            else parse_loop run toks data continueIdx readStartIdx nextID
                                   (toks ! unat nextID) stk s))))"

definition Parse ::
  "('cb \<Rightarrow> bytes \<Rightarrow> u32 \<Rightarrow> 's \<Rightarrow> 's) \<Rightarrow> 'cb transition_parser \<Rightarrow> bytes \<Rightarrow> bytes \<Rightarrow> 's \<Rightarrow>
   (bytes option \<times> u32 \<times> 'cb transition_parser \<times> 's) run option" where
  "Parse run parser data state s =
     (let (currentStateID, parser) = GetStateID parser state
      in if currentStateID = ParserStateStop then Some (Inr (None, currentStateID, parser, s))
         else if unat currentStateID \<ge> length (tokens parser) then Some (Inl IndexOutOfRange)
         else map_option
                (\<lambda>r. run_bind r (\<lambda>(readStartIdx, cur, stk, s).
                   let parser = parser\<lparr>stack := stk\<rparr>
                   in if readStartIdx = length data then Inr (None, cur, parser, s)
                      else if readStartIdx > length data then Inl SliceOutOfRange
                      else Inr (Some (drop readStartIdx data), cur, parser, s)))
                (parse_loop run (tokens parser) data 0 0 currentStateID
                   (tokens parser ! unat currentStateID) (stack parser) s))"

subsection \<open>Complete tables are parsed without panic and in finite time\<close>

definition valid_id :: "'cb transition trie option list \<Rightarrow> u32 \<Rightarrow> bool" where
  "valid_id toks i \<longleftrightarrow> unat i < length toks \<and> toks ! unat i \<noteq> None"

text \<open>
  A table is closed when every token trie is well formed and every transition either stops or
  leads to a state that has tokens; it advances when no transition has the continue flag.
\<close>

definition closed_table :: "'cb transition trie option list \<Rightarrow> bool" where
  "closed_table toks \<longleftrightarrow>
     (\<forall>trie. Some trie \<in> set toks \<longrightarrow> sane 0 trie \<and>
        (\<forall>t\<in>set_trie trie. nextState t = ParserStateStop \<or> valid_id toks (nextState t)))"

definition advancing_table :: "'cb transition trie option list \<Rightarrow> bool" where
  "advancing_table toks \<longleftrightarrow>
     (\<forall>trie. Some trie \<in> set toks \<longrightarrow> (\<forall>t\<in>set_trie trie. \<not> has_flag (flags t) ParserFlagContinue))"

lemma next_state_valid:
  assumes "nextState t = ParserStateStop \<or> valid_id toks (nextState t)" "valid_id toks cur"
    and "\<forall>i\<in>set stk. valid_id toks i" "next_state t cur stk = (n, stk')"
  shows "(n = ParserStateStop \<or> valid_id toks n) \<and> (\<forall>i\<in>set stk'. valid_id toks i)"
proof -
  have "\<forall>i\<in>set (butlast stk). valid_id toks i" using assms(3) by (blast dest: in_set_butlastD)
  moreover have "stk \<noteq> [] \<Longrightarrow> valid_id toks (last stk)" using assms(3) by simp
  ultimately show ?thesis
    using assms by (auto simp: next_state_def Let_def split: if_splits)
qed

lemma parse_loop_total:
  assumes "closed_table toks" "advancing_table toks"
  shows "valid_id toks cur \<Longrightarrow> \<forall>i\<in>set stk. valid_id toks i \<Longrightarrow> readStart \<le> parseIdx \<Longrightarrow>
    parseIdx \<le> length data \<Longrightarrow>
    \<exists>rs c stk' s'. parse_loop run toks data parseIdx readStart cur (toks ! unat cur) stk s
                   = Some (Inr (rs, c, stk', s')) \<and> rs \<le> length data \<and> (\<forall>i\<in>set stk'. valid_id toks i)"
proof (induction "length data - parseIdx" arbitrary: parseIdx readStart cur stk s rule: less_induct)
  case less
  note loop = parse_loop.simps [of run toks data parseIdx readStart cur "toks ! unat cur" stk s]
  show ?case
  proof (cases "parseIdx \<ge> length data")
    case True
    with less.prems loop show ?thesis by simp
  next
    case False
    from less.prems(1) obtain trie where trie: "toks ! unat cur = Some trie" "Some trie \<in> set toks"
      by (auto simp: valid_id_def in_set_conv_nth)
    show ?thesis
    proof (cases "MatchStart trie (drop parseIdx data)")
      case None
      have "\<exists>rs c stk' s'. parse_loop run toks data (Suc parseIdx) readStart cur (toks ! unat cur) stk s
              = Some (Inr (rs, c, stk', s')) \<and> rs \<le> length data \<and> (\<forall>i\<in>set stk'. valid_id toks i)"
        using less.prems False by (intro less.hyps) simp_all
      with loop False trie None show ?thesis by simp
    next
      case (Some node)
      have node: "0 < PathLen node" "PathLen node \<le> length data - parseIdx" "Payload node \<noteq> None"
        using MatchStart_sane(1) [OF _ Some, of 0] assms(1) trie by (auto simp: closed_table_def)
      then obtain t where t: "Payload node = Some t" by blast
      then have tin: "t \<in> set_trie trie" using MatchStart_payloads(1) [OF Some] by blast
      have noc: "\<not> has_flag (flags t) ParserFlagContinue"
        and nxt: "nextState t = ParserStateStop \<or> valid_id toks (nextState t)"
        using assms trie tin by (auto simp: closed_table_def advancing_table_def)
      obtain v where v: "parsed_value (flags t) data readStart parseIdx (PathLen node) = Inr v"
        using less.prems False node le_diff_conv2 [of parseIdx "length data" "PathLen node"]
        by (cases "has_flag (flags t) ParserFlagInclude") (auto simp: parsed_value_def Let_def)
      define s1 where "s1 = (case callback t of None \<Rightarrow> s | Some cb \<Rightarrow> run cb v cur s)"
      have cb: "(case callback t of None \<Rightarrow> Inr s
           | Some cb \<Rightarrow> run_bind (parsed_value (flags t) data readStart parseIdx (PathLen node))
                          (\<lambda>v. Inr (run cb v cur s))) = Inr s1"
        using v by (simp add: s1_def split: option.splits)
      obtain n stk' where ns: "next_state t cur stk = (n, stk')" by fastforce
      have n: "n = ParserStateStop \<or> valid_id toks n" "\<forall>i\<in>set stk'. valid_id toks i"
        using next_state_valid [OF nxt less.prems(1,2) ns] by auto
      let ?ci = "parseIdx + PathLen node"
      let ?rs = "if has_flag (flags t) ParserFlagAppend then readStart else ?ci"
      have bounds: "?rs \<le> ?ci" "?ci \<le> length data" "length data - ?ci < length data - parseIdx"
        using less.prems(3) False node by auto
      show ?thesis
      proof (cases "n = ParserStateStop")
        case True
        with loop False trie Some t cb ns noc bounds n(2) show ?thesis by (simp add: Let_def)
      next
        case nstop: False
        with n have vn: "valid_id toks n" by simp
        then have "\<not> unat n \<ge> length toks" by (simp add: valid_id_def)
        with loop False trie Some t cb ns noc nstop
        have "parse_loop run toks data parseIdx readStart cur (toks ! unat cur) stk s
            = parse_loop run toks data ?ci ?rs n (toks ! unat n) stk' s1" by (simp add: Let_def)
        with less.hyps [OF bounds(3) vn n(2) bounds(1,2), of s1] show ?thesis by simp
      qed
    qed
  qed
qed

subsection \<open>The table the directives describe\<close>

definition names_state :: "bytes list \<Rightarrow> bytes \<Rightarrow> u32 \<Rightarrow> bool" where
  "names_state names name i \<longleftrightarrow>
     (if name = [] then i = ParserStateStop else unat i < length names \<and> names ! unat i = name)"

definition trie_follows :: "bytes list \<Rightarrow> 'cb directive list \<Rightarrow> 'cb transition trie \<Rightarrow> bool" where
  "trie_follows names ds trie \<longleftrightarrow> sane 0 trie \<and>
     (\<forall>t\<in>set_trie trie. \<exists>d\<in>set ds. flags t = d_Flags d \<and> names_state names (d_NextState d) (nextState t))"

definition state_has_tokens :: "'cb transition_parser \<Rightarrow> bytes \<Rightarrow> bool" where
  "state_has_tokens p name \<longleftrightarrow> (\<exists>i<length (lookup p). lookup p ! i = name \<and> tokens p ! i \<noteq> None)"

definition table_inv :: "'cb transition_parser \<Rightarrow> 'cb directive list \<Rightarrow> bool" where
  "table_inv p ds \<longleftrightarrow>
     length (lookup p) = length (tokens p) \<and> distinct (lookup p) \<and> [] \<notin> set (lookup p) \<and> stack p = [] \<and>
     (\<forall>d\<in>set ds. state_has_tokens p (d_State d)) \<and>
     (\<forall>trie. Some trie \<in> set (tokens p) \<longrightarrow> trie_follows (lookup p) ds trie)"

text \<open>What looking up a state does to the table: the identifier names the state, nothing is lost.\<close>

definition extends_table :: "'cb transition_parser \<Rightarrow> 'cb transition_parser \<Rightarrow> bool" where
  "extends_table p q \<longleftrightarrow> stack q = stack p \<and>
     (q = p \<or> (\<exists>name. name \<noteq> [] \<and> name \<notin> set (lookup p) \<and>
        lookup q = lookup p @ [name] \<and> tokens q = tokens p @ [None]))"

lemma GetStateID_spec:
  assumes "name \<noteq> []" "length (lookup p) = length (tokens p)" "length (lookup p) < 2 ^ 32 - 1"
  obtains i q where "GetStateID p name = (i, q)" "extends_table p q" "unat i < length (lookup q)"
    "lookup q ! unat i = name" "length (lookup q) = length (tokens q)"
proof (cases "find_index (\<lambda>n. n = name) (lookup p)")
  case None
  then have "name \<notin> set (lookup p)" by (auto simp: find_index_None)
  with None assms that show ?thesis
    by (auto simp: GetStateID_def extends_table_def unat_of_nat_u32 nth_append)
next
  case (Some k)
  from find_index_Some [OF Some] have "k < length (lookup p)" "lookup p ! k = name" by auto
  with Some assms that show ?thesis
    by (auto simp: GetStateID_def extends_table_def unat_of_nat_u32)
qed

lemma extends_length: "extends_table p q \<Longrightarrow> length (lookup p) \<le> length (lookup q) \<and> length (lookup q) \<le> Suc (length (lookup p))"
  by (auto simp: extends_table_def)

lemma extends_nth: "extends_table p q \<Longrightarrow> i < length (lookup p) \<Longrightarrow> lookup q ! i = lookup p ! i"
  by (auto simp: extends_table_def nth_append)

lemma extends_tokens:
  "extends_table p q \<Longrightarrow> length (lookup p) = length (tokens p) \<Longrightarrow> i < length (tokens p) \<Longrightarrow> tokens q ! i = tokens p ! i"
  by (auto simp: extends_table_def nth_append)

lemma extends_tries: "extends_table p q \<Longrightarrow> Some t \<in> set (tokens q) \<longleftrightarrow> Some t \<in> set (tokens p)"
  by (auto simp: extends_table_def)

lemma extends_distinct:
  "extends_table p q \<Longrightarrow> distinct (lookup p) \<and> [] \<notin> set (lookup p) \<Longrightarrow> distinct (lookup q) \<and> [] \<notin> set (lookup q)"
  by (auto simp: extends_table_def)

lemma extends_trans_length:
  "extends_table p q \<Longrightarrow> length (lookup p) = length (tokens p) \<Longrightarrow> length (lookup q) = length (tokens q)"
  by (auto simp: extends_table_def)

lemma names_state_extends: "extends_table p q \<Longrightarrow> names_state (lookup p) name i \<Longrightarrow> names_state (lookup q) name i"
  by (auto simp: names_state_def extends_table_def nth_append split: if_splits)

lemma trie_follows_mono:
  assumes "extends_table p q" "trie_follows (lookup p) ds trie" "set ds \<subseteq> set ds'"
  shows "trie_follows (lookup q) ds' trie"
  using assms names_state_extends [OF assms(1)] unfolding trie_follows_def by blast

lemma state_has_tokens_extends:
  assumes "extends_table p q" "length (lookup p) = length (tokens p)" "state_has_tokens p name"
  shows "state_has_tokens q name"
proof -
  obtain i where i: "i < length (lookup p)" "lookup p ! i = name" "tokens p ! i \<noteq> None"
    using assms(3) by (auto simp: state_has_tokens_def)
  moreover have "lookup q ! i = lookup p ! i" "tokens q ! i = tokens p ! i" "i < length (lookup q)"
    using i(1) extends_nth [OF assms(1)] extends_tokens [OF assms(1,2)] extends_length [OF assms(1)] assms(2)
    by auto
  ultimately show ?thesis by (auto simp: state_has_tokens_def intro!: exI [of _ i])
qed

text \<open>Looking a state up keeps the invariant.\<close>

lemma table_inv_extends:
  assumes "table_inv p ds" "extends_table p q"
  shows "table_inv q ds"
proof -
  have len: "length (lookup p) = length (tokens p)" using assms(1) by (simp add: table_inv_def)
  have "trie_follows (lookup q) ds trie" if "Some trie \<in> set (tokens q)" for trie
    using that assms extends_tries [OF assms(2)] trie_follows_mono [OF assms(2), of ds trie ds]
    by (simp add: table_inv_def)
  moreover have "state_has_tokens q (d_State d)" if "d \<in> set ds" for d
    using that assms state_has_tokens_extends [OF assms(2) len] by (auto simp: table_inv_def)
  ultimately show ?thesis
    using assms extends_trans_length [OF assms(2) len] extends_distinct [OF assms(2)]
    by (auto simp: table_inv_def extends_table_def)
qed

lemma GetStateID_names:
  assumes "table_inv p ds" "length (lookup p) < 2 ^ 32 - 1"
  obtains i q where "GetStateID p name = (i, q)" "extends_table p q" "names_state (lookup q) name i"
proof (cases "name = []")
  case True
  then show ?thesis
    by (intro that [of ParserStateStop p]) (auto simp: GetStateID_def extends_table_def names_state_def)
next
  case False
  have "length (lookup p) = length (tokens p)" using assms(1) by (simp add: table_inv_def)
  then obtain i q where "GetStateID p name = (i, q)" "extends_table p q" "unat i < length (lookup q)"
    "lookup q ! unat i = name" using GetStateID_spec [OF False _ assms(2)] by blast
  with False that show ?thesis by (simp add: names_state_def)
qed

lemma AddTransition_inv:
  assumes inv: "table_inv p ds" and bound: "length (lookup p) < 2 ^ 32 - 1"
    and name: "d_State d \<noteq> []" and t: "flags t = d_Flags d" "names_state (lookup p) (d_NextState d) (nextState t)"
  obtains q where "AddTransition p (d_State d) t (d_Token d) = Inr q" "table_inv q (ds @ [d])"
    "length (lookup q) \<le> Suc (length (lookup p))"
proof -
  have len: "length (lookup p) = length (tokens p)" using inv by (simp add: table_inv_def)
  obtain i p1 where g: "GetStateID p (d_State d) = (i, p1)" "extends_table p p1" "unat i < length (lookup p1)"
      "lookup p1 ! unat i = d_State d" "length (lookup p1) = length (tokens p1)"
    using GetStateID_spec [OF name len bound] by blast
  have inv1: "table_inv p1 ds" using table_inv_extends [OF inv g(2)] .
  have t1: "names_state (lookup p1) (d_NextState d) (nextState t)"
    using names_state_extends [OF g(2) t(2)] .
  have fin: "table_inv (p1\<lparr>tokens := (tokens p1)[unat i := Some trie]\<rparr>) (ds @ [d])"
    if trie: "sane 0 trie" "set_trie trie \<subseteq> insert t (case tokens p1 ! unat i of None \<Rightarrow> {} | Some u \<Rightarrow> set_trie u)"
    for trie
  proof -
    let ?q = "p1\<lparr>tokens := (tokens p1)[unat i := Some trie]\<rparr>"
    have old: "trie_follows (lookup p1) ds u" if "tokens p1 ! unat i = Some u" for u
      using inv1 that g(3,5) nth_mem [of "unat i" "tokens p1"] by (auto simp: table_inv_def)
    have "trie_follows (lookup p1) (ds @ [d]) trie"
      unfolding trie_follows_def
    proof (intro conjI ballI)
      fix x assume "x \<in> set_trie trie"
      with trie(2) consider "x = t" | u where "tokens p1 ! unat i = Some u" "x \<in> set_trie u"
        by (auto split: option.splits)
      then show "\<exists>d'\<in>set (ds @ [d]). flags x = d_Flags d' \<and> names_state (lookup p1) (d_NextState d') (nextState x)"
      proof cases
        case 1
        with t t1 show ?thesis by simp
      next
        case 2
        then show ?thesis using old [OF 2(1)] by (auto simp: trie_follows_def)
      qed
    qed (rule trie(1))
    moreover have "trie_follows (lookup p1) (ds @ [d]) u" if "Some u \<in> set (tokens p1)" for u
      using that inv1 by (auto simp: table_inv_def trie_follows_def)
    ultimately have tf: "\<forall>u. Some u \<in> set (tokens ?q) \<longrightarrow> trie_follows (lookup p1) (ds @ [d]) u"
      using set_update_subset_insert [of "tokens p1" "unat i" "Some trie"] by auto
    have "state_has_tokens ?q (d_State d)" using g by (auto simp: state_has_tokens_def)
    moreover have "state_has_tokens ?q nm" if "state_has_tokens p1 nm" for nm
    proof -
      from that obtain k where "k < length (lookup p1)" "lookup p1 ! k = nm" "tokens p1 ! k \<noteq> None"
        by (auto simp: state_has_tokens_def)
      with g(5) have "(tokens p1)[unat i := Some trie] ! k \<noteq> None" by (cases "k = unat i") auto
      with \<open>k < length (lookup p1)\<close> \<open>lookup p1 ! k = nm\<close> show ?thesis
        by (auto simp: state_has_tokens_def intro!: exI [of _ k])
    qed
    ultimately show ?thesis using inv1 tf by (auto simp: table_inv_def)
  qed
  have small: "length (lookup p1) \<le> Suc (length (lookup p))" using extends_length [OF g(2)] by simp
  show thesis
  proof (cases "tokens p1 ! unat i")
    case None
    then show thesis using g(1,3,5) small fin [of "NewTrie (d_Token d) (Some t)"]
      by (intro that) (auto simp: AddTransition_def Let_def)
  next
    case (Some u)
    have "sane 0 u" using inv1 g(3,5) Some nth_mem [of "unat i" "tokens p1"]
      by (auto simp: table_inv_def trie_follows_def)
    then obtain u' where u': "Add u (d_Token d) (Some t) = Inr u'" "sane 0 u'"
      using Add_sane [of u "d_Token d" t] by auto
    then have "set_trie u' \<subseteq> insert t (set_trie u)" using Add_payloads [of u "d_Token d" t u'] by simp
    with u' Some g(1,3,5) small fin [of u'] show thesis
      by (intro that) (auto simp: AddTransition_def Let_def)
  qed
qed

lemma parser_Add_inv:
  assumes "table_inv p ds" "length (lookup p) + 1 < 2 ^ 32 - 1" "d_State d \<noteq> []"
  obtains q where "parser_Add p (d_State d) (d_Token d) (d_NextState d) (d_Flags d) (d_Callback d) = Inr q"
    "table_inv q (ds @ [d])" "length (lookup q) \<le> length (lookup p) + 2"
proof -
  obtain n p1 where p1: "GetStateID p (d_NextState d) = (n, p1)" "extends_table p p1"
      "names_state (lookup p1) (d_NextState d) n"
    by (rule GetStateID_names [OF assms(1), of "d_NextState d"]) (use assms(2) in auto)
  have len: "length (lookup p1) \<le> length (lookup p) + 1" using extends_length [OF p1(2)] by simp
  obtain q where "AddTransition p1 (d_State d) (NewTransition n (d_Flags d) (d_Callback d)) (d_Token d) = Inr q"
      "table_inv q (ds @ [d])" "length (lookup q) \<le> Suc (length (lookup p1))"
    by (rule AddTransition_inv [OF table_inv_extends [OF assms(1) p1(2)], of d
          "NewTransition n (d_Flags d) (d_Callback d)"])
       (use len assms(2,3) p1(3) in \<open>auto simp: NewTransition_def\<close>)
  with p1(1) len that [of q] show thesis by (simp add: parser_Add_def)
qed

lemma AddDirectives_inv:
  "table_inv p ds \<Longrightarrow> \<forall>d\<in>set new. d_State d \<noteq> [] \<Longrightarrow> length (lookup p) + 2 * length new < 2 ^ 32 - 1 \<Longrightarrow>
   \<exists>q. AddDirectives p new = Inr q \<and> table_inv q (ds @ new) \<and> length (lookup q) \<le> length (lookup p) + 2 * length new"
proof (induction new arbitrary: p ds)
  case (Cons d new)
  obtain p1 where p1: "parser_Add p (d_State d) (d_Token d) (d_NextState d) (d_Flags d) (d_Callback d) = Inr p1"
      "table_inv p1 (ds @ [d])" "length (lookup p1) \<le> length (lookup p) + 2"
    by (rule parser_Add_inv [OF Cons.prems(1), of d]) (use Cons.prems(2,3) in auto)
  obtain q where "AddDirectives p1 new = Inr q" "table_inv q ((ds @ [d]) @ new)"
      "length (lookup q) \<le> length (lookup p1) + 2 * length new"
    using Cons.IH [OF p1(2)] Cons.prems(2,3) p1(3) by auto
  with p1 show ?case by (intro exI [of _ q]) simp
qed simp

lemma table_inv_New: "table_inv NewTransitionParser []"
  by (simp add: table_inv_def NewTransitionParser_def)

text \<open>
  Directives are complete when every one names its state, and every next state is empty (stop) or
  has directives of its own.
\<close>

definition complete_directives :: "'cb directive list \<Rightarrow> bool" where
  "complete_directives ds \<longleftrightarrow>
     list_all (\<lambda>d. d_State d \<noteq> [] \<and> (d_NextState d = [] \<or> d_NextState d \<in> set (map d_State ds)) \<and>
                  \<not> has_flag (d_Flags d) ParserFlagContinue) ds"

lemma distinct_nth_unique: "distinct xs \<Longrightarrow> i < length xs \<Longrightarrow> j < length xs \<Longrightarrow> xs ! i = xs ! j \<Longrightarrow> i = j"
  by (simp add: nth_eq_iff_index_eq)

lemma table_inv_closed:
  assumes "table_inv p ds" "complete_directives ds"
  shows "closed_table (tokens p)" "advancing_table (tokens p)"
proof -
  have valid: "valid_id (tokens p) n" if "names_state (lookup p) nm n" "nm \<noteq> []" "nm \<in> set (map d_State ds)" for nm n
  proof -
    from that(3) assms(1) obtain i where "i < length (lookup p)" "lookup p ! i = nm" "tokens p ! i \<noteq> None"
      by (auto simp: table_inv_def state_has_tokens_def)
    moreover have "unat n < length (lookup p)" "lookup p ! unat n = nm" using that by (auto simp: names_state_def)
    ultimately show ?thesis using assms(1) distinct_nth_unique [of "lookup p" i "unat n"]
      by (auto simp: table_inv_def valid_id_def)
  qed
  show "closed_table (tokens p)"
    unfolding closed_table_def
  proof (intro allI impI conjI ballI)
    fix trie assume tr: "Some trie \<in> set (tokens p)"
    then have f: "trie_follows (lookup p) ds trie" using assms(1) by (simp add: table_inv_def)
    then show "sane 0 trie" by (simp add: trie_follows_def)
    fix t assume "t \<in> set_trie trie"
    with f obtain d where d: "d \<in> set ds" "names_state (lookup p) (d_NextState d) (nextState t)"
      unfolding trie_follows_def by blast
    with assms(2) have "d_NextState d = [] \<or> d_NextState d \<in> set (map d_State ds)"
      by (auto simp: complete_directives_def list_all_iff)
    then show "nextState t = ParserStateStop \<or> valid_id (tokens p) (nextState t)"
      using d(2) valid [OF d(2)] by (cases "d_NextState d = []") (auto simp: names_state_def)
  qed
  show "advancing_table (tokens p)"
    using assms unfolding advancing_table_def table_inv_def trie_follows_def complete_directives_def list_all_iff
    by metis
qed

subsection \<open>What the callbacks see\<close>

text \<open>
  The callbacks do not influence the parser: \<open>Parse\<close> with any callbacks runs them in order on the
  events it finds with callbacks that only record them.
\<close>

definition record_event :: "'cb \<Rightarrow> bytes \<Rightarrow> u32 \<Rightarrow> ('cb \<times> bytes \<times> u32) list \<Rightarrow> ('cb \<times> bytes \<times> u32) list" where
  "record_event cb v i evs = evs @ [(cb, v, i)]"

definition run_events :: "('cb \<Rightarrow> bytes \<Rightarrow> u32 \<Rightarrow> 's \<Rightarrow> 's) \<Rightarrow> ('cb \<times> bytes \<times> u32) list \<Rightarrow> 's \<Rightarrow> 's" where
  "run_events run evs s = fold (\<lambda>(cb, v, i). run cb v i) evs s"

lemma run_events_simps [simp]:
  "run_events run [] s = s"
  "run_events run ((cb, v, i) # evs) s = run_events run evs (run cb v i s)"
  "run_events run (evs @ evs') s = run_events run evs' (run_events run evs s)"
  by (simp_all add: run_events_def)

lemma parse_loop_events:
  "parse_loop run toks data pi rs cur st stk s = Some r \<Longrightarrow> r = Inr (rs', c, stk', s') \<Longrightarrow>
   \<exists>evs. s' = run_events run evs s \<and>
     (\<forall>ev. parse_loop record_event toks data pi rs cur st stk ev = Some (Inr (rs', c, stk', ev @ evs)))"
proof (induction rule: parse_loop.raw_induct [rotated 1, consumes 1])
  case (1 rec run toks data pi rs cur st stk s r)
  note loop = parse_loop.simps [of record_event toks data pi rs cur st stk]
  show ?case
  proof (cases "pi \<ge> length data")
    case True
    with 1(2,3) loop show ?thesis by (intro exI [of _ "[]"]) simp
  next
    case False
    then obtain trie where st: "st = Some trie" using 1(2,3) by (cases st) auto
    show ?thesis
    proof (cases "MatchStart trie (drop pi data)")
      case None
      with 1(2) False st have "rec run toks data (Suc pi) rs cur st stk s = Some r" by simp
      from 1(1) [OF this 1(3)] None False st loop show ?thesis by simp
    next
      case (Some node)
      then obtain t where t: "Payload node = Some t" using 1(2,3) False st by (cases "Payload node") auto
      let ?ci = "if has_flag (flags t) ParserFlagContinue then pi else pi + PathLen node"
      let ?rs = "if has_flag (flags t) ParserFlagAppend then rs else ?ci"
      obtain n stk1 where ns: "next_state t cur stk = (n, stk1)" by fastforce
      define after where "after s1 = (if n = ParserStateStop then Some (Inr (?rs, n, stk1, s1))
          else if unat n \<ge> length toks then Some (Inl IndexOutOfRange)
          else rec run toks data ?ci ?rs n (toks ! unat n) stk1 s1)" for s1
      have go: "\<exists>evs. s' = run_events run evs s1 \<and> (\<forall>ev.
          (if n = ParserStateStop then Some (Inr (?rs, n, stk1, ev))
           else if unat n \<ge> length toks then Some (Inl IndexOutOfRange)
           else parse_loop record_event toks data ?ci ?rs n (toks ! unat n) stk1 ev) = Some (Inr (rs', c, stk', ev @ evs)))"
        if "after s1 = Some r" for s1
      proof (cases "n = ParserStateStop")
        case True
        with that 1(3) show ?thesis by (intro exI [of _ "[]"]) (simp add: after_def)
      next
        case False
        then have "rec run toks data ?ci ?rs n (toks ! unat n) stk1 s1 = Some r" "\<not> unat n \<ge> length toks"
          using that 1(3) by (simp_all add: after_def split: if_splits)
        with 1(1) [OF _ 1(3)] False show ?thesis by simp
      qed
      show ?thesis
      proof (cases "callback t")
        case None
        with 1(2) False st Some t ns have "after s = Some r" by (simp add: after_def Let_def)
        from go [OF this] None False st Some t ns loop show ?thesis by (simp add: Let_def)
      next
        case cb: (Some cb)
        then obtain v where v: "parsed_value (flags t) data rs pi (PathLen node) = Inr v"
          using 1(2,3) False st Some t by (cases "parsed_value (flags t) data rs pi (PathLen node)") auto
        with 1(2) False st Some t ns cb have "after (run cb v cur s) = Some r" by (simp add: after_def Let_def)
        from go [OF this] obtain evs where "s' = run_events run evs (run cb v cur s)" and
          e: "\<And>ev. (if n = ParserStateStop then Some (Inr (?rs, n, stk1, ev))
           else if unat n \<ge> length toks then Some (Inl IndexOutOfRange)
           else parse_loop record_event toks data ?ci ?rs n (toks ! unat n) stk1 ev) = Some (Inr (rs', c, stk', ev @ evs))"
          by blast
        moreover have "parse_loop record_event toks data pi rs cur st stk ev = Some (Inr (rs', c, stk', ev @ (cb, v, cur) # evs))" for ev
          using e [of "ev @ [(cb, v, cur)]"] cb v False st Some t ns loop [of ev] by (simp add: Let_def record_event_def)
        ultimately show ?thesis by (intro exI [of _ "(cb, v, cur) # evs"]) simp
      qed
    qed
  qed
qed

lemma Parse_events:
  assumes "Parse run p data state s = Some (Inr (rest, c, p', s'))"
  shows "\<exists>evs. s' = run_events run evs s \<and> Parse record_event p data state [] = Some (Inr (rest, c, p', evs))"
proof (cases "fst (GetStateID p state) = ParserStateStop")
  case True
  with assms show ?thesis by (intro exI [of _ "[]"]) (auto simp: Parse_def split: prod.splits)
next
  case False
  obtain i q where g: "GetStateID p state = (i, q)" by fastforce
  from assms False g have i: "\<not> unat i \<ge> length (tokens q)" by (auto simp: Parse_def)
  from assms False g i obtain r where r: "parse_loop run (tokens q) data 0 0 i (tokens q ! unat i) (stack q) s = Some r"
    "run_bind r (\<lambda>(readStartIdx, cur, stk, s).
       let parser = q\<lparr>stack := stk\<rparr>
       in if readStartIdx = length data then Inr (None, cur, parser, s)
          else if readStartIdx > length data then Inl SliceOutOfRange
          else Inr (Some (drop readStartIdx data), cur, parser, s)) = Inr (rest, c, p', s')"
    by (auto simp: Parse_def)
  then obtain rs c1 stk1 s1 where r1: "r = Inr (rs, c1, stk1, s1)" by (cases r) auto
  from parse_loop_events [OF r(1) r1] obtain evs where evs: "s1 = run_events run evs s"
    "parse_loop record_event (tokens q) data 0 0 i (tokens q ! unat i) (stack q) [] = Some (Inr (rs, c1, stk1, evs))"
    by (metis append_Nil)
  with r r1 g i False show ?thesis
    by (intro exI [of _ evs]) (auto simp: Parse_def Let_def split: if_splits)
qed

subsection \<open>Complete directives\<close>

text \<open>
  A parser that is ready for directives has their table and a stack of states with tokens. \<open>Parse\<close>
  keeps it ready: the stack it leaves behind is the one the next call starts with.
\<close>

definition parser_ready :: "'cb directive list \<Rightarrow> 'cb transition_parser \<Rightarrow> bool" where
  "parser_ready ds p \<longleftrightarrow> table_inv (p\<lparr>stack := []\<rparr>) ds \<and> (\<forall>i\<in>set (stack p). valid_id (tokens p) i) \<and>
     length (lookup p) < 2 ^ 32 - 1"

lemma AddDirectives_ready:
  assumes "complete_directives ds" "2 * length ds < 2 ^ 32 - 1"
  obtains p where "AddDirectives NewTransitionParser ds = Inr p" "parser_ready ds p" "stack p = []"
proof -
  have names: "\<forall>d\<in>set ds. d_State d \<noteq> []" using assms(1) by (auto simp: complete_directives_def list_all_iff)
  obtain p where p: "AddDirectives NewTransitionParser ds = Inr p" "table_inv p ds"
      "length (lookup p) \<le> 2 * length ds"
    using AddDirectives_inv [OF table_inv_New names] assms(2) by (auto simp: NewTransitionParser_def)
  have s: "stack p = []" using p(2) by (simp add: table_inv_def)
  have "table_inv (p\<lparr>stack := []\<rparr>) ds" using p(2) by (subst s [symmetric]) simp
  moreover have "length (lookup p) < 2 ^ 32 - 1" using p(3) assms(2) by linarith
  ultimately have "parser_ready ds p" using s by (simp add: parser_ready_def)
  then show thesis by (rule that [OF p(1) _ s])
qed

lemma ready_state:
  assumes "parser_ready ds p" "complete_directives ds" "state \<in> set (map d_State ds)"
  obtains k where "GetStateID p state = (of_nat k, p)" "unat (of_nat k :: u32) = k"
    "(of_nat k :: u32) \<noteq> ParserStateStop" "valid_id (tokens p) (of_nat k)"
proof -
  let ?q = "p\<lparr>stack := []\<rparr>"
  have inv: "table_inv ?q ds" and len: "length (lookup p) < 2 ^ 32 - 1" using assms(1) by (simp_all add: parser_ready_def)
  have ne: "state \<noteq> []" using assms(2,3) by (auto simp: complete_directives_def list_all_iff)
  have has: "state_has_tokens ?q state" using assms(3) inv by (auto simp: table_inv_def)
  then have "find_index (\<lambda>n. n = state) (lookup p) \<noteq> None"
    by (auto simp: state_has_tokens_def find_index_None)
  then obtain k where k: "find_index (\<lambda>n. n = state) (lookup p) = Some k" by blast
  from find_index_Some [OF k] have kk: "k < length (lookup p)" "lookup p ! k = state" by auto
  have un: "unat (of_nat k :: u32) = k" using kk len by (intro unat_of_nat_u32) linarith
  have "(of_nat k :: u32) \<noteq> ParserStateStop"
  proof
    assume "(of_nat k :: u32) = ParserStateStop"
    with un have "k = 2 ^ 32 - 1" by (simp add: ParserStateStop_def)
    with kk len show False by linarith
  qed
  moreover have "valid_id (tokens p) (of_nat k)"
    using has kk un inv distinct_nth_unique [of "lookup p"]
    by (auto simp: valid_id_def state_has_tokens_def table_inv_def)
  ultimately show thesis using ne k un by (intro that [of k]) (simp_all add: GetStateID_def)
qed

lemma Parse_ready:
  assumes "parser_ready ds p" "complete_directives ds" "state \<in> set (map d_State ds)"
  obtains rest c p' s' where "Parse run p data state s = Some (Inr (rest, c, p', s'))" "parser_ready ds p'"
    "lookup p' = lookup p" "case rest of None \<Rightarrow> True | Some r \<Rightarrow> r \<noteq> [] \<and> (\<exists>pre. data = pre @ r)"
proof -
  obtain k where k: "GetStateID p state = (of_nat k, p)" "unat (of_nat k :: u32) = k"
    "(of_nat k :: u32) \<noteq> ParserStateStop" "valid_id (tokens p) (of_nat k)" by (rule ready_state [OF assms])
  have inv: "table_inv (p\<lparr>stack := []\<rparr>) ds" and stk: "\<forall>i\<in>set (stack p). valid_id (tokens p) i"
    using assms(1) by (simp_all add: parser_ready_def)
  have closed: "closed_table (tokens p)" "advancing_table (tokens p)" using table_inv_closed [OF inv assms(2)] by simp_all
  obtain rs c stk' s' where loop: "parse_loop run (tokens p) data 0 0 (of_nat k) (tokens p ! k) (stack p) s
      = Some (Inr (rs, c, stk', s'))" "rs \<le> length data" "\<forall>i\<in>set stk'. valid_id (tokens p) i"
    using parse_loop_total [OF closed k(4) stk, of 0 0 data run s] k(2) by auto
  have state: "unat (of_nat k :: u32) < length (tokens p)" using k(4) by (simp add: valid_id_def)
  let ?p = "p\<lparr>stack := stk'\<rparr>"
  have ready: "parser_ready ds ?p" using assms(1) loop(3) by (simp add: parser_ready_def)
  show thesis
  proof (cases "rs = length data")
    case True
    with loop k state have "Parse run p data state s = Some (Inr (None, c, ?p, s'))" by (simp add: Parse_def)
    then show thesis by (rule that [OF _ ready]) simp_all
  next
    case False
    with loop k state have "Parse run p data state s = Some (Inr (Some (drop rs data), c, ?p, s'))" by (simp add: Parse_def)
    then show thesis
      by (rule that [OF _ ready]) (use False loop(2) in \<open>auto intro!: exI [of _ "take rs data"]\<close>)
  qed
qed

text \<open>C5: a parser built from complete directives is total: building it does not panic, and for every input
  and every state that has directives \<open>Parse\<close> returns, with a rest that is a suffix of the input.\<close>

theorem parser_Parse_total:
  assumes "complete_directives ds" "2 * length ds < 2 ^ 32 - 1" "state \<in> set (map d_State ds)"
  shows "\<exists>p rest c p' s'. AddDirectives NewTransitionParser ds = Inr p \<and>
    Parse run p data state s = Some (Inr (rest, c, p', s')) \<and>
    (case rest of None \<Rightarrow> True | Some r \<Rightarrow> r \<noteq> [] \<and> (\<exists>pre. data = pre @ r))"
proof -
  obtain p where p: "AddDirectives NewTransitionParser ds = Inr p" "parser_ready ds p"
    using AddDirectives_ready [OF assms(1,2)] by blast
  obtain rest c p' s' where r: "Parse run p data state s = Some (Inr (rest, c, p', s'))"
    "case rest of None \<Rightarrow> True | Some r \<Rightarrow> r \<noteq> [] \<and> (\<exists>pre. data = pre @ r)"
    by (rule Parse_ready [OF p(2) assms(1,3), of run data s])
  with p(1) show ?thesis by (intro exI conjI)
qed

definition word_directives :: "nat directive list" where
  "word_directives =
     [\<lparr>d_State = ''w'', d_Token = '' '', d_NextState = ''w'', d_Flags = 0, d_Callback = Some 1\<rparr>,
      \<lparr>d_State = ''w'', d_Token = ''.'', d_NextState = [], d_Flags = ParserFlagInclude, d_Callback = Some 2\<rparr>]"

theorem parser_Parse_total_witness:
  "\<exists>p rest c p' s'. AddDirectives NewTransitionParser word_directives = Inr p \<and>
    Parse (\<lambda>cb v st s. s @ [v]) p ''a bc. x'' ''w'' [] = Some (Inr (rest, c, p', s'))"
  using parser_Parse_total [of word_directives "''w''" "\<lambda>cb v st s. s @ [v]" "''a bc. x''" "[]"]
  by (auto simp: word_directives_def complete_directives_def has_flag_def ParserFlagInclude_def
      ParserFlagContinue_def)

text \<open>
  The completeness hypothesis is needed. A directive with the continue flag that stays in its state
  never advances: the loop has no result.
\<close>

definition spin_directives :: "unit directive list" where
  "spin_directives = [\<lparr>d_State = ''a'', d_Token = ''x'', d_NextState = ''a'',
                       d_Flags = ParserFlagContinue, d_Callback = None\<rparr>]"

definition spin_parser :: "unit transition_parser" where
  "spin_parser = (case AddDirectives NewTransitionParser spin_directives of Inr p \<Rightarrow> p | Inl _ \<Rightarrow> NewTransitionParser)"

lemma spin_parser_simps:
  "lookup spin_parser = [''a'']" "stack spin_parser = []"
  "tokens spin_parser = [Some (NewTrie ''x'' (Some (NewTransition 0 ParserFlagContinue None)))]"
  by (simp_all add: spin_parser_def spin_directives_def NewTransitionParser_def parser_Add_def Let_def
      AddTransition_def GetStateID_def)

lemma spin_match:
  "MatchStart (NewTrie ''x'' (Some p)) ''x'' = Some (NewTrie ''x'' (Some p))"
  by (simp add: NewTrie_def)

lemma parse_loop_spins:
  fixes run :: "unit \<Rightarrow> bytes \<Rightarrow> u32 \<Rightarrow> 's \<Rightarrow> 's"
  shows "parse_loop run toks data i rs cur st stk s = Some r \<Longrightarrow>
    toks = tokens spin_parser \<and> data = ''x'' \<and> i = 0 \<and> cur = 0 \<and> st = tokens spin_parser ! 0 \<and> stk = [] \<Longrightarrow>
    False"
proof (induction rule: parse_loop.raw_induct [rotated 1, consumes 1])
  case (1 rec run toks data i rs cur st stk s r)
  from 1(2,3) show False
    by (auto simp: spin_parser_simps spin_match NewTransition_def next_state_def has_flag_def Let_def
        ParserFlagContinue_def ParserFlagAppend_def ParserFlagPop_def ParserFlagPush_def ParserStateStop_def
        NewTrie_def dest!: 1(1))
qed

text \<open>\<open>Parse\<close> does not return for a directive with the continue flag whose next state has
  the same token, here \<open>a:x:a:continue:\<close> on the input \<open>x\<close>.\<close>

theorem parser_Parse_may_not_return: "Parse run spin_parser ''x'' ''a'' s = None"
proof -
  have "parse_loop run (tokens spin_parser) ''x'' 0 0 0 (tokens spin_parser ! 0) [] s = None"
    using parse_loop_spins [of run "tokens spin_parser" "''x''" 0 0 0 "tokens spin_parser ! 0" "[]" s]
    by (cases "parse_loop run (tokens spin_parser) ''x'' 0 0 0 (tokens spin_parser ! 0) [] s") auto
  then show ?thesis by (simp add: Parse_def GetStateID_def spin_parser_simps ParserStateStop_def)
qed

end
