(* ===== verification/Messages.thy ===== *)
theory Messages
  imports Prelude
begin

text \<open>
  \<open>core/message.go\<close>, the generated getters of \<open>core/message.pb.go\<close>, and the names of
  streams in \<open>core/streamregistry.go\<close>. A stream id is the 64 bit FNV-1a hash of its name. A
  channel send that would block is described by the rounds of its retry loop: whether there is room,
  and the time. The protobuf codec is a parameter.
\<close>

unbundle bit_operations_syntax

subsection \<open>Stream ids and names\<close>

definition fnv1a :: "bytes \<Rightarrow> u64" where
  "fnv1a s = foldl (\<lambda>h c. (h XOR of_char c) * 1099511628211) 14695981039346656037 s"

definition LogInternalStream :: bytes where "LogInternalStream = ''_GOLLUM_''"
definition WildcardStream :: bytes where "WildcardStream = ''*''"
definition DroppedStream :: bytes where "DroppedStream = ''_DROPPED_''"

definition LogInternalStreamID :: u64 where "LogInternalStreamID = fnv1a LogInternalStream"
definition WildcardStreamID :: u64 where "WildcardStreamID = fnv1a WildcardStream"
definition DroppedStreamID :: u64 where "DroppedStreamID = fnv1a DroppedStream"
definition InvalidStreamID :: u64 where "InvalidStreamID = 0"

lemma stream_id_values:
  "WildcardStreamID = 12638128926439346813" "LogInternalStreamID = 16975128748458840943"
  "DroppedStreamID = 17417468828779167901"
  by (simp_all add: WildcardStreamID_def LogInternalStreamID_def DroppedStreamID_def WildcardStream_def
      LogInternalStream_def DroppedStream_def fnv1a_def)

lemma stream_ids_distinct:
  "distinct [InvalidStreamID, WildcardStreamID, LogInternalStreamID, DroppedStreamID]"
  by (simp add: stream_id_values InvalidStreamID_def)

type_synonym stream_names = "u64 \<rightharpoonup> bytes"

definition GetStreamID :: "stream_names \<Rightarrow> bytes \<Rightarrow> u64 \<times> stream_names" where
  "GetStreamID names stream = (let streamID = fnv1a stream in (streamID, names(streamID \<mapsto> stream)))"

definition GetStreamName :: "stream_names \<Rightarrow> u64 \<Rightarrow> bytes" where
  "GetStreamName names streamID =
     (if streamID = DroppedStreamID then DroppedStream
      else if streamID = LogInternalStreamID then LogInternalStream
      else if streamID = WildcardStreamID then WildcardStream
      else case names streamID of Some nm \<Rightarrow> nm | None \<Rightarrow> [])"

text \<open>The ids of a list of names, registered one after the other.\<close>

fun GetStreamIDs :: "stream_names \<Rightarrow> bytes list \<Rightarrow> u64 list \<times> stream_names" where
  "GetStreamIDs names [] = ([], names)"
| "GetStreamIDs names (s # ss) =
     (let (i, names) = GetStreamID names s; (is, names) = GetStreamIDs names ss in (i # is, names))"

lemma GetStreamIDs_fst [simp]: "fst (GetStreamIDs names ss) = map fnv1a ss"
  by (induction ss arbitrary: names) (auto simp: GetStreamID_def case_prod_unfold Let_def)

lemma GetStreamIDs_registers:
  "snd (GetStreamIDs names ss) i =
     (case filter (\<lambda>s. fnv1a s = i) ss of [] \<Rightarrow> names i | l \<Rightarrow> Some (last l))"
  by (induction ss arbitrary: names)
     (auto simp: GetStreamID_def case_prod_unfold Let_def split: list.splits)

subsection \<open>Messages\<close>

datatype message_state = MessageStateOk | MessageStateTimeout | MessageStateDiscard

record message =
  m_Data :: bytes
  m_StreamID :: u64
  m_PrevStreamID :: u64
  m_Source :: "nat option"
  m_Timestamp :: int
  m_Sequence :: u64

definition NewMessage :: "nat option \<Rightarrow> bytes \<Rightarrow> u64 \<Rightarrow> int \<Rightarrow> message" where
  "NewMessage source data sequence now =
     \<lparr>m_Data = data, m_StreamID = WildcardStreamID, m_PrevStreamID = WildcardStreamID,
      m_Source = source, m_Timestamp = now, m_Sequence = sequence\<rparr>"

text \<open>
  The retry loop of \<open>Message.Enqueue\<close>. One round is one turn of the \<open>for\<close> loop: is there
  room in the channel, and what time is it. The result is the state and whether the message was sent;
  \<open>None\<close> when the rounds are used up and the call still waits.
\<close>

fun enqueue_rounds :: "int \<Rightarrow> int option \<Rightarrow> (bool \<times> int) list \<Rightarrow> (message_state \<times> bool) option" where
  "enqueue_rounds timeout start [] = None"
| "enqueue_rounds timeout start ((room, now) # rounds) =
     (if room then Some (MessageStateOk, True)
      else case start of
             None \<Rightarrow> if timeout < 0 then Some (MessageStateDiscard, False)
                     else enqueue_rounds timeout (Some now) rounds
           | Some t \<Rightarrow> if now - t > timeout then Some (MessageStateTimeout, False)
                       else enqueue_rounds timeout (Some t) rounds)"

definition message_Enqueue :: "int \<Rightarrow> (bool \<times> int) list \<Rightarrow> (message_state \<times> bool) option" where
  "message_Enqueue timeout rounds =
     (if timeout = 0 then (if \<exists>r\<in>set rounds. fst r then Some (MessageStateOk, True) else None)
      else enqueue_rounds timeout None rounds)"

subsection \<open>Serialization\<close>

record serialized_message =
  s_StreamID :: "u64 option"
  s_PrevStreamID :: "u64 option"
  s_Timestamp :: "int option"
  s_Sequence :: "u64 option"
  s_Data :: "bytes option"

definition proto_get :: "'a \<Rightarrow> 'a option \<Rightarrow> 'a" where
  "proto_get zero v = (case v of Some x \<Rightarrow> x | None \<Rightarrow> zero)"

definition Serialize :: "(serialized_message \<Rightarrow> bytes option) \<Rightarrow> message \<Rightarrow> bytes option" where
  "Serialize marshal msg =
     marshal \<lparr>s_StreamID = Some (m_StreamID msg), s_PrevStreamID = Some (m_PrevStreamID msg),
              s_Timestamp = Some (m_Timestamp msg), s_Sequence = Some (m_Sequence msg),
              s_Data = Some (m_Data msg)\<rparr>"

text \<open>\<open>unmarshal\<close> answers what it decoded and whether it succeeded; the message is built either way.\<close>

definition DeserializeMessage :: "(bytes \<Rightarrow> serialized_message \<times> bool) \<Rightarrow> bytes \<Rightarrow> message \<times> bool" where
  "DeserializeMessage unmarshal data =
     (let (s, ok) = unmarshal data
      in (\<lparr>m_Data = proto_get [] (s_Data s), m_StreamID = proto_get 0 (s_StreamID s),
           m_PrevStreamID = proto_get 0 (s_PrevStreamID s), m_Source = None,
           m_Timestamp = proto_get 0 (s_Timestamp s), m_Sequence = proto_get 0 (s_Sequence s)\<rparr>, ok))"

subsection \<open>Lemmas\<close>

lemma enqueue_rounds_started:
  "enqueue_rounds timeout (Some t) rounds = Some r \<Longrightarrow>
   (r = (MessageStateOk, True) \<and> (\<exists>x\<in>set rounds. fst x)) \<or>
   (r = (MessageStateTimeout, False) \<and> (\<exists>x\<in>set rounds. \<not> fst x \<and> snd x - t > timeout))"
  by (induction rounds) (auto split: if_splits)

lemma enqueue_rounds_ends:
  "x \<in> set rounds \<Longrightarrow> fst x \<or> snd x - t > timeout \<Longrightarrow> enqueue_rounds timeout (Some t) rounds \<noteq> None"
  by (induction rounds) auto

subsection \<open>Properties\<close>

text \<open>With a positive timeout \<open>Enqueue\<close> ends as soon as there is room or the timeout has
  passed since the first failed round; it reports success exactly when the message was sent, it never
  reports a discard, and a timeout only after more than the timeout has passed.\<close>

theorem message_Enqueue_timeout:
  assumes "0 < timeout" "rounds = (room, t0) # rest"
  shows "(message_Enqueue timeout rounds = None \<longleftrightarrow>
            \<not> (\<exists>x\<in>set rounds. fst x) \<and> (\<forall>x\<in>set rest. snd x - t0 \<le> timeout)) \<and>
    (\<forall>st sent. message_Enqueue timeout rounds = Some (st, sent) \<longrightarrow>
       (sent \<longleftrightarrow> st = MessageStateOk) \<and> st \<noteq> MessageStateDiscard \<and>
       (st = MessageStateTimeout \<longrightarrow> (\<exists>x\<in>set rest. snd x - t0 > timeout)))"
proof -
  have none: "enqueue_rounds timeout (Some t0) rest = None \<longleftrightarrow>
      \<not> (\<exists>x\<in>set rest. fst x) \<and> (\<forall>x\<in>set rest. snd x - t0 \<le> timeout)"
  proof
    assume "enqueue_rounds timeout (Some t0) rest = None"
    then show "\<not> (\<exists>x\<in>set rest. fst x) \<and> (\<forall>x\<in>set rest. snd x - t0 \<le> timeout)"
      using enqueue_rounds_ends [where rounds = rest and t = t0 and timeout = timeout] by force
  next
    assume "\<not> (\<exists>x\<in>set rest. fst x) \<and> (\<forall>x\<in>set rest. snd x - t0 \<le> timeout)"
    then show "enqueue_rounds timeout (Some t0) rest = None"
      by (cases "enqueue_rounds timeout (Some t0) rest") (fastforce dest: enqueue_rounds_started)+
  qed
  show ?thesis
  proof (cases room)
    case False
    with assms none show ?thesis
      by (auto simp: message_Enqueue_def dest: enqueue_rounds_started)
  qed (use assms in \<open>auto simp: message_Enqueue_def\<close>)
qed

theorem message_Enqueue_timeout_witness:
  "message_Enqueue 10 [(False, 100), (False, 105), (False, 111)] = Some (MessageStateTimeout, False)"
proof -
  from message_Enqueue_timeout [of 10 "[(False, 100), (False, 105), (False, 111)]" False 100
      "[(False, 105), (False, 111)]"]
  have "message_Enqueue 10 [(False, 100), (False, 105), (False, 111)] \<noteq> None" by simp
  then show ?thesis by (simp add: message_Enqueue_def)
qed

text \<open>A message that is serialized and read back keeps its data, streams, time stamp and
  sequence number and loses its source, for every codec that decodes what it encodes.\<close>

theorem message_Serialize_roundtrip:
  assumes "\<And>x y. marshal x = Some y \<Longrightarrow> unmarshal y = (x, True)"
    and "Serialize marshal msg = Some data"
  shows "DeserializeMessage unmarshal data = (msg\<lparr>m_Source := None\<rparr>, True)"
  using assms(1) [OF assms(2) [unfolded Serialize_def]]
  by (simp add: DeserializeMessage_def proto_get_def)

definition toy_marshal :: "serialized_message \<Rightarrow> bytes option" where
  "toy_marshal s = (if s = \<lparr>s_StreamID = Some 1, s_PrevStreamID = Some 2, s_Timestamp = Some 3,
     s_Sequence = Some 4, s_Data = Some ''x''\<rparr> then Some ''encoded'' else None)"

theorem message_Serialize_roundtrip_witness:
  "DeserializeMessage (\<lambda>d. (\<lparr>s_StreamID = Some 1, s_PrevStreamID = Some 2, s_Timestamp = Some 3,
      s_Sequence = Some 4, s_Data = Some ''x''\<rparr>, True)) ''encoded'' =
   (\<lparr>m_Data = ''x'', m_StreamID = 1, m_PrevStreamID = 2, m_Source = None, m_Timestamp = 3, m_Sequence = 4\<rparr>, True)"
proof -
  let ?s = "\<lparr>s_StreamID = Some 1, s_PrevStreamID = Some 2, s_Timestamp = Some 3, s_Sequence = Some 4, s_Data = Some ''x''\<rparr>"
  let ?m = "\<lparr>m_Data = ''x'', m_StreamID = 1, m_PrevStreamID = 2, m_Source = None, m_Timestamp = 3, m_Sequence = 4\<rparr>"
  have codec: "toy_marshal x = Some y \<Longrightarrow> (\<lambda>d. (?s, True)) y = (x, True)" for x y
    by (auto simp: toy_marshal_def split: if_splits)
  have "Serialize toy_marshal ?m = Some ''encoded''" by (simp add: Serialize_def toy_marshal_def)
  from message_Serialize_roundtrip [OF codec this] show ?thesis by simp
qed

end
