(* ===== verification/SyncPrims.thy ===== *)
theory SyncPrims
  imports Prelude
begin

text \<open>
  The synchronisation helpers of \<open>shared\<close>: \<open>waitgroup.go\<close>, \<open>spinner.go\<close>,
  \<open>mutex.go\<close> and \<open>fuse.go\<close>. Every atomic operation is one step; a spinning loop is a
  process that stays where it is until its test succeeds. Mutex and fuse are step relations over any
  number of processes.
\<close>

subsection \<open>Wait group\<close>

record wait_group = counter :: "32 word"

definition wg_Active :: "wait_group \<Rightarrow> bool" where
  "wg_Active wg \<longleftrightarrow> sint (counter wg) > 0"

definition wg_Add :: "wait_group \<Rightarrow> int \<Rightarrow> wait_group" where
  "wg_Add wg delta = wg\<lparr>counter := counter wg + of_int delta\<rparr>"

definition wg_Inc :: "wait_group \<Rightarrow> wait_group" where "wg_Inc wg = wg\<lparr>counter := counter wg + 1\<rparr>"

definition wg_Done :: "wait_group \<Rightarrow> wait_group" where "wg_Done wg = wg\<lparr>counter := counter wg - 1\<rparr>"

definition wg_Reset :: "wait_group \<Rightarrow> wait_group" where "wg_Reset wg = wg\<lparr>counter := 0\<rparr>"

text \<open>One turn of \<open>IncWhenDone\<close>: \<open>None\<close> while it keeps spinning.\<close>

definition wg_IncWhenDone :: "wait_group \<Rightarrow> wait_group option" where
  "wg_IncWhenDone wg = (if counter wg = 0 then Some (wg\<lparr>counter := 1\<rparr>) else None)"

text \<open>
  \<open>WaitFor\<close>: each round is the group and the time the loop sees. \<open>Wait\<close> is the call with
  timeout 0.
\<close>

fun waitfor_rounds :: "int \<Rightarrow> int \<Rightarrow> (wait_group \<times> int) list \<Rightarrow> bool option" where
  "waitfor_rounds timeout start [] = None"
| "waitfor_rounds timeout start ((wg, now) # rounds) =
     (if \<not> wg_Active wg then Some True
      else if timeout \<noteq> 0 \<and> now - start > timeout then Some False
      else waitfor_rounds timeout start rounds)"

definition wg_Wait :: "(wait_group \<times> int) list \<Rightarrow> bool option" where
  "wg_Wait rounds = waitfor_rounds 0 0 rounds"

definition wg_WaitFor :: "int \<Rightarrow> int \<Rightarrow> (wait_group \<times> int) list \<Rightarrow> bool option" where
  "wg_WaitFor timeout start rounds =
     (if timeout = 0 then wg_Wait rounds else waitfor_rounds timeout start rounds)"

subsection \<open>Spinner\<close>

record spinner =
  sp_count :: u32
  sp_priority :: u32

definition SpinPrioritySuspend :: u32 where "SpinPrioritySuspend = 1"
definition SpinPriorityLow :: u32 where "SpinPriorityLow = 100"
definition SpinPriorityMedium :: u32 where "SpinPriorityMedium = 500"
definition SpinPriorityHigh :: u32 where "SpinPriorityHigh = 1000"
definition SpinPriorityRealtime :: u32 where "SpinPriorityRealtime = 0xFFFFFFFF"

lemmas spin_priorities = SpinPrioritySuspend_def SpinPriorityLow_def SpinPriorityMedium_def
  SpinPriorityHigh_def SpinPriorityRealtime_def

datatype yielded = Gosched | SleepMs nat

definition NewSpinner :: "u32 \<Rightarrow> spinner" where
  "NewSpinner priority = \<lparr>sp_count = 0, sp_priority = priority\<rparr>"

definition Yield :: "spinner \<Rightarrow> yielded \<times> spinner" where
  "Yield spin =
     (if sp_count spin \<ge> sp_priority spin then
        (if sp_priority spin = SpinPrioritySuspend then SleepMs 1000
         else if sp_priority spin = SpinPriorityLow then SleepMs 200
         else if sp_priority spin = SpinPriorityMedium then SleepMs 100
         else if sp_priority spin = SpinPriorityHigh then SleepMs 10
         else Gosched, spin\<lparr>sp_count := 0\<rparr>)
      else (Gosched, spin\<lparr>sp_count := sp_count spin + 1\<rparr>))"

definition spinner_Reset :: "spinner \<Rightarrow> spinner" where
  "spinner_Reset spin = spin\<lparr>sp_count := 0\<rparr>"

fun yields :: "nat \<Rightarrow> spinner \<Rightarrow> yielded list" where
  "yields 0 spin = []"
| "yields (Suc n) spin = (let (y, spin) = Yield spin in y # yields n spin)"

lemma yields_below:
  "unat (sp_count spin) + n \<le> unat (sp_priority spin) \<Longrightarrow> yields n spin = replicate n Gosched"
proof (induction n arbitrary: spin)
  case (Suc n)
  then have lt: "unat (sp_count spin) < unat (sp_priority spin)" by simp
  then have "\<not> sp_priority spin \<le> sp_count spin" by (simp add: word_le_nat_alt)
  then have y: "Yield spin = (Gosched, spin\<lparr>sp_count := sp_count spin + 1\<rparr>)" by (simp add: Yield_def)
  have "unat (sp_priority spin) < 2 ^ 32" using unsigned_less [of "sp_priority spin"] by simp
  with lt have "unat (sp_count spin + 1) = Suc (unat (sp_count spin))" by (simp add: unat_word_ariths)
  with y Suc show ?case by simp
qed simp

subsection \<open>Mutex\<close>

datatype mutex_pc = MOutside | MLocking | MInside

record mutex_state =
  mx_state :: "32 word"
  mx_pc :: "nat \<Rightarrow> mutex_pc"

text \<open>\<open>Lock\<close> spins on a compare-and-swap, \<open>Unlock\<close> is a store by the process inside.\<close>

inductive mutex_step :: "mutex_state \<Rightarrow> mutex_state \<Rightarrow> bool" where
  call_Lock: "mx_pc s p = MOutside \<Longrightarrow> mutex_step s (s\<lparr>mx_pc := (mx_pc s)(p := MLocking)\<rparr>)"
| cas_ok: "mx_pc s p = MLocking \<Longrightarrow> mx_state s = 0 \<Longrightarrow>
    mutex_step s (s\<lparr>mx_state := 1, mx_pc := (mx_pc s)(p := MInside)\<rparr>)"
| cas_fails: "mx_pc s p = MLocking \<Longrightarrow> mx_state s \<noteq> 0 \<Longrightarrow> mutex_step s s"
| Unlock: "mx_pc s p = MInside \<Longrightarrow>
    mutex_step s (s\<lparr>mx_state := 0, mx_pc := (mx_pc s)(p := MOutside)\<rparr>)"

definition mutex_init :: mutex_state where
  "mutex_init = \<lparr>mx_state = 0, mx_pc = (\<lambda>p. MOutside)\<rparr>"

definition mutex_inv :: "mutex_state \<Rightarrow> bool" where
  "mutex_inv s \<longleftrightarrow> (mx_state s = 0 \<longrightarrow> (\<forall>p. mx_pc s p \<noteq> MInside)) \<and>
     (mx_state s \<noteq> 0 \<longrightarrow> mx_state s = 1 \<and> (\<exists>!p. mx_pc s p = MInside))"

lemma mutex_inv_step: "mutex_step s s' \<Longrightarrow> mutex_inv s \<Longrightarrow> mutex_inv s'"
proof (induction rule: mutex_step.induct)
  case (Unlock s p)
  then have "q = p" if "mx_pc s q = MInside" for q using that by (auto simp: mutex_inv_def)
  then show ?case by (auto simp: mutex_inv_def)
next
  case (call_Lock s p)
  then have "((mx_pc s)(p := MLocking)) q = MInside \<longleftrightarrow> mx_pc s q = MInside" for q by auto
  with call_Lock show ?case by (simp add: mutex_inv_def)
qed (auto simp: mutex_inv_def split: if_splits)

lemma mutex_inv_init: "mutex_inv mutex_init"
  by (simp add: mutex_init_def mutex_inv_def)

lemma mutex_reachable: "mutex_step\<^sup>*\<^sup>* mutex_init s \<Longrightarrow> mutex_inv s"
  by (induction rule: rtranclp_induct) (auto intro: mutex_inv_step mutex_inv_init)

subsection \<open>Fuse\<close>

text \<open>
  A waiter tests \<open>burned\<close> under the condition's lock and only then joins the wait list (\<open>FChecked\<close>
  is the point in between); \<open>Activate\<close> swaps the flag and broadcasts without that lock.
\<close>

datatype fuse_pc = FOut | FLocked | FChecked | FWaiting | FPassed

record fuse_state =
  fu_burned :: "32 word"
  fu_lock :: "nat option"
  fu_pc :: "nat \<Rightarrow> fuse_pc"
  fu_broadcast :: bool

definition NewFuse :: fuse_state where
  "NewFuse = \<lparr>fu_burned = 0, fu_lock = None, fu_pc = (\<lambda>p. FOut), fu_broadcast = False\<rparr>"

definition IsBurned :: "fuse_state \<Rightarrow> bool" where
  "IsBurned s \<longleftrightarrow> fu_burned s = 1"

definition Burn :: "fuse_state \<Rightarrow> fuse_state" where
  "Burn s = s\<lparr>fu_burned := 1\<rparr>"

text \<open>\<open>fu_broadcast\<close> is a swap that has happened and whose broadcast has not.\<close>

definition Activate_swap :: "fuse_state \<Rightarrow> fuse_state" where
  "Activate_swap s = (if fu_burned s = 1 then s\<lparr>fu_burned := 0, fu_broadcast := True\<rparr> else s)"

definition Broadcast_all :: "fuse_state \<Rightarrow> fuse_state" where
  "Broadcast_all s = s\<lparr>fu_broadcast := False, fu_pc := (\<lambda>p. if fu_pc s p = FWaiting then FPassed else fu_pc s p)\<rparr>"

inductive fuse_step :: "fuse_state \<Rightarrow> fuse_state \<Rightarrow> bool" where
  f_burn: "fuse_step s (Burn s)"
| f_swap: "fuse_step s (Activate_swap s)"
| f_broadcast: "fu_broadcast s \<Longrightarrow> fuse_step s (Broadcast_all s)"
| w_lock: "fu_pc s p = FOut \<Longrightarrow> fu_lock s = None \<Longrightarrow>
    fuse_step s (s\<lparr>fu_lock := Some p, fu_pc := (fu_pc s)(p := FLocked)\<rparr>)"
| w_active: "fu_pc s p = FLocked \<Longrightarrow> \<not> IsBurned s \<Longrightarrow>
    fuse_step s (s\<lparr>fu_lock := None, fu_pc := (fu_pc s)(p := FPassed)\<rparr>)"
| w_burned: "fu_pc s p = FLocked \<Longrightarrow> IsBurned s \<Longrightarrow> fuse_step s (s\<lparr>fu_pc := (fu_pc s)(p := FChecked)\<rparr>)"
| w_sleep: "fu_pc s p = FChecked \<Longrightarrow>
    fuse_step s (s\<lparr>fu_lock := None, fu_pc := (fu_pc s)(p := FWaiting)\<rparr>)"

definition fuse_inv :: "fuse_state \<Rightarrow> bool" where
  "fuse_inv s \<longleftrightarrow> (fu_burned s = 0 \<or> fu_burned s = 1) \<and>
     (\<forall>p. fu_pc s p = FLocked \<or> fu_pc s p = FChecked \<longleftrightarrow> fu_lock s = Some p)"

lemma fuse_inv_step: "fuse_step s s' \<Longrightarrow> fuse_inv s \<Longrightarrow> fuse_inv s'"
proof (induction rule: fuse_step.induct)
  case (w_active s p)
  then have "fu_lock s = Some p" unfolding fuse_inv_def by metis
  with w_active show ?case by (auto simp: fuse_inv_def)
next
  case (w_burned s p)
  then have "fu_lock s = Some p" unfolding fuse_inv_def by metis
  with w_burned show ?case by (auto simp: fuse_inv_def)
next
  case (w_sleep s p)
  then have "fu_lock s = Some p" unfolding fuse_inv_def by metis
  with w_sleep show ?case by (auto simp: fuse_inv_def)
next
  case (f_broadcast s)
  have "fu_pc (Broadcast_all s) p = FLocked \<or> fu_pc (Broadcast_all s) p = FChecked \<longleftrightarrow>
      fu_pc s p = FLocked \<or> fu_pc s p = FChecked" for p by (simp add: Broadcast_all_def)
  with f_broadcast show ?case by (simp add: fuse_inv_def Broadcast_all_def)
qed (auto simp: fuse_inv_def Burn_def Activate_swap_def Broadcast_all_def)

lemma fuse_inv_init: "fuse_inv NewFuse"
  by (simp add: NewFuse_def fuse_inv_def)

lemma fuse_reachable: "fuse_step\<^sup>*\<^sup>* NewFuse s \<Longrightarrow> fuse_inv s"
  by (induction rule: rtranclp_induct) (auto intro: fuse_inv_step fuse_inv_init)

text \<open>The lost wake-up: burn, a waiter checks, activate and broadcast, the waiter goes to sleep.\<close>

definition lost_wakeup :: fuse_state where
  "lost_wakeup = NewFuse\<lparr>fu_pc := (\<lambda>p. if p = 0 then FWaiting else FOut)\<rparr>"

lemma lost_wakeup_reachable: "fuse_step\<^sup>*\<^sup>* NewFuse lost_wakeup"
proof -
  let ?pc = "\<lambda>x p. if p = (0::nat) then x else FOut"
  let ?s = "\<lambda>b l x c. \<lparr>fu_burned = b, fu_lock = l, fu_pc = ?pc x, fu_broadcast = c\<rparr>"
  have "NewFuse = ?s 0 None FOut False" by (simp add: NewFuse_def)
  moreover have "fuse_step (?s 0 None FOut False) (?s 1 None FOut False)"
    using f_burn [of "?s 0 None FOut False"] by (simp add: Burn_def)
  moreover have "fuse_step (?s 1 None FOut False) (?s 1 (Some 0) FLocked False)"
    using w_lock [of "?s 1 None FOut False" 0] by (simp add: fun_upd_def if_distrib cong: if_cong)
  moreover have "fuse_step (?s 1 (Some 0) FLocked False) (?s 1 (Some 0) FChecked False)"
    using w_burned [of "?s 1 (Some 0) FLocked False" 0] by (simp add: fun_upd_def IsBurned_def cong: if_cong)
  moreover have "fuse_step (?s 1 (Some 0) FChecked False) (?s 0 (Some 0) FChecked True)"
    using f_swap [of "?s 1 (Some 0) FChecked False"] by (simp add: Activate_swap_def)
  moreover have "fuse_step (?s 0 (Some 0) FChecked True) (?s 0 (Some 0) FChecked False)"
  proof -
    have "Broadcast_all (?s 0 (Some 0) FChecked True) = ?s 0 (Some 0) FChecked False"
      by (auto simp: Broadcast_all_def)
    with f_broadcast [of "?s 0 (Some 0) FChecked True"] show ?thesis by simp
  qed
  moreover have "fuse_step (?s 0 (Some 0) FChecked False) (?s 0 None FWaiting False)"
    using w_sleep [of "?s 0 (Some 0) FChecked False" 0] by (simp add: fun_upd_def cong: if_cong)
  moreover have "?s 0 None FWaiting False = lost_wakeup" by (simp add: lost_wakeup_def NewFuse_def)
  ultimately show ?thesis by (metis (no_types, lifting) rtranclp.simps)
qed

text \<open>Nothing but another burn and activation wakes a waiter: activating an active fuse is ignored.\<close>

lemma active_fuse_stays:
  assumes "fuse_step s s'" "fu_burned s = 0" "\<not> fu_broadcast s" "fu_pc s p = FWaiting"
  shows "fu_pc s' p = FWaiting \<and> \<not> fu_broadcast s'"
  using assms by (cases rule: fuse_step.cases) (auto simp: Burn_def Activate_swap_def)

subsection \<open>Properties\<close>

text \<open>The mutex excludes: in every reachable state at most one process is between \<open>Lock\<close> and
  \<open>Unlock\<close>, and the state word is 1 exactly when there is one.\<close>

theorem mutex_excludes:
  assumes "mutex_step\<^sup>*\<^sup>* mutex_init s"
  shows "(mx_pc s p = MInside \<and> mx_pc s q = MInside \<longrightarrow> p = q) \<and> (mx_state s = 1 \<longleftrightarrow> (\<exists>p. mx_pc s p = MInside))"
  using mutex_reachable [OF assms] unfolding mutex_inv_def by (metis zero_neq_one)

theorem mutex_excludes_witness:
  "\<exists>s. mutex_step\<^sup>*\<^sup>* mutex_init s \<and> mx_pc s 1 = MInside \<and> mx_pc s 2 = MLocking \<and> mx_state s = 1"
proof -
  let ?a = "mutex_init\<lparr>mx_pc := (mx_pc mutex_init)(1 := MLocking)\<rparr>"
  let ?b = "?a\<lparr>mx_pc := (mx_pc ?a)(2 := MLocking)\<rparr>"
  let ?c = "?b\<lparr>mx_state := 1, mx_pc := (mx_pc ?b)(1 := MInside)\<rparr>"
  have "mutex_step mutex_init ?a" by (rule call_Lock) (simp add: mutex_init_def)
  moreover have "mutex_step ?a ?b" by (rule call_Lock) (simp add: mutex_init_def)
  moreover have "mutex_step ?b ?c" by (rule cas_ok) (simp_all add: mutex_init_def)
  ultimately have r: "mutex_step\<^sup>*\<^sup>* mutex_init ?c"
    by (rule rtranclp.rtrancl_into_rtrancl [OF rtranclp.rtrancl_into_rtrancl [OF r_into_rtranclp]])
  have in1: "\<exists>p. mx_pc ?c p = MInside" by (rule exI [of _ 1]) simp
  have "mx_state ?c = 1" by (rule iffD2 [OF conjunct2 [OF mutex_excludes [OF r, of 1 2]] in1])
  with r show ?thesis by (intro exI [of _ ?c] conjI) simp_all
qed

text \<open>A fuse can lose a wake-up: a state is reachable in which the fuse is active, no broadcast is
  under way and a waiter sleeps, and no step other than a new burn changes that.\<close>

theorem fuse_lost_wakeup:
  "\<exists>s. fuse_step\<^sup>*\<^sup>* NewFuse s \<and> \<not> IsBurned s \<and> \<not> fu_broadcast s \<and> fu_pc s 0 = FWaiting \<and>
     (\<forall>s'. fuse_step s s' \<and> s' \<noteq> Burn s \<longrightarrow> fu_pc s' 0 = FWaiting \<and> \<not> IsBurned s' \<and> \<not> fu_broadcast s')"
proof (intro exI [of _ lost_wakeup] conjI allI impI lost_wakeup_reachable)
  show "\<not> IsBurned lost_wakeup" "\<not> fu_broadcast lost_wakeup" "fu_pc lost_wakeup 0 = FWaiting"
    by (simp_all add: lost_wakeup_def NewFuse_def IsBurned_def)
  fix s' assume s: "fuse_step lost_wakeup s' \<and> s' \<noteq> Burn lost_wakeup"
  then have "fu_pc s' 0 = FWaiting \<and> \<not> fu_broadcast s'"
    by (intro active_fuse_stays [of lost_wakeup]) (simp_all add: lost_wakeup_def NewFuse_def)
  then show "fu_pc s' 0 = FWaiting" "\<not> fu_broadcast s'" by simp_all
  from s have st: "fuse_step lost_wakeup s'" and ne: "s' \<noteq> Burn lost_wakeup" by simp_all
  from st show "\<not> IsBurned s'"
    by (cases rule: fuse_step.cases)
       (use ne in \<open>auto simp: lost_wakeup_def NewFuse_def IsBurned_def Activate_swap_def Broadcast_all_def\<close>)
qed

theorem fuse_lost_wakeup_witness:
  "\<exists>s. fuse_step\<^sup>*\<^sup>* NewFuse s \<and> \<not> IsBurned s \<and> fu_pc s 0 = FWaiting"
  using fuse_lost_wakeup by blast

text \<open>A new spinner yields the processor as many times as its priority before it can sleep.\<close>

theorem spinner_yields_priority_times:
  "yields (unat prio) (NewSpinner prio) = replicate (unat prio) Gosched"
  by (intro yields_below) (simp add: NewSpinner_def)

end
