(* ===== verification/Utilities.thy ===== *)
theory Utilities
  imports GoStrings "HOL-Library.List_Lexorder" "HOL-Library.Product_Lexorder" "HOL-Library.Char_ord"
begin

text \<open>
  The helper functions of \<open>shared/utilities.go\<close>: minima and maxima, writing and reading
  decimal numbers in byte buffers, \<open>IndexN\<close> and \<open>LastIndexN\<close>, address and escape
  handling and the listing of files by date. A regular expression is the predicate it decides; a
  directory listing is the list of its entries.
\<close>

subsection \<open>Minima and maxima\<close>

definition MaxI :: "int \<Rightarrow> int \<Rightarrow> int" where
  "MaxI a b = (if a > b then a else b)"

definition Max3I :: "int \<Rightarrow> int \<Rightarrow> int \<Rightarrow> int" where
  "Max3I a b c = (let m = a; m = (if b > m then b else m) in if c > m then c else m)"

definition MinI :: "int \<Rightarrow> int \<Rightarrow> int" where
  "MinI a b = (if a < b then a else b)"

definition Min3I :: "int \<Rightarrow> int \<Rightarrow> int \<Rightarrow> int" where
  "Min3I a b c = (let m = a; m = (if b < m then b else m) in if c < m then c else m)"

lemma MaxI_max [simp]: "MaxI a b = max a b" by (auto simp: MaxI_def)
lemma MinI_min [simp]: "MinI a b = min a b" by (auto simp: MinI_def)
lemma Max3I_max [simp]: "Max3I a b c = max a (max b c)" by (auto simp: Max3I_def Let_def)
lemma Min3I_min [simp]: "Min3I a b c = min a (min b c)" by (auto simp: Min3I_def Let_def)

subsection \<open>Numbers in byte buffers\<close>

text \<open>
  \<open>Itob\<close> takes the digit count from \<open>ItoLen\<close>, which rounds a floating point
  logarithm; that count is the parameter \<open>numberLen\<close>.
\<close>

fun itob_loop :: "nat \<Rightarrow> nat \<Rightarrow> bytes \<Rightarrow> bytes" where
  "itob_loop 0 number buffer = buffer"
| "itob_loop (Suc i) number buffer =
     itob_loop i (number div 10) (buffer[i := base_digit (number mod 10)])"

definition Itob :: "(u64 \<Rightarrow> nat) \<Rightarrow> u64 \<Rightarrow> bytes \<Rightarrow> bytes \<times> bool" where
  "Itob itoLen number buffer =
     (let numberLen = itoLen number
      in if numberLen > length buffer then (buffer, False)
         else (itob_loop numberLen (unat number) buffer, True))"

text \<open>\<open>Itobe\<close> stops as soon as the number is used up; it returns the buffer and whether the
  number fitted.\<close>

fun itobe_loop :: "nat \<Rightarrow> nat \<Rightarrow> bytes \<Rightarrow> bytes \<times> bool" where
  "itobe_loop 0 number buffer = (buffer, False)"
| "itobe_loop (Suc i) number buffer =
     (let buffer = buffer[i := base_digit (number mod 10)];
          number = number div 10
      in if number = 0 then (buffer, True) else itobe_loop i number buffer)"

definition Itobe :: "u64 \<Rightarrow> bytes \<Rightarrow> bytes \<times> bool" where
  "Itobe number buffer = itobe_loop (length buffer) (unat number) buffer"

fun btoi_loop :: "bytes \<Rightarrow> u64 \<Rightarrow> nat \<Rightarrow> u64 \<times> nat" where
  "btoi_loop [] number index = (number, index)"
| "btoi_loop (c # cs) number index =
     (if is_digit c then btoi_loop cs (number * 10 + of_nat (digit_val c)) (Suc index)
      else (number, index))"

definition Btoi :: "bytes \<Rightarrow> u64 \<times> nat" where
  "Btoi buffer = btoi_loop buffer 0 0"

lemma btoi_loop_eq:
  "btoi_loop s (of_nat m) k =
     (of_nat (foldl (\<lambda>n c. 10 * n + digit_val c) m (takeWhile is_digit s)), k + length (takeWhile is_digit s))"
proof (induction s arbitrary: m k)
  case (Cons c s)
  have "(of_nat m :: u64) * 10 + of_nat (digit_val c) = of_nat (10 * m + digit_val c)" by simp
  with Cons show ?case by (simp del: of_nat_add of_nat_mult)
qed simp

lemma Btoi_eq:
  "Btoi s = (of_nat (dec_value (takeWhile is_digit s)), length (takeWhile is_digit s))"
  using btoi_loop_eq [of s 0 0] by (simp add: Btoi_def dec_value_def)

lemma takeWhile_digits_append:
  assumes "list_all is_digit ds" "rest = [] \<or> \<not> is_digit (hd rest)"
  shows "takeWhile is_digit (ds @ rest) = ds"
proof -
  have "takeWhile is_digit rest = []" using assms(2) by (cases rest) auto
  then show ?thesis using assms(1) by (simp add: takeWhile_append list_all_iff)
qed

lemma Btoi_format_uint:
  assumes "rest = [] \<or> \<not> is_digit (hd rest)"
  shows "Btoi (format_uint n 10 @ rest) = (of_nat n, length (format_uint n 10))"
  using takeWhile_digits_append [OF format_uint_digits assms]
  by (simp add: Btoi_eq dec_value_format_uint)

text \<open>The two writers agree with the decimal expansion.\<close>

lemma drop_update_Cons: "i < length xs \<Longrightarrow> drop i (xs[i := x]) = x # drop (Suc i) xs"
  by (simp add: list_update_nth_split)

lemma itobe_loop_eq:
  "length (format_uint n 10) \<le> i \<Longrightarrow> i \<le> length buf \<Longrightarrow>
   itobe_loop i n buf = (take (i - length (format_uint n 10)) buf @ format_uint n 10 @ drop i buf, True)"
proof (induction i arbitrary: n buf)
  case 0
  then show ?case by simp
next
  case (Suc i)
  show ?case
  proof (cases "n < 10")
    case True
    then have "format_uint n 10 = [base_digit n]" by (subst format_uint.simps) simp
    with True Suc.prems show ?thesis by (simp add: list_update_nth_split)
  next
    case False
    then have f: "format_uint n 10 = format_uint (n div 10) 10 @ [base_digit (n mod 10)]"
      by (subst format_uint.simps) simp
    let ?b = "buf[i := base_digit (n mod 10)]"
    have "itobe_loop (Suc i) n buf = itobe_loop i (n div 10) ?b" using False by (simp add: Let_def div_eq_0_iff)
    also have "\<dots> = (take (i - length (format_uint (n div 10) 10)) ?b @ format_uint (n div 10) 10 @ drop i ?b, True)"
      using Suc f by simp
    also have "drop i ?b = base_digit (n mod 10) # drop (Suc i) buf"
      using Suc.prems by (simp add: drop_update_Cons)
    also have "take (i - length (format_uint (n div 10) 10)) ?b = take (i - length (format_uint (n div 10) 10)) buf"
      by simp
    finally show ?thesis using f by simp
  qed
qed

lemma itob_loop_eq:
  "length (format_uint n 10) \<le> length buf \<Longrightarrow>
   itob_loop (length (format_uint n 10)) n buf = format_uint n 10 @ drop (length (format_uint n 10)) buf"
proof (induction n arbitrary: buf rule: less_induct)
  case (less n)
  show ?case
  proof (cases "n < 10")
    case True
    then have "format_uint n 10 = [base_digit n]" by (subst format_uint.simps) simp
    with True less.prems show ?thesis by (cases buf) auto
  next
    case False
    then have f: "format_uint n 10 = format_uint (n div 10) 10 @ [base_digit (n mod 10)]"
      by (subst format_uint.simps) simp
    let ?k = "length (format_uint (n div 10) 10)"
    let ?b = "buf[?k := base_digit (n mod 10)]"
    have "itob_loop (Suc ?k) n buf = itob_loop ?k (n div 10) ?b" by simp
    also have "\<dots> = format_uint (n div 10) 10 @ drop ?k ?b"
      using less False f by simp
    also have "drop ?k ?b = base_digit (n mod 10) # drop (Suc ?k) buf"
      using less.prems f by (simp add: drop_update_Cons)
    finally show ?thesis using f by simp
  qed
qed

lemma itobe_loop_fails:
  "i < length (format_uint n 10) \<Longrightarrow> \<not> snd (itobe_loop i n buf)"
proof (induction i arbitrary: n buf)
  case (Suc i)
  show ?case
  proof (cases "n < 10")
    case True
    then have "format_uint n 10 = [base_digit n]" by (subst format_uint.simps) simp
    with Suc.prems show ?thesis by simp
  next
    case False
    then have "format_uint n 10 = format_uint (n div 10) 10 @ [base_digit (n mod 10)]"
      by (subst format_uint.simps) simp
    with Suc False show ?thesis by (simp add: Let_def)
  qed
qed simp

subsection \<open>The n-th separator\<close>

text \<open>\<open>s[sepIdx:]\<close> panics when \<open>sepIdx\<close> is past the end (an empty separator); the
  result is \<open>-1\<close> when there are fewer than \<open>n\<close> separators.\<close>

fun indexN_loop :: "nat \<Rightarrow> bytes \<Rightarrow> bytes \<Rightarrow> nat \<Rightarrow> int run" where
  "indexN_loop 0 s sep sepIdx = Inr (int sepIdx - 1)"
| "indexN_loop (Suc n) s sep sepIdx =
     (if sepIdx > length s then Inl SliceOutOfRange
      else case str_index (drop sepIdx s) sep of
             None \<Rightarrow> Inr (- 1)
           | Some nextIdx \<Rightarrow> indexN_loop n s sep (sepIdx + nextIdx + 1))"

definition IndexN :: "bytes \<Rightarrow> bytes \<Rightarrow> nat \<Rightarrow> int run" where
  "IndexN s sep n = indexN_loop n s sep 0"

fun lastIndexN_loop :: "nat \<Rightarrow> bytes \<Rightarrow> bytes \<Rightarrow> nat \<Rightarrow> int" where
  "lastIndexN_loop 0 s sep sepIdx = int sepIdx"
| "lastIndexN_loop (Suc n) s sep sepIdx =
     (case str_last_index (take sepIdx s) sep of
        None \<Rightarrow> - 1
      | Some i \<Rightarrow> lastIndexN_loop n s sep i)"

definition LastIndexN :: "bytes \<Rightarrow> bytes \<Rightarrow> nat \<Rightarrow> int" where
  "LastIndexN s sep n = (if n = 0 then - 1 else lastIndexN_loop n s sep (length s))"

lemma indexN_loop_safe:
  "sep \<noteq> [] \<Longrightarrow> sepIdx \<le> length s \<Longrightarrow> \<exists>r. indexN_loop n s sep sepIdx = Inr r \<and> r < int (length s)"
proof (induction n arbitrary: sepIdx)
  case (Suc n)
  show ?case
  proof (cases "str_index (drop sepIdx s) sep")
    case None
    then show ?thesis using Suc.prems by simp
  next
    case (Some i)
    with str_index_Some [OF Some] Suc.prems have "sepIdx + i + 1 \<le> length s"
      by (cases sep) auto
    with Suc Some show ?thesis by simp
  qed
qed simp

lemma LastIndexN_bound: "LastIndexN s sep n \<le> int (length s)"
proof -
  have "lastIndexN_loop n s sep k \<le> int k" for k
  proof (induction n arbitrary: k)
    case (Suc n)
    show ?case
    proof (cases "str_last_index (take k s) sep")
      case (Some i)
      with str_last_index_Some [OF Some] have "i \<le> k" by simp
      with Suc [of i] Some show ?thesis by simp
    qed simp
  qed simp
  then show ?thesis by (simp add: LastIndexN_def)
qed

subsection \<open>Addresses and escapes\<close>

definition ParseAddress :: "bytes \<Rightarrow> bytes \<times> bytes" where
  "ParseAddress addressString =
     (case str_index addressString ''://'' of
        None \<Rightarrow> (addressString, ''tcp'')
      | Some protocolIdx \<Rightarrow>
          (drop (protocolIdx + 3) addressString, str_to_lower (take protocolIdx addressString)))"

definition simpleEscapeChars :: "(bytes \<times> bytes) list" where
  "simpleEscapeChars =
     [([CHR 0x5C, CHR ''n''], [CHR 0x0A]), ([CHR 0x5C, CHR ''r''], [CHR 0x0D]),
      ([CHR 0x5C, CHR ''t''], [CHR 0x09])]"

definition Unescape :: "bytes \<Rightarrow> bytes" where
  "Unescape text = replacer simpleEscapeChars text"

lemma Unescape_id: "CHR 0x5C \<notin> set text \<Longrightarrow> Unescape text = text"
  unfolding Unescape_def by (rule replacer_id) (auto simp: simpleEscapeChars_def)

text \<open>
  \<open>json.Marshal\<close> of a string, without the quotes: quotes and backslashes are escaped, line
  feed, carriage return and tab by name, other control characters and the HTML characters by code
  point. It never fails, so the fallback replacer of \<open>EscapeJSON\<close> is not reached.
\<close>

definition json_escape_char :: "char \<Rightarrow> bytes" where
  "json_escape_char c =
     (if c = CHR 0x22 \<or> c = CHR 0x5C then [CHR 0x5C, c]
      else if c = CHR 0x0A then [CHR 0x5C, CHR ''n'']
      else if c = CHR 0x0D then [CHR 0x5C, CHR ''r'']
      else if c = CHR 0x09 then [CHR 0x5C, CHR ''t'']
      else if (of_char c :: nat) < 32 \<or> c = CHR ''<'' \<or> c = CHR ''>'' \<or> c = CHR ''&''
        then [CHR 0x5C, CHR ''u'', CHR ''0'', CHR ''0'',
              base_digit (of_char c div 16), base_digit (of_char c mod 16)]
      else [c])"

definition EscapeJSON :: "bytes \<Rightarrow> bytes" where
  "EscapeJSON text = concat (map json_escape_char text)"

definition json_quote :: "bytes \<Rightarrow> bytes" where
  "json_quote text = [CHR 0x22] @ EscapeJSON text @ [CHR 0x22]"

text \<open>The reader of such a string, as a JSON parser does it: up to the first bare quote.\<close>

definition hex_val :: "char \<Rightarrow> nat" where
  "hex_val c = (if (of_char c :: nat) < 58 then of_char c - 48 else of_char c - 87)"

fun json_unquote :: "bytes \<Rightarrow> (bytes \<times> bytes) option" where
  "json_unquote [] = None"
| "json_unquote (c # s) =
     (if c = CHR 0x22 then Some ([], s)
      else if c = CHR 0x5C then
        (case s of
           [] \<Rightarrow> None
         | e # t \<Rightarrow>
             if e = CHR ''u'' then
               (case t of
                  a # b # x # y # r \<Rightarrow>
                    map_option (\<lambda>(v, z). (char_of (16 * hex_val x + hex_val y) # v, z)) (json_unquote r)
                | _ \<Rightarrow> None)
             else map_option (\<lambda>(v, z). ((if e = CHR ''n'' then CHR 0x0A
                                      else if e = CHR ''r'' then CHR 0x0D
                                      else if e = CHR ''t'' then CHR 0x09 else e) # v, z)) (json_unquote t))
      else map_option (\<lambda>(v, z). (c # v, z)) (json_unquote s))"

lemma hex_val_base_digit [simp]: "d < 16 \<Longrightarrow> hex_val (base_digit d) = d"
  by (auto simp: hex_val_def of_char_base_digit)

lemma json_unquote_escape_char:
  "json_unquote (json_escape_char c @ s) = map_option (\<lambda>(v, z). (c # v, z)) (json_unquote s)"
proof -
  have "16 * (of_char c div 16) + of_char c mod 16 = (of_char c :: nat)" by simp
  then have "char_of (16 * (of_char c div 16) + of_char c mod 16 :: nat) = c" by (metis char_of_char)
  moreover have "char_of (60 :: nat) = CHR ''<''" "char_of (62 :: nat) = CHR ''>''"
    "char_of (38 :: nat) = CHR ''&''" by code_simp+
  ultimately show ?thesis by (auto simp: json_escape_char_def)
qed

lemma json_unquote_escape: "json_unquote (EscapeJSON s @ CHR 0x22 # rest) = Some (s, rest)"
  by (induction s) (auto simp: EscapeJSON_def json_unquote_escape_char)

subsection \<open>Files by date\<close>

record file_info =
  fi_name :: bytes
  fi_modtime :: int
  fi_isdir :: bool
  fi_symlink :: bool
  fi_size :: int

definition FilesByDate_Less :: "file_info \<Rightarrow> file_info \<Rightarrow> bool" where
  "FilesByDate_Less a b =
     (if fi_modtime a = fi_modtime b then fi_name a < fi_name b else fi_modtime a < fi_modtime b)"

text \<open>\<open>sort.Sort(FilesByDate(files))\<close>: the order \<open>Less\<close> describes is the
  lexicographic order on (modification time, name).\<close>

definition ListFilesByDateMatching :: "(bytes \<Rightarrow> bool) \<Rightarrow> file_info list \<Rightarrow> file_info list" where
  "ListFilesByDateMatching matches files =
     filter (\<lambda>f. \<not> (fi_isdir f \<or> fi_symlink f) \<and> matches (fi_name f))
       (sort_key (\<lambda>f. (fi_modtime f, fi_name f)) files)"

lemma FilesByDate_Less_key:
  "FilesByDate_Less a b \<longleftrightarrow> (fi_modtime a, fi_name a) < (fi_modtime b, fi_name b)"
  by (auto simp: FilesByDate_Less_def less_prod_def)

subsection \<open>Paths, addresses and errors\<close>

text \<open>The last element of a slash separated path and its extension, as \<open>filepath.Base\<close> and \<open>filepath.Ext\<close> return
  them; \<open>clean\<close> is \<open>filepath.Clean\<close>.\<close>

definition last_element :: "bytes \<Rightarrow> bytes" where
  "last_element path = (case str_last_index path ''/'' of None \<Rightarrow> path | Some i \<Rightarrow> drop (Suc i) path)"

definition path_Ext :: "bytes \<Rightarrow> bytes" where
  "path_Ext path = (let e = last_element path in case str_last_index e ''.'' of None \<Rightarrow> [] | Some i \<Rightarrow> drop i e)"

definition path_Base :: "bytes \<Rightarrow> bytes" where
  "path_Base path =
     (if path = [] then ''.''
      else let p = rev (dropWhile (\<lambda>c. c = CHR ''/'') (rev path)) in if p = [] then ''/'' else last_element p)"

definition path_Dir :: "(bytes \<Rightarrow> bytes) \<Rightarrow> bytes \<Rightarrow> bytes" where
  "path_Dir clean path = clean (case str_last_index path ''/'' of None \<Rightarrow> [] | Some i \<Rightarrow> take (Suc i) path)"

definition SplitPath :: "(bytes \<Rightarrow> bytes) \<Rightarrow> bytes \<Rightarrow> (bytes \<times> bytes \<times> bytes) run" where
  "SplitPath clean filePath =
     (let dir = path_Dir clean filePath; ext = path_Ext filePath; base = path_Base filePath
      in if length ext > length base then Inl SliceOutOfRange
         else Inr (dir, take (length base - length ext) base, ext))"

text \<open>\<open>log10\<close> is \<open>int(math.Log10(float64(number)) + 1)\<close>.\<close>

definition ItoLen :: "(u64 \<Rightarrow> nat) \<Rightarrow> u64 \<Rightarrow> nat" where
  "ItoLen log10 number = (if number < 10 then 1 else log10 number)"

text \<open>\<open>splitHostPort\<close> is \<open>net.SplitHostPort\<close>: host, port and whether there is an error.\<close>

definition SplitAddress :: "(bytes \<Rightarrow> bytes \<times> bytes \<times> bool) \<Rightarrow> bytes \<Rightarrow> bytes \<Rightarrow> bytes \<times> bytes \<times> bytes \<times> bool" where
  "SplitAddress splitHostPort addressString defaultProtocol =
     (let (protocol, address) =
            (case str_index addressString ''://'' of
               None \<Rightarrow> (defaultProtocol, addressString)
             | Some i \<Rightarrow> (take i addressString, drop (i + 3) addressString));
          (host, port, failed) = splitHostPort address
      in (str_to_lower protocol, host, port, failed))"

datatype conn_error = ErrEOF | ErrNetOp "int option" | ErrOther

definition ECONNRESET :: int where "ECONNRESET = 104"

definition IsDisconnectedError :: "conn_error \<Rightarrow> bool" where
  "IsDisconnectedError err =
     (case err of ErrEOF \<Rightarrow> True | ErrNetOp (Some errno) \<Rightarrow> errno = ECONNRESET | _ \<Rightarrow> False)"

text \<open>The extension is a suffix of the base name, so splitting a path does not panic and base name and
  extension put together are the last element.\<close>

lemma SplitPath_recombines:
  assumes "path \<noteq> []" "last path \<noteq> CHR ''/''"
  shows "\<exists>base. SplitPath clean path = Inr (path_Dir clean path, base, path_Ext path) \<and> base @ path_Ext path = last_element path"
proof -
  have "dropWhile (\<lambda>c. c = CHR ''/'') (rev path) = rev path" using assms by (cases "rev path") (auto simp: last_conv_nth rev_nth hd_rev [symmetric])
  then have b: "path_Base path = last_element path" using assms(1) by (simp add: path_Base_def)
  obtain base where "last_element path = base @ path_Ext path"
    by (cases "str_last_index (last_element path) ''.''") (auto simp: path_Ext_def Let_def intro: append_take_drop_id [symmetric])
  then show ?thesis by (simp add: SplitPath_def b Let_def)
qed

end
