(* ===== verification/MessageBatches.thy ===== *)
theory MessageBatches
  imports Messages SyncPrims Utilities
begin

text \<open>
  \<open>core/messagebatch.go\<close>: a double buffer. The word \<open>activeSet\<close> holds the index of the
  active buffer in its top bit and the number of tickets handed out in the other 31. A writer takes a
  ticket with one atomic addition, stores its message in the slot of the ticket and then counts itself
  as done; a flush swaps the buffers, waits until all writers of the old buffer are done, and hands
  the old buffer over. This theory is the code run by one caller at a time; the interleaving of any
  number of writers with flushes is in \<open>BatchInterleavings\<close>.
\<close>

unbundle bit_operations_syntax

definition messageBatchCountMask :: u32 where "messageBatchCountMask = 0x7FFFFFFF"
definition messageBatchIndexMask :: u32 where "messageBatchIndexMask = 0x80000000"

definition set_index :: "u32 \<Rightarrow> nat" where "set_index w = unat (drop_bit 31 w)"
definition set_count :: "u32 \<Rightarrow> nat" where "set_count w = unat (w AND messageBatchCountMask)"
definition flipped :: "u32 \<Rightarrow> u32" where
  "flipped w = (w AND messageBatchIndexMask) XOR messageBatchIndexMask"

lemma set_index_div: "set_index w = unat w div 2 ^ 31"
  unfolding set_index_def by (rule trans [OF unat_drop_bit_eq drop_bit_eq_div])

lemma set_count_mod: "set_count w = unat w mod 2 ^ 31"
proof -
  have "messageBatchCountMask = mask 31" by (simp add: messageBatchCountMask_def mask_eq_exp_minus_1)
  then have "w AND messageBatchCountMask = take_bit 31 w" by (simp only: take_bit_eq_mask)
  then show ?thesis unfolding set_count_def by (simp only:) (rule trans [OF unsigned_take_bit_eq take_bit_eq_mod])
qed

lemma set_index_bound: "set_index w < 2"
proof -
  have "unat w < 2 ^ 32" using unsigned_less [of w] by simp
  then show ?thesis by (simp add: set_index_div div_less_iff_less_mult)
qed

lemma set_count_bound: "set_count w < 2 ^ 31"
  by (simp add: set_count_mod)

text \<open>A ticket adds one to the count as long as it fits in 31 bits.\<close>

lemma ticket_word:
  assumes "set_count w < 2 ^ 31 - 1"
  shows "set_index (w + 1) = set_index w" "set_count (w + 1) = Suc (set_count w)"
proof -
  have d: "set_index w * 2 ^ 31 + set_count w = unat w" by (simp add: set_index_div set_count_mod)
  have "unat w + 1 < 2 ^ 32" using d assms set_index_bound [of w] by (simp add: less_2_cases_iff) linarith
  then have u: "unat (w + 1) = Suc (unat w)" by (simp add: unat_word_ariths)
  have "Suc (unat w) mod 2 ^ 31 = Suc (set_count w)" using assms by (simp add: set_count_mod mod_Suc)
  then show "set_count (w + 1) = Suc (set_count w)" by (simp only: set_count_mod [of "w + 1"] u)
  then have "Suc (unat w) mod 2 ^ 31 \<noteq> 0" by (simp add: set_count_mod [of "w + 1"] u)
  then show "set_index (w + 1) = set_index w" by (simp only: set_index_div u div_Suc if_False)
qed

lemma and_top_bit: "w AND 0x80000000 = (if unat w < 2 ^ 31 then 0 else 0x80000000)" for w :: u32
proof -
  have e: "(0x80000000 :: u32) = 2 ^ 31" by simp
  have "w AND 2 ^ 31 = (if bit w 31 then 2 ^ 31 else 0)"
    by (rule bit_word_eqI) (auto simp: bit_simps simp del: power_numeral)
  moreover have "bit w 31 \<longleftrightarrow> \<not> unat w < 2 ^ 31"
  proof -
    have lt: "unat w div 2 ^ 31 < 2" using set_index_bound [of w] by (simp add: set_index_div)
    have "bit w 31 \<longleftrightarrow> bit (unat w) 31" by (simp add: bit_unsigned_iff)
    also have "\<dots> \<longleftrightarrow> odd (unat w div 2 ^ 31)" by (simp only: bit_iff_odd)
    also have "\<dots> \<longleftrightarrow> unat w div 2 ^ 31 = 1" using lt by (auto elim: oddE)
    also have "\<dots> \<longleftrightarrow> \<not> unat w < 2 ^ 31" using lt by (auto simp: div_eq_0_iff not_less less_2_cases_iff)
    finally show ?thesis .
  qed
  ultimately show ?thesis unfolding e by simp
qed

lemma flipped_word: "set_index (flipped w) = 1 - set_index w" "set_count (flipped w) = 0"
proof -
  have "set_index w = 0 \<longleftrightarrow> unat w < 2 ^ 31" by (simp add: set_index_div div_eq_0_iff)
  then show "set_index (flipped w) = 1 - set_index w" "set_count (flipped w) = 0"
    using set_index_bound [of w]
    by (auto simp: flipped_def messageBatchIndexMask_def and_top_bit set_index_div [of 0] set_count_mod
        set_index_div [of "0x80000000"] less_2_cases_iff)
qed

subsection \<open>The batch\<close>

text \<open>Times are nanoseconds since 1970; \<open>time.Time.Unix\<close> and back.\<close>

definition Unix :: "int \<Rightarrow> int" where "Unix now = now div 1000000000"

definition from_Unix :: "int \<Rightarrow> int" where "from_Unix s = s * 1000000000"

record 'm batch =
  b_queue :: "nat \<Rightarrow> 'm list"
  b_done :: "nat \<Rightarrow> u32"
  b_active :: u32
  b_closed :: bool
  b_flushing :: "32 word"
  b_lastFlush :: int

definition NewMessageBatch :: "'m \<Rightarrow> nat \<Rightarrow> int \<Rightarrow> 'm batch" where
  "NewMessageBatch blank maxMessageCount now =
     \<lparr>b_queue = (\<lambda>i. replicate maxMessageCount blank), b_done = (\<lambda>i. 0), b_active = 0, b_closed = False,
      b_flushing = 0, b_lastFlush = Unix now\<rparr>"

definition batch_Len :: "'m batch \<Rightarrow> nat" where "batch_Len b = length (b_queue b 0)"

definition getActiveBufferCount :: "'m batch \<Rightarrow> nat" where
  "getActiveBufferCount b = set_count (b_active b)"

definition batch_IsClosed :: "'m batch \<Rightarrow> bool" where "batch_IsClosed b = b_closed b"

definition batch_IsEmpty :: "'m batch \<Rightarrow> bool" where
  "batch_IsEmpty b \<longleftrightarrow> b_active b AND messageBatchCountMask = 0"

text \<open>The three atomic parts of \<open>Append\<close>.\<close>

definition take_ticket :: "'m batch \<Rightarrow> u32 \<times> 'm batch" where
  "take_ticket b = (b_active b + 1, b\<lparr>b_active := b_active b + 1\<rparr>)"

definition store_ticket :: "nat \<Rightarrow> u32 \<Rightarrow> 'm \<Rightarrow> 'm batch \<Rightarrow> bool \<times> 'm batch" where
  "store_ticket idx ticketIdx msg b =
     (if unat ticketIdx \<ge> length (b_queue b idx) then (False, b)
      else (True, b\<lparr>b_queue := (b_queue b)(idx := (b_queue b idx)[unat ticketIdx := msg])\<rparr>))"

definition count_done :: "nat \<Rightarrow> 'm batch \<Rightarrow> 'm batch" where
  "count_done idx b = b\<lparr>b_done := (b_done b)(idx := b_done b idx + 1)\<rparr>"

definition batch_Append :: "'m \<Rightarrow> 'm batch \<Rightarrow> bool \<times> 'm batch" where
  "batch_Append msg b =
     (if batch_IsClosed b then (False, b)
      else let (activeSet, b) = take_ticket b;
               activeIdx = set_index activeSet;
               ticketIdx = (activeSet AND messageBatchCountMask) - 1;
               (ok, b) = store_ticket activeIdx ticketIdx msg b
           in (ok, count_done activeIdx b))"

text \<open>
  \<open>AppendOrBlock\<close> as a caller sees it who is alone: the batch may be changed by others between two
  tries, which \<open>others\<close> describes, one function per try. \<open>None\<close> when it still spins.
\<close>

fun AppendOrBlock :: "'m \<Rightarrow> ('m batch \<Rightarrow> 'm batch) list \<Rightarrow> 'm batch \<Rightarrow> (bool \<times> 'm batch) option" where
  "AppendOrBlock msg [] b = (if batch_IsClosed b then Some (False, b) else None)"
| "AppendOrBlock msg (other # others) b =
     (if batch_IsClosed b then Some (False, b)
      else case batch_Append msg b of
             (True, b) \<Rightarrow> Some (True, b)
           | (False, b) \<Rightarrow> AppendOrBlock msg others (other b))"

definition AppendOrFlush ::
  "'m \<Rightarrow> ('m batch \<Rightarrow> 'm batch) \<Rightarrow> bool \<Rightarrow> ('m batch \<Rightarrow> 'm batch) list \<Rightarrow> 'm batch \<Rightarrow> 'm list \<Rightarrow>
   ('m batch \<times> 'm list) option" where
  "AppendOrFlush msg flushBuffer canBlock others b dropped =
     (case batch_Append msg b of
        (True, b) \<Rightarrow> Some (b, dropped)
      | (False, b) \<Rightarrow>
          let b = flushBuffer b
          in if \<not> canBlock then Some (b, dropped @ [msg])
             else case AppendOrBlock msg others b of
                    None \<Rightarrow> None
                  | Some (ok, b) \<Rightarrow> Some (b, if ok then dropped else dropped @ [msg]))"

definition batch_Touch :: "int \<Rightarrow> 'm batch \<Rightarrow> 'm batch" where "batch_Touch now b = b\<lparr>b_lastFlush := Unix now\<rparr>"

text \<open>
  \<open>Flush\<close> with the goroutine it starts run to its end: the messages handed to the assembly function
  (\<open>None\<close> for an empty batch), or no result while another flush or a writer is not done.
\<close>

definition batch_Flush :: "int \<Rightarrow> 'm batch \<Rightarrow> ('m list option \<times> 'm batch) option" where
  "batch_Flush now b =
     (if batch_IsEmpty b then Some (None, b)
      else if b_flushing b \<noteq> 0 then None
      else let flushSet = b_active b;
               b = b\<lparr>b_active := flipped (b_active b)\<rparr>;
               flushIdx = set_index flushSet;
               writerCount = set_count flushSet
           in if writerCount \<noteq> unat (b_done b flushIdx) then None
              else let messageCount = nat (MinI (int writerCount) (int (length (b_queue b flushIdx))))
                   in Some (Some (take messageCount (b_queue b flushIdx)),
                            batch_Touch now (b\<lparr>b_done := (b_done b)(flushIdx := 0)\<rparr>)))"

definition AfterFlushDo :: "('m batch \<Rightarrow> 'r) \<Rightarrow> 'm batch \<Rightarrow> 'r option" where
  "AfterFlushDo callback b = (if b_flushing b \<noteq> 0 then None else Some (callback (b\<lparr>b_flushing := 1\<rparr>)))"

definition batch_Close :: "int \<Rightarrow> 'm batch \<Rightarrow> ('m list option \<times> 'm batch) option" where
  "batch_Close now b = batch_Flush now (b\<lparr>b_closed := True\<rparr>)"

definition ReachedSizeThreshold :: "int \<Rightarrow> 'm batch \<Rightarrow> bool" where
  "ReachedSizeThreshold sz b =
     (let activeIdx = set_index (b_active b);
          threshold = (of_int (MaxI sz (int (length (b_queue b activeIdx)))) :: u32)
      in b_done b activeIdx \<ge> threshold)"

definition ReachedTimeThreshold :: "int \<Rightarrow> int \<Rightarrow> 'm batch \<Rightarrow> bool" where
  "ReachedTimeThreshold timeout now b \<longleftrightarrow>
     (let lastFlush = from_Unix (b_lastFlush b) in \<not> batch_IsEmpty b \<and> now - lastFlush > timeout)"

lemma batch_IsEmpty_count: "batch_IsEmpty b \<longleftrightarrow> set_count (b_active b) = 0"
  by (simp add: batch_IsEmpty_def set_count_def unat_eq_0)

subsection \<open>One caller at a time: a bounded buffer\<close>

text \<open>
  The contract the producers rely on: \<open>append\<close> adds to the contents while there is room and
  refuses otherwise, \<open>flush\<close> hands the contents over and empties the buffer.
\<close>

locale bounded_buffer =
  fixes append :: "'m \<Rightarrow> 'b \<Rightarrow> bool \<times> 'b"
    and flush :: "'b \<Rightarrow> 'm list \<times> 'b"
    and content :: "'b \<Rightarrow> 'm list"
    and room :: "'b \<Rightarrow> nat"
    and inv :: "nat \<Rightarrow> 'b \<Rightarrow> bool"
  assumes append_inv: "inv (Suc n) b \<Longrightarrow> append m b = (ok, b') \<Longrightarrow> inv n b' \<and> room b' = room b"
    and append_content: "inv (Suc n) b \<Longrightarrow> append m b = (ok, b') \<Longrightarrow>
      (ok \<longleftrightarrow> length (content b) < room b) \<and> content b' = (if ok then content b @ [m] else content b)"
    and flush_content: "inv n b \<Longrightarrow> flush b = (ms, b') \<Longrightarrow> ms = content b \<and> content b' = [] \<and> room b' = room b"
begin

fun append_all :: "'m list \<Rightarrow> 'b \<Rightarrow> 'b" where
  "append_all [] b = b"
| "append_all (m # ms) b = append_all ms (snd (append m b))"

lemma append_all_content:
  "inv (length ms + n) b \<Longrightarrow> length (content b) \<le> room b \<Longrightarrow>
   inv n (append_all ms b) \<and> content (append_all ms b) = take (room b) (content b @ ms) \<and> room (append_all ms b) = room b"
proof (induction ms arbitrary: b)
  case (Cons m ms)
  obtain ok b1 where a: "append m b = (ok, b1)" by fastforce
  have b1: "inv (length ms + n) b1" "room b1 = room b" "ok \<longleftrightarrow> length (content b) < room b"
      "content b1 = (if ok then content b @ [m] else content b)"
    using append_inv [of "length ms + n" b m ok b1] append_content [of "length ms + n" b m ok b1] Cons.prems a by auto
  have "length (content b1) \<le> room b1" using b1(2-4) Cons.prems(2) by auto
  note IH = Cons.IH [OF b1(1) this]
  have e: "append_all ms (snd (append m b)) = append_all ms b1" by (simp add: a)
  show ?case
  proof (cases ok)
    case True
    then have "room b - length (content b) = Suc (room b - Suc (length (content b)))" using b1(3) by simp
    then show ?thesis using IH b1(2,4) True by (simp add: e)
  next
    case False
    then show ?thesis using IH b1 by (simp add: e)
  qed
qed simp

text \<open>Appending and flushing delivers the first messages that fit, in order.\<close>

lemma append_all_flush:
  "inv (length ms + n) b \<Longrightarrow> content b = [] \<Longrightarrow> fst (flush (append_all ms b)) = take (room b) ms"
  using append_all_content [of ms n b]
    flush_content [of n "append_all ms b" "fst (flush (append_all ms b))" "snd (flush (append_all ms b))"]
  by simp

end

text \<open>No writer and no flush is under way, and \<open>n\<close> more tickets fit into the word.\<close>

definition quiet :: "nat \<Rightarrow> 'm batch \<Rightarrow> bool" where
  "quiet n b \<longleftrightarrow> b_flushing b = 0 \<and> \<not> b_closed b \<and> set_count (b_active b) + n < 2 ^ 31 \<and>
     unat (b_done b (set_index (b_active b))) = set_count (b_active b) \<and>
     b_done b (1 - set_index (b_active b)) = 0 \<and> length (b_queue b 0) = length (b_queue b 1)"

definition batch_content :: "'m batch \<Rightarrow> 'm list" where
  "batch_content b = take (set_count (b_active b)) (b_queue b (set_index (b_active b)))"

definition flush_all :: "int \<Rightarrow> 'm batch \<Rightarrow> 'm list \<times> 'm batch" where
  "flush_all now b = (case batch_Flush now b of Some (Some ms, b) \<Rightarrow> (ms, b) | Some (None, b) \<Rightarrow> ([], b) | None \<Rightarrow> ([], b))"

lemma ticket_index_word: "set_count (w + 1) = Suc n \<Longrightarrow> unat (((w + 1) AND messageBatchCountMask) - 1) = n"
proof -
  let ?c = "(w + 1) AND messageBatchCountMask"
  assume "set_count (w + 1) = Suc n"
  then have u: "unat ?c = Suc n" by (simp add: set_count_def)
  then have "1 \<le> ?c" by (simp add: word_le_nat_alt)
  then have "unat (?c - 1) = unat ?c - unat (1 :: u32)" by (rule unat_sub)
  with u show ?thesis by simp
qed

lemma batch_len: "length (b_queue b 0) = length (b_queue b 1) \<Longrightarrow> i < 2 \<Longrightarrow> length (b_queue b i) = batch_Len b"
  by (auto simp: batch_Len_def less_2_cases_iff)

lemma count_done_word: "unat (w :: u32) + 1 < 2 ^ 32 \<Longrightarrow> unat (w + 1) = Suc (unat w)"
  by (simp add: unat_word_ariths)

lemma quiet_Append:
  assumes q: "quiet (Suc n) b" and a: "batch_Append m b = (ok, b')"
  shows "quiet n b'" "batch_Len b' = batch_Len b" "ok \<longleftrightarrow> length (batch_content b) < batch_Len b"
    "batch_content b' = (if ok then batch_content b @ [m] else batch_content b)"
proof -
  let ?w = "b_active b" and ?i = "set_index (b_active b)" and ?c = "set_count (b_active b)"
  have c: "?c < 2 ^ 31 - 1" "unat (b_done b ?i) = ?c" "\<not> b_closed b" using q by (auto simp: quiet_def)
  note t = ticket_word [OF c(1)]
  have tk: "unat (((?w + 1) AND messageBatchCountMask) - 1) = ?c" by (rule ticket_index_word [OF t(2)])
  have len: "length (b_queue b ?i) = batch_Len b"
    using q set_index_bound [of ?w] by (intro batch_len) (auto simp: quiet_def)
  have dn: "unat (b_done b ?i + 1) = Suc ?c" using c count_done_word [of "b_done b ?i"] by simp
  have b': "ok = (?c < batch_Len b)" "b_active b' = ?w + 1" "b_closed b' = b_closed b" "b_flushing b' = b_flushing b"
    "b_done b' = (b_done b)(?i := b_done b ?i + 1)"
    "b_queue b' = (if ?c < batch_Len b then (b_queue b)(?i := (b_queue b ?i)[?c := m]) else b_queue b)"
    using a c(3) tk t(1) len
    by (auto simp: batch_Append_def batch_IsClosed_def take_ticket_def store_ticket_def count_done_def Let_def
        split: if_splits)
  have i1: "1 - ?i \<noteq> ?i" using set_index_bound [of ?w] by (auto simp: less_2_cases_iff)
  show "quiet n b'" using q b' t dn i1 by (simp add: quiet_def)
  show "batch_Len b' = batch_Len b" using b'(6) by (simp add: batch_Len_def)
  have ct: "batch_content b = take ?c (b_queue b ?i)" by (simp add: batch_content_def)
  show "ok \<longleftrightarrow> length (batch_content b) < batch_Len b" using b'(1) ct len by (auto simp: min_def)
  show "batch_content b' = (if ok then batch_content b @ [m] else batch_content b)"
  proof (cases "?c < batch_Len b")
    case True
    then show ?thesis using b' t ct len by (simp add: batch_content_def take_Suc_conv_app_nth)
  next
    case False
    then show ?thesis using b' t ct len by (simp add: batch_content_def)
  qed
qed

lemma quiet_Flush:
  assumes q: "quiet n b"
  obtains r b' where "batch_Flush now b = Some (r, b')" "r = (if set_count (b_active b) = 0 then None else Some (batch_content b))"
    "batch_content b' = []" "batch_Len b' = batch_Len b" "quiet (2 ^ 31 - 1) b'"
proof (cases "set_count (b_active b) = 0")
  case True
  then show thesis using q that [of None b] by (simp add: batch_Flush_def batch_IsEmpty_count batch_content_def quiet_def)
next
  case False
  let ?w = "b_active b" and ?i = "set_index (b_active b)"
  let ?b = "b\<lparr>b_active := flipped ?w, b_done := (b_done b)(?i := 0), b_lastFlush := Unix now\<rparr>"
  have i1: "1 - (1 - ?i) = ?i" "1 - ?i \<noteq> ?i" using set_index_bound [of ?w] by (auto simp: less_2_cases_iff)
  have "take (nat (MinI (int (set_count ?w)) (int (length (b_queue b ?i))))) (b_queue b ?i) = batch_content b"
    by (cases "set_count ?w < length (b_queue b ?i)") (simp_all add: batch_content_def MinI_def)
  then have f: "batch_Flush now b = Some (Some (batch_content b), ?b)"
    using False q by (simp add: batch_Flush_def batch_IsEmpty_count quiet_def Let_def batch_Touch_def)
  have "quiet (2 ^ 31 - 1) ?b" using q i1 by (simp add: quiet_def flipped_word)
  moreover have "batch_content ?b = []" "batch_Len ?b = batch_Len b" by (simp_all add: batch_content_def flipped_word batch_Len_def)
  ultimately show thesis using f False that by simp
qed

interpretation batch_buffer: bounded_buffer batch_Append "flush_all now" batch_content batch_Len quiet for now
proof
  fix n m ok and b b' :: "'a batch" and ms
  show "quiet (Suc n) b \<Longrightarrow> batch_Append m b = (ok, b') \<Longrightarrow> quiet n b' \<and> batch_Len b' = batch_Len b"
    using quiet_Append(1,2) [of n b m ok b'] by simp
  show "quiet (Suc n) b \<Longrightarrow> batch_Append m b = (ok, b') \<Longrightarrow>
      (ok \<longleftrightarrow> length (batch_content b) < batch_Len b) \<and>
      batch_content b' = (if ok then batch_content b @ [m] else batch_content b)"
    using quiet_Append(3,4) [of n b m ok b'] by simp
  assume q: "quiet n b" and f: "flush_all now b = (ms, b')"
  obtain r b1 where "batch_Flush now b = Some (r, b1)" "r = (if set_count (b_active b) = 0 then None else Some (batch_content b))"
    "batch_content b1 = []" "batch_Len b1 = batch_Len b" by (rule quiet_Flush [OF q, of now]) blast
  with f show "ms = batch_content b \<and> batch_content b' = [] \<and> batch_Len b' = batch_Len b"
    by (auto simp: flush_all_def batch_content_def split: if_splits)
qed

lemma append_all_count:
  "quiet (length ms + n) b \<Longrightarrow> set_count (b_active (batch_buffer.append_all ms b)) = set_count (b_active b) + length ms"
proof (induction ms arbitrary: b)
  case (Cons m ms)
  obtain ok b1 where a: "batch_Append m b = (ok, b1)" by fastforce
  have q: "quiet (Suc (length ms + n)) b" using Cons.prems by simp
  have "set_count (b_active b) < 2 ^ 31 - 1" "\<not> b_closed b" using q by (auto simp: quiet_def)
  then have "set_count (b_active b1) = Suc (set_count (b_active b))" using a ticket_word(2) [of "b_active b"]
    by (auto simp: batch_Append_def batch_IsClosed_def take_ticket_def store_ticket_def count_done_def Let_def split: if_splits)
  with Cons.IH [OF quiet_Append(1) [OF q a]] a show ?case by simp
qed simp

text \<open>C14: A batch used by one caller at a time is a bounded queue: after appending messages to a
  new batch, a flush hands over exactly the first messages that fit, in the order they were appended,
  for any number of messages the 31-bit ticket counter can count.\<close>

theorem batch_append_flush:
  assumes "length ms < 2 ^ 31"
  shows "\<exists>b'. batch_Flush now (batch_buffer.append_all ms (NewMessageBatch blank cap t0)) =
           Some (if ms = [] then None else Some (take cap ms), b') \<and>
         batch_content b' = [] \<and> batch_Len b' = cap"
proof -
  let ?b = "NewMessageBatch blank cap t0"
  have z: "set_count 0 = 0" "set_index 0 = 0" by (simp_all add: set_count_mod set_index_div)
  have q: "quiet (length ms + 0) ?b" using assms z by (simp add: quiet_def NewMessageBatch_def)
  have e: "batch_content ?b = []" "batch_Len ?b = cap" by (simp_all add: batch_content_def z NewMessageBatch_def batch_Len_def)
  have c: "quiet 0 (batch_buffer.append_all ms ?b)"
    "batch_content (batch_buffer.append_all ms ?b) = take cap ms" "batch_Len (batch_buffer.append_all ms ?b) = cap"
    using batch_buffer.append_all_content [OF q] e by auto
  have n: "set_count (b_active (batch_buffer.append_all ms ?b)) = 0 \<longleftrightarrow> ms = []"
    using append_all_count [OF q] by (simp add: z NewMessageBatch_def)
  obtain r b' where "batch_Flush now (batch_buffer.append_all ms ?b) = Some (r, b')"
    "r = (if set_count (b_active (batch_buffer.append_all ms ?b)) = 0 then None else Some (batch_content (batch_buffer.append_all ms ?b)))"
    "batch_content b' = []" "batch_Len b' = batch_Len (batch_buffer.append_all ms ?b)"
    by (rule quiet_Flush [OF c(1), of now]) blast
  then show ?thesis using c n by auto
qed

lemma batch_append_flush_witness:
  "\<exists>b'. batch_Flush 9 (batch_buffer.append_all [1, 2, 3 :: nat] (NewMessageBatch 0 2 5)) = Some (Some [1, 2], b') \<and>
     batch_content b' = [] \<and> batch_Len b' = 2"
  using batch_append_flush [of "[1, 2, 3 :: nat]" 9 0 2 5] by simp

end
