(* ===== verification/BatchInterleavings.thy ===== *)
theory BatchInterleavings
  imports MessageBatches "HOL-Library.Multiset"
begin

text \<open>
  The batch of \<open>core/messagebatch.go\<close> under any interleaving of its writers and flushes. A step is
  one atomic action of the code: a writer passes the \<open>IsClosed\<close> test, takes its ticket, stores,
  counts itself done; a flush takes the wait group, reads the active set, swaps it, sees all writers of
  the old buffer done and hands the buffer over, resets the done count, releases the wait group.
  The components after \<open>c_writers\<close> are history: what \<open>Append\<close> accepted and what the
  assembly function was given.
\<close>

datatype 'm writer =
    NoWriter
  | HasTicket 'm
  | Stored "'m option"
  | Counted "'m option"

datatype flusher =
    FIdle
  | FLocked
  | FLoaded u32
  | FSwapped nat nat
  | FAssembled nat
  | FReset
  | FCallback

record 'm cbatch =
  c_batch :: "'m batch"
  c_entered :: "'m multiset"
  c_writers :: "nat \<Rightarrow> nat \<Rightarrow> 'm writer"
  c_flusher :: flusher
  c_accepted :: "'m multiset"
  c_delivered :: "'m list list"

definition set_writer :: "nat \<Rightarrow> nat \<Rightarrow> 'm writer \<Rightarrow> 'm cbatch \<Rightarrow> 'm cbatch" where
  "set_writer i k w s = s\<lparr>c_writers := (c_writers s)(i := (c_writers s i)(k := w))\<rparr>"

definition on_batch :: "('m batch \<Rightarrow> 'm batch) \<Rightarrow> 'm cbatch \<Rightarrow> 'm cbatch" where
  "on_batch f s = s\<lparr>c_batch := f (c_batch s)\<rparr>"

inductive batch_step :: "'m cbatch \<Rightarrow> 'm cbatch \<Rightarrow> bool" where
  enter: "\<not> batch_IsClosed (c_batch s) \<Longrightarrow> batch_step s (s\<lparr>c_entered := add_mset m (c_entered s)\<rparr>)"
| ticket: "m \<in># c_entered s \<Longrightarrow> getActiveBufferCount (c_batch s) < 2 ^ 31 - 1 \<Longrightarrow>
    take_ticket (c_batch s) = (a, b) \<Longrightarrow>
    batch_step s (set_writer (set_index a) (unat ((a AND messageBatchCountMask) - 1)) (HasTicket m)
      (s\<lparr>c_batch := b, c_entered := c_entered s - {#m#}\<rparr>))"
| store: "c_writers s i k = HasTicket m \<Longrightarrow> store_ticket i (of_nat k) m (c_batch s) = (ok, b) \<Longrightarrow>
    batch_step s (set_writer i k (Stored (if ok then Some m else None))
      (s\<lparr>c_batch := b, c_accepted := (if ok then add_mset m (c_accepted s) else c_accepted s)\<rparr>))"
| count: "c_writers s i k = Stored x \<Longrightarrow>
    batch_step s (set_writer i k (Counted x) (on_batch (count_done i) s))"
| lock: "b_flushing (c_batch s) = 0 \<Longrightarrow>
    batch_step s (on_batch (\<lambda>b. b\<lparr>b_flushing := 1\<rparr>) (s\<lparr>c_flusher := FLocked\<rparr>))"
| load: "c_flusher s = FLocked \<Longrightarrow> batch_step s (s\<lparr>c_flusher := FLoaded (flipped (b_active (c_batch s)))\<rparr>)"
| swap: "c_flusher s = FLoaded w \<Longrightarrow> a = b_active (c_batch s) \<Longrightarrow>
    batch_step s (on_batch (\<lambda>b. b\<lparr>b_active := w\<rparr>) (s\<lparr>c_flusher := FSwapped (set_index a) (set_count a)\<rparr>))"
| assemble: "c_flusher s = FSwapped i n \<Longrightarrow> n = unat (b_done (c_batch s) i) \<Longrightarrow>
    q = b_queue (c_batch s) i \<Longrightarrow>
    batch_step s (s\<lparr>c_flusher := FAssembled i, c_writers := (c_writers s)(i := (\<lambda>k. NoWriter)),
      c_delivered := c_delivered s @ [take (nat (MinI (int n) (int (length q)))) q]\<rparr>)"
| reset: "c_flusher s = FAssembled i \<Longrightarrow>
    batch_step s (on_batch (\<lambda>b. b\<lparr>b_done := (b_done b)(i := 0)\<rparr>) (s\<lparr>c_flusher := FReset\<rparr>))"
| touch: "c_flusher s = FReset \<Longrightarrow> batch_step s (on_batch (batch_Touch now) s)"
| release: "c_flusher s = FReset \<Longrightarrow>
    batch_step s (on_batch (\<lambda>b. b\<lparr>b_flushing := 0\<rparr>) (s\<lparr>c_flusher := FIdle\<rparr>))"
| callback: "b_flushing (c_batch s) = 0 \<Longrightarrow>
    batch_step s (on_batch (\<lambda>b. b\<lparr>b_flushing := 1\<rparr>) (s\<lparr>c_flusher := FCallback\<rparr>))"
| callback_done: "c_flusher s = FCallback \<Longrightarrow>
    batch_step s (on_batch (\<lambda>b. b\<lparr>b_flushing := 0\<rparr>) (s\<lparr>c_flusher := FIdle\<rparr>))"
| close: "batch_step s (on_batch (\<lambda>b. b\<lparr>b_closed := True\<rparr>) s)"

text \<open>
  The flush starts only when \<open>IsEmpty\<close> was false at some earlier time, which another flush may
  have changed since; the relation lets it start at any time. The bound in \<open>ticket\<close> is the one the
  31-bit counter has; \<open>ticket_overflow\<close> below shows what happens at it.
\<close>

definition batch_init :: "'m \<Rightarrow> nat \<Rightarrow> int \<Rightarrow> 'm cbatch" where
  "batch_init blank n now = \<lparr>c_batch = NewMessageBatch blank n now, c_entered = {#}, c_writers = (\<lambda>i k. NoWriter),
     c_flusher = FIdle, c_accepted = {#}, c_delivered = []\<rparr>"

definition batch_reachable :: "'m \<Rightarrow> nat \<Rightarrow> int \<Rightarrow> 'm cbatch \<Rightarrow> bool" where
  "batch_reachable blank n now s \<longleftrightarrow> batch_step\<^sup>*\<^sup>* (batch_init blank n now) s"

subsection \<open>The invariant\<close>

fun held :: "'m writer \<Rightarrow> 'm option" where
  "held (Stored x) = x"
| "held (Counted x) = x"
| "held _ = None"

fun placed :: "'m writer \<Rightarrow> bool" where
  "placed (Stored x) = True"
| "placed (Counted x) = True"
| "placed _ = False"

fun counted :: "'m writer \<Rightarrow> bool" where
  "counted (Counted x) = True"
| "counted _ = False"

definition held_msgs :: "nat \<Rightarrow> (nat \<Rightarrow> 'm writer) \<Rightarrow> 'm multiset" where
  "held_msgs len w = mset (List.map_filter (\<lambda>k. held (w k)) [0..<len])"

text \<open>
  One buffer of capacity \<open>len\<close> in the generation in which \<open>T\<close> tickets are out.
\<close>

definition generation :: "nat \<Rightarrow> nat \<Rightarrow> (nat \<Rightarrow> 'm writer) \<Rightarrow> 'm list \<Rightarrow> u32 \<Rightarrow> bool" where
  "generation len T w q d \<longleftrightarrow> length q = len \<and> (\<forall>k. w k = NoWriter \<longleftrightarrow> T \<le> k) \<and>
     unat d = card {k. counted (w k)} \<and>
     (\<forall>k m. held (w k) = Some m \<longrightarrow> k < len \<and> q ! k = m) \<and>
     (\<forall>k. placed (w k) \<and> held (w k) = None \<longrightarrow> len \<le> k)"

text \<open>
  The buffers: the active one is in a generation with as many tickets as the active set counts, the
  other one is unused, or is being flushed.
\<close>

definition buffers_inv :: "nat \<Rightarrow> 'm batch \<Rightarrow> (nat \<Rightarrow> nat \<Rightarrow> 'm writer) \<Rightarrow> flusher \<Rightarrow> bool" where
  "buffers_inv len b w f \<longleftrightarrow>
     (let a = set_index (b_active b); p = 1 - a; gen = (\<lambda>T i. generation len T (w i) (b_queue b i) (b_done b i))
      in gen (set_count (b_active b)) a \<and>
         (case f of
            FSwapped i n \<Rightarrow> i = p \<and> n < 2 ^ 31 \<and> gen n p
          | FAssembled i \<Rightarrow> i = p \<and> w p = (\<lambda>k. NoWriter) \<and> length (b_queue b p) = len
          | FLoaded v \<Rightarrow> v = flipped (b_active b) \<and> gen 0 p
          | _ \<Rightarrow> gen 0 p) \<and>
         (\<forall>i. i \<noteq> a \<and> i \<noteq> p \<longrightarrow> w i = (\<lambda>k. NoWriter)))"

definition batch_inv :: "nat \<Rightarrow> 'm cbatch \<Rightarrow> bool" where
  "batch_inv len s \<longleftrightarrow> buffers_inv len (c_batch s) (c_writers s) (c_flusher s) \<and>
     (b_flushing (c_batch s) = 0 \<longleftrightarrow> c_flusher s = FIdle) \<and>
     c_accepted s = mset (concat (c_delivered s)) + held_msgs len (c_writers s 0) + held_msgs len (c_writers s 1)"

lemma held_msgs_empty [simp]: "held_msgs len (\<lambda>k. NoWriter) = {#}"
  by (simp add: held_msgs_def List.map_filter_def)

lemma map_filter_upd_out: "k \<notin> set xs \<Longrightarrow> List.map_filter (\<lambda>j. held ((w(k := x)) j)) xs = List.map_filter (\<lambda>j. held (w j)) xs"
  by (induction xs) (auto simp: List.map_filter_simps split: option.splits)

lemma map_filter_upd: "distinct xs \<Longrightarrow> k \<in> set xs \<Longrightarrow> held (w k) = None \<Longrightarrow>
   mset (List.map_filter (\<lambda>j. held ((w(k := x)) j)) xs) =
   (case held x of None \<Rightarrow> {#} | Some m \<Rightarrow> {#m#}) + mset (List.map_filter (\<lambda>j. held (w j)) xs)"
proof (induction xs)
  case (Cons y xs)
  show ?case
  proof (cases "y = k")
    case True
    then show ?thesis using Cons.prems map_filter_upd_out [of k xs w x] by (simp add: List.map_filter_simps split: option.splits)
  next
    case False
    with Cons show ?thesis by (simp add: List.map_filter_simps split: option.splits)
  qed
qed simp

lemma held_msgs_upd:
  assumes "held (w k) = None" "held x \<noteq> None \<longrightarrow> k < len"
  shows "held_msgs len (w(k := x)) = (case held x of None \<Rightarrow> {#} | Some m \<Rightarrow> {#m#}) + held_msgs len w"
proof (cases "k < len")
  case True
  then show ?thesis using map_filter_upd [of "[0..<len]" k w x] assms by (simp add: held_msgs_def)
next
  case False
  then show ?thesis using map_filter_upd_out [of k "[0..<len]" w x] assms by (cases "held x") (auto simp: held_msgs_def)
qed

lemma held_msgs_same: "held x = held (w k) \<Longrightarrow> held_msgs len (w(k := x)) = held_msgs len w"
  by (simp add: held_msgs_def fun_upd_def if_distrib cong: if_cong) (metis)

lemma counted_finite: "generation len T w q d \<Longrightarrow> {k. counted (w k)} \<subseteq> {..<T}"
  by (auto simp: generation_def) (metis counted.simps(2) not_le)

lemma generation_ticket:
  assumes g: "generation len T w q d"
  shows "generation len (Suc T) (w(T := HasTicket m)) q d"
proof -
  have "w T = NoWriter" using g by (simp add: generation_def)
  then have "{k. counted ((w(T := HasTicket m)) k)} = {k. counted (w k)}" by auto
  then show ?thesis using g by (auto simp: generation_def not_less_eq_eq)
qed

lemma generation_store:
  assumes g: "generation len T w q d" and k: "w k = HasTicket m"
  shows "k < len \<Longrightarrow> generation len T (w(k := Stored (Some m))) (q[k := m]) d"
    and "len \<le> k \<Longrightarrow> generation len T (w(k := Stored None)) q d"
proof -
  have e: "{j. counted ((w(k := Stored x)) j)} = {j. counted (w j)}" for x using k by auto
  have T: "k < T" using g k by (auto simp: generation_def) (metis writer.distinct(1) not_le)
  have q: "(q[k := m]) ! j = q ! j" if "held (w j) = Some m'" for j m' using that k by (cases "j = k") auto
  show "k < len \<Longrightarrow> generation len T (w(k := Stored (Some m))) (q[k := m]) d"
    using g e T q by (auto simp: generation_def not_le)
  show "len \<le> k \<Longrightarrow> generation len T (w(k := Stored None)) q d"
    using g e T by (auto simp: generation_def not_le)
qed

lemma generation_count:
  assumes g: "generation len T w q d" and k: "w k = Stored x" and T: "T < 2 ^ 31"
  shows "generation len T (w(k := Counted x)) q (d + 1)"
proof -
  have fin: "finite {j. counted (w j)}" using counted_finite [OF g] finite_subset by blast
  have c: "card {j. counted (w j)} \<le> T" using card_mono [OF _ counted_finite [OF g]] by simp
  have e: "{j. counted ((w(k := Counted x)) j)} = insert k {j. counted (w j)}" using k by auto
  have "unat (d + 1) = Suc (unat d)" using g c T by (intro count_done_word) (simp add: generation_def)
  then have d: "unat (d + 1) = card {j. counted ((w(k := Counted x)) j)}"
    unfolding e using g k fin by (simp add: generation_def)
  have kT: "k < T" using g k by (auto simp: generation_def) (metis writer.distinct(3) not_le)
  have p: "held (Counted x) = held (w k)" "placed (w k)" using k by simp_all
  show ?thesis using g d kT p by (auto simp: generation_def not_le)
qed

lemma generation_all_counted:
  assumes g: "generation len T w q d" and d: "T = unat d"
  shows "k < T \<Longrightarrow> counted (w k)"
proof -
  have "{k. counted (w k)} = {..<T}"
    using counted_finite [OF g] g d by (intro card_subset_eq) (auto simp: generation_def)
  then show "k < T \<Longrightarrow> counted (w k)" by blast
qed

lemma map_filter_upto:
  assumes "\<And>k. k < n \<Longrightarrow> f k = (if k < T then Some (q ! k) else None)" and "n \<le> length q"
  shows "List.map_filter f [0..<n] = take (min T n) q"
  using assms
proof (induction n)
  case (Suc n)
  have "List.map_filter f [0..<n] = take (min T n) q" using Suc by simp
  moreover have "f n = (if n < T then Some (q ! n) else None)" using Suc.prems(1) by simp
  moreover have "take (Suc n) q = take n q @ [q ! n]" using Suc.prems(2) by (simp add: take_Suc_conv_app_nth)
  moreover have "List.map_filter f ([0..<n] @ [n]) = List.map_filter f [0..<n] @ List.map_filter f [n]"
    by (simp only: List.map_filter_def filter_append map_append)
  ultimately show ?case by (cases "n < T") (auto simp: List.map_filter_simps min_def not_less le_Suc_eq)
qed (simp add: List.map_filter_simps)

text \<open>Once all writers of a generation are counted, the first slots hold exactly what they stored.\<close>

lemma generation_flush:
  assumes g: "generation len T w q d" and d: "T = unat d"
  shows "take (min T len) q = List.map_filter (\<lambda>k. held (w k)) [0..<len]"
proof -
  have "held (w k) = (if k < T then Some (q ! k) else None)" if "k < len" for k
  proof (cases "k < T")
    case True
    then obtain x where x: "w k = Counted x" using generation_all_counted [OF g d True] by (cases "w k") auto
    have g1: "held (w k) = Some m \<Longrightarrow> q ! k = m" "placed (w k) \<Longrightarrow> held (w k) = None \<Longrightarrow> len \<le> k" for m
      using g by (simp_all add: generation_def)
    have "x \<noteq> None" using g1(2) x that by auto
    then show ?thesis using g1(1) x True by auto
  next
    case False
    then have "w k = NoWriter" using g by (simp add: generation_def)
    then show ?thesis using False by simp
  qed
  then show ?thesis using g map_filter_upto [of len "\<lambda>k. held (w k)" T q] by (simp add: generation_def)
qed

lemma generation_new: "length q = len \<Longrightarrow> d = 0 \<Longrightarrow> generation len 0 (\<lambda>k. NoWriter) q d"
  by (simp add: generation_def)

lemma generation_0: "generation len 0 w q d \<Longrightarrow> w = (\<lambda>k. NoWriter)"
  by (auto simp: generation_def)

subsection \<open>Every step keeps the invariant\<close>

lemma index_cases: obtains "set_index w = 0" "1 - set_index w = 1" | "set_index w = 1" "1 - set_index w = 0"
  using set_index_bound [of w] by (auto simp: less_2_cases_iff)

lemma writer_frame:
  assumes inv: "buffers_inv len b w f" and wk: "w i k \<noteq> NoWriter"
  obtains T where "i < 2" "T < 2 ^ 31" "k < T" "generation len T (w i) (b_queue b i) (b_done b i)"
    "\<And>w' q' d' b'. generation len T w' q' d' \<Longrightarrow> b_active b' = b_active b \<Longrightarrow>
       b_queue b' = (b_queue b)(i := q') \<Longrightarrow> b_done b' = (b_done b)(i := d') \<Longrightarrow> buffers_inv len b' (w(i := w')) f"
proof -
  let ?a = "set_index (b_active b)"
  have ne: "1 - ?a \<noteq> ?a" "1 - ?a < 2" using set_index_bound [of "b_active b"] by (auto simp: less_2_cases_iff)
  have kT: "k < T" if "generation len T (w i) q d" for T q d
    using that wk by (auto simp: generation_def not_le [symmetric])
  have "i = ?a \<or> i = 1 - ?a" using inv wk by (auto simp: buffers_inv_def Let_def)
  then show thesis
  proof
    assume i: "i = ?a"
    have g: "generation len (set_count (b_active b)) (w i) (b_queue b i) (b_done b i)"
      using inv i by (simp add: buffers_inv_def Let_def)
    show thesis
    proof (rule that [OF _ set_count_bound kT [OF g] g])
      show "i < 2" using i set_index_bound by simp
    next
      fix w' q' d' and b' :: "'a batch"
      assume "generation len (set_count (b_active b)) w' q' d'" "b_active b' = b_active b"
        "b_queue b' = (b_queue b)(i := q')" "b_done b' = (b_done b)(i := d')"
      then show "buffers_inv len b' (w(i := w')) f"
        using inv ne i by (auto simp: buffers_inv_def Let_def split: flusher.splits)
    qed
  next
    assume i: "i = 1 - ?a"
    have no: "\<not> generation len 0 (w i) q d" "w i \<noteq> (\<lambda>k. NoWriter)" for q d using wk by (auto simp: generation_def)
    then obtain n where f: "f = FSwapped i n" "n < 2 ^ 31"
      and g: "generation len n (w i) (b_queue b i) (b_done b i)"
      using inv i by (cases f) (auto simp: buffers_inv_def Let_def)
    show thesis
    proof (rule that [OF _ f(2) kT [OF g] g])
      show "i < 2" using i ne by simp
    next
      fix w' q' d' and b' :: "'a batch"
      assume "generation len n w' q' d'" "b_active b' = b_active b"
        "b_queue b' = (b_queue b)(i := q')" "b_done b' = (b_done b)(i := d')"
      then show "buffers_inv len b' (w(i := w')) f"
        using inv ne i f by (auto simp: buffers_inv_def Let_def)
    qed
  qed
qed

lemma flipped_cong: "set_index v = set_index w \<Longrightarrow> flipped v = flipped w"
  by (auto simp: flipped_def messageBatchIndexMask_def and_top_bit set_index_div div_eq_0_iff split: if_splits)

lemma ticket_inv:
  assumes inv: "buffers_inv len b w f" and c: "set_count (b_active b) < 2 ^ 31 - 1"
  shows "buffers_inv len (b\<lparr>b_active := b_active b + 1\<rparr>)
    (w(set_index (b_active b) := (w (set_index (b_active b)))(set_count (b_active b) := HasTicket m))) f"
proof -
  let ?a = "set_index (b_active b)"
  have ne: "1 - ?a \<noteq> ?a" using set_index_bound [of "b_active b"] by (auto simp: less_2_cases_iff)
  have "generation len (Suc (set_count (b_active b))) ((w ?a)(set_count (b_active b) := HasTicket m)) (b_queue b ?a) (b_done b ?a)"
    using inv by (intro generation_ticket) (simp add: buffers_inv_def Let_def)
  then show ?thesis using inv ne flipped_cong [OF ticket_word(1) [OF c]]
    by (auto simp: buffers_inv_def Let_def ticket_word [OF c] split: flusher.splits)
qed

lemma swap_inv:
  assumes "buffers_inv len b w (FLoaded v)"
  shows "buffers_inv len (b\<lparr>b_active := v\<rparr>) w (FSwapped (set_index (b_active b)) (set_count (b_active b)))"
proof -
  let ?a = "set_index (b_active b)"
  have a: "1 - (1 - ?a) = ?a" using set_index_bound [of "b_active b"] by (auto simp: less_2_cases_iff)
  show ?thesis using assms a set_count_bound [of "b_active b"] by (auto simp: buffers_inv_def Let_def flipped_word)
qed

lemma buffers_inv_cong: "b_active b' = b_active b \<Longrightarrow> b_queue b' = b_queue b \<Longrightarrow> b_done b' = b_done b \<Longrightarrow>
   buffers_inv len b' w f = buffers_inv len b w f"
  unfolding buffers_inv_def Let_def by (cases f) simp_all

lemma buffers_inv_other [simp]:
  "buffers_inv len (b\<lparr>b_closed := x\<rparr>) w f = buffers_inv len b w f"
  "buffers_inv len (b\<lparr>b_flushing := y\<rparr>) w f = buffers_inv len b w f"
  "buffers_inv len (b\<lparr>b_lastFlush := z\<rparr>) w f = buffers_inv len b w f"
  by (rule buffers_inv_cong; simp)+

text \<open>The flusher states in which the other buffer is unused.\<close>

lemma buffers_inv_idle:
  assumes "f \<in> {FIdle, FLocked, FReset, FCallback}" "g \<in> {FIdle, FLocked, FReset, FCallback}"
  shows "buffers_inv len b w f = buffers_inv len b w g"
  using assms unfolding buffers_inv_def Let_def by auto

lemma batch_init_inv: "batch_inv n (batch_init blank n now)"
  by (simp add: batch_inv_def batch_init_def NewMessageBatch_def buffers_inv_def generation_new set_index_div set_count_mod)

lemma held_sum_upd:
  fixes w :: "nat \<Rightarrow> nat \<Rightarrow> 'm writer"
  assumes "i < 2"
  shows "held_msgs len ((w(i := v)) 0) + held_msgs len ((w(i := v)) 1) + held_msgs len (w i) =
    held_msgs len (w 0) + held_msgs len (w 1) + held_msgs len v"
  using assms by (auto simp: less_2_cases_iff)

lemma batch_inv_ticket:
  assumes "m \<in># c_entered s" "getActiveBufferCount (c_batch s) < 2 ^ 31 - 1" "take_ticket (c_batch s) = (a, b)" "batch_inv len s"
  shows "batch_inv len (set_writer (set_index a) (unat ((a AND messageBatchCountMask) - 1)) (HasTicket m)
    (s\<lparr>c_batch := b, c_entered := c_entered s - {#m#}\<rparr>))"
proof -
  let ?b = "c_batch s"
  let ?i = "set_index (b_active ?b)" and ?c = "set_count (b_active ?b)"
  have c: "?c < 2 ^ 31 - 1" using assms by (simp add: getActiveBufferCount_def)
  have a: "a = b_active ?b + 1" "b = ?b\<lparr>b_active := b_active ?b + 1\<rparr>" using assms by (auto simp: take_ticket_def)
  have k: "unat (((b_active ?b + 1) AND messageBatchCountMask) - 1) = ?c" by (rule ticket_index_word) (simp add: ticket_word [OF c])
  have bi: "buffers_inv len ?b (c_writers s) (c_flusher s)" using assms by (simp add: batch_inv_def)
  have w: "c_writers s ?i ?c = NoWriter" using bi by (simp add: buffers_inv_def Let_def generation_def)
  let ?w = "(c_writers s ?i)(?c := HasTicket m)"
  have h: "held_msgs len ?w = held_msgs len (c_writers s ?i)" using w by (intro held_msgs_same) simp
  have "held_msgs len (((c_writers s)(?i := ?w)) 0) + held_msgs len (((c_writers s)(?i := ?w)) 1) =
      held_msgs len (c_writers s 0) + held_msgs len (c_writers s 1)"
    using h set_index_bound [of "b_active ?b"] by (auto simp: less_2_cases_iff)
  then show ?thesis using ticket_inv [OF bi c, of m] assms(4) a k ticket_word(1) [OF c]
    by (simp add: batch_inv_def set_writer_def ac_simps)
qed

lemma batch_inv_store:
  assumes "c_writers s i k = HasTicket m" "store_ticket i (of_nat k) m (c_batch s) = (ok, b)" "batch_inv len s"
  shows "batch_inv len (set_writer i k (Stored (if ok then Some m else None))
    (s\<lparr>c_batch := b, c_accepted := (if ok then add_mset m (c_accepted s) else c_accepted s)\<rparr>))"
proof -
  let ?b = "c_batch s" and ?w = "c_writers s"
  have bi: "buffers_inv len ?b ?w (c_flusher s)" using assms by (simp add: batch_inv_def)
  have nw: "?w i k \<noteq> NoWriter" using assms by simp
  obtain T where T: "i < 2" "T < 2 ^ 31" "k < T" "generation len T (?w i) (b_queue ?b i) (b_done ?b i)"
    and frame: "\<And>w' q' d' b'. generation len T w' q' d' \<Longrightarrow> b_active b' = b_active ?b \<Longrightarrow>
       b_queue b' = (b_queue ?b)(i := q') \<Longrightarrow> b_done b' = (b_done ?b)(i := d') \<Longrightarrow>
       buffers_inv len b' (?w(i := w')) (c_flusher s)"
    by (rule writer_frame [OF bi nw]) blast
  have len: "length (b_queue ?b i) = len" using T by (simp add: generation_def)
  have uk: "unat (of_nat k :: u32) = k" using T by (intro unat_of_nat_u32) simp
  let ?x = "Stored (if ok then Some m else None)"
  let ?q = "if ok then (b_queue ?b i)[k := m] else b_queue ?b i"
  have ok: "ok = (k < len)" "b = ?b\<lparr>b_queue := (b_queue ?b)(i := ?q)\<rparr>"
    using assms(2) len uk by (auto simp: store_ticket_def split: if_splits)
  have "generation len T ((?w i)(k := ?x)) ?q (b_done ?b i)"
    using generation_store [of len T "?w i" "b_queue ?b i" "b_done ?b i" k m] T assms(1) ok(1) by (cases "k < len") auto
  then have bi': "buffers_inv len b (?w(i := (?w i)(k := ?x))) (c_flusher s)" by (rule frame) (simp_all add: ok(2))
  have hu: "held_msgs len ((?w i)(k := ?x)) = (if ok then {#m#} else {#}) + held_msgs len (?w i)"
    using held_msgs_upd [of "?w i" k ?x len] assms(1) ok(1) by auto
  have "held_msgs len ((?w(i := (?w i)(k := ?x))) 0) + held_msgs len ((?w(i := (?w i)(k := ?x))) 1) =
      (if ok then {#m#} else {#}) + (held_msgs len (?w 0) + held_msgs len (?w 1))"
    using held_sum_upd [OF T(1), of len ?w "(?w i)(k := ?x)"] hu by simp
  then show ?thesis using bi' assms(3) ok(2) by (simp add: batch_inv_def set_writer_def ac_simps)
qed

lemma batch_inv_count:
  assumes "c_writers s i k = Stored x" "batch_inv len s"
  shows "batch_inv len (set_writer i k (Counted x) (on_batch (count_done i) s))"
proof -
  let ?b = "c_batch s" and ?w = "c_writers s"
  have bi: "buffers_inv len ?b ?w (c_flusher s)" using assms by (simp add: batch_inv_def)
  have nw: "?w i k \<noteq> NoWriter" using assms by simp
  obtain T where T: "i < 2" "T < 2 ^ 31" "k < T" "generation len T (?w i) (b_queue ?b i) (b_done ?b i)"
    and frame: "\<And>w' q' d' b'. generation len T w' q' d' \<Longrightarrow> b_active b' = b_active ?b \<Longrightarrow>
       b_queue b' = (b_queue ?b)(i := q') \<Longrightarrow> b_done b' = (b_done ?b)(i := d') \<Longrightarrow>
       buffers_inv len b' (?w(i := w')) (c_flusher s)"
    by (rule writer_frame [OF bi nw]) blast
  have bi': "buffers_inv len (count_done i ?b) (?w(i := (?w i)(k := Counted x))) (c_flusher s)"
    by (rule frame [OF generation_count [OF T(4) assms(1) T(2)]]) (simp_all add: count_done_def)
  have "held_msgs len ((?w i)(k := Counted x)) = held_msgs len (?w i)" using assms(1) by (intro held_msgs_same) simp
  then show ?thesis using bi' assms(2) held_sum_upd [OF T(1), of len ?w "(?w i)(k := Counted x)"]
    by (simp add: batch_inv_def set_writer_def on_batch_def count_done_def ac_simps)
qed

lemma batch_inv_assemble:
  assumes "c_flusher s = FSwapped i n" "n = unat (b_done (c_batch s) i)" "q = b_queue (c_batch s) i" "batch_inv len s"
  shows "batch_inv len (s\<lparr>c_flusher := FAssembled i, c_writers := (c_writers s)(i := (\<lambda>k. NoWriter)),
    c_delivered := c_delivered s @ [take (nat (MinI (int n) (int (length q)))) q]\<rparr>)"
proof -
  let ?b = "c_batch s" and ?w = "c_writers s"
  have bi: "buffers_inv len ?b ?w (FSwapped i n)" using assms by (simp add: batch_inv_def)
  have g: "generation len n (?w i) q (b_done ?b i)" using bi assms(3) by (auto simp: buffers_inv_def Let_def)
  have i: "i < 2" "i \<noteq> set_index (b_active ?b)"
    using bi set_index_bound [of "b_active ?b"] by (auto simp: buffers_inv_def Let_def less_2_cases_iff)
  have len: "length q = len" using g by (simp add: generation_def)
  have "take (min n len) q = List.map_filter (\<lambda>k. held (?w i k)) [0..<len]"
    by (rule generation_flush [OF g assms(2)])
  then have d: "mset (take (nat (MinI (int n) (int (length q)))) q) = held_msgs len (?w i)"
    using len by (cases "n < len") (simp_all add: held_msgs_def MinI_def min_def)
  have bi': "buffers_inv len ?b (?w(i := (\<lambda>k. NoWriter))) (FAssembled i)"
    using bi i g assms(3) by (auto simp: buffers_inv_def Let_def generation_def)
  show ?thesis using bi' assms d held_sum_upd [OF i(1), of len ?w "\<lambda>k. NoWriter"]
    by (simp add: batch_inv_def ac_simps)
qed

lemma batch_step_inv: "batch_step s t \<Longrightarrow> batch_inv len s \<Longrightarrow> batch_inv len t"
proof (induction rule: batch_step.induct)
  case (enter s m)
  then show ?case by (simp add: batch_inv_def)
next
  case ticket
  then show ?case by (rule batch_inv_ticket)
next
  case store
  then show ?case by (rule batch_inv_store)
next
  case count
  then show ?case by (rule batch_inv_count)
next
  case assemble
  then show ?case by (rule batch_inv_assemble)
next
  case (swap s w a)
  then show ?case using swap_inv [of len "c_batch s" "c_writers s" w] by (simp add: batch_inv_def on_batch_def)
next
  case (reset s i)
  then show ?case
    by (auto simp: batch_inv_def on_batch_def buffers_inv_def Let_def generation_def)
next
  case (load s)
  then show ?case by (auto simp: batch_inv_def buffers_inv_def Let_def)
next
  case (lock s)
  then show ?case using buffers_inv_idle [of FIdle FLocked len "c_batch s" "c_writers s"]
    by (auto simp: batch_inv_def on_batch_def)
next
  case (callback s)
  then show ?case using buffers_inv_idle [of FIdle FCallback len "c_batch s" "c_writers s"]
    by (auto simp: batch_inv_def on_batch_def)
next
  case (release s)
  then show ?case using buffers_inv_idle [of FReset FIdle len "c_batch s" "c_writers s"]
    by (auto simp: batch_inv_def on_batch_def)
next
  case (callback_done s)
  then show ?case using buffers_inv_idle [of FCallback FIdle len "c_batch s" "c_writers s"]
    by (auto simp: batch_inv_def on_batch_def)
qed (auto simp: batch_inv_def on_batch_def batch_Touch_def)

lemma batch_reachable_inv: "batch_reachable blank n now s \<Longrightarrow> batch_inv n s"
  unfolding batch_reachable_def
  by (induction rule: rtranclp_induct) (auto intro: batch_init_inv batch_step_inv)

text \<open>No writer is between its ticket and its count, and no flush is under way.\<close>

definition quiescent :: "'m cbatch \<Rightarrow> bool" where
  "quiescent s \<longleftrightarrow> c_flusher s = FIdle \<and> (\<forall>i k. c_writers s i k = NoWriter \<or> counted (c_writers s i k))"

lemma generation_quiet:
  assumes g: "generation len T w q d" and c: "\<And>k. w k = NoWriter \<or> counted (w k)"
  shows "mset (take T q) = held_msgs len w"
proof -
  have "{k. counted (w k)} = {..<T}" using counted_finite [OF g] g c by (auto simp: generation_def) (metis not_le)
  then have T: "T = unat d" using g by (simp add: generation_def)
  have "take T q = take (min T len) q" using g by (simp add: generation_def min_def)
  then show ?thesis using generation_flush [OF g T] by (simp add: held_msgs_def)
qed

text \<open>C1: Under every interleaving of any number of writers, flushes and a close, the assembly function
  is given only messages whose \<open>Append\<close> succeeded, each at most once; whenever no writer and no
  flush is under way, the accepted messages are exactly those delivered together with those in the
  active buffer, each counted once.\<close>

theorem batch_delivers_once:
  assumes "batch_reachable blank n now s"
  shows "mset (concat (c_delivered s)) \<subseteq># c_accepted s \<and>
    (quiescent s \<longrightarrow> c_accepted s = mset (concat (c_delivered s)) + mset (batch_content (c_batch s)))"
proof (intro conjI impI)
  note inv = batch_reachable_inv [OF assms]
  show "mset (concat (c_delivered s)) \<subseteq># c_accepted s" using inv by (simp add: batch_inv_def ac_simps)
  assume q: "quiescent s"
  let ?b = "c_batch s" let ?a = "set_index (b_active ?b)"
  have bi: "buffers_inv n ?b (c_writers s) FIdle" using inv q by (simp add: batch_inv_def quiescent_def)
  have g: "generation n (set_count (b_active ?b)) (c_writers s ?a) (b_queue ?b ?a) (b_done ?b ?a)"
    using bi by (simp add: buffers_inv_def Let_def)
  have "mset (batch_content ?b) = held_msgs n (c_writers s ?a)"
    unfolding batch_content_def using q by (intro generation_quiet [OF g]) (auto simp: quiescent_def)
  moreover have "c_writers s (1 - ?a) = (\<lambda>k. NoWriter)" using bi by (auto simp: buffers_inv_def Let_def dest: generation_0)
  ultimately show "c_accepted s = mset (concat (c_delivered s)) + mset (batch_content ?b)"
    using inv index_cases [of "b_active ?b"] by (cases rule: index_cases [of "b_active ?b"]) (auto simp: batch_inv_def)
qed

lemma reachable_step: "batch_reachable blank n now s \<Longrightarrow> batch_step s t \<Longrightarrow> batch_reachable blank n now t"
  unfolding batch_reachable_def by (rule rtranclp.rtrancl_into_rtrancl)

text \<open>
  Two runs on a batch of one slot: \<open>Append\<close> of one message and a flush, and an \<open>Append\<close>
  that passes the \<open>IsClosed\<close> test before a \<open>Close\<close> and takes its ticket after it.
\<close>

lemmas run_simps = batch_init_def NewMessageBatch_def set_writer_def on_batch_def count_done_def take_ticket_def
  store_ticket_def messageBatchCountMask_def messageBatchIndexMask_def set_index_def set_count_def flipped_def
  batch_IsClosed_def getActiveBufferCount_def batch_IsEmpty_def batch_content_def MinI_def

definition batch_with :: "'m batch \<Rightarrow> 'm \<Rightarrow> 'm writer \<Rightarrow> 'm multiset \<Rightarrow> 'm multiset \<Rightarrow> 'm cbatch" where
  "batch_with b m w e acc = \<lparr>c_batch = b, c_entered = e, c_writers = (\<lambda>i k. NoWriter)(0 := (\<lambda>k. NoWriter)(0 := w)),
     c_flusher = FIdle, c_accepted = acc, c_delivered = []\<rparr>"

lemma append_run:
  assumes b: "b = (NewMessageBatch x 1 t)\<lparr>b_closed := c\<rparr>"
  shows "batch_step\<^sup>*\<^sup>* (batch_with b m NoWriter {#m#} {#})
    (batch_with (b\<lparr>b_active := 1, b_queue := (b_queue b)(0 := [m]), b_done := (b_done b)(0 := 1)\<rparr>) m
      (Counted (Some m)) {#} {#m#})"
proof -
  let ?b1 = "b\<lparr>b_active := 1\<rparr>" let ?b2 = "?b1\<lparr>b_queue := (b_queue b)(0 := [m])\<rparr>"
  let ?s0 = "batch_with b m NoWriter {#m#} {#}" and ?s1 = "batch_with ?b1 m (HasTicket m) {#} {#}"
    and ?s2 = "batch_with ?b2 m (Stored (Some m)) {#} {#m#}"
    and ?s3 = "batch_with (?b2\<lparr>b_done := (b_done b)(0 := 1)\<rparr>) m (Counted (Some m)) {#} {#m#}"
  have "batch_step ?s0 ?s1" using batch_step.ticket [of m ?s0 1 ?b1] by (simp add: batch_with_def run_simps b)
  moreover have "batch_step ?s1 ?s2" using batch_step.store [of ?s1 0 0 m True ?b2] by (simp add: batch_with_def run_simps b)
  moreover have "batch_step ?s2 ?s3" using batch_step.count [of ?s2 0 0 "Some m"] by (simp add: batch_with_def run_simps b)
  ultimately show ?thesis by (auto simp: b)
qed

lemma init_with: "batch_with (NewMessageBatch x 1 t) m NoWriter {#} {#} = batch_init x 1 t"
  by (simp add: batch_with_def batch_init_def fun_eq_iff)

lemma entered_with: "batch_step (batch_with (NewMessageBatch x 1 t) m NoWriter {#} {#}) (batch_with (NewMessageBatch x 1 t) m NoWriter {#m#} {#})"
  using batch_step.enter [of "batch_with (NewMessageBatch x 1 t) m NoWriter {#} {#}" m] by (simp add: batch_with_def run_simps)

lemma reachable_appended:
  "\<exists>s. batch_reachable x 1 t s \<and> quiescent s \<and> c_accepted s = {#m#} \<and> c_delivered s = [] \<and> batch_content (c_batch s) = [m]"
proof -
  let ?b = "NewMessageBatch x 1 t"
  let ?s = "batch_with (?b\<lparr>b_active := 1, b_queue := (b_queue ?b)(0 := [m]), b_done := (b_done ?b)(0 := 1)\<rparr>) m (Counted (Some m)) {#} {#m#}"
  have "batch_reachable x 1 t ?s"
    using converse_rtranclp_into_rtranclp [where r = batch_step, OF entered_with [of x t m] append_run [where b = ?b and x = x and t = t and c = False and m = m]]
    by (simp only: batch_reachable_def init_with) (simp add: NewMessageBatch_def)
  moreover have "quiescent ?s" "c_accepted ?s = {#m#}" "c_delivered ?s = []" "batch_content (c_batch ?s) = [m]"
    by (auto simp: quiescent_def batch_with_def run_simps)
  ultimately show ?thesis by blast
qed

lemma batch_delivers_once_witness:
  "\<exists>s. batch_reachable (0 :: nat) 1 5 s \<and> quiescent s \<and> c_accepted s = {#7#} \<and> c_delivered s = [] \<and>
     c_accepted s = mset (concat (c_delivered s)) + mset (batch_content (c_batch s))"
proof -
  obtain s where s: "batch_reachable (0 :: nat) 1 5 s" "quiescent s" "c_accepted s = {#7#}" "c_delivered s = []"
    using reachable_appended [of 0 5 7] by blast
  show ?thesis using s batch_delivers_once [OF s(1)] by blast
qed

text \<open>A close loses an accepted message: a writer that passed the \<open>IsClosed\<close> test before the close
  can store its message after the final flush found the batch empty; its \<open>Append\<close> returns true, and no
  flush is under way or will be asked for.\<close>

theorem batch_close_loses:
  "\<exists>s t u. batch_reachable x 1 now s \<and> batch_step s t \<and> batch_IsClosed (c_batch t) \<and>
     batch_Flush now (c_batch t) = Some (None, c_batch t) \<and> batch_step\<^sup>*\<^sup>* t u \<and> quiescent u \<and> c_entered u = {#} \<and>
     c_accepted u = {#m#} \<and> c_delivered u = []"
proof -
  let ?b = "NewMessageBatch x 1 now" let ?c = "?b\<lparr>b_closed := True\<rparr>"
  let ?s = "batch_with ?b m NoWriter {#m#} {#}" and ?t = "batch_with ?c m NoWriter {#m#} {#}"
  let ?u = "batch_with (?c\<lparr>b_active := 1, b_queue := (b_queue ?c)(0 := [m]), b_done := (b_done ?c)(0 := 1)\<rparr>) m (Counted (Some m)) {#} {#m#}"
  have "batch_reachable x 1 now ?s" using entered_with [of x now m] by (simp only: batch_reachable_def init_with r_into_rtranclp)
  moreover have "batch_step ?s ?t" using batch_step.close [of ?s] by (simp add: batch_with_def on_batch_def)
  moreover have "batch_IsClosed (c_batch ?t)" "batch_Flush now (c_batch ?t) = Some (None, c_batch ?t)"
    by (simp_all add: batch_with_def run_simps batch_Flush_def)
  moreover have "batch_step\<^sup>*\<^sup>* ?t ?u" by (rule append_run) simp
  moreover have "quiescent ?u" "c_entered ?u = {#}" "c_accepted ?u = {#m#}" "c_delivered ?u = []"
    by (auto simp: quiescent_def batch_with_def)
  ultimately show ?thesis by blast
qed

text \<open>The ticket counter has 31 bits: the append that takes ticket \<open>2 ^ 31\<close> fails, flips the active
  buffer and leaves a batch that looks empty, so the messages stored before it are not flushed.\<close>

theorem batch_ticket_overflow:
  assumes "\<not> b_closed b" "set_count (b_active b) = 2 ^ 31 - 1" "set_index (b_active b) = 0" "length (b_queue b 1) < 2 ^ 31"
  shows "\<exists>b'. batch_Append m b = (False, b') \<and> set_index (b_active b') = 1 \<and> batch_Flush now b' = Some (None, b')"
proof -
  have "unat (b_active b) = 2 ^ 31 - 1" using assms(2,3) by (simp add: set_count_mod set_index_div div_eq_0_iff)
  then have "b_active b = 0x7FFFFFFF" by (simp add: word_unat_eq_iff)
  moreover have "unat (- 1 :: u32) = 2 ^ 32 - 1" by (simp add: unsigned_minus_1_eq_mask mask_eq_exp_minus_1)
  ultimately show ?thesis using assms(1,4)
    by (simp add: batch_Append_def batch_IsClosed_def take_ticket_def store_ticket_def set_index_def
        messageBatchCountMask_def batch_Flush_def batch_IsEmpty_def count_done_def Let_def)
qed

lemma batch_ticket_overflow_witness:
  "\<exists>b'. batch_Append 3 ((NewMessageBatch (0 :: nat) 2 5)\<lparr>b_active := 0x7FFFFFFF\<rparr>) = (False, b') \<and>
     set_index (b_active b') = 1 \<and> batch_Flush 9 b' = Some (None, b')"
  by (rule batch_ticket_overflow) (simp_all add: NewMessageBatch_def set_index_def set_count_def messageBatchCountMask_def)

end
