(* ===== verification/MarshalMaps.thy ===== *)
theory MarshalMaps
  imports GoStrings
begin

text \<open>
  \<open>shared/marshalmap.go\<close>: typed access to configuration and JSON values. \<open>gval\<close> is
  Go's \<open>interface{}\<close> restricted to the dynamic types the code tests for. Maps are association
  lists in the order the runtime happens to iterate them; a Go map has each key once. An error value is
  the text class of the message, with the keys it prints.
\<close>

datatype gval =
    GNil
  | GBool bool
  | GInt int
  | GUint64 u64
  | GInt64 i64
  | GFloat64 u64
  | GString bytes
  | GArray "gval list"
  | GStrings "bytes list"
  | GMarshalMap "(bytes \<times> gval) list"
  | GStrMap "(bytes \<times> gval) list"
  | GAnyMap "(gval \<times> gval) list"
  | GAnyArrayMap "(gval \<times> gval list) list"
  | GStrStrMap "(bytes \<times> bytes) list"
  | GStrArrMap "(bytes \<times> bytes list) list"
  | GFloats "u64 list"

type_synonym marshal_map = "(bytes \<times> gval) list"

datatype marshal_err =
    NotSet bytes
  | NotExpected bytes string
  | KeyNotString
  | ValueNotString gval
  | ValueNotStringArray gval

type_synonym 'a marshal = "marshal_err + 'a"

definition NewMarshalMap :: marshal_map where "NewMarshalMap = []"

text \<open>\<open>mmap[key] = value\<close>\<close>

fun mm_set :: "(bytes \<times> 'v) list \<Rightarrow> bytes \<Rightarrow> 'v \<Rightarrow> (bytes \<times> 'v) list" where
  "mm_set [] k v = [(k, v)]"
| "mm_set ((k', v') # m) k v = (if k' = k then (k, v) # m else (k', v') # mm_set m k v)"

lemma mm_set_lookup: "map_of (mm_set m k v) = (map_of m)(k \<mapsto> v)"
  by (induction m k v rule: mm_set.induct) auto

definition mm_lookup :: "marshal_map \<Rightarrow> bytes \<Rightarrow> (gval \<Rightarrow> 'a marshal) \<Rightarrow> 'a marshal" where
  "mm_lookup mmap key f = (case map_of mmap key of None \<Rightarrow> Inl (NotSet key) | Some val \<Rightarrow> f val)"

definition mm_Bool :: "marshal_map \<Rightarrow> bytes \<Rightarrow> bool marshal" where
  "mm_Bool mmap key =
     mm_lookup mmap key (\<lambda>val. case val of GBool b \<Rightarrow> Inr b | _ \<Rightarrow> Inl (NotExpected key ''boolean''))"

definition mm_Int :: "marshal_map \<Rightarrow> bytes \<Rightarrow> int marshal" where
  "mm_Int mmap key =
     mm_lookup mmap key (\<lambda>val. case val of GInt i \<Rightarrow> Inr i | _ \<Rightarrow> Inl (NotExpected key ''integer''))"

definition mm_Uint64 :: "marshal_map \<Rightarrow> bytes \<Rightarrow> u64 marshal" where
  "mm_Uint64 mmap key =
     mm_lookup mmap key (\<lambda>val. case val of GUint64 i \<Rightarrow> Inr i | _ \<Rightarrow> Inl (NotExpected key ''unsigned integer''))"

definition mm_Int64 :: "marshal_map \<Rightarrow> bytes \<Rightarrow> i64 marshal" where
  "mm_Int64 mmap key =
     mm_lookup mmap key (\<lambda>val. case val of GInt64 i \<Rightarrow> Inr i | _ \<Rightarrow> Inl (NotExpected key ''unsigned integer''))"

definition mm_Float64 :: "marshal_map \<Rightarrow> bytes \<Rightarrow> u64 marshal" where
  "mm_Float64 mmap key =
     mm_lookup mmap key (\<lambda>val. case val of GFloat64 f \<Rightarrow> Inr f | _ \<Rightarrow> Inl (NotExpected key ''float64''))"

definition mm_String :: "marshal_map \<Rightarrow> bytes \<Rightarrow> bytes marshal" where
  "mm_String mmap key =
     mm_lookup mmap key (\<lambda>val. case val of GString s \<Rightarrow> Inr s | _ \<Rightarrow> Inl (NotExpected key ''string''))"

definition mm_Array :: "marshal_map \<Rightarrow> bytes \<Rightarrow> gval list marshal" where
  "mm_Array mmap key =
     mm_lookup mmap key (\<lambda>val. case val of GArray a \<Rightarrow> Inr a | _ \<Rightarrow> Inl (NotExpected key ''array''))"

fun as_strings :: "bytes \<Rightarrow> gval list \<Rightarrow> bytes list marshal" where
  "as_strings key [] = Inr []"
| "as_strings key (GString s # vs) = (case as_strings key vs of Inl e \<Rightarrow> Inl e | Inr ss \<Rightarrow> Inr (s # ss))"
| "as_strings key (v # vs) = Inl (ValueNotString v)"

definition castToStringArray :: "bytes \<Rightarrow> gval \<Rightarrow> bytes list marshal" where
  "castToStringArray key value =
     (case value of
        GString s \<Rightarrow> Inr [s]
      | GArray vs \<Rightarrow> as_strings key vs
      | GStrings ss \<Rightarrow> Inr ss
      | _ \<Rightarrow> Inl (NotExpected key ''string array type''))"

definition mm_StringArray :: "marshal_map \<Rightarrow> bytes \<Rightarrow> bytes list marshal" where
  "mm_StringArray mmap key = mm_lookup mmap key (castToStringArray key)"

definition mm_Map :: "marshal_map \<Rightarrow> bytes \<Rightarrow> (gval \<times> gval) list marshal" where
  "mm_Map mmap key =
     mm_lookup mmap key (\<lambda>val. case val of GAnyMap m \<Rightarrow> Inr m | _ \<Rightarrow> Inl (NotExpected key ''map''))"

text \<open>The copying loops over maps: stop at the first key or value of the wrong type.\<close>

fun copy_map :: "('k \<Rightarrow> bytes marshal) \<Rightarrow> (bytes \<Rightarrow> 'v \<Rightarrow> 'w marshal) \<Rightarrow> ('k \<times> 'v) list \<Rightarrow> (bytes \<times> 'w) list marshal" where
  "copy_map fk fv [] = Inr []"
| "copy_map fk fv ((k, v) # m) =
     (case fk k of
        Inl e \<Rightarrow> Inl e
      | Inr sk \<Rightarrow> (case fv sk v of
                     Inl e \<Rightarrow> Inl e
                   | Inr w \<Rightarrow> (case copy_map fk fv m of Inl e \<Rightarrow> Inl e | Inr r \<Rightarrow> Inr ((sk, w) # r))))"

definition string_key :: "gval \<Rightarrow> bytes marshal" where
  "string_key k = (case k of GString s \<Rightarrow> Inr s | _ \<Rightarrow> Inl KeyNotString)"

definition string_value :: "bytes \<Rightarrow> gval \<Rightarrow> bytes marshal" where
  "string_value key v = (case v of GString s \<Rightarrow> Inr s | _ \<Rightarrow> Inl (ValueNotString v))"

definition string_array_value :: "bytes \<Rightarrow> gval \<Rightarrow> bytes list marshal" where
  "string_array_value key v =
     (case castToStringArray key v of Inr ss \<Rightarrow> Inr ss | Inl e \<Rightarrow> Inl (ValueNotStringArray v))"

definition mm_StringMap :: "marshal_map \<Rightarrow> bytes \<Rightarrow> (bytes \<times> bytes) list marshal" where
  "mm_StringMap mmap key =
     mm_lookup mmap key (\<lambda>val. case val of
        GAnyMap m \<Rightarrow> copy_map string_key string_value m
      | GStrMap m \<Rightarrow> copy_map Inr string_value m
      | GStrStrMap m \<Rightarrow> Inr m
      | _ \<Rightarrow> Inl (NotExpected key ''map[string]string''))"

definition mm_StringArrayMap :: "marshal_map \<Rightarrow> bytes \<Rightarrow> (bytes \<times> bytes list) list marshal" where
  "mm_StringArrayMap mmap key =
     mm_lookup mmap key (\<lambda>val. case val of
        GAnyArrayMap m \<Rightarrow> copy_map string_key (\<lambda>k v. string_array_value k (GArray v)) m
      | GAnyMap m \<Rightarrow> copy_map string_key string_array_value m
      | GStrMap m \<Rightarrow> copy_map Inr string_array_value m
      | GStrArrMap m \<Rightarrow> Inr m
      | _ \<Rightarrow> Inl (NotExpected key ''map[string][]string''))"

definition mm_MarshalMap :: "marshal_map \<Rightarrow> bytes \<Rightarrow> marshal_map marshal" where
  "mm_MarshalMap mmap key =
     mm_lookup mmap key (\<lambda>val. case val of
        GAnyMap m \<Rightarrow> copy_map string_key (\<lambda>k v. Inr v) m
      | GStrMap m \<Rightarrow> Inr m
      | GMarshalMap m \<Rightarrow> Inr m
      | _ \<Rightarrow> Inl (NotExpected key ''map[string]interface{}''))"

subsection \<open>Paths\<close>

definition resolvePathKey :: "bytes \<Rightarrow> nat \<times> nat" where
  "resolvePathKey key =
     (let keyEnd = length key;
          (keyEnd, nextKeyStart) =
            (case str_index key ''/'' of
               Some pathIdx \<Rightarrow> if pathIdx < keyEnd then (pathIdx, pathIdx + 1) else (keyEnd, keyEnd)
             | None \<Rightarrow> (keyEnd, keyEnd))
      in case str_index key ''['' of
           Some arrayIdx \<Rightarrow> if arrayIdx < keyEnd then (arrayIdx, arrayIdx) else (keyEnd, nextKeyStart)
         | None \<Rightarrow> (keyEnd, nextKeyStart))"

text \<open>A negative index passes the test \<open>index < len(arrayValue)\<close> and panics in the index expression.\<close>

lemma map_of_size: "map_of m k = Some v \<Longrightarrow> size v < size_list (size_prod (\<lambda>x. 0) size) m"
  by (induction m) (auto split: if_splits)

lemma nth_size: "i < length vs \<Longrightarrow> size (vs ! i) \<le> size_list size (vs :: gval list)"
  by (rule size_list_estimation' [where x = "vs ! i"]) simp_all

function resolvePath :: "bytes \<Rightarrow> gval \<Rightarrow> gval option run" where
  "resolvePath key value =
     (if key = [] then Inr (Some value)
      else case value of
        GArray arrayValue \<Rightarrow>
          (case (str_index key ''['', str_index key '']'') of
             (Some 0, Some endIdx) \<Rightarrow>
               if endIdx > 1 then
                 (case atoi (subslice 1 endIdx key) of
                    (index, ok) \<Rightarrow>
                      if ok \<and> index < int (length arrayValue) then
                        if index < 0 then Inl IndexOutOfRange
                        else if nat index < length arrayValue
                             then resolvePath (drop (endIdx + 1) key) (arrayValue ! nat index)
                             else Inr None
                      else Inr None)
               else Inr None
           | _ \<Rightarrow> Inr None)
      | GMarshalMap m \<Rightarrow>
          (case resolvePathKey key of (keyEnd, nextKeyStart) \<Rightarrow>
             (case map_of m (take keyEnd key) of
                Some v \<Rightarrow> resolvePath (drop nextKeyStart key) v
              | None \<Rightarrow> Inr None))
      | GStrMap m \<Rightarrow>
          (case resolvePathKey key of (keyEnd, nextKeyStart) \<Rightarrow>
             (case map_of m (take keyEnd key) of
                Some v \<Rightarrow> resolvePath (drop nextKeyStart key) v
              | None \<Rightarrow> Inr None))
      | _ \<Rightarrow> Inr None)"
  by pat_completeness auto
termination
  by (relation "measure (size \<circ> snd)") (auto dest: map_of_size nth_size simp: less_Suc_eq_le)

declare resolvePath.simps [simp del]

definition Path :: "marshal_map \<Rightarrow> bytes \<Rightarrow> gval option run" where
  "Path mmap key = resolvePath key (GMarshalMap mmap)"

subsection \<open>A path finds the value it addresses\<close>

datatype path_step = Key bytes | Index nat

fun select :: "path_step list \<Rightarrow> gval \<Rightarrow> gval option" where
  "select [] v = Some v"
| "select (Index n # ps) v =
     (case v of GArray vs \<Rightarrow> if n < length vs then select ps (vs ! n) else None | _ \<Rightarrow> None)"
| "select (Key k # ps) v =
     (case v of
        GMarshalMap m \<Rightarrow> (case map_of m k of Some w \<Rightarrow> select ps w | None \<Rightarrow> None)
      | GStrMap m \<Rightarrow> (case map_of m k of Some w \<Rightarrow> select ps w | None \<Rightarrow> None)
      | _ \<Rightarrow> None)"

fun render_path :: "path_step list \<Rightarrow> bytes" where
  "render_path [] = []"
| "render_path (Index n # ps) = ''['' @ format_uint n 10 @ '']'' @ render_path ps"
| "render_path [Key k] = k"
| "render_path (Key k # Key k' # ps) = k @ ''/'' @ render_path (Key k' # ps)"
| "render_path (Key k # Index n # ps) = k @ render_path (Index n # ps)"

definition plain_step :: "path_step \<Rightarrow> bool" where
  "plain_step p = (case p of Key k \<Rightarrow> k \<noteq> [] \<and> CHR ''/'' \<notin> set k \<and> CHR ''['' \<notin> set k | Index n \<Rightarrow> n < 2 ^ 63)"

lemma find_index_append:
  "(\<forall>x\<in>set xs. \<not> P x) \<Longrightarrow> find_index P (xs @ ys) = map_option (\<lambda>i. length xs + i) (find_index P ys)"
  by (induction xs; cases "find_index P ys") auto

lemma find_char_append:
  "c \<notin> set xs \<Longrightarrow> find_index (\<lambda>x. x = c) (xs @ ys) = map_option (\<lambda>i. length xs + i) (find_index (\<lambda>x. x = c) ys)"
  by (rule find_index_append) auto

lemma digits_no: "c \<in> set (format_uint n 10) \<Longrightarrow> is_digit c"
  using format_uint_digits [of n] by (simp add: list_all_iff)

lemma digits_plain: "CHR '']'' \<notin> set (format_uint n 10)" "CHR ''['' \<notin> set (format_uint n 10)" "CHR ''/'' \<notin> set (format_uint n 10)"
  using digits_no by (fastforce simp: is_digit_def)+

lemma digits_ne: "format_uint n 10 \<noteq> []"
  by (subst format_uint.simps) simp

lemma resolvePathKey_last: "plain_step (Key k) \<Longrightarrow> resolvePathKey k = (length k, length k)"
proof -
  assume "plain_step (Key k)"
  then have "find_index (\<lambda>x. x = CHR ''/'') k = None" "find_index (\<lambda>x. x = CHR ''['') k = None"
    by (auto simp: plain_step_def find_index_None)
  then show ?thesis by (simp add: resolvePathKey_def str_index_single Let_def)
qed

lemma resolvePathKey_slash: "plain_step (Key k) \<Longrightarrow> resolvePathKey (k @ ''/'' @ r) = (length k, Suc (length k))"
proof -
  assume k: "plain_step (Key k)"
  then have "find_index (\<lambda>x. x = CHR ''/'') (k @ ''/'' @ r) = Some (length k)"
    by (auto simp: plain_step_def find_char_append)
  moreover have "\<exists>i. find_index (\<lambda>x. x = CHR ''['') (k @ ''/'' @ r) = Some i \<Longrightarrow>
      length k < the (find_index (\<lambda>x. x = CHR ''['') (k @ ''/'' @ r))"
    using k by (auto simp: plain_step_def find_char_append)
  ultimately show ?thesis
    by (auto simp: resolvePathKey_def str_index_single Let_def split: option.splits)
qed

lemma resolvePathKey_bracket: "plain_step (Key k) \<Longrightarrow> resolvePathKey (k @ CHR ''['' # r) = (length k, length k)"
proof -
  assume k: "plain_step (Key k)"
  then have "find_index (\<lambda>x. x = CHR ''['') (k @ CHR ''['' # r) = Some (length k)"
    by (auto simp: plain_step_def find_char_append)
  moreover have "find_index (\<lambda>x. x = CHR ''/'') (k @ CHR ''['' # r) = Some i \<Longrightarrow> length k < i" for i
    using k by (auto simp: plain_step_def find_char_append)
  ultimately show ?thesis
    by (auto simp: resolvePathKey_def str_index_single Let_def split: option.splits)
qed

text \<open>\<open>rest\<close> is how a path continues behind a key.\<close>

lemma render_key:
  assumes "plain_step (Key k)"
  obtains n where "resolvePathKey (render_path (Key k # ps)) = (length k, n)"
    "take (length k) (render_path (Key k # ps)) = k" "drop n (render_path (Key k # ps)) = render_path ps"
proof (cases ps)
  case Nil
  with assms that [of "length k"] show thesis by (simp add: resolvePathKey_last)
next
  case (Cons p qs)
  show thesis
  proof (cases p)
    case (Key k')
    with Cons assms that [of "Suc (length k)"] show thesis by (simp add: resolvePathKey_slash [simplified])
  next
    case (Index n)
    with Cons assms that [of "length k"] show thesis by (simp add: resolvePathKey_bracket)
  qed
qed

lemma resolvePath_index:
  assumes "n < length vs" "n < 2 ^ 63"
  shows "resolvePath (''['' @ format_uint n 10 @ '']'' @ r) (GArray vs) = resolvePath r (vs ! n)"
proof -
  let ?f = "format_uint n 10" and ?key = "''['' @ format_uint n 10 @ '']'' @ r"
  have "\<forall>x\<in>set (CHR ''['' # ?f). x \<noteq> CHR '']''" using digits_plain(1) by auto
  then have "find_index (\<lambda>x. x = CHR '']'') ((CHR ''['' # ?f) @ CHR '']'' # r) = Some (Suc (length ?f))"
    by (subst find_index_append) simp_all
  then have close: "str_index ?key '']'' = Some (Suc (length ?f))" by (simp add: str_index_single)
  have opn: "str_index ?key ''['' = Some 0" by (simp add: str_index_single)
  have sub: "subslice 1 (Suc (length ?f)) ?key = ?f" by (simp add: subslice_def)
  have "int n < int (length vs)" using assms(1) by simp
  with close opn sub atoi_format_uint [OF assms(2)] digits_ne [of n] show ?thesis
    by (subst resolvePath.simps) simp
qed

lemma resolvePath_select:
  "list_all plain_step ps \<Longrightarrow> select ps v = Some w \<Longrightarrow> resolvePath (render_path ps) v = Inr (Some w)"
proof (induction ps arbitrary: v)
  case Nil
  then show ?case by (simp add: resolvePath.simps)
next
  case (Cons p ps)
  show ?case
  proof (cases p)
    case (Index n)
    with Cons show ?thesis
      using resolvePath_index [of n _ "render_path ps"]
      by (auto simp: plain_step_def split: gval.splits if_splits)
  next
    case (Key k)
    then have pk: "plain_step (Key k)" using Cons.prems(1) by simp
    obtain n where r: "resolvePathKey (render_path (Key k # ps)) = (length k, n)"
        "take (length k) (render_path (Key k # ps)) = k" "drop n (render_path (Key k # ps)) = render_path ps"
      by (rule render_key [OF pk])
    have ne: "render_path (Key k # ps) \<noteq> []" using r(2) pk by (auto simp: plain_step_def)
    from Cons Key r ne show ?thesis
      by (subst resolvePath.simps) (auto split: gval.splits option.splits)
  qed
qed

subsection \<open>Properties\<close>

text \<open>A path made of keys (without "/" and "[") and array indices, written as the documentation of
  \<open>Path\<close> says, finds the value it addresses.\<close>

theorem marshalmap_Path_select:
  assumes "list_all plain_step ps" "select ps (GMarshalMap m) = Some v"
  shows "Path m (render_path ps) = Inr (Some v)"
  using resolvePath_select [OF assms] by (simp add: Path_def)

theorem marshalmap_Path_select_witness:
  "Path [(''a'', GArray [GStrMap [(''b'', GBool True)]])] (render_path [Key ''a'', Index 0, Key ''b'']) =
   Inr (Some (GBool True))"
  by (rule marshalmap_Path_select) (simp_all add: plain_step_def)

text \<open>A negative array index in a path is not an unknown path but an index out of range.\<close>

theorem marshalmap_Path_negative_index:
  "Path [(''a'', GArray [GBool True])] ''a[-1]'' = Inl IndexOutOfRange"
  by (simp add: Path_def resolvePath.simps resolvePathKey_def str_index_single subslice_def atoi_def atoi_sign_def
      is_digit_def dec_value_def digit_val_def)

end
