(* ===== verification/PluginConfigs.thy ===== *)
theory PluginConfigs
  imports MarshalMaps Messages
begin

text \<open>
  \<open>core/pluginconfig.go\<close> and \<open>core/config.go\<close>: the configuration of one plugin. A getter
  registers the key it is asked for in \<open>validKeys\<close>, a map all copies of a configuration share, so
  it returns the changed configuration. A value of the wrong type ends the program
  (\<open>Log.Error.Fatalf\<close>), which is the panic \<open>FatalExit\<close>.
\<close>

record plugin_config =
  ID :: bytes
  Typename :: bytes
  Enable :: bool
  Instances :: int
  Stream :: "bytes list"
  Settings :: marshal_map
  validKeys :: "bytes set"

definition NewPluginConfig :: "bytes \<Rightarrow> plugin_config" where
  "NewPluginConfig typename =
     \<lparr>ID = [], Typename = typename, Enable = True, Instances = 1, Stream = [], Settings = NewMarshalMap,
      validKeys = {}\<rparr>"

definition registerKey :: "bytes \<Rightarrow> plugin_config \<Rightarrow> plugin_config" where
  "registerKey key conf = conf\<lparr>validKeys := insert key (validKeys conf)\<rparr>"

definition Validate :: "plugin_config \<Rightarrow> bool" where
  "Validate conf \<longleftrightarrow> list_all (\<lambda>(key, _). key \<in> validKeys conf) (Settings conf)"

definition or_exit :: "'a marshal \<Rightarrow> 'a run" where
  "or_exit r = (case r of Inl e \<Rightarrow> Inl (FatalExit ''config'') | Inr x \<Rightarrow> Inr x)"

definition read_entry :: "marshal_map \<Rightarrow> bytes \<times> gval \<Rightarrow> plugin_config \<Rightarrow> plugin_config run" where
  "read_entry values e conf =
     (let (key, settingValue) = e
      in if key = ''ID'' then run_bind (or_exit (mm_String values ''ID'')) (\<lambda>v. Inr (conf\<lparr>ID := v\<rparr>))
         else if key = ''Enable'' then run_bind (or_exit (mm_Bool values ''Enable'')) (\<lambda>v. Inr (conf\<lparr>Enable := v\<rparr>))
         else if key = ''Instances'' then
           run_bind (or_exit (mm_Int values ''Instances'')) (\<lambda>v. Inr (conf\<lparr>Instances := v\<rparr>))
         else if key = ''Stream'' then
           run_bind (or_exit (mm_StringArray values ''Stream'')) (\<lambda>v. Inr (conf\<lparr>Stream := v\<rparr>))
         else Inr (conf\<lparr>Settings := mm_set (Settings conf) key settingValue\<rparr>))"

fun read_entries :: "marshal_map \<Rightarrow> (bytes \<times> gval) list \<Rightarrow> plugin_config \<Rightarrow> plugin_config run" where
  "read_entries values [] conf = Inr conf"
| "read_entries values (e # es) conf = run_bind (read_entry values e conf) (read_entries values es)"

definition conf_Read :: "marshal_map \<Rightarrow> plugin_config \<Rightarrow> plugin_config run" where
  "conf_Read values conf =
     run_bind (read_entries values values conf) (\<lambda>conf.
       let conf = (if Instances conf = 0 then conf\<lparr>Enable := False\<rparr> else conf)
       in Inr (if Stream conf = [] then conf\<lparr>Stream := Stream conf @ [''*'']\<rparr> else conf))"

definition HasValue :: "bytes \<Rightarrow> plugin_config \<Rightarrow> bool \<times> plugin_config" where
  "HasValue key conf = (map_of (Settings conf) key \<noteq> None, registerKey key conf)"

definition Override :: "bytes \<Rightarrow> gval \<Rightarrow> plugin_config \<Rightarrow> plugin_config" where
  "Override key v conf = (registerKey key conf)\<lparr>Settings := mm_set (Settings conf) key v\<rparr>"

text \<open>The typed getters: register, then read the setting or use the default.\<close>

definition GetString :: "bytes \<Rightarrow> bytes \<Rightarrow> plugin_config \<Rightarrow> ((bytes) \<times> plugin_config) run" where
  "GetString key defaultValue conf =
     (let conf = registerKey key conf; (has, conf) = HasValue key conf
      in if has then run_bind (or_exit (mm_String (Settings conf) key)) (\<lambda>value. Inr (value, conf))
         else Inr (defaultValue, conf))"

definition GetStringArray :: "bytes \<Rightarrow> bytes list \<Rightarrow> plugin_config \<Rightarrow> ((bytes list) \<times> plugin_config) run" where
  "GetStringArray key defaultValue conf =
     (let conf = registerKey key conf; (has, conf) = HasValue key conf
      in if has then run_bind (or_exit (mm_StringArray (Settings conf) key)) (\<lambda>value. Inr (value, conf))
         else Inr (defaultValue, conf))"

definition GetStringMap :: "bytes \<Rightarrow> (bytes \<times> bytes) list \<Rightarrow> plugin_config \<Rightarrow> (((bytes \<times> bytes) list) \<times> plugin_config) run" where
  "GetStringMap key defaultValue conf =
     (let conf = registerKey key conf; (has, conf) = HasValue key conf
      in if has then run_bind (or_exit (mm_StringMap (Settings conf) key)) (\<lambda>value. Inr (value, conf))
         else Inr (defaultValue, conf))"

definition GetInt :: "bytes \<Rightarrow> int \<Rightarrow> plugin_config \<Rightarrow> ((int) \<times> plugin_config) run" where
  "GetInt key defaultValue conf =
     (let conf = registerKey key conf; (has, conf) = HasValue key conf
      in if has then run_bind (or_exit (mm_Int (Settings conf) key)) (\<lambda>value. Inr (value, conf))
         else Inr (defaultValue, conf))"

definition GetBool :: "bytes \<Rightarrow> bool \<Rightarrow> plugin_config \<Rightarrow> ((bool) \<times> plugin_config) run" where
  "GetBool key defaultValue conf =
     (let conf = registerKey key conf; (has, conf) = HasValue key conf
      in if has then run_bind (or_exit (mm_Bool (Settings conf) key)) (\<lambda>value. Inr (value, conf))
         else Inr (defaultValue, conf))"

definition GetValue :: "bytes \<Rightarrow> gval \<Rightarrow> plugin_config \<Rightarrow> gval \<times> plugin_config" where
  "GetValue key defaultValue conf =
     (case map_of (Settings conf) key of Some v \<Rightarrow> v | None \<Rightarrow> defaultValue, registerKey key conf)"

definition GetStreamArray ::
  "bytes \<Rightarrow> u64 list \<Rightarrow> plugin_config \<Rightarrow> stream_names \<Rightarrow> (u64 list \<times> plugin_config \<times> stream_names) run" where
  "GetStreamArray key defaultValue conf names =
     (let (has, conf) = HasValue key (registerKey key conf)
      in if has then
           run_bind (GetStringArray key [] conf) (\<lambda>(vals, conf).
             let (ids, names) = GetStreamIDs names vals in Inr (ids, conf, names))
         else Inr (defaultValue, conf, names))"

text \<open>Maps over streams: assignments in the order of the source map, a later one overwrites.\<close>

fun set_streams ::
  "(bytes \<times> 'a) list \<Rightarrow> (u64 \<rightharpoonup> 'a) \<Rightarrow> stream_names \<Rightarrow> (u64 \<rightharpoonup> 'a) \<times> stream_names" where
  "set_streams [] m names = (m, names)"
| "set_streams ((s, t) # r) m names = (let (i, names) = GetStreamID names s in set_streams r (m(i \<mapsto> t)) names)"

definition GetStreamMap ::
  "bytes \<Rightarrow> bytes \<Rightarrow> plugin_config \<Rightarrow> stream_names \<Rightarrow> ((u64 \<rightharpoonup> bytes) \<times> plugin_config \<times> stream_names) run" where
  "GetStreamMap key defaultValue conf names =
     (let streamMap = (if defaultValue \<noteq> [] then [WildcardStreamID \<mapsto> defaultValue] else Map.empty);
          (has, conf) = HasValue key (registerKey key conf)
      in if has then
           run_bind (or_exit (mm_StringMap (Settings conf) key)) (\<lambda>vals.
             let (streamMap, names) = set_streams vals streamMap names in Inr (streamMap, conf, names))
         else Inr (streamMap, conf, names))"

fun set_routes ::
  "(bytes \<times> bytes list) list \<Rightarrow> (u64 \<rightharpoonup> u64 list) \<Rightarrow> stream_names \<Rightarrow> (u64 \<rightharpoonup> u64 list) \<times> stream_names" where
  "set_routes [] m names = (m, names)"
| "set_routes ((source, targets) # r) m names =
     (let (sourceStream, names) = GetStreamID names source;
          (targetIds, names) = GetStreamIDs names targets
      in set_routes r (m(sourceStream \<mapsto> targetIds)) names)"

definition GetStreamRoutes ::
  "bytes \<Rightarrow> plugin_config \<Rightarrow> stream_names \<Rightarrow> ((u64 \<rightharpoonup> u64 list) \<times> plugin_config \<times> stream_names) run" where
  "GetStreamRoutes key conf names =
     (let (has, conf) = HasValue key (registerKey key conf)
      in if \<not> has then Inr (Map.empty, conf, names)
         else run_bind (or_exit (mm_StringArrayMap (Settings conf) key)) (\<lambda>vals.
                let (routes, names) = set_routes vals Map.empty names in Inr (routes, conf, names)))"

text \<open>\<open>ReadConfig\<close> behind the YAML decoder: a list of maps from plugin type to settings.\<close>

fun read_plugins :: "(bytes \<times> marshal_map) list \<Rightarrow> plugin_config list run" where
  "read_plugins [] = Inr []"
| "read_plugins ((typeName, pluginSettings) # r) =
     run_bind (conf_Read pluginSettings (NewPluginConfig typeName)) (\<lambda>p.
       run_bind (read_plugins r) (\<lambda>ps. Inr (p # ps)))"

definition ReadConfig :: "(bytes \<times> marshal_map) list list \<Rightarrow> plugin_config list run" where
  "ReadConfig values = read_plugins (concat values)"

subsection \<open>Lemmas\<close>

definition reserved_keys :: "bytes set" where
  "reserved_keys = {''ID'', ''Enable'', ''Instances'', ''Stream''}"

lemma read_entry_Settings:
  "read_entry values e conf = Inr conf' \<Longrightarrow>
   map_of (Settings conf') = (if fst e \<in> reserved_keys then map_of (Settings conf)
                              else (map_of (Settings conf))(fst e \<mapsto> snd e))"
  by (cases e) (auto simp: read_entry_def reserved_keys_def run_bind_Inr_iff mm_set_lookup or_exit_def
      split: if_splits sum.splits)

lemma read_entry_keeps:
  "read_entry values e conf = Inr conf' \<Longrightarrow> validKeys conf' = validKeys conf \<and> Typename conf' = Typename conf"
  by (cases e) (auto simp: read_entry_def run_bind_Inr_iff split: if_splits)

lemma read_entries_Settings:
  "read_entries values es conf = Inr conf' \<Longrightarrow> distinct (map fst es) \<Longrightarrow>
   map_of (Settings conf') k =
     (if k \<in> fst ` set es \<and> k \<notin> reserved_keys then map_of es k else map_of (Settings conf) k)"
proof (induction es arbitrary: conf)
  case (Cons e es)
  then obtain c1 where c1: "read_entry values e conf = Inr c1" "read_entries values es c1 = Inr conf'"
    by (auto simp: run_bind_Inr_iff)
  with Cons.IH [OF c1(2)] Cons.prems(2) read_entry_Settings [OF c1(1)] show ?case
    by (cases e) (auto simp: image_iff map_of_eq_None_iff)
qed simp

lemma read_entries_keeps:
  "read_entries values es conf = Inr conf' \<Longrightarrow> validKeys conf' = validKeys conf \<and> Typename conf' = Typename conf"
  by (induction es arbitrary: conf) (auto simp: run_bind_Inr_iff dest!: read_entry_keeps)

text \<open>The shape the typed getters have in common.\<close>

definition get_setting ::
  "(marshal_map \<Rightarrow> bytes \<Rightarrow> 'a marshal) \<Rightarrow> bytes \<Rightarrow> 'a \<Rightarrow> plugin_config \<Rightarrow> ('a \<times> plugin_config) run" where
  "get_setting getter key defaultValue conf =
     (let conf = registerKey key conf; (has, conf) = HasValue key conf
      in if has then run_bind (or_exit (getter (Settings conf) key)) (\<lambda>v. Inr (v, conf))
         else Inr (defaultValue, conf))"

lemma getter_defs:
  "GetString = get_setting mm_String" "GetStringArray = get_setting mm_StringArray"
  "GetStringMap = get_setting mm_StringMap" "GetInt = get_setting mm_Int" "GetBool = get_setting mm_Bool"
  by (intro ext; simp add: GetString_def GetStringArray_def GetStringMap_def GetInt_def GetBool_def get_setting_def)+

lemma get_setting_spec:
  "get_setting getter key d conf = Inr (v, conf') \<longleftrightarrow>
     conf' = registerKey key conf \<and>
     (if map_of (Settings conf) key = None then v = d else getter (Settings conf) key = Inr v)"
  by (auto simp: get_setting_def HasValue_def registerKey_def Let_def run_bind_Inr_iff or_exit_def
      split: sum.splits)

lemma or_exit_Inr [simp]: "or_exit r = Inr x \<longleftrightarrow> r = Inr x"
  by (auto simp: or_exit_def split: sum.splits)

subsection \<open>Properties\<close>

text \<open>A configuration that was read names at least one stream, is disabled when it has no
  instances, keeps every key that is not predefined with its value, and has no key validated yet.\<close>

theorem config_Read_spec:
  assumes "conf_Read values (NewPluginConfig t) = Inr conf" "distinct (map fst values)"
  shows "Stream conf \<noteq> [] \<and> (Instances conf = 0 \<longrightarrow> \<not> Enable conf) \<and> Typename conf = t \<and> validKeys conf = {} \<and>
    (\<forall>k. map_of (Settings conf) k = (if k \<in> reserved_keys then None else map_of values k))"
proof -
  from assms(1) obtain c where c: "read_entries values values (NewPluginConfig t) = Inr c"
      "Settings conf = Settings c" "Stream conf \<noteq> []" "Instances conf = 0 \<longrightarrow> \<not> Enable conf"
      "validKeys conf = validKeys c" "Typename conf = Typename c"
  proof -
    from assms(1) obtain x where x: "read_entries values values (NewPluginConfig t) = Inr x"
        "conf = (let y = (if Instances x = 0 then x\<lparr>Enable := False\<rparr> else x)
                 in if Stream y = [] then y\<lparr>Stream := [''*'']\<rparr> else y)"
      by (auto simp: conf_Read_def run_bind_Inr_iff Let_def)
    then show thesis
      by (intro that [of x]) (cases "Instances x = 0"; cases "Stream x = []"; simp add: Let_def)+
  qed
  have n: "Settings (NewPluginConfig t) = []" "validKeys (NewPluginConfig t) = {}" "Typename (NewPluginConfig t) = t"
    by (simp_all add: NewPluginConfig_def NewMarshalMap_def)
  have "map_of (Settings conf) k = (if k \<in> reserved_keys then None else map_of values k)" for k
    using read_entries_Settings [OF c(1) assms(2), of k] n c(2) map_of_eq_None_iff [of "values" k]
    by simp metis
  with c n read_entries_keeps [OF c(1)] show ?thesis by simp
qed

theorem config_Read_spec_witness:
  "\<exists>conf. conf_Read [(''Stream'', GArray [GString ''a'']), (''Path'', GString ''p'')] (NewPluginConfig ''t'') = Inr conf \<and>
     map_of (Settings conf) ''Path'' = Some (GString ''p'') \<and> map_of (Settings conf) ''Stream'' = None"
proof -
  let ?vs = "[(''Stream'', GArray [GString ''a'']), (''Path'', GString ''p'')]"
  obtain conf where c: "conf_Read ?vs (NewPluginConfig ''t'') = Inr conf"
    by (simp add: conf_Read_def read_entry_def mm_StringArray_def mm_lookup_def castToStringArray_def or_exit_def
        NewPluginConfig_def)
  from config_Read_spec [OF c] c show ?thesis by (auto simp: reserved_keys_def)
qed

subsection \<open>What the getters answer\<close>

text \<open>
  A request is a call of one of the getters; its answer depends on the value set under its key only.
  \<open>None\<close> is a value of the wrong type, which ends the program.
\<close>

datatype request =
    RString bytes bytes | RInt bytes int | RBool bytes bool | RStringArray bytes "bytes list"
  | RStringMap bytes "(bytes \<times> bytes) list" | RStreamArray bytes "u64 list" | RStreamMap bytes bytes
  | RStreamRoutes bytes | RValue bytes gval | RHas bytes

datatype answer =
    AString bytes | AInt int | ABool bool | AStringArray "bytes list"
  | AStringMap "(bytes \<times> bytes) list" | AStreamArray "u64 list" | AStreamMap "u64 \<rightharpoonup> bytes"
  | AStreamRoutes "u64 \<rightharpoonup> u64 list" | AValue gval | AHas bool

fun request_key :: "request \<Rightarrow> bytes" where
  "request_key (RString key d) = key"
| "request_key (RInt key d) = key"
| "request_key (RBool key d) = key"
| "request_key (RStringArray key d) = key"
| "request_key (RStringMap key d) = key"
| "request_key (RStreamArray key d) = key"
| "request_key (RStreamMap key d) = key"
| "request_key (RStreamRoutes key) = key"
| "request_key (RValue key d) = key"
| "request_key (RHas key) = key"

type_synonym asked = "(answer \<times> plugin_config \<times> stream_names) run"

definition plain_answer :: "('a \<Rightarrow> answer) \<Rightarrow> stream_names \<Rightarrow> ('a \<times> plugin_config) run \<Rightarrow> asked" where
  "plain_answer f names r = run_bind r (\<lambda>(v, conf). Inr (f v, conf, names))"

definition stream_answer :: "('a \<Rightarrow> answer) \<Rightarrow> ('a \<times> plugin_config \<times> stream_names) run \<Rightarrow> asked" where
  "stream_answer f r = run_bind r (\<lambda>(v, rest). Inr (f v, rest))"

fun ask :: "request \<Rightarrow> plugin_config \<Rightarrow> stream_names \<Rightarrow> asked" where
  "ask (RString key d) conf names = plain_answer AString names (GetString key d conf)"
| "ask (RInt key d) conf names = plain_answer AInt names (GetInt key d conf)"
| "ask (RBool key d) conf names = plain_answer ABool names (GetBool key d conf)"
| "ask (RStringArray key d) conf names = plain_answer AStringArray names (GetStringArray key d conf)"
| "ask (RStringMap key d) conf names = plain_answer AStringMap names (GetStringMap key d conf)"
| "ask (RStreamArray key d) conf names = stream_answer AStreamArray (GetStreamArray key d conf names)"
| "ask (RStreamMap key d) conf names = stream_answer AStreamMap (GetStreamMap key d conf names)"
| "ask (RStreamRoutes key) conf names = stream_answer AStreamRoutes (GetStreamRoutes key conf names)"
| "ask (RValue key d) conf names = plain_answer AValue names (Inr (GetValue key d conf))"
| "ask (RHas key) conf names = plain_answer AHas names (Inr (HasValue key conf))"

fun ask_all :: "request list \<Rightarrow> plugin_config \<Rightarrow> stream_names \<Rightarrow> (answer list \<times> plugin_config \<times> stream_names) run" where
  "ask_all [] conf names = Inr ([], conf, names)"
| "ask_all (r # rs) conf names =
     run_bind (ask r conf names) (\<lambda>(a, conf, names).
       run_bind (ask_all rs conf names) (\<lambda>(as, rest). Inr (a # as, rest)))"

text \<open>The values of the settings, by their shape alone.\<close>

fun string_of :: "gval \<Rightarrow> bytes option" where
  "string_of (GString s) = Some s"
| "string_of _ = None"

fun int_of_value :: "gval \<Rightarrow> int option" where
  "int_of_value (GInt i) = Some i"
| "int_of_value _ = None"

fun bool_of :: "gval \<Rightarrow> bool option" where
  "bool_of (GBool b) = Some b"
| "bool_of _ = None"

fun strings_of :: "gval \<Rightarrow> bytes list option" where
  "strings_of (GString s) = Some [s]"
| "strings_of (GStrings ss) = Some ss"
| "strings_of (GArray vs) = those (map string_of vs)"
| "strings_of _ = None"

definition pair_of :: "('k \<Rightarrow> bytes option) \<Rightarrow> ('v \<Rightarrow> 'w option) \<Rightarrow> 'k \<times> 'v \<Rightarrow> (bytes \<times> 'w) option" where
  "pair_of fk fv = (\<lambda>(k, v). case (fk k, fv v) of (Some k, Some w) \<Rightarrow> Some (k, w) | _ \<Rightarrow> None)"

fun string_map_of :: "gval \<Rightarrow> (bytes \<times> bytes) list option" where
  "string_map_of (GAnyMap m) = those (map (pair_of string_of string_of) m)"
| "string_map_of (GStrMap m) = those (map (pair_of Some string_of) m)"
| "string_map_of (GStrStrMap m) = Some m"
| "string_map_of _ = None"

fun strings_map_of :: "gval \<Rightarrow> (bytes \<times> bytes list) list option" where
  "strings_map_of (GAnyArrayMap m) = those (map (pair_of string_of (\<lambda>vs. strings_of (GArray vs))) m)"
| "strings_map_of (GAnyMap m) = those (map (pair_of string_of strings_of) m)"
| "strings_map_of (GStrMap m) = those (map (pair_of Some strings_of) m)"
| "strings_map_of (GStrArrMap m) = Some m"
| "strings_map_of _ = None"

text \<open>Settings of streams: under the hash of the name, the last entry with one hash counts.\<close>

definition by_stream :: "('a \<Rightarrow> 'b) \<Rightarrow> (bytes \<times> 'a) list \<Rightarrow> u64 \<rightharpoonup> 'b" where
  "by_stream f m = map_of (rev (map (\<lambda>(s, t). (fnv1a s, f t)) m))"

fun expected :: "request \<Rightarrow> gval option \<Rightarrow> answer option" where
  "expected (RString key d) x = (case x of None \<Rightarrow> Some (AString d) | Some v \<Rightarrow> map_option AString (string_of v))"
| "expected (RInt key d) x = (case x of None \<Rightarrow> Some (AInt d) | Some v \<Rightarrow> map_option AInt (int_of_value v))"
| "expected (RBool key d) x = (case x of None \<Rightarrow> Some (ABool d) | Some v \<Rightarrow> map_option ABool (bool_of v))"
| "expected (RStringArray key d) x =
     (case x of None \<Rightarrow> Some (AStringArray d) | Some v \<Rightarrow> map_option AStringArray (strings_of v))"
| "expected (RStringMap key d) x =
     (case x of None \<Rightarrow> Some (AStringMap d) | Some v \<Rightarrow> map_option AStringMap (string_map_of v))"
| "expected (RStreamArray key d) x =
     (case x of None \<Rightarrow> Some (AStreamArray d) | Some v \<Rightarrow> map_option (\<lambda>ss. AStreamArray (map fnv1a ss)) (strings_of v))"
| "expected (RStreamMap key d) x =
     (let wildcard = if d = [] then Map.empty else [WildcardStreamID \<mapsto> d]
      in case x of None \<Rightarrow> Some (AStreamMap wildcard)
         | Some v \<Rightarrow> map_option (\<lambda>m. AStreamMap (wildcard ++ by_stream id m)) (string_map_of v))"
| "expected (RStreamRoutes key) x =
     (case x of None \<Rightarrow> Some (AStreamRoutes Map.empty)
      | Some v \<Rightarrow> map_option (\<lambda>m. AStreamRoutes (by_stream (map fnv1a) m)) (strings_map_of v))"
| "expected (RValue key d) x = Some (AValue (case x of None \<Rightarrow> d | Some v \<Rightarrow> v))"
| "expected (RHas key) x = Some (AHas (x \<noteq> None))"

text \<open>The typed accessors read exactly these values.\<close>

definition reads :: "(marshal_map \<Rightarrow> bytes \<Rightarrow> 'a marshal) \<Rightarrow> (gval \<Rightarrow> 'a option) \<Rightarrow> bool" where
  "reads getter f \<longleftrightarrow> (\<forall>m key v. map_of m key = Some v \<longrightarrow>
     or_exit (getter m key) = (case f v of None \<Rightarrow> Inl (FatalExit ''config'') | Some x \<Rightarrow> Inr x))"

definition right :: "'e + 'a \<Rightarrow> 'a option" where
  "right r = (case r of Inl e \<Rightarrow> None | Inr x \<Rightarrow> Some x)"

lemma right_simps [simp]: "right (Inl e) = None" "right (Inr x) = Some x"
  by (simp_all add: right_def)

lemma readsI:
  assumes "\<And>m key v. map_of m key = Some v \<Longrightarrow> right (getter m key) = f v"
  shows "reads getter f"
  unfolding reads_def
proof (intro allI impI)
  fix m :: marshal_map and key v
  assume "map_of m key = Some v"
  with assms have "right (getter m key) = f v" .
  then show "or_exit (getter m key) = (case f v of None \<Rightarrow> Inl (FatalExit ''config'') | Some x \<Rightarrow> Inr x)"
    by (cases "getter m key"; cases "f v") (simp_all add: or_exit_def)
qed

lemma right_as_strings: "right (as_strings key vs) = those (map string_of vs)"
proof (induction key vs rule: as_strings.induct)
  case (2 key s vs)
  then show ?case by (cases "as_strings key vs"; cases "those (map string_of vs)") simp_all
qed simp_all

lemma right_cast: "right (castToStringArray key v) = strings_of v"
  by (cases v) (simp_all add: castToStringArray_def right_as_strings)

lemma right_copy_map:
  assumes "\<And>k. right (fk k) = gk k" "\<And>k v. right (fv k v) = gv v"
  shows "right (copy_map fk fv m) = those (map (pair_of gk gv) m)"
proof (induction m)
  case (Cons kv m)
  obtain k v where kv: "kv = (k, v)" by fastforce
  show ?case
  proof (cases "fk k")
    case (Inl e)
    then have "gk k = None" using assms(1) [of k] by simp
    with Inl show ?thesis by (simp add: kv pair_of_def)
  next
    case (Inr sk)
    then have k: "gk k = Some sk" using assms(1) [of k] by simp
    have v: "gv v = right (fv sk v)" using assms(2) [of sk v] by simp
    show ?thesis using Inr k v Cons.IH [symmetric]
      by (cases "fv sk v"; cases "copy_map fk fv m") (simp_all add: kv pair_of_def)
  qed
qed simp

lemma right_string: "right (string_key v) = string_of v" "right (string_value k v) = string_of v"
  by (cases v; simp add: string_key_def string_value_def)+

lemma right_array_value: "right (string_array_value k v) = strings_of v"
  using right_cast [of k v] by (auto simp: string_array_value_def right_def split: sum.splits)

lemma accessors_read:
  "reads mm_String string_of" "reads mm_Int int_of_value" "reads mm_Bool bool_of"
  "reads mm_StringArray strings_of" "reads mm_StringMap string_map_of" "reads mm_StringArrayMap strings_map_of"
proof -
  show "reads mm_String string_of"
    by (rule readsI) (simp add: mm_String_def mm_lookup_def split: gval.split)
  show "reads mm_Int int_of_value"
    by (rule readsI) (simp add: mm_Int_def mm_lookup_def split: gval.split)
  show "reads mm_Bool bool_of"
    by (rule readsI) (simp add: mm_Bool_def mm_lookup_def split: gval.split)
  show "reads mm_StringArray strings_of"
    by (rule readsI) (simp add: mm_StringArray_def mm_lookup_def right_cast)
  show "reads mm_StringMap string_map_of"
    by (rule readsI)
      (simp add: mm_StringMap_def mm_lookup_def right_copy_map [where gk = string_of and gv = string_of]
        right_copy_map [where gk = Some and gv = string_of] right_string split: gval.split)
  show "reads mm_StringArrayMap strings_map_of"
    by (rule readsI)
      (simp add: mm_StringArrayMap_def mm_lookup_def right_copy_map [where gk = string_of and gv = "\<lambda>vs. strings_of (GArray vs)"]
        right_copy_map [where gk = string_of and gv = strings_of] right_copy_map [where gk = Some and gv = strings_of]
        right_string right_array_value del: strings_of.simps split: gval.split)
qed

text \<open>One request: the key is registered, nothing else changes.\<close>

lemma by_stream_simps [simp]:
  "by_stream f [] = Map.empty"
  "m ++ by_stream f ((s, t) # l) = m(fnv1a s \<mapsto> f t) ++ by_stream f l"
  by (simp_all add: by_stream_def)

lemma set_streams_fst: "fst (set_streams l m names) = m ++ by_stream id l"
  by (induction l arbitrary: m names) (auto simp: GetStreamID_def Let_def)

lemma set_routes_fst: "fst (set_routes l m names) = m ++ by_stream (map fnv1a) l"
proof (induction l arbitrary: m names)
  case (Cons x r)
  obtain source targets where x: "x = (source, targets)" by fastforce
  obtain n where "GetStreamIDs (names(fnv1a source \<mapsto> source)) targets = (map fnv1a targets, n)"
    using GetStreamIDs_fst by (metis prod.collapse)
  with Cons show ?case by (simp add: x GetStreamID_def Let_def fun_upd_def)
qed simp

definition answered :: "request \<Rightarrow> plugin_config \<Rightarrow> asked \<Rightarrow> bool" where
  "answered r conf res \<longleftrightarrow>
     (case expected r (map_of (Settings conf) (request_key r)) of
        None \<Rightarrow> res = Inl (FatalExit ''config'')
      | Some a \<Rightarrow> \<exists>names. res = Inr (a, registerKey (request_key r) conf, names))"

lemma registerKey_simps [simp]:
  "registerKey k (registerKey k conf) = registerKey k conf"
  "Settings (registerKey k conf) = Settings conf" "validKeys (registerKey k conf) = insert k (validKeys conf)"
  by (simp_all add: registerKey_def)

lemma get_setting_reads:
  assumes "reads getter f"
  shows "get_setting getter key d conf =
    (case map_of (Settings conf) key of
       None \<Rightarrow> Inr (d, registerKey key conf)
     | Some x \<Rightarrow> (case f x of None \<Rightarrow> Inl (FatalExit ''config'') | Some v \<Rightarrow> Inr (v, registerKey key conf)))"
  using assms by (auto simp: get_setting_def HasValue_def Let_def reads_def split: option.split)

lemmas getter_answers =
  get_setting_reads [OF accessors_read(1), folded getter_defs] get_setting_reads [OF accessors_read(2), folded getter_defs]
  get_setting_reads [OF accessors_read(3), folded getter_defs] get_setting_reads [OF accessors_read(4), folded getter_defs]
  get_setting_reads [OF accessors_read(5), folded getter_defs]

lemma ask_answered: "answered r conf (ask r conf names)"
proof (cases r)
  case (RStreamMap key d)
  with accessors_read(5) show ?thesis
    by (auto simp: answered_def stream_answer_def GetStreamMap_def HasValue_def Let_def reads_def case_prod_unfold set_streams_fst
        split: option.split)
next
  case (RStreamRoutes key)
  with accessors_read(6) show ?thesis
    by (auto simp: answered_def stream_answer_def GetStreamRoutes_def HasValue_def Let_def reads_def case_prod_unfold set_routes_fst
        split: option.split)
qed (auto simp: answered_def plain_answer_def stream_answer_def getter_answers GetStreamArray_def GetValue_def HasValue_def Let_def
    case_prod_unfold split: option.split)

text \<open>A sequence of requests.\<close>

definition expected_all :: "request list \<Rightarrow> marshal_map \<Rightarrow> answer list option" where
  "expected_all rs settings = those (map (\<lambda>r. expected r (map_of settings (request_key r))) rs)"

definition register_all :: "bytes set \<Rightarrow> plugin_config \<Rightarrow> plugin_config" where
  "register_all ks conf = conf\<lparr>validKeys := ks \<union> validKeys conf\<rparr>"

lemma ask_all_answered:
  "case expected_all rs (Settings conf) of
     None \<Rightarrow> ask_all rs conf names = Inl (FatalExit ''config'')
   | Some as \<Rightarrow> \<exists>names'. ask_all rs conf names = Inr (as, register_all (request_key ` set rs) conf, names')"
proof (induction rs arbitrary: conf names)
  case Nil
  then show ?case by (simp add: expected_all_def register_all_def)
next
  case (Cons r rs)
  let ?k = "request_key r"
  have r: "answered r conf (ask r conf names)" by (rule ask_answered)
  have reg: "register_all ks (registerKey ?k conf) = register_all (insert ?k ks) conf" for ks
    by (simp add: register_all_def registerKey_def)
  show ?case
  proof (cases "expected r (map_of (Settings conf) ?k)")
    case None
    with r show ?thesis by (simp add: answered_def expected_all_def)
  next
    case (Some a)
    with r obtain n where n: "ask r conf names = Inr (a, registerKey ?k conf, n)" by (auto simp: answered_def)
    have e: "expected_all (r # rs) (Settings conf) = map_option ((#) a) (expected_all rs (Settings conf))"
      using Some by (simp add: expected_all_def)
    show ?thesis using Cons.IH [of "registerKey ?k conf" n] n
      by (cases "expected_all rs (Settings conf)") (auto simp: e reg)
  qed
qed

text \<open>C34: the getters answer any sequence of requests by the values alone: what is set under the key, read
  in the getter's type, or the default when nothing is set; a value of another type ends the program.
  Every key asked for is registered, nothing else of the configuration changes, and \<open>Validate\<close>
  accepts it exactly when every setting was asked for.\<close>

theorem config_getters_validate:
  "case expected_all rs (Settings conf) of
     None \<Rightarrow> ask_all rs conf names = Inl (FatalExit ''config'')
   | Some as \<Rightarrow> \<exists>conf' names'. ask_all rs conf names = Inr (as, conf', names') \<and>
       conf' = conf\<lparr>validKeys := request_key ` set rs \<union> validKeys conf\<rparr> \<and>
       (Validate conf' \<longleftrightarrow> fst ` set (Settings conf) \<subseteq> request_key ` set rs \<union> validKeys conf)"
proof -
  have "Validate (register_all ks conf) \<longleftrightarrow> fst ` set (Settings conf) \<subseteq> ks \<union> validKeys conf" for ks
    by (auto simp: Validate_def list_all_iff register_all_def)
  then show ?thesis using ask_all_answered [of rs conf names]
    by (auto simp: register_all_def [symmetric] split: option.split)
qed

theorem config_getters_validate_witness:
  "\<exists>conf names. ask_all [RString ''Host'' ''x'', RInt ''Port'' 5, RInt ''Retries'' 3]
       ((NewPluginConfig ''t'')\<lparr>Settings := [(''Host'', GString ''h''), (''Port'', GInt 1)]\<rparr>) Map.empty =
     Inr ([AString ''h'', AInt 1, AInt 3], conf, names) \<and> Validate conf"
  using config_getters_validate [of "[RString ''Host'' ''x'', RInt ''Port'' 5, RInt ''Retries'' 3]"
      "(NewPluginConfig ''t'')\<lparr>Settings := [(''Host'', GString ''h''), (''Port'', GInt 1)]\<rparr>" Map.empty]
  by (auto simp: expected_all_def simp del: ask_all.simps)

end
