(* ===== verification/Metrics.thy ===== *)
theory Metrics
  imports Prelude
begin

text \<open>
  \<open>shared/metric.go\<close>: named 64 bit counters. A counter that was never created is a nil pointer
  in the store's map: changing it panics, reading it is an error. Every operation holds the store's lock
  or is atomic, so an interleaving of operations is a sequence of them. The float variants are
  not modelled.
\<close>

type_synonym metrics = "bytes \<rightharpoonup> 64 word"

definition metric_New :: "bytes \<Rightarrow> metrics \<Rightarrow> metrics" where
  "metric_New nm met = (if met nm = None then met(nm \<mapsto> 0) else met)"

definition metric_update :: "(64 word \<Rightarrow> 64 word) \<Rightarrow> bytes \<Rightarrow> metrics \<Rightarrow> metrics run" where
  "metric_update f nm met = (case met nm of None \<Rightarrow> Inl NilDereference | Some v \<Rightarrow> Inr (met(nm \<mapsto> f v)))"

definition metric_Set :: "bytes \<Rightarrow> 64 word \<Rightarrow> metrics \<Rightarrow> metrics run" where
  "metric_Set nm v = metric_update (\<lambda>_. v) nm"

definition metric_SetI :: "bytes \<Rightarrow> int \<Rightarrow> metrics \<Rightarrow> metrics run" where
  "metric_SetI nm v = metric_Set nm (of_int v)"

definition metric_SetB :: "bytes \<Rightarrow> bool \<Rightarrow> metrics \<Rightarrow> metrics run" where
  "metric_SetB nm b = metric_Set nm (if b then 1 else 0)"

definition metric_Inc :: "bytes \<Rightarrow> metrics \<Rightarrow> metrics run" where
  "metric_Inc nm = metric_update (\<lambda>v. v + 1) nm"

definition metric_Dec :: "bytes \<Rightarrow> metrics \<Rightarrow> metrics run" where
  "metric_Dec nm = metric_update (\<lambda>v. v - 1) nm"

definition metric_Add :: "bytes \<Rightarrow> 64 word \<Rightarrow> metrics \<Rightarrow> metrics run" where
  "metric_Add nm d = metric_update (\<lambda>v. v + d) nm"

definition metric_AddI :: "bytes \<Rightarrow> int \<Rightarrow> metrics \<Rightarrow> metrics run" where
  "metric_AddI nm d = metric_Add nm (of_int d)"

definition metric_Sub :: "bytes \<Rightarrow> 64 word \<Rightarrow> metrics \<Rightarrow> metrics run" where
  "metric_Sub nm d = metric_update (\<lambda>v. v + (- d)) nm"

definition metric_SubI :: "bytes \<Rightarrow> int \<Rightarrow> metrics \<Rightarrow> metrics run" where
  "metric_SubI nm d = metric_update (\<lambda>v. v + of_int (- d)) nm"

text \<open>The value and whether the metric exists.\<close>

definition metric_Get :: "bytes \<Rightarrow> metrics \<Rightarrow> 64 word \<times> bool" where
  "metric_Get nm met = (case met nm of None \<Rightarrow> (0, False) | Some v \<Rightarrow> (v, True))"

lemmas metric_defs = metric_Set_def metric_SetI_def metric_SetB_def metric_Inc_def metric_Dec_def
  metric_Add_def metric_AddI_def metric_Sub_def metric_SubI_def

subsection \<open>Sequences of operations\<close>

text \<open>Counting operations, as any number of goroutines issue them.\<close>

datatype metric_op = OpNew bytes | OpInc bytes | OpDec bytes | OpAdd bytes "64 word" | OpSub bytes "64 word"

definition metric_apply :: "metric_op \<Rightarrow> metrics \<Rightarrow> metrics run" where
  "metric_apply oper met =
     (case oper of OpNew n \<Rightarrow> Inr (metric_New n met) | OpInc n \<Rightarrow> metric_Inc n met | OpDec n \<Rightarrow> metric_Dec n met
      | OpAdd n d \<Rightarrow> metric_Add n d met | OpSub n d \<Rightarrow> metric_Sub n d met)"

fun metric_run :: "metric_op list \<Rightarrow> metrics \<Rightarrow> metrics run" where
  "metric_run [] met = Inr met"
| "metric_run (x # xs) met = run_bind (metric_apply x met) (metric_run xs)"

fun delta :: "bytes \<Rightarrow> metric_op \<Rightarrow> 64 word" where
  "delta n (OpNew m) = 0"
| "delta n (OpInc m) = (if m = n then 1 else 0)"
| "delta n (OpDec m) = (if m = n then - 1 else 0)"
| "delta n (OpAdd m d) = (if m = n then d else 0)"
| "delta n (OpSub m d) = (if m = n then - d else 0)"

fun op_name :: "metric_op \<Rightarrow> bytes" where
  "op_name (OpNew m) = m" | "op_name (OpInc m) = m" | "op_name (OpDec m) = m"
| "op_name (OpAdd m d) = m" | "op_name (OpSub m d) = m"

lemma metric_apply_known:
  "op_name x \<in> dom met \<Longrightarrow> \<exists>met'. metric_apply x met = Inr met' \<and> dom met' = dom met \<and>
     (\<forall>n\<in>dom met. met' n = Some (the (met n) + delta n x))"
  by (cases x) (auto simp: metric_apply_def metric_New_def metric_defs metric_update_def dom_def)

lemma metric_run_known:
  "\<forall>x\<in>set xs. op_name x \<in> dom met \<Longrightarrow> \<exists>met'. metric_run xs met = Inr met' \<and> dom met' = dom met \<and>
     (\<forall>n\<in>dom met. met' n = Some (the (met n) + sum_list (map (delta n) xs)))"
proof (induction xs arbitrary: met)
  case Nil
  then show ?case by (auto simp: dom_def)
next
  case (Cons x xs)
  obtain m1 where m1: "metric_apply x met = Inr m1" "dom m1 = dom met"
      "\<forall>n\<in>dom met. m1 n = Some (the (met n) + delta n x)"
    using metric_apply_known [of x met] Cons.prems by auto
  obtain m2 where m2: "metric_run xs m1 = Inr m2" "dom m2 = dom m1"
      "\<forall>n\<in>dom m1. m2 n = Some (the (m1 n) + sum_list (map (delta n) xs))"
    using Cons.IH [of m1] Cons.prems m1(2) by auto
  have "m2 n = Some (the (met n) + sum_list (map (delta n) (x # xs)))" if "n \<in> dom met" for n
    using that m1(2,3) m2(3) by (simp add: add.assoc)
  with m1 m2 show ?case by auto
qed

subsection \<open>Properties\<close>

text \<open>Counting operations on existing metrics, in any interleaving, do not panic, create or remove
  nothing, and leave in each counter its start value plus the sum of its changes modulo \<open>2\<^sup>6\<^sup>4\<close>.\<close>

theorem metrics_count_exactly:
  assumes "\<forall>x\<in>set ops. op_name x \<in> dom met"
  shows "\<exists>met'. metric_run ops met = Inr met' \<and> dom met' = dom met \<and>
    (\<forall>n\<in>dom met. metric_Get n met' = (the (met n) + sum_list (map (delta n) ops), True))"
proof -
  obtain met' where m: "metric_run ops met = Inr met'" "dom met' = dom met"
      "\<forall>n\<in>dom met. met' n = Some (the (met n) + sum_list (map (delta n) ops))"
    using metric_run_known [OF assms] by blast
  then show ?thesis by (intro exI [of _ met']) (simp add: metric_Get_def)
qed

theorem metrics_count_exactly_witness:
  "\<exists>met'. metric_run [OpInc ''a'', OpAdd ''a'' 5, OpDec ''a''] [''a'' \<mapsto> 1] = Inr met' \<and> metric_Get ''a'' met' = (6, True)"
  using metrics_count_exactly [of "[OpInc ''a'', OpAdd ''a'' 5, OpDec ''a'']" "[''a'' \<mapsto> 1]"] by auto

text \<open>A metric that was never created makes every change of it panic and is reported as missing
  by \<open>Get\<close>.\<close>

theorem metrics_unknown_panics:
  assumes "met nm = None"
  shows "metric_Inc nm met = Inl NilDereference \<and> metric_Set nm v met = Inl NilDereference \<and>
    metric_Get nm met = (0, False) \<and> metric_Inc nm (metric_New nm met) = Inr (met(nm \<mapsto> 1))"
  using assms by (simp add: metric_defs metric_update_def metric_Get_def metric_New_def)

theorem metrics_unknown_panics_witness:
  "metric_Inc ''x'' Map.empty = Inl NilDereference \<and> metric_Set ''x'' 3 Map.empty = Inl NilDereference \<and>
   metric_Get ''x'' Map.empty = (0, False) \<and> metric_Inc ''x'' (metric_New ''x'' Map.empty) = Inr [''x'' \<mapsto> 1]"
  by (rule metrics_unknown_panics) simp

end
