(* ===== verification/Plugins.thy ===== *)
theory Plugins
  imports PluginConfigs Utilities Metrics
begin

text \<open>
  \<open>shared/typeregistry.go\<close>, \<open>core/pluginregistry.go\<close> and \<open>core/plugin.go\<close>: types by
  name, plugins by name, and the construction of a plugin from its configuration. A configuration step
  runs on the plugin's configuration, the plugin registry and the stream names (\<open>cfg\<close>); its outcome is a panic, an
  error, or a value. \<open>None\<close> is a construction that does not return.
\<close>

subsection \<open>Type registry\<close>

text \<open>\<open>'t\<close> is the type that is registered; the loop runs over \<open>n = 1..4\<close>.\<close>

fun register_names :: "bytes \<Rightarrow> bytes \<Rightarrow> nat list \<Rightarrow> bytes list" where
  "register_names packageName typeName [] = []"
| "register_names packageName typeName (n # ns) =
     (let pathIdx = LastIndexN packageName ''/'' n
      in if pathIdx = - 1 then []
         else (str_replace (drop (nat pathIdx + 1) packageName) ''/'' ''.'' @ ''.'' @ typeName)
              # register_names packageName typeName ns)"

definition type_Register :: "bytes \<Rightarrow> bytes \<Rightarrow> 't \<Rightarrow> (bytes \<rightharpoonup> 't) \<Rightarrow> (bytes \<rightharpoonup> 't)" where
  "type_Register packageName typeName t reg =
     foldl (\<lambda>r nm. r(nm \<mapsto> t)) reg (register_names packageName typeName [1, 2, 3, 4])"

definition type_New :: "bytes \<Rightarrow> (bytes \<rightharpoonup> 't) \<Rightarrow> 't option" where
  "type_New typeName reg = reg typeName"

definition GetTypeOf :: "bytes \<Rightarrow> (bytes \<rightharpoonup> 't) \<Rightarrow> 't option" where
  "GetTypeOf typeName registry = registry typeName"

definition GetRegistered :: "bytes \<Rightarrow> (bytes \<times> 't) list \<Rightarrow> bytes list" where
  "GetRegistered packageName reg = filter (\<lambda>k. str_has_prefix k packageName) (map fst reg)"

subsection \<open>Plugin registry\<close>

type_synonym 'p plugin_registry = "bytes \<rightharpoonup> 'p"

text \<open>\<open>Register\<close> tries \<open>ID\<close>, \<open>ID1\<close>, \<open>ID2\<close>, ... until one is free.\<close>

partial_function (option) register_loop ::
  "'p plugin_registry \<Rightarrow> 'p \<Rightarrow> bytes \<Rightarrow> nat \<Rightarrow> bytes \<Rightarrow> (bytes \<times> 'p plugin_registry) option" where
  "register_loop reg plugin i collision pluginID =
     (if reg pluginID = None then Some (pluginID, reg(pluginID \<mapsto> plugin))
      else register_loop reg plugin i (Suc collision) (i @ format_uint collision 10))"

definition plugin_Register :: "'p plugin_registry \<Rightarrow> 'p \<Rightarrow> bytes \<Rightarrow> (bytes \<times> 'p plugin_registry) option" where
  "plugin_Register reg plugin i = register_loop reg plugin i 1 i"

definition RegisterUnique :: "'p plugin_registry \<Rightarrow> 'p \<Rightarrow> bytes \<Rightarrow> 'p plugin_registry" where
  "RegisterUnique reg plugin i = (if reg i = None then reg(i \<mapsto> plugin) else reg)"

definition GetPlugin :: "'p plugin_registry \<Rightarrow> bytes \<Rightarrow> 'p option" where
  "GetPlugin reg i = reg i"

definition GetPluginWithState :: "('p \<Rightarrow> bool) \<Rightarrow> 'p plugin_registry \<Rightarrow> bytes \<Rightarrow> 'p option" where
  "GetPluginWithState hasState reg i =
     (case GetPlugin reg i of Some p \<Rightarrow> if hasState p then Some p else None | None \<Rightarrow> None)"

lemma register_loop_total:
  assumes fin: "finite (dom reg)"
  shows "finite {n. n \<ge> c \<and> reg (i @ format_uint n 10) \<noteq> None} \<Longrightarrow>
    \<exists>nm. register_loop reg p i c pid = Some (nm, reg(nm \<mapsto> p)) \<and> reg nm = None \<and> (\<exists>t. nm = pid \<or> nm = i @ t)"
proof (induction "card {n. n \<ge> c \<and> reg (i @ format_uint n 10) \<noteq> None}" arbitrary: c pid rule: less_induct)
  case less
  let ?S = "\<lambda>c. {n. n \<ge> c \<and> reg (i @ format_uint n 10) \<noteq> None}"
  show ?case
  proof (cases "reg pid = None")
    case True
    then show ?thesis by (subst register_loop.simps) auto
  next
    case False
    note step = register_loop.simps [of reg p i c pid]
    show ?thesis
    proof (cases "reg (i @ format_uint c 10) = None")
      case True
      then have "register_loop reg p i (Suc c) (i @ format_uint c 10)
          = Some (i @ format_uint c 10, reg(i @ format_uint c 10 \<mapsto> p))"
        by (subst register_loop.simps) simp
      with False step have "register_loop reg p i c pid
          = Some (i @ format_uint c 10, reg(i @ format_uint c 10 \<mapsto> p))" by auto
      with True show ?thesis by auto
    next
      case taken: False
      have "?S (Suc c) = ?S c - {c}" by auto
      moreover have "c \<in> ?S c" using taken by simp
      ultimately have sub: "card (?S (Suc c)) < card (?S c)" "finite (?S (Suc c))"
        using less.prems card_Diff1_less [of "?S c" c] by (simp_all only: finite_Diff)
      from less.hyps [OF sub, of "i @ format_uint c 10"] obtain nm
        where "register_loop reg p i (Suc c) (i @ format_uint c 10) = Some (nm, reg(nm \<mapsto> p))" "reg nm = None"
          "\<exists>t. nm = i @ t" by blast
      with False step show ?thesis by auto
    qed
  qed
qed

lemma finite_taken:
  assumes "finite (dom reg)"
  shows "finite {n. n \<ge> c \<and> reg (i @ format_uint n 10) \<noteq> None}"
proof (rule finite_imageD)
  show "finite ((\<lambda>n. i @ format_uint n 10) ` {n. n \<ge> c \<and> reg (i @ format_uint n 10) \<noteq> None})"
    by (rule finite_subset [OF _ assms]) auto
  show "inj_on (\<lambda>n. i @ format_uint n 10) {n. n \<ge> c \<and> reg (i @ format_uint n 10) \<noteq> None}"
    by (auto intro!: inj_onI dest: format_uint_inj)
qed

subsection \<open>Run state\<close>

datatype plugin_control = StopProducer | StopConsumer | Roll | FuseBurn | FuseActive

datatype plugin_state = StateInitializing | StateWaiting | StateActive | StateStopping | StateDead

text \<open>The order of the states is the order of the constants.\<close>

definition state_rank :: "plugin_state \<Rightarrow> nat" where
  "state_rank s = (case s of StateInitializing \<Rightarrow> 0 | StateWaiting \<Rightarrow> 1 | StateActive \<Rightarrow> 2
                   | StateStopping \<Rightarrow> 3 | StateDead \<Rightarrow> 4)"

instantiation plugin_state :: linorder
begin

definition less_eq_plugin_state :: "plugin_state \<Rightarrow> plugin_state \<Rightarrow> bool" where
  "less_eq_plugin_state a b \<longleftrightarrow> state_rank a \<le> state_rank b"

definition less_plugin_state :: "plugin_state \<Rightarrow> plugin_state \<Rightarrow> bool" where
  "less_plugin_state a b \<longleftrightarrow> state_rank a < state_rank b"

instance
proof
  fix x y z :: plugin_state
  show "(x < y) = (x \<le> y \<and> \<not> y \<le> x)" by (auto simp: less_eq_plugin_state_def less_plugin_state_def)
  show "x \<le> x" by (simp add: less_eq_plugin_state_def)
  show "x \<le> y \<Longrightarrow> y \<le> z \<Longrightarrow> x \<le> z" by (simp add: less_eq_plugin_state_def)
  show "x \<le> y \<Longrightarrow> y \<le> x \<Longrightarrow> x = y"
    by (cases x; cases y) (simp_all add: less_eq_plugin_state_def state_rank_def)
  show "x \<le> y \<or> y \<le> x" by (auto simp: less_eq_plugin_state_def)
qed

end

lemma plugin_state_order [simp]:
  "StateInitializing < StateWaiting" "StateWaiting < StateActive" "StateActive < StateStopping"
  "StateStopping < StateDead" "StateInitializing \<le> s" "s \<le> StateDead"
  by (cases s; simp add: less_plugin_state_def less_eq_plugin_state_def state_rank_def)+

lemmas state_order_defs = less_eq_plugin_state_def less_plugin_state_def state_rank_def

text \<open>\<open>workers\<close> is the number of workers in the wait group set, \<open>None\<close> when none is set.\<close>

record run_state =
  rs_workers :: "int option"
  rs_state :: plugin_state

definition NewPluginRunState :: run_state where
  "NewPluginRunState = \<lparr>rs_workers = None, rs_state = StateInitializing\<rparr>"

definition GetState :: "run_state \<Rightarrow> plugin_state" where "GetState st = rs_state st"

definition SetState :: "plugin_state \<Rightarrow> run_state \<Rightarrow> run_state" where
  "SetState nextState st = st\<lparr>rs_state := nextState\<rparr>"

definition SetWorkerWaitGroup :: "int \<Rightarrow> run_state \<Rightarrow> run_state" where
  "SetWorkerWaitGroup workers st = st\<lparr>rs_workers := Some workers\<rparr>"

definition metricActiveWorkers :: bytes where "metricActiveWorkers = ''ActiveWorkers''"

text \<open>\<open>sync.WaitGroup\<close> panics when its counter gets negative.\<close>

definition AddWorker :: "run_state \<Rightarrow> metrics \<Rightarrow> (run_state \<times> metrics) run" where
  "AddWorker st met =
     (case rs_workers st of
        None \<Rightarrow> Inl NilDereference
      | Some w \<Rightarrow> run_bind (metric_Inc metricActiveWorkers met) (\<lambda>met. Inr (st\<lparr>rs_workers := Some (w + 1)\<rparr>, met)))"

definition WorkerDone :: "run_state \<Rightarrow> metrics \<Rightarrow> (run_state \<times> metrics) run" where
  "WorkerDone st met =
     (case rs_workers st of
        None \<Rightarrow> Inl NilDereference
      | Some w \<Rightarrow> if w - 1 < 0 then Inl (ExplicitPanic ''sync: negative WaitGroup counter'')
                  else run_bind (metric_Dec metricActiveWorkers met) (\<lambda>met. Inr (st\<lparr>rs_workers := Some (w - 1)\<rparr>, met)))"

subsection \<open>Construction\<close>

datatype conf_err = UnknownClass bytes | NoPlugin bytes | ConfError string

text \<open>The registry maps an id to the type name of the plugin stored under it.\<close>

record cfg_state =
  cs_conf :: plugin_config
  cs_plugins :: "bytes plugin_registry"
  cs_names :: stream_names

type_synonym 'a cfg = "cfg_state \<Rightarrow> ((conf_err + 'a) \<times> cfg_state) run option"

definition cfg_return :: "'a \<Rightarrow> 'a cfg" where
  "cfg_return x = (\<lambda>st. Some (Inr (Inr x, st)))"

definition cfg_fail :: "conf_err \<Rightarrow> 'a cfg" where
  "cfg_fail e = (\<lambda>st. Some (Inr (Inl e, st)))"

definition cfg_panic :: "panic \<Rightarrow> 'a cfg" where
  "cfg_panic p = (\<lambda>st. Some (Inl p))"

definition cfg_bind :: "'a cfg \<Rightarrow> ('a \<Rightarrow> 'b cfg) \<Rightarrow> 'b cfg" where
  "cfg_bind m f = (\<lambda>st. case m st of
     None \<Rightarrow> None
   | Some (Inl p) \<Rightarrow> Some (Inl p)
   | Some (Inr (Inl e, st)) \<Rightarrow> Some (Inr (Inl e, st))
   | Some (Inr (Inr x, st)) \<Rightarrow> f x st)"

definition cfg_get :: "(plugin_config \<Rightarrow> ('a \<times> plugin_config) run) \<Rightarrow> 'a cfg" where
  "cfg_get g = (\<lambda>st. case g (cs_conf st) of
     Inl p \<Rightarrow> Some (Inl p)
   | Inr (v, conf) \<Rightarrow> Some (Inr (Inr v, st\<lparr>cs_conf := conf\<rparr>)))"

text \<open>A getter that also registers stream names.\<close>

definition cfg_names :: "(plugin_config \<Rightarrow> stream_names \<Rightarrow> ('a \<times> plugin_config \<times> stream_names) run) \<Rightarrow> 'a cfg" where
  "cfg_names g = (\<lambda>st. case g (cs_conf st) (cs_names st) of
     Inl p \<Rightarrow> Some (Inl p)
   | Inr (v, conf, names) \<Rightarrow> Some (Inr (Inr v, st\<lparr>cs_conf := conf, cs_names := names\<rparr>)))"

definition cfg_stream_id :: "bytes \<Rightarrow> u64 cfg" where
  "cfg_stream_id stream = (\<lambda>st. case GetStreamID (cs_names st) stream of
     (i, names) \<Rightarrow> Some (Inr (Inr i, st\<lparr>cs_names := names\<rparr>)))"

lemma cfg_simps [simp]:
  "cfg_bind (cfg_return x) f = f x" "cfg_bind (cfg_fail e) f = cfg_fail e" "cfg_bind (cfg_panic p) g = cfg_panic p"
  by (simp_all add: cfg_bind_def cfg_return_def cfg_fail_def cfg_panic_def)

lemma cfg_bind_ok:
  "cfg_bind m f st = Some (Inr (Inr x, st')) \<longleftrightarrow> (\<exists>y st1. m st = Some (Inr (Inr y, st1)) \<and> f y st1 = Some (Inr (Inr x, st')))"
  by (auto simp: cfg_bind_def split: option.splits sum.splits prod.splits)

lemma cfg_get_ok:
  "cfg_get g st = Some (Inr (Inr x, st')) \<longleftrightarrow> (\<exists>conf. g (cs_conf st) = Inr (x, conf) \<and> st' = st\<lparr>cs_conf := conf\<rparr>)"
  by (auto simp: cfg_get_def split: sum.splits)

lemma cfg_return_ok: "cfg_return y st = Some (Inr (Inr x, st')) \<longleftrightarrow> y = x \<and> st = st'"
  by (simp add: cfg_return_def)

lemma cfg_stop_ok [simp]: "cfg_fail e st \<noteq> Some (Inr (Inr x, st'))" "cfg_panic p st \<noteq> Some (Inr (Inr x, st'))"
  by (simp_all add: cfg_fail_def cfg_panic_def)

lemmas cfg_ok = cfg_bind_ok cfg_get_ok cfg_return_ok

lemma cfg_bind_assoc: "cfg_bind (cfg_bind m f) g = cfg_bind m (\<lambda>x. cfg_bind (f x) g)"
  by (auto simp: cfg_bind_def fun_eq_iff split: option.splits sum.splits prod.splits)

text \<open>
  \<open>NewPluginWithType\<close>: \<open>configure typename\<close> is the type's \<open>Configure\<close>, \<open>None\<close> for an unknown
  type. The plugin is registered under its id when \<open>Configure\<close> failed: the test in the code is
  \<open>err != nil\<close>.
\<close>

definition NewPluginWithType :: "(bytes \<Rightarrow> 'p cfg option) \<Rightarrow> bytes \<Rightarrow> 'p cfg" where
  "NewPluginWithType configure typename =
     (case configure typename of
        None \<Rightarrow> cfg_fail (UnknownClass typename)
      | Some conf \<Rightarrow> (\<lambda>st. case conf st of
            None \<Rightarrow> None
          | Some (Inl p) \<Rightarrow> Some (Inl p)
          | Some (Inr (Inr p, st)) \<Rightarrow> Some (Inr (Inr p, st))
          | Some (Inr (Inl e, st)) \<Rightarrow>
              Some (Inr (Inl e, if ID (cs_conf st) \<noteq> []
                                then st\<lparr>cs_plugins := RegisterUnique (cs_plugins st) typename (ID (cs_conf st))\<rparr>
                                else st))))"

definition NewPlugin :: "(bytes \<Rightarrow> 'p cfg option) \<Rightarrow> 'p cfg" where
  "NewPlugin configure = (\<lambda>st. NewPluginWithType configure (Typename (cs_conf st)) st)"

subsection \<open>Properties\<close>

text \<open>\<open>Register\<close> always returns, with a name that was free and starts with the id asked for; it
  stores the plugin under that name and changes no other entry.\<close>

theorem plugin_Register_fresh:
  assumes "finite (dom reg)"
  shows "\<exists>t. plugin_Register reg p i = Some (i @ t, reg(i @ t \<mapsto> p)) \<and> reg (i @ t) = None"
proof -
  obtain nm where nm: "register_loop reg p i 1 i = Some (nm, reg(nm \<mapsto> p))" "reg nm = None" "\<exists>t. nm = i \<or> nm = i @ t"
    using register_loop_total [OF assms finite_taken [OF assms], where c = 1 and i = i and p = p and pid = i] by blast
  then obtain t where "nm = i @ t" by (metis append_Nil2)
  with nm show ?thesis by (auto simp: plugin_Register_def)
qed

theorem plugin_Register_fresh_witness:
  "\<exists>t. plugin_Register [''a'' \<mapsto> (1::nat)] 2 ''a'' = Some (''a'' @ t, [''a'' \<mapsto> 1, ''a'' @ t \<mapsto> 2]) \<and> t \<noteq> []"
proof -
  from plugin_Register_fresh [of "[''a'' \<mapsto> (1::nat)]" 2 "''a''"] obtain t
    where "plugin_Register [''a'' \<mapsto> (1::nat)] 2 ''a'' = Some (''a'' @ t, [''a'' \<mapsto> 1, ''a'' @ t \<mapsto> 2])"
      "[''a'' \<mapsto> (1::nat)] (''a'' @ t) = None" by auto
  then show ?thesis by (cases t) auto
qed

text \<open>A plugin that is configured without an error is never registered under its id, one that
  fails is.\<close>

theorem plugin_registered_only_on_error:
  assumes "configure typename = Some conf" "conf st = Some (Inr (r, st'))"
    "ID (cs_conf st') = i" "i \<noteq> []" "cs_plugins st' i = None"
  shows "\<exists>st''. NewPluginWithType configure typename st = Some (Inr (r, st'')) \<and>
    GetPlugin (cs_plugins st'') i = (case r of Inr p \<Rightarrow> None | Inl e \<Rightarrow> Some typename)"
  using assms by (cases r) (auto simp: NewPluginWithType_def RegisterUnique_def GetPlugin_def)

theorem plugin_registered_only_on_error_witness:
  "\<exists>st''. NewPluginWithType (\<lambda>t. Some (cfg_return (0::nat))) ''consumer.Console''
      \<lparr>cs_conf = (NewPluginConfig ''t'')\<lparr>ID := ''me''\<rparr>, cs_plugins = Map.empty, cs_names = Map.empty\<rparr> = Some (Inr (Inr 0, st'')) \<and>
    GetPlugin (cs_plugins st'') ''me'' = None"
  using plugin_registered_only_on_error [of "\<lambda>t. Some (cfg_return (0::nat))" "''consumer.Console''" "cfg_return 0"
      "\<lparr>cs_conf = (NewPluginConfig ''t'')\<lparr>ID := ''me''\<rparr>, cs_plugins = Map.empty, cs_names = Map.empty\<rparr>" "Inr 0"
      "\<lparr>cs_conf = (NewPluginConfig ''t'')\<lparr>ID := ''me''\<rparr>, cs_plugins = Map.empty, cs_names = Map.empty\<rparr>" "''me''"]
  by (simp add: cfg_return_def)

end
