(* ===== verification/JSONFormatters.thy ===== *)
theory JSONFormatters
  imports TransitionParsers Plugins Messages Utilities
begin

text \<open>
  \<open>format/json.go\<close>: the formatter that turns text into JSON with a transition parser. The
  callbacks of the parser write to a buffer and keep a reader state and a stack of the states around
  the open containers. The parser and the stack live in the formatter, so they survive a message.
  \<open>encoding/json\<close> and \<open>time\<close> enter as the functions of the record \<open>json_env\<close>; an
  instant is its number of nanoseconds since 1970.
\<close>

datatype json_state =
    jsonReadArrayEnd | jsonReadObjectEnd | jsonReadObject | jsonReadKey | jsonReadValue | jsonReadArray
  | jsonReadArrayAppend

text \<open>The code compares states by their \<open>iota\<close> numbers.\<close>

definition json_state_num :: "json_state \<Rightarrow> nat" where
  "json_state_num s = (case s of jsonReadArrayEnd \<Rightarrow> 0 | jsonReadObjectEnd \<Rightarrow> 1 | jsonReadObject \<Rightarrow> 2
     | jsonReadKey \<Rightarrow> 3 | jsonReadValue \<Rightarrow> 4 | jsonReadArray \<Rightarrow> 5 | jsonReadArrayAppend \<Rightarrow> 6)"

instantiation json_state :: linorder
begin

definition less_eq_json_state :: "json_state \<Rightarrow> json_state \<Rightarrow> bool" where
  "less_eq_json_state a b \<longleftrightarrow> json_state_num a \<le> json_state_num b"

definition less_json_state :: "json_state \<Rightarrow> json_state \<Rightarrow> bool" where
  "less_json_state a b \<longleftrightarrow> json_state_num a < json_state_num b"

instance
proof
  fix x y z :: json_state
  show "(x < y) = (x \<le> y \<and> \<not> y \<le> x)" by (auto simp: less_eq_json_state_def less_json_state_def)
  show "x \<le> x" by (simp add: less_eq_json_state_def)
  show "x \<le> y \<Longrightarrow> y \<le> z \<Longrightarrow> x \<le> z" by (simp add: less_eq_json_state_def)
  show "x \<le> y \<Longrightarrow> y \<le> x \<Longrightarrow> x = y"
    by (cases x; cases y) (simp_all add: less_eq_json_state_def json_state_num_def)
  show "x \<le> y \<or> y \<le> x" by (auto simp: less_eq_json_state_def)
qed

end

text \<open>The functions a directive can name; \<open>arr+dat\<close> is not among the registered ones.\<close>

datatype json_func =
    FKey | FVal | FEsc | FDat | FArr | FObj | FEnd | FArrVal | FArrEsc | FValEnd | FEscEnd | FDatEnd

record json_env =
  je_marshal :: "bytes \<Rightarrow> bytes"
  je_parse :: "bytes \<Rightarrow> bytes \<Rightarrow> int option"
  je_format :: "bytes \<Rightarrow> int \<Rightarrow> bytes"

text \<open>What the callbacks write to.\<close>

record json_buf =
  jb_message :: bytes
  jb_state :: json_state
  jb_stack :: "json_state list"

record json_formatter =
  jf_parser :: "json_func transition_parser"
  jf_buf :: json_buf
  jf_initState :: bytes
  jf_timeRead :: bytes
  jf_timeWrite :: bytes
  jf_unix :: bool

subsection \<open>Writing\<close>

definition write_json :: "bytes \<Rightarrow> json_buf \<Rightarrow> json_buf" where
  "write_json s b = b\<lparr>jb_message := jb_message b @ s\<rparr>"

definition in_array :: "json_state \<Rightarrow> bool" where
  "in_array s \<longleftrightarrow> s = jsonReadArray \<or> s = jsonReadArrayAppend"

definition readEnd :: "json_buf \<Rightarrow> json_buf" where
  "readEnd b =
     (let b = (if jb_stack b \<noteq> [] then write_json (if in_array (jb_state b) then '']'' else ''}'') b else b)
      in if length (jb_stack b) > 1 then
           b\<lparr>jb_state := (if last (jb_stack b) = jsonReadArray then jsonReadArrayAppend else last (jb_stack b)),
             jb_stack := butlast (jb_stack b)\<rparr>
         else b\<lparr>jb_stack := [], jb_state := jsonReadKey\<rparr>)"

text \<open>The loop at the start of \<open>writeKey\<close>: every \<open>readEnd\<close> leaves the arrays or pops the stack.\<close>

definition open_depth :: "json_buf \<Rightarrow> nat" where
  "open_depth b = (if jb_state b = jsonReadKey then 0 else Suc (length (jb_stack b)))"

lemma open_depth_readEnd: "jb_state b \<noteq> jsonReadKey \<Longrightarrow> open_depth (readEnd b) < open_depth b"
  by (auto simp: readEnd_def open_depth_def Let_def write_json_def)

function end_arrays :: "json_buf \<Rightarrow> json_buf" where
  "end_arrays b = (if in_array (jb_state b) then end_arrays (readEnd b) else b)"
  by pat_completeness auto
termination by (relation "measure open_depth") (auto simp: in_array_def intro: open_depth_readEnd)

declare end_arrays.simps [simp del]

definition writeKey :: "bytes \<Rightarrow> json_buf \<Rightarrow> json_buf" where
  "writeKey key b =
     (let b = end_arrays b;
          b = (if jb_state b > jsonReadKey then write_json ''null'' b else b);
          b = (if jb_state b \<noteq> jsonReadObject then write_json '','' b else b)
      in write_json ([CHR 0x22] @ key @ [CHR 0x22, CHR '':'']) b)"

definition readKey :: "bytes \<Rightarrow> json_buf \<Rightarrow> json_buf" where
  "readKey data b = (writeKey data b)\<lparr>jb_state := jsonReadValue\<rparr>"

text \<open>
  \<open>readValue\<close> and \<open>readEscaped\<close> write a value the same way, the latter in its JSON encoding.
  \<open>nm\<close> is the name of the parser state, the key of a value that has none.
\<close>

definition write_value :: "bytes \<Rightarrow> bytes \<Rightarrow> json_buf \<Rightarrow> json_buf" where
  "write_value nm value b =
     (case jb_state b of
        jsonReadValue \<Rightarrow> (write_json value b)\<lparr>jb_state := jsonReadKey\<rparr>
      | jsonReadArray \<Rightarrow> (write_json value b)\<lparr>jb_state := jsonReadArrayAppend\<rparr>
      | jsonReadArrayAppend \<Rightarrow> write_json ('','' @ value) b
      | _ \<Rightarrow> (write_json value (writeKey nm b))\<lparr>jb_state := jsonReadKey\<rparr>)"

definition skip_value :: "json_buf \<Rightarrow> json_buf" where
  "skip_value b = (if in_array (jb_state b) then b else b\<lparr>jb_state := jsonReadKey\<rparr>)"

definition readValue :: "bytes \<Rightarrow> bytes \<Rightarrow> json_buf \<Rightarrow> json_buf" where
  "readValue nm data b =
     (let trimmedData = str_trim_space data
      in if trimmedData = [] then skip_value b else write_value nm trimmedData b)"

definition readEscaped :: "json_env \<Rightarrow> bytes \<Rightarrow> bytes \<Rightarrow> json_buf \<Rightarrow> json_buf" where
  "readEscaped env nm data b =
     (let trimmedData = str_trim_space data
      in if trimmedData = [] then skip_value b else write_value nm (je_marshal env trimmedData) b)"

text \<open>The zero time: the first of January of the year 1.\<close>

definition zero_time :: int where "zero_time = - 62135596800 * 1000000000"

definition parseUnix :: "bytes \<Rightarrow> bytes \<Rightarrow> int option" where
  "parseUnix layout v =
     (let (valueInt, ok) = atoi v
      in if layout = ''s'' then (if ok then Some (valueInt * 1000000000) else None)
         else if layout = ''ms'' then (if ok then Some (int64 (valueInt * 1000000)) else None)
         else if layout = ''ns'' then (if ok then Some valueInt else None)
         else Some 0)"

definition readDate :: "json_env \<Rightarrow> json_formatter \<Rightarrow> bytes \<Rightarrow> bytes \<Rightarrow> json_buf \<Rightarrow> json_buf" where
  "readDate env jf nm data b =
     (let timeParse = (if jf_unix jf then parseUnix else je_parse env);
          date = (case timeParse (jf_timeRead jf) (str_trim_space data) of None \<Rightarrow> zero_time | Some d \<Rightarrow> d)
      in readEscaped env nm (je_format env (jf_timeWrite jf) date) b)"

text \<open>The \<open>...End\<close> functions put the state before the value back before they end the container.\<close>

definition then_end :: "(json_buf \<Rightarrow> json_buf) \<Rightarrow> json_buf \<Rightarrow> json_buf" where
  "then_end f b = readEnd ((f b)\<lparr>jb_state := jb_state b\<rparr>)"

text \<open>\<open>readArray\<close> and \<open>readObject\<close>, which differ in the bracket and the state.\<close>

definition open_container :: "bytes \<Rightarrow> json_state \<Rightarrow> bytes \<Rightarrow> json_buf \<Rightarrow> json_buf" where
  "open_container bracket inside nm b =
     (let b = (case jb_state b of
                 jsonReadValue \<Rightarrow> write_json bracket b
               | jsonReadArray \<Rightarrow> write_json bracket b
               | jsonReadObject \<Rightarrow> write_json bracket b
               | jsonReadArrayAppend \<Rightarrow> write_json ('','' @ bracket) b
               | _ \<Rightarrow> write_json bracket (writeKey nm b))
      in b\<lparr>jb_stack := jb_stack b @ [jb_state b], jb_state := inside\<rparr>)"

definition readArray :: "bytes \<Rightarrow> json_buf \<Rightarrow> json_buf" where
  "readArray = open_container ''['' jsonReadArray"

definition readObject :: "bytes \<Rightarrow> json_buf \<Rightarrow> json_buf" where
  "readObject = open_container ''{'' jsonReadObject"

text \<open>A callback of the parser: the function, the parsed value, the parser state.\<close>

definition json_run ::
  "json_env \<Rightarrow> json_formatter \<Rightarrow> (u32 \<Rightarrow> bytes) \<Rightarrow> json_func \<Rightarrow> bytes \<Rightarrow> u32 \<Rightarrow> json_buf \<Rightarrow> json_buf" where
  "json_run env jf getName f data i b =
     (let nm = getName i
      in case f of
           FKey \<Rightarrow> readKey data b
         | FVal \<Rightarrow> readValue nm data b
         | FEsc \<Rightarrow> readEscaped env nm data b
         | FDat \<Rightarrow> readDate env jf nm data b
         | FArr \<Rightarrow> readArray nm b
         | FObj \<Rightarrow> readObject nm b
         | FEnd \<Rightarrow> readEnd b
         | FArrVal \<Rightarrow> readValue nm data (readArray nm b)
         | FArrEsc \<Rightarrow> readEscaped env nm data (readArray nm b)
         | FValEnd \<Rightarrow> then_end (readValue nm data) b
         | FEscEnd \<Rightarrow> then_end (readEscaped env nm data) b
         | FDatEnd \<Rightarrow> then_end (readDate env jf nm data) b)"

subsection \<open>Format and Configure\<close>

text \<open>The loop that closes what is still open; it stops at a key or a value.\<close>

function close_open :: "json_buf \<Rightarrow> json_buf" where
  "close_open b = (if in_array (jb_state b) \<or> jb_state b = jsonReadObject then close_open (readEnd b) else b)"
  by pat_completeness auto
termination by (relation "measure open_depth") (auto simp: in_array_def intro: open_depth_readEnd)

declare close_open.simps [simp del]

definition json_Format :: "json_env \<Rightarrow> json_formatter \<Rightarrow> message \<Rightarrow> ((bytes \<times> u64) \<times> json_formatter) run option" where
  "json_Format env jf msg =
     (let b = (jf_buf jf)\<lparr>jb_message := ''{'', jb_state := jsonReadObject\<rparr>;
          getName = GetStateName (snd (GetStateID (jf_parser jf) (jf_initState jf)))
      in map_option (\<lambda>r. run_bind r (\<lambda>(remains, state, parser, b).
           let b = (case remains of None \<Rightarrow> b | Some d \<Rightarrow> readEscaped env (getName state) d b);
               b = (if length (jb_message b) > 1 then close_open b else b);
               b = write_json [CHR ''}'', CHR 0x0A] b
           in Inr ((str_trim_space (jb_message b), m_StreamID msg), jf\<lparr>jf_parser := parser, jf_buf := b\<rparr>)))
         (Parse (json_run env jf getName) (jf_parser jf) (m_Data msg) (jf_initState jf) b))"

definition parserFunctions :: "bytes \<rightharpoonup> json_func" where
  "parserFunctions =
     [''key'' \<mapsto> FKey, ''val'' \<mapsto> FVal, ''esc'' \<mapsto> FEsc, ''dat'' \<mapsto> FDat, ''arr'' \<mapsto> FArr, ''obj'' \<mapsto> FObj,
      ''end'' \<mapsto> FEnd, ''arr+val'' \<mapsto> FArrVal, ''arr+esc'' \<mapsto> FArrEsc, ''val+end'' \<mapsto> FValEnd,
      ''esc+end'' \<mapsto> FEscEnd, ''dat+end'' \<mapsto> FDatEnd]"

text \<open>The directives of the configuration and the state to start in; the error names no directive text.\<close>

fun read_directives :: "bytes list \<Rightarrow> bytes \<Rightarrow> (json_func directive list \<times> bytes) option" where
  "read_directives [] initState = Some ([], initState)"
| "read_directives (s # ss) initState =
     (case ParseTransitionDirective s parserFunctions of
        None \<Rightarrow> None
      | Some d \<Rightarrow> map_option (\<lambda>(ds, i). (d # ds, i))
                    (read_directives ss (if initState = [] then d_State d else initState)))"

text \<open>Which layout a date is read with, and whether it is a Unix time.\<close>

definition time_layout :: "bytes \<Rightarrow> bytes \<Rightarrow> bytes \<times> bool" where
  "time_layout timeRead unixRead =
     (if timeRead = [] then (if unixRead = [] then (''20060102150405'', False) else (unixRead, True))
      else (timeRead, False))"

definition json_directives :: "bytes \<Rightarrow> json_formatter \<Rightarrow> json_formatter cfg" where
  "json_directives initState format =
     cfg_bind (cfg_get (\<lambda>conf. Inr (HasValue ''JSONDirectives'' conf))) (\<lambda>has.
     if \<not> has then cfg_return format
     else cfg_bind (cfg_get (GetStringArray ''JSONDirectives'' [])) (\<lambda>directiveStrings.
       if directiveStrings = [] then cfg_return format
       else case read_directives directiveStrings initState of
              None \<Rightarrow> cfg_fail (ConfError ''Parser directive requires 5 tokens.'')
            | Some (directives, initState) \<Rightarrow>
                (case AddDirectives NewTransitionParser directives of
                   Inl p \<Rightarrow> cfg_panic p
                 | Inr parser \<Rightarrow>
                     if initState \<in> set (map d_State directives)
                     then cfg_return (format\<lparr>jf_parser := parser, jf_initState := initState\<rparr>)
                     else cfg_fail (ConfError ''JSONStartState does not exist in directives''))))"

definition JSON_Configure :: "json_formatter cfg" where
  "JSON_Configure =
     cfg_bind (cfg_get (GetString ''JSONStartState'' [])) (\<lambda>initState.
     cfg_bind (cfg_get (GetString ''JSONTimestampRead'' [])) (\<lambda>timeRead.
     cfg_bind (cfg_get (GetString ''JSONTimestampWrite'' ''2006-01-02 15:04:05 MST'')) (\<lambda>timeWrite.
     cfg_bind (cfg_get (GetString ''JSONUnixTimestampRead'' [])) (\<lambda>unixRead.
     json_directives initState
       \<lparr>jf_parser = NewTransitionParser, jf_buf = \<lparr>jb_message = [], jb_state = jsonReadObject, jb_stack = []\<rparr>,
        jf_initState = initState, jf_timeRead = fst (time_layout timeRead unixRead), jf_timeWrite = timeWrite,
        jf_unix = snd (time_layout timeRead unixRead)\<rparr>))))"

subsection \<open>The writers only append\<close>

lemma write_json_simps [simp]:
  "jb_message (write_json s b) = jb_message b @ s" "jb_state (write_json s b) = jb_state b" "jb_stack (write_json s b) = jb_stack b"
  "write_json [] b = b" "write_json t (write_json s b) = write_json (s @ t) b"
  by (simp_all add: write_json_def)

definition appends :: "json_buf \<Rightarrow> json_buf \<Rightarrow> bool" where
  "appends b b' \<longleftrightarrow> prefix (jb_message b) (jb_message b')"

named_theorems appends_intros \<open>the operations append\<close>

lemma appends_refl [simp, appends_intros]: "appends b b"
  by (simp add: appends_def)

lemma appends_trans: "appends a b \<Longrightarrow> appends b c \<Longrightarrow> appends a c"
  unfolding appends_def by (rule prefix_order.trans)

lemma appends_write [appends_intros]: "appends a b \<Longrightarrow> appends a (write_json s b)"
  by (auto simp: appends_def intro: prefix_prefix)

lemma appends_state [simp]: "appends a (b\<lparr>jb_state := x\<rparr>) \<longleftrightarrow> appends a b" "appends a (b\<lparr>jb_stack := y\<rparr>) \<longleftrightarrow> appends a b"
  by (simp_all add: appends_def)

lemma appends_readEnd [appends_intros]: "appends a b \<Longrightarrow> appends a (readEnd b)"
  by (auto simp: readEnd_def Let_def intro: appends_intros)

lemma appends_end_arrays [appends_intros]: "appends a b \<Longrightarrow> appends a (end_arrays b)"
proof (induction b rule: end_arrays.induct)
  case (1 b)
  then show ?case by (subst end_arrays.simps) (simp add: appends_readEnd)
qed

lemma appends_close_open [appends_intros]: "appends a b \<Longrightarrow> appends a (close_open b)"
proof (induction b rule: close_open.induct)
  case (1 b)
  then show ?case by (subst close_open.simps) (simp add: appends_readEnd)
qed

lemma appends_writeKey [appends_intros]: "appends a b \<Longrightarrow> appends a (writeKey key b)"
  unfolding writeKey_def Let_def by (auto intro!: appends_intros)

lemma appends_write_value [appends_intros]: "appends a b \<Longrightarrow> appends a (write_value nm v b)"
  unfolding write_value_def by (cases "jb_state b") (auto intro!: appends_intros)

lemma appends_values [appends_intros]:
  "appends a b \<Longrightarrow> appends a (readValue nm v b)" "appends a b \<Longrightarrow> appends a (readEscaped env nm v b)"
  "appends a b \<Longrightarrow> appends a (readDate env jf nm v b)" "appends a b \<Longrightarrow> appends a (readKey v b)"
  by (auto simp: readValue_def readEscaped_def readDate_def readKey_def skip_value_def Let_def intro!: appends_intros)

lemma appends_containers [appends_intros]:
  "appends a b \<Longrightarrow> appends a (readArray nm b)" "appends a b \<Longrightarrow> appends a (readObject nm b)"
  unfolding readArray_def readObject_def open_container_def Let_def
  by (cases "jb_state b"; auto intro!: appends_intros)+

lemma appends_run: "appends a b \<Longrightarrow> appends a (json_run env jf getName f v i b)"
  by (cases f) (auto simp: json_run_def then_end_def Let_def intro!: appends_intros)

lemma appends_events: "appends a b \<Longrightarrow> appends a (run_events (json_run env jf getName) evs b)"
proof (induction evs arbitrary: b)
  case (Cons e evs)
  then show ?case using Cons.IH [OF appends_run [OF Cons.prems]] by (cases e) simp
qed simp

subsection \<open>Formatting any number of messages\<close>

text \<open>
  The formatter is ready when its parser is ready for the directives it was configured with and the
  start state is one of theirs. \<open>Format\<close> keeps it ready.
\<close>

definition json_ready :: "json_func directive list \<Rightarrow> json_formatter \<Rightarrow> bool" where
  "json_ready ds jf \<longleftrightarrow> complete_directives ds \<and> parser_ready ds (jf_parser jf) \<and> jf_initState jf \<in> set (map d_State ds)"

definition json_start :: "json_formatter \<Rightarrow> json_buf" where
  "json_start jf = (jf_buf jf)\<lparr>jb_message := ''{'', jb_state := jsonReadObject\<rparr>"

text \<open>The end of \<open>Format\<close>: close what is open and the outer object.\<close>

definition json_finish :: "json_buf \<Rightarrow> json_buf" where
  "json_finish b = write_json [CHR ''}'', CHR 0x0A] (if length (jb_message b) > 1 then close_open b else b)"

lemma json_Format_ready:
  assumes "json_ready ds jf"
  obtains rest c p evs where
    "Parse record_event (jf_parser jf) (m_Data msg) (jf_initState jf) [] = Some (Inr (rest, c, p, evs))"
    "json_ready ds (jf\<lparr>jf_parser := p\<rparr>)"
    "json_Format env jf msg =
       (let getName = GetStateName (jf_parser jf);
            b = run_events (json_run env jf getName) evs (json_start jf);
            b = json_finish (case rest of None \<Rightarrow> b | Some d \<Rightarrow> readEscaped env (getName c) d b)
        in Some (Inr ((str_trim_space (jb_message b), m_StreamID msg), jf\<lparr>jf_parser := p, jf_buf := b\<rparr>)))"
proof -
  have d: "complete_directives ds" "parser_ready ds (jf_parser jf)" "jf_initState jf \<in> set (map d_State ds)"
    using assms by (simp_all add: json_ready_def)
  obtain k where "GetStateID (jf_parser jf) (jf_initState jf) = (of_nat k, jf_parser jf)"
    by (rule ready_state [OF d(2,1,3)])
  then have id: "snd (GetStateID (jf_parser jf) (jf_initState jf)) = jf_parser jf" by simp
  let ?run = "json_run env jf (GetStateName (jf_parser jf))"
  obtain rest c p b where r: "Parse ?run (jf_parser jf) (m_Data msg) (jf_initState jf) (json_start jf) = Some (Inr (rest, c, p, b))"
    "parser_ready ds p" by (rule Parse_ready [OF d(2,1,3), of ?run "m_Data msg" "json_start jf"])
  obtain evs where evs: "b = run_events ?run evs (json_start jf)"
    "Parse record_event (jf_parser jf) (m_Data msg) (jf_initState jf) [] = Some (Inr (rest, c, p, evs))"
    using Parse_events [OF r(1)] by blast
  show thesis
  proof (rule that [OF evs(2)])
    show "json_ready ds (jf\<lparr>jf_parser := p\<rparr>)" using d r(2) by (simp add: json_ready_def)
  qed (use r(1) evs(1) id in \<open>simp add: json_Format_def json_start_def json_finish_def Let_def\<close>)
qed

fun json_format_all :: "json_env \<Rightarrow> json_formatter \<Rightarrow> message list \<Rightarrow> ((bytes \<times> u64) list \<times> json_formatter) run option" where
  "json_format_all env jf [] = Some (Inr ([], jf))"
| "json_format_all env jf (m # ms) =
     (case json_Format env jf m of
        None \<Rightarrow> None
      | Some (Inl e) \<Rightarrow> Some (Inl e)
      | Some (Inr (out, jf)) \<Rightarrow> map_option (map_sum id (\<lambda>(outs, jf). (out # outs, jf))) (json_format_all env jf ms))"

text \<open>Trimming an output that starts with a brace and ends in a brace and a line feed takes the line feed.\<close>

lemma str_trim_space_braces: "str_trim_space (''{'' @ s @ [CHR ''}'', CHR 0x0A]) = ''{'' @ s @ ''}''"
  by (simp add: str_trim_space_def str_trim_def ascii_space_def)

lemma json_output:
  assumes "appends (json_start jf) b"
  shows "\<exists>s. str_trim_space (jb_message (json_finish b)) = ''{'' @ s @ ''}''"
proof -
  have "appends (json_start jf) (if length (jb_message b) > 1 then close_open b else b)" using assms by (auto intro: appends_intros)
  then obtain s where "jb_message (json_finish b) = ''{'' @ s @ [CHR ''}'', CHR 0x0A]"
    by (auto simp: appends_def json_start_def json_finish_def prefix_def)
  with str_trim_space_braces [of s] show ?thesis by auto
qed

lemma json_Format_step:
  assumes "json_ready ds jf"
  obtains s jf' where "json_Format env jf msg = Some (Inr ((''{'' @ s @ ''}'', m_StreamID msg), jf'))" "json_ready ds jf'"
proof -
  obtain rest c p evs where f: "json_ready ds (jf\<lparr>jf_parser := p\<rparr>)"
    "json_Format env jf msg =
       (let getName = GetStateName (jf_parser jf);
            b = run_events (json_run env jf getName) evs (json_start jf);
            b = json_finish (case rest of None \<Rightarrow> b | Some d \<Rightarrow> readEscaped env (getName c) d b)
        in Some (Inr ((str_trim_space (jb_message b), m_StreamID msg), jf\<lparr>jf_parser := p, jf_buf := b\<rparr>)))"
    by (rule json_Format_ready [OF assms])
  let ?b = "run_events (json_run env jf (GetStateName (jf_parser jf))) evs (json_start jf)"
  let ?c = "case rest of None \<Rightarrow> ?b | Some d \<Rightarrow> readEscaped env (GetStateName (jf_parser jf) c) d ?b"
  have "appends (json_start jf) ?c" by (auto split: option.splits intro: appends_intros appends_events)
  then obtain s where "str_trim_space (jb_message (json_finish ?c)) = ''{'' @ s @ ''}''" using json_output by blast
  with f show thesis by (intro that [of s "jf\<lparr>jf_parser := p, jf_buf := json_finish ?c\<rparr>"]) (simp_all add: json_ready_def Let_def)
qed

lemma json_format_all_ready:
  assumes "json_ready ds jf"
  shows "\<exists>outs jf'. json_format_all env jf ms = Some (Inr (outs, jf')) \<and> json_ready ds jf' \<and>
    list_all2 (\<lambda>m (out, s). s = m_StreamID m \<and> (\<exists>t. out = ''{'' @ t @ ''}'')) ms outs"
  using assms
proof (induction ms arbitrary: jf)
  case (Cons m ms)
  obtain s jf1 where s: "json_Format env jf m = Some (Inr ((''{'' @ s @ ''}'', m_StreamID m), jf1))" "json_ready ds jf1"
    by (rule json_Format_step [OF Cons.prems])
  obtain outs jf' where "json_format_all env jf1 ms = Some (Inr (outs, jf'))" "json_ready ds jf'"
    "list_all2 (\<lambda>m (out, s). s = m_StreamID m \<and> (\<exists>t. out = ''{'' @ t @ ''}'')) ms outs"
    using Cons.IH [OF s(2)] by blast
  with s(1) show ?case by simp
qed simp

definition parsed_directives :: "bytes list \<Rightarrow> json_func directive list" where
  "parsed_directives = List.map_filter (\<lambda>s. ParseTransitionDirective s parserFunctions)"

lemma read_directives_parsed:
  "read_directives ss i = Some (ds, j) \<Longrightarrow> ds = parsed_directives ss \<and> length ds = length ss"
  by (induction ss arbitrary: i ds) (auto simp: parsed_directives_def List.map_filter_simps split: option.splits)

lemma json_directives_ready:
  assumes "json_directives i0 format st = Some (Inr (Inr jf, st'))"
    "mm_StringArray (Settings (cs_conf st)) ''JSONDirectives'' = Inr dirs" "dirs \<noteq> []"
    "complete_directives (parsed_directives dirs)" "2 * length dirs < 2 ^ 32 - 1"
  shows "json_ready (parsed_directives dirs) jf \<and> jf_buf jf = jf_buf format"
proof -
  have has: "map_of (Settings (cs_conf st)) ''JSONDirectives'' \<noteq> None"
    using assms(2) by (cases "map_of (Settings (cs_conf st)) ''JSONDirectives''") (simp_all add: mm_StringArray_def mm_lookup_def)
  obtain ds i where d: "read_directives dirs i0 = Some (ds, i)"
    using assms(1-3) has
    by (cases "read_directives dirs i0") (auto simp: json_directives_def cfg_ok getter_defs get_setting_spec HasValue_def registerKey_def)
  then have ds: "ds = parsed_directives dirs" "length ds = length dirs" using read_directives_parsed by blast+
  obtain p where p: "AddDirectives NewTransitionParser ds = Inr p" "parser_ready ds p"
    using AddDirectives_ready [of ds] assms(4,5) ds by metis
  have "jf = format\<lparr>jf_parser := p, jf_initState := i\<rparr> \<and> i \<in> set (map d_State ds)"
    using assms(1-3) has d p(1)
    by (cases "i \<in> set (map d_State ds)")
       (auto simp: json_directives_def cfg_ok getter_defs get_setting_spec HasValue_def registerKey_def)
  with p ds assms(4) show ?thesis by (simp add: json_ready_def)
qed

lemma JSON_Configure_ready:
  assumes "JSON_Configure st = Some (Inr (Inr jf, st'))"
    "mm_StringArray (Settings (cs_conf st)) ''JSONDirectives'' = Inr dirs" "dirs \<noteq> []"
    "complete_directives (parsed_directives dirs)" "2 * length dirs < 2 ^ 32 - 1"
  shows "json_ready (parsed_directives dirs) jf \<and> jb_stack (jf_buf jf) = []"
proof -
  have set: "Settings (registerKey k c) = Settings c" for k c by (simp add: registerKey_def)
  obtain i0 format st1 where "json_directives i0 format st1 = Some (Inr (Inr jf, st'))"
    "Settings (cs_conf st1) = Settings (cs_conf st)" "jb_stack (jf_buf format) = []"
    using assms(1) unfolding JSON_Configure_def cfg_ok getter_defs get_setting_spec
    by (elim exE conjE) (simp add: set)
  with json_directives_ready [of i0 format st1 jf st' dirs] assms(2-) show ?thesis by simp
qed

subsection \<open>Values as events\<close>

text \<open>
  A JSON value as the directives describe it: raw text, an array, or a record of raw texts; its
  rendering, and the events that make the formatter write it.
\<close>

datatype json_tree = JVal bytes | JArr "json_tree list" | JRec "(bytes \<times> bytes) list"

definition render_members :: "(bytes \<times> bytes) list \<Rightarrow> bytes" where
  "render_members ms = ''{'' @ str_join (map (\<lambda>(k, v). [CHR 0x22] @ k @ [CHR 0x22, CHR '':''] @ v) ms) '','' @ ''}''"

fun render :: "json_tree \<Rightarrow> bytes" where
  "render (JVal v) = str_trim_space v"
| "render (JArr ts) = ''['' @ str_join (map render ts) '','' @ '']''"
| "render (JRec ms) = render_members (map (\<lambda>(k, v). (k, str_trim_space v)) ms)"

text \<open>An event without the parser state; a bracket has no data.\<close>

definition erase :: "json_func \<times> bytes \<times> u32 \<Rightarrow> json_func \<times> bytes" where
  "erase e = (case e of (f, d, i) \<Rightarrow> (f, if f = FArr \<or> f = FObj \<or> f = FEnd then [] else d))"

definition member_events :: "bytes \<times> (json_func \<times> bytes) list \<Rightarrow> (json_func \<times> bytes) list" where
  "member_events kv = (FKey, fst kv) # snd kv"

fun value_events :: "json_tree \<Rightarrow> (json_func \<times> bytes) list" where
  "value_events (JVal v) = [(FVal, v)]"
| "value_events (JArr ts) = (FArr, []) # concat (map value_events ts) @ [(FEnd, [])]"
| "value_events (JRec ms) = (FObj, []) # concat (map (\<lambda>(k, v). member_events (k, [(FVal, v)])) ms) @ [(FEnd, [])]"

lemma erase_simps:
  "erase e = (f, d) \<longleftrightarrow> (\<exists>d' i. e = (f, d', i) \<and> (if f = FArr \<or> f = FObj \<or> f = FEnd then d = [] else d' = d))"
  by (cases e) (auto simp: erase_def)

fun printable :: "json_tree \<Rightarrow> bool" where
  "printable (JVal v) = (str_trim_space v \<noteq> [])"
| "printable (JArr ts) = list_all printable ts"
| "printable (JRec ms) = list_all (\<lambda>(k, v). str_trim_space v \<noteq> []) ms"

text \<open>The members of an object, written one after the other.\<close>

definition member_text :: "bytes \<Rightarrow> bytes \<Rightarrow> bytes" where
  "member_text k v = [CHR 0x22] @ k @ [CHR 0x22, CHR '':''] @ v"

lemma end_arrays_id [simp]: "\<not> in_array (jb_state b) \<Longrightarrow> end_arrays b = b"
  by (simp add: end_arrays.simps)

lemma close_open_id [simp]: "jb_state b = jsonReadKey \<or> jb_state b = jsonReadValue \<Longrightarrow> close_open b = b"
  by (subst close_open.simps) (auto simp: in_array_def)

lemma readKey_member:
  assumes "jb_state b = jsonReadObject \<or> jb_state b = jsonReadKey"
  shows "readKey k b = (write_json ((if jb_state b = jsonReadObject then [] else '','') @ member_text k []) b)\<lparr>jb_state := jsonReadValue\<rparr>"
  using assms by (auto simp: readKey_def writeKey_def in_array_def Let_def member_text_def less_json_state_def json_state_num_def)

text \<open>
  Writing a value: at the place of a member's value outside of every container, or as the next
  element of an array.
\<close>

definition at_value :: "json_buf \<Rightarrow> bool" where
  "at_value b \<longleftrightarrow> jb_state b = jsonReadValue \<and> jb_stack b = []"

definition at_element :: "json_buf \<Rightarrow> bool" where
  "at_element b \<longleftrightarrow> in_array (jb_state b) \<and> jb_stack b \<noteq> []"

definition written :: "bytes \<Rightarrow> json_buf \<Rightarrow> json_buf" where
  "written s b =
     (if jb_state b = jsonReadValue then (write_json s b)\<lparr>jb_state := jsonReadKey\<rparr>
      else (write_json ((if jb_state b = jsonReadArrayAppend then '','' else []) @ s) b)\<lparr>jb_state := jsonReadArrayAppend\<rparr>)"

lemma write_value_written:
  assumes "at_value b \<or> at_element b"
  shows "write_value nm v b = written v b"
  using assms by (cases b) (auto simp: at_value_def at_element_def in_array_def write_value_def written_def write_json_def)

text \<open>Opening a container, and what \<open>readEnd\<close> does with it afterwards.\<close>

definition opened :: "bytes \<Rightarrow> json_state \<Rightarrow> json_buf \<Rightarrow> json_buf" where
  "opened bracket s b = (write_json ((if jb_state b = jsonReadArrayAppend then '','' else []) @ bracket) b)
     \<lparr>jb_stack := jb_stack b @ [jb_state b], jb_state := s\<rparr>"

lemma open_container_opened:
  "at_value b \<or> at_element b \<Longrightarrow> open_container bracket s nm b = opened bracket s b"
  by (cases b) (auto simp: at_value_def at_element_def in_array_def open_container_def opened_def write_json_def)

lemma readEnd_opened:
  assumes "at_value b \<or> at_element b"
  shows "readEnd ((write_json t (opened lead inside b))\<lparr>jb_state := s\<rparr>) = written (lead @ t @ (if in_array s then '']'' else ''}'')) b"
  using assms by (cases b) (auto simp: at_value_def at_element_def in_array_def readEnd_def opened_def written_def write_json_def)

lemma write_json_state: "write_json s (b\<lparr>jb_state := x\<rparr>) = (write_json s b)\<lparr>jb_state := x\<rparr>"
  by (cases b) (simp add: write_json_def)

text \<open>
  A list of items, each of which writes itself, with a comma unless it is the first: the shape of
  arrays and of objects.
\<close>

lemma run_items:
  assumes step: "\<And>m es b. m \<in> set ms \<Longrightarrow> map erase es = ev m \<Longrightarrow> jb_stack b = S \<Longrightarrow> jb_state b = first \<or> jb_state b = rest \<Longrightarrow>
      run_events run es b = (write_json ((if jb_state b = first then [] else '','') @ txt m) b)\<lparr>jb_state := rest\<rparr>"
    and "map erase evs = concat (map ev ms)" "first \<noteq> rest" "jb_stack b = S" "jb_state b = first"
  shows "run_events run evs b =
    (write_json (str_join (map txt ms) '','') b)\<lparr>jb_state := if ms = [] then first else rest\<rparr>"
proof -
  have tail: "run_events run evs b = write_json (concat (map (\<lambda>m. '','' @ txt m) ns)) b"
    if "jb_stack b = S" "jb_state b = rest" "set ns \<subseteq> set ms" "map erase evs = concat (map ev ns)" for ns b evs
    using that
  proof (induction ns arbitrary: b evs)
    case (Cons n ns)
    then obtain es es' where es: "evs = es @ es'" "map erase es = ev n" "map erase es' = concat (map ev ns)"
      by (auto simp: map_eq_append_conv)
    have "run_events run es b = write_json ('','' @ txt n) b"
      using step [of n es b] es(2) Cons.prems assms(3) by (cases b) (simp add: write_json_def)
    then show ?case using Cons.IH [of "write_json ('','' @ txt n) b" es'] Cons.prems es by simp
  qed simp
  show ?thesis
  proof (cases ms)
    case Nil
    then show ?thesis using assms(2,5) by (cases b) (simp add: write_json_def)
  next
    case (Cons m ns)
    have join: "str_join (x # xs) sep = x @ concat (map (\<lambda>y. sep @ y) xs)" for x xs sep
      by (induction xs arbitrary: x) simp_all
    from assms(2) Cons obtain es es' where es: "evs = es @ es'" "map erase es = ev m" "map erase es' = concat (map ev ns)"
      by (auto simp: map_eq_append_conv)
    have "run_events run es b = (write_json (txt m) b)\<lparr>jb_state := rest\<rparr>"
      using step [of m es b] es(2) assms(4,5) Cons by simp
    then show ?thesis using tail [of "(write_json (txt m) b)\<lparr>jb_state := rest\<rparr>" ns es'] es assms(4) Cons
      by (simp add: join comp_def write_json_state subset_insertI del: str_join.simps)
  qed
qed

lemma json_run_simps [simp]:
  "json_run env jf g FKey d i b = readKey d b" "json_run env jf g FVal d i b = readValue (g i) d b"
  "json_run env jf g FArr d i b = readArray (g i) b" "json_run env jf g FObj d i b = readObject (g i) b"
  "json_run env jf g FEnd d i b = readEnd b"
  by (simp_all add: json_run_def)

lemma record_member:
  assumes "map erase es = member_events (k, [(FVal, v)])" "str_trim_space v \<noteq> []" "jb_state b = jsonReadObject \<or> jb_state b = jsonReadKey"
  shows "run_events (json_run env jf g) es b =
    (write_json ((if jb_state b = jsonReadObject then [] else '','') @ member_text k (str_trim_space v)) b)\<lparr>jb_state := jsonReadKey\<rparr>"
proof -
  obtain i j where "es = [(FKey, k, i), (FVal, v, j)]" using assms(1) by (auto simp: member_events_def map_eq_Cons_conv erase_simps)
  then show ?thesis using assms(2,3) readKey_member [OF assms(3), of k]
    by (simp add: readValue_def write_value_def Let_def member_text_def write_json_def)
qed

lemma container_events:
  assumes "map erase es = (f, []) # evs @ [(FEnd, [])]"
  obtains d i es' d' j where "es = (f, d, i) # es' @ [(FEnd, d', j)]" "map erase es' = evs"
  using assms by (auto simp: map_eq_Cons_conv map_eq_append_conv erase_simps eq_commute [of "(FEnd, [])"])

lemma value_events_written:
  "printable t \<Longrightarrow> at_value b \<or> at_element b \<Longrightarrow> map erase es = value_events t \<Longrightarrow>
   run_events (json_run env jf g) es b = written (render t) b"
proof (induction t arbitrary: b es)
  case (JVal v)
  then obtain i where "es = [(FVal, v, i)]" by (auto simp: map_eq_Cons_conv erase_simps)
  with JVal show ?case using write_value_written [of b] by (simp add: readValue_def Let_def)
next
  case (JArr ts)
  let ?b = "opened ''['' jsonReadArray b"
  let ?s = "if ts = [] then jsonReadArray else jsonReadArrayAppend"
  obtain d i es' d' j where es: "es = (FArr, d, i) # es' @ [(FEnd, d', j)]" "map erase es' = concat (map value_events ts)"
    by (rule container_events [OF JArr.prems(3) [unfolded value_events.simps]])
  have "run_events (json_run env jf g) es' ?b = (write_json (str_join (map render ts) '','') ?b)\<lparr>jb_state := ?s\<rparr>"
  proof (rule run_items [where S = "jb_stack b @ [jb_state b]", OF _ es(2)])
    fix t xs and c :: json_buf
    assume c: "t \<in> set ts" "map erase xs = value_events t" "jb_stack c = jb_stack b @ [jb_state b]"
      "jb_state c = jsonReadArray \<or> jb_state c = jsonReadArrayAppend"
    then have "at_element c" "printable t" using JArr.prems(1) by (auto simp: at_element_def in_array_def list_all_iff)
    with JArr.IH [OF c(1), of c xs] c(2,4)
    show "run_events (json_run env jf g) xs c =
        (write_json ((if jb_state c = jsonReadArray then [] else '','') @ render t) c)\<lparr>jb_state := jsonReadArrayAppend\<rparr>"
      by (auto simp: written_def)
  qed (simp_all add: opened_def)
  moreover have "readArray nm b = ?b" for nm using open_container_opened [OF JArr.prems(2)] by (simp add: readArray_def)
  ultimately show ?case using es readEnd_opened [OF JArr.prems(2), of ?s "str_join (map render ts) '',''" "''[''" jsonReadArray]
    by (simp add: in_array_def)
next
  case (JRec ms)
  let ?b = "opened ''{'' jsonReadObject b"
  let ?s = "if ms = [] then jsonReadObject else jsonReadKey"
  let ?txt = "\<lambda>(k, v). member_text k (str_trim_space v)"
  obtain d i es' d' j where es: "es = (FObj, d, i) # es' @ [(FEnd, d', j)]"
      "map erase es' = concat (map (\<lambda>(k, v). member_events (k, [(FVal, v)])) ms)"
    by (rule container_events [OF JRec.prems(3) [unfolded value_events.simps]])
  have "run_events (json_run env jf g) es' ?b = (write_json (str_join (map ?txt ms) '','') ?b)\<lparr>jb_state := ?s\<rparr>"
  proof (rule run_items [where S = "jb_stack b @ [jb_state b]", OF _ es(2)])
    fix m xs and c :: json_buf
    assume "m \<in> set ms" "map erase xs = (case m of (k, v) \<Rightarrow> member_events (k, [(FVal, v)]))"
      "jb_state c = jsonReadObject \<or> jb_state c = jsonReadKey"
    with JRec.prems(1) show "run_events (json_run env jf g) xs c =
        (write_json ((if jb_state c = jsonReadObject then [] else '','') @ ?txt m) c)\<lparr>jb_state := jsonReadKey\<rparr>"
      using record_member [of xs "fst m" "snd m" c env jf g] by (cases m) (auto simp: list_all_iff)
  qed (simp_all add: opened_def)
  moreover have "readObject nm b = ?b" for nm using open_container_opened [OF JRec.prems(2)] by (simp add: readObject_def)
  moreover have "render (JRec ms) = ''{'' @ str_join (map ?txt ms) '','' @ ''}''"
    by (simp add: render_members_def comp_def member_text_def case_prod_unfold)
  moreover have "\<not> in_array ?s" by (simp add: in_array_def)
  ultimately show ?case using es readEnd_opened [OF JRec.prems(2), of ?s "str_join (map ?txt ms) '',''" "''{''" jsonReadObject]
    by (simp del: render.simps)
qed

text \<open>The members of the outer object.\<close>

definition object_events :: "(bytes \<times> json_tree) list \<Rightarrow> (json_func \<times> bytes) list" where
  "object_events ms = concat (map (\<lambda>(k, t). member_events (k, value_events t)) ms)"

definition object_text :: "(bytes \<times> json_tree) list \<Rightarrow> bytes" where
  "object_text ms = ''{'' @ str_join (map (\<lambda>(k, t). member_text k (render t)) ms) '','' @ ''}''"

lemma object_events_written:
  assumes "list_all (\<lambda>(k, t). printable t) ms" "map erase es = object_events ms" "jb_state b = jsonReadObject" "jb_stack b = []"
  shows "run_events (json_run env jf g) es b =
    (write_json (str_join (map (\<lambda>(k, t). member_text k (render t)) ms) '','') b)
      \<lparr>jb_state := if ms = [] then jsonReadObject else jsonReadKey\<rparr>"
proof (rule run_items [where S = "[]", OF _ assms(2) [unfolded object_events_def]])
  fix m xs and c :: json_buf
  assume m: "m \<in> set ms" "map erase xs = (case m of (k, t) \<Rightarrow> member_events (k, value_events t))" "jb_stack c = []"
    "jb_state c = jsonReadObject \<or> jb_state c = jsonReadKey"
  obtain k t where kt: "m = (k, t)" by fastforce
  with m obtain i es' where xs: "xs = (FKey, k, i) # es'" "map erase es' = value_events t"
    by (auto simp: member_events_def map_eq_Cons_conv erase_simps)
  have p: "printable t" using assms(1) m(1) kt by (auto simp: list_all_iff)
  have "at_value (readKey k c)" using m(3,4) readKey_member [OF m(4), of k] by (simp add: at_value_def)
  then have "run_events (json_run env jf g) es' (readKey k c) = written (render t) (readKey k c)"
    using value_events_written [OF p _ xs(2)] by blast
  then show "run_events (json_run env jf g) xs c =
      (write_json ((if jb_state c = jsonReadObject then [] else '','') @ (case m of (k, t) \<Rightarrow> member_text k (render t))) c)
        \<lparr>jb_state := jsonReadKey\<rparr>"
    using readKey_member [OF m(4), of k] xs(1) kt by (simp add: written_def member_text_def write_json_def)
qed (use assms in simp_all)

subsection \<open>An example\<close>

text \<open>Directives for texts like \<open>a=1;b={c=2;}\<close>: one state, four tokens.\<close>

definition pair_directives :: "json_func directive list" where
  "pair_directives = map (\<lambda>(t, f). \<lparr>d_State = ''s'', d_Token = t, d_NextState = ''s'', d_Flags = 0, d_Callback = Some f\<rparr>)
     [(''{'', FObj), (''}'', FEnd), (''='', FKey), ('';'', FVal)]"
definition pair_trie :: "json_func transition trie" where
  "pair_trie = TrieNode [] (map (\<lambda>(c, f). TrieNode c [] 1 1 (Some \<lparr>nextState = 0, flags = 0, callback = Some f\<rparr>))
     [('';'', FVal), (''='', FKey), (''}'', FEnd), (''{'', FObj)]) 1 0 None"

lemma pair_directives_parser: "AddDirectives NewTransitionParser pair_directives = Inr \<lparr>lookup = [''s''], tokens = [Some pair_trie], stack = []\<rparr>"
  by code_simp

lemma pair_match:
  "MatchStart pair_trie [] = None"
  "MatchStart pair_trie (c # s) = map_option (\<lambda>f. TrieNode [c] [] 1 1 (Some \<lparr>nextState = 0, flags = 0, callback = Some f\<rparr>))
     (map_of [(CHR '';'', FVal), (CHR ''='', FKey), (CHR ''}'', FEnd), (CHR ''{'', FObj)] c)"
  by (simp_all add: pair_trie_def)

lemma pair_loop_end: "i \<ge> length data \<Longrightarrow> parse_loop run [Some pair_trie] data i rs 0 (Some pair_trie) stk s = Some (Inr (rs, 0, stk, s))"
  by (simp add: parse_loop.simps)

lemma pair_loop_step: "i < length data \<Longrightarrow> rs \<le> i \<Longrightarrow> parse_loop run [Some pair_trie] data i rs 0 (Some pair_trie) stk s =
  (case map_of [(CHR '';'', FVal), (CHR ''='', FKey), (CHR ''}'', FEnd), (CHR ''{'', FObj)] (data ! i) of
     None \<Rightarrow> parse_loop run [Some pair_trie] data (Suc i) rs 0 (Some pair_trie) stk s
   | Some f \<Rightarrow> parse_loop run [Some pair_trie] data (Suc i) (Suc i) 0 (Some pair_trie) stk (run f (subslice rs i data) 0 s))"
  by (subst parse_loop.simps)
     (auto simp: pair_match Cons_nth_drop_Suc [symmetric] parsed_value_def has_flag_def next_state_def ParserStateStop_def Let_def split: option.splits if_splits)

definition pair_parser :: "json_func transition_parser" where
  "pair_parser = \<lparr>lookup = [''s''], tokens = [Some pair_trie], stack = []\<rparr>"

definition pair_formatter :: json_formatter where
  "pair_formatter = \<lparr>jf_parser = pair_parser, jf_buf = \<lparr>jb_message = [], jb_state = jsonReadObject, jb_stack = []\<rparr>,
     jf_initState = ''s'', jf_timeRead = [], jf_timeWrite = [], jf_unix = False\<rparr>"

lemmas pair_eval = Parse_def GetStateID_def pair_parser_def ParserStateStop_def pair_loop_step pair_loop_end subslice_def

lemma pair_complete: "complete_directives pair_directives"
  by (simp add: complete_directives_def pair_directives_def has_flag_def)

lemma pair_ready: "json_ready pair_directives pair_formatter"
proof -
  obtain p where "AddDirectives NewTransitionParser pair_directives = Inr p" "parser_ready pair_directives p"
    by (rule AddDirectives_ready [OF pair_complete]) (simp add: pair_directives_def)
  moreover have "''s'' \<in> set (map d_State pair_directives)" by (simp add: pair_directives_def)
  ultimately show ?thesis using pair_complete pair_directives_parser
    by (simp add: json_ready_def pair_formatter_def pair_parser_def)
qed

subsection \<open>Properties\<close>

text \<open>C27: a JSON formatter that was configured with complete directives formats any sequence of messages: no
  panic, no loop without end, one output per message in the same order, each for the message's stream
  and each an object in braces, whatever the messages before it left behind.\<close>

theorem json_formats_everything:
  assumes "JSON_Configure st = Some (Inr (Inr jf, st'))"
    "mm_StringArray (Settings (cs_conf st)) ''JSONDirectives'' = Inr dirs" "dirs \<noteq> []"
    "complete_directives (parsed_directives dirs)" "2 * length dirs < 2 ^ 32 - 1"
  shows "\<exists>outs jf'. json_format_all env jf ms = Some (Inr (outs, jf')) \<and>
    list_all2 (\<lambda>m (out, s). s = m_StreamID m \<and> (\<exists>t. out = ''{'' @ t @ ''}'')) ms outs"
  using json_format_all_ready [OF conjunct1 [OF JSON_Configure_ready [OF assms]], of env ms] by blast

definition pair_strings :: "bytes list" where
  "pair_strings = [''s:{:s::obj'', ''s:}:s::end'', ''s:=:s::key'', ''s:;:s::val'']"

lemma pair_strings_parsed: "parsed_directives pair_strings = pair_directives"
  by code_simp

theorem json_formats_everything_witness:
  "\<exists>jf st' outs jf'. JSON_Configure \<lparr>cs_conf = (NewPluginConfig ''format.JSON'')
       \<lparr>Settings := [(''JSONDirectives'', GArray (map GString pair_strings))]\<rparr>, cs_plugins = Map.empty, cs_names = Map.empty\<rparr>
       = Some (Inr (Inr jf, st')) \<and>
     json_format_all \<lparr>je_marshal = json_quote, je_parse = (\<lambda>l v. None), je_format = (\<lambda>l d. [])\<rparr> jf
       [NewMessage None ''a=1;'' 0 0, NewMessage None ''}{=x'' 0 0] = Some (Inr (outs, jf')) \<and> length outs = 2"
proof -
  let ?st = "\<lparr>cs_conf = (NewPluginConfig ''format.JSON'')\<lparr>Settings := [(''JSONDirectives'', GArray (map GString pair_strings))]\<rparr>,
    cs_plugins = Map.empty, cs_names = Map.empty\<rparr>"
  have dirs: "mm_StringArray (Settings (cs_conf ?st)) ''JSONDirectives'' = Inr pair_strings"
    by (simp add: mm_StringArray_def mm_lookup_def castToStringArray_def pair_strings_def)
  have rd: "read_directives pair_strings [] = Some (pair_directives, ''s'')" by code_simp
  have ne: "pair_strings \<noteq> []" "''s'' \<in> set (map d_State pair_directives)" by (simp_all add: pair_strings_def pair_directives_def)
  obtain jf st' where c: "JSON_Configure ?st = Some (Inr (Inr jf, st'))"
    using dirs ne
    by (simp add: JSON_Configure_def json_directives_def cfg_bind_def cfg_get_def cfg_return_def getter_defs get_setting_def HasValue_def
        registerKey_def NewPluginConfig_def or_exit_def Let_def rd pair_directives_parser)
  have comp: "complete_directives (parsed_directives pair_strings)" using pair_complete by (simp add: pair_strings_parsed)
  have sz: "2 * length pair_strings < 2 ^ 32 - 1" by (simp add: pair_strings_def)
  let ?ms = "[NewMessage None ''a=1;'' 0 0, NewMessage None ''}{=x'' 0 0]"
  obtain outs jf' where "json_format_all \<lparr>je_marshal = json_quote, je_parse = (\<lambda>l v. None), je_format = (\<lambda>l d. [])\<rparr> jf ?ms
      = Some (Inr (outs, jf'))" "list_all2 (\<lambda>m (out, s). s = m_StreamID m \<and> (\<exists>t. out = ''{'' @ t @ ''}'')) ?ms outs"
    using json_formats_everything [OF c dirs ne(1) comp sz, of _ ?ms] by blast
  with c show ?thesis using list_all2_lengthD by fastforce
qed



text \<open>What is rendered right above has a limit: after a container inside a member of a nested object the
  state says that a value is still due, so the next member is preceded by \<open>null\<close> and the output is
  not JSON.\<close>

theorem json_nested_sibling_null:
  "run_events (json_run env jf g)
     [(FKey, a, i1), (FObj, d, i2), (FKey, b, i3), (FObj, d, i4), (FEnd, d, i5), (FKey, c, i6), (FVal, ''1'', i7)]
     \<lparr>jb_message = ''{'', jb_state = jsonReadObject, jb_stack = []\<rparr> =
   \<lparr>jb_message = ''{'' @ member_text a (''{'' @ member_text b ''{}null,'' @ member_text c ''1''),
    jb_state = jsonReadKey, jb_stack = [jsonReadValue]\<rparr>"
  by (simp add: readKey_def writeKey_def readObject_def open_container_def readEnd_def readValue_def write_value_def in_array_def
      less_json_state_def json_state_num_def member_text_def write_json_def str_trim_space_def str_trim_def ascii_space_def Let_def)

text \<open>An empty value behind a key leaves the key without a value; the next key does not add one.\<close>

lemma json_empty_value:
  "run_events (json_run env jf g) [(FKey, a, i1), (FVal, [], i2), (FKey, b, i3)]
     \<lparr>jb_message = ''{'', jb_state = jsonReadObject, jb_stack = []\<rparr> =
   \<lparr>jb_message = ''{'' @ member_text a '','' @ member_text b [], jb_state = jsonReadValue, jb_stack = []\<rparr>"
  by (simp add: readKey_def writeKey_def readValue_def skip_value_def in_array_def less_json_state_def json_state_num_def
      member_text_def write_json_def str_trim_space_def str_trim_def Let_def)

text \<open>The stack of open containers survives a message: the output for a message that is a complete object on
  its own depends on the message before it, which left an object open.\<close>

theorem json_stack_leaks:
  "\<exists>jf1 jf2 jf3.
     json_Format env pair_formatter (NewMessage None ''c=2;}'' 0 0) =
       Some (Inr ((''{'' @ member_text ''c'' ''2}'', WildcardStreamID), jf1)) \<and>
     json_Format env pair_formatter (NewMessage None ''a={b=1;'' 0 0) =
       Some (Inr ((''{'' @ member_text ''a'' (''{'' @ member_text ''b'' ''1}''), WildcardStreamID), jf2)) \<and>
     json_Format env jf2 (NewMessage None ''c=2;}'' 0 0) =
       Some (Inr ((''{'' @ member_text ''c'' ''2}}'', WildcardStreamID), jf3))"
proof -
  note eval = json_Format_def pair_formatter_def NewMessage_def pair_eval Let_def json_run_simps readKey_def writeKey_def
    readValue_def write_value_def readObject_def open_container_def readEnd_def in_array_def less_json_state_def
    json_state_num_def write_json_def str_trim_space_def str_trim_def ascii_space_def member_text_def
  have "\<exists>jf1. json_Format env pair_formatter (NewMessage None ''c=2;}'' 0 0) =
      Some (Inr ((''{'' @ member_text ''c'' ''2}'', WildcardStreamID), jf1))" by (simp add: eval)
  moreover have "json_Format env pair_formatter (NewMessage None ''a={b=1;'' 0 0) =
      Some (Inr ((''{'' @ member_text ''a'' (''{'' @ member_text ''b'' ''1}''), WildcardStreamID),
        pair_formatter\<lparr>jf_buf := \<lparr>jb_message = ''{'' @ member_text ''a'' (''{'' @ member_text ''b'' ''1'') @ [CHR ''}'', CHR 0x0A],
          jb_state = jsonReadKey, jb_stack = [jsonReadValue]\<rparr>\<rparr>))" by (simp add: eval)
  moreover have "\<exists>jf3. json_Format env (pair_formatter\<lparr>jf_buf := \<lparr>jb_message = m, jb_state = jsonReadKey, jb_stack = [jsonReadValue]\<rparr>\<rparr>)
      (NewMessage None ''c=2;}'' 0 0) = Some (Inr ((''{'' @ member_text ''c'' ''2}}'', WildcardStreamID), jf3))" for m
    by (simp add: eval)
  ultimately show ?thesis by blast
qed

end
