(* ===== verification/Filters.thy ===== *)
theory Filters
  imports Plugins "HOL-Library.Signed_Division"
begin

text \<open>
  The filter plugins of \<open>filter/\<close>. A filter is a tree (\<open>Any\<close> owns other filters); the sampling and
  the rate limiting filter also have a state, so \<open>Accepts\<close> returns the filter as it is afterwards.
  A rejected message may be handed to another stream: these \<open>Route\<close> calls are listed in the
  outcome. Regular expressions, the JSON decoder and the printing of floats are the parameter
  \<open>filter_env\<close>. The counters are 64 bit signed integers, the clock is read at three places.
\<close>

record filter_env =
  fe_regexp_ok :: "bytes \<Rightarrow> bool"
  fe_regexp :: "bytes \<Rightarrow> bytes \<Rightarrow> bool"
  fe_json :: "bytes \<Rightarrow> marshal_map option"
  fe_float :: "u64 \<Rightarrow> bytes"

record rate_state =
  r_lastReset :: int
  r_lastLimit :: int
  r_count :: int
  r_filtered :: int
  r_ignore :: bool

record rate_filter =
  rf_rateLimit :: int
  rf_state :: "u64 \<rightharpoonup> rate_state"
  rf_dropStreamID :: u64

record sample_filter =
  sf_rate :: int
  sf_group :: int
  sf_count :: int
  sf_dropStreamID :: u64
  sf_ignore :: "u64 \<rightharpoonup> bool"

datatype filter =
    FilterAll
  | FilterNone
  | FilterAny "filter list"
  | FilterJSON "(bytes \<times> bytes) list" "(bytes \<times> bytes) list"
  | FilterRegExp "bytes option" "bytes option"
  | FilterStream "u64 list" "u64 list"
  | FilterRate rate_filter
  | FilterSample sample_filter

text \<open>What a call reads of the outside: stream names, and the three readings of the clock.\<close>

record filter_call =
  fc_names :: stream_names
  fc_create :: int
  fc_check :: int
  fc_reset :: int

definition second :: int where "second = 1000000000"

subsection \<open>Stream, RegExp, JSON\<close>

definition FilterStream_Accepts :: "u64 list \<Rightarrow> u64 list \<Rightarrow> u64 \<Rightarrow> bool" where
  "FilterStream_Accepts blacklist whitelist streamID =
     (if streamID \<in> set blacklist then False
      else if streamID \<in> set whitelist then True
      else length whitelist = 0)"

definition FilterRegExp_Accepts :: "filter_env \<Rightarrow> bytes option \<Rightarrow> bytes option \<Rightarrow> bytes \<Rightarrow> bool" where
  "FilterRegExp_Accepts fe expr exprNot data =
     (if (case exprNot of Some e \<Rightarrow> fe_regexp fe e data | None \<Rightarrow> False) then False
      else case expr of Some e \<Rightarrow> fe_regexp fe e data | None \<Rightarrow> True)"

definition getValue :: "filter_env \<Rightarrow> bytes \<Rightarrow> marshal_map \<Rightarrow> bytes option run" where
  "getValue fe key vals =
     run_bind (Path vals key) (\<lambda>v. Inr (case v of
         Some (GString s) \<Rightarrow> Some s
       | Some (GBool b) \<Rightarrow> Some (if b then ''true'' else ''false'')
       | Some (GFloat64 f) \<Rightarrow> Some (fe_float fe f)
       | _ \<Rightarrow> None))"

text \<open>
  One of the two loops over a map of expressions: does an existing value decide the result, that is,
  does its match have the outcome \<open>decides\<close>?
\<close>

fun json_check :: "filter_env \<Rightarrow> bool \<Rightarrow> (bytes \<times> bytes) list \<Rightarrow> marshal_map \<Rightarrow> bool run" where
  "json_check fe decides [] vals = Inr False"
| "json_check fe decides ((key, e) # es) vals =
     run_bind (getValue fe key vals) (\<lambda>v.
       case v of
         Some s \<Rightarrow> if fe_regexp fe e s = decides then Inr True else json_check fe decides es vals
       | None \<Rightarrow> json_check fe decides es vals)"

definition FilterJSON_Accepts ::
  "filter_env \<Rightarrow> (bytes \<times> bytes) list \<Rightarrow> (bytes \<times> bytes) list \<Rightarrow> bytes \<Rightarrow> bool run" where
  "FilterJSON_Accepts fe rejectValues acceptValues data =
     (case fe_json fe data of
        None \<Rightarrow> Inr False
      | Some vals \<Rightarrow>
          run_bind (json_check fe True rejectValues vals) (\<lambda>rejected.
            if rejected then Inr False
            else run_bind (json_check fe False acceptValues vals) (\<lambda>missed. Inr (\<not> missed))))"

subsection \<open>Sample\<close>

definition drop_route :: "u64 \<Rightarrow> message \<Rightarrow> (u64 \<times> message) list" where
  "drop_route dropStreamID msg = (if dropStreamID \<noteq> InvalidStreamID then [(dropStreamID, msg)] else [])"

definition FilterSample_Accepts ::
  "sample_filter \<Rightarrow> message \<Rightarrow> (bool \<times> (u64 \<times> message) list \<times> sample_filter) run" where
  "FilterSample_Accepts f msg =
     (if sf_ignore f (m_StreamID msg) = Some True then Inr (True, [], f)
      else
        let count = int64 (sf_count f + 1);
            f = f\<lparr>sf_count := count\<rparr>
        in run_bind
             (if count > sf_group f then
                (if sf_group f = 0 then Inl DivideByZero
                 else if count smod sf_group f = 1 then
                   (let count = int64 (sf_count f + - sf_group f) in Inr (count, f\<lparr>sf_count := count\<rparr>))
                 else Inr ((count - 1) smod sf_group f + 1, f))
              else Inr (count, f))
             (\<lambda>(count, f).
                if count > sf_rate f then Inr (False, drop_route (sf_dropStreamID f) msg, f)
                else Inr (True, [], f)))"

subsection \<open>Rate\<close>

definition metricLimit :: bytes where "metricLimit = ''RateLimited-''"
definition metricLimitAgo :: bytes where "metricLimitAgo = ''RateLimitedSecAgo-''"

definition new_rate_state :: "bool \<Rightarrow> int \<Rightarrow> rate_state" where
  "new_rate_state ignore lastReset =
     \<lparr>r_lastReset = lastReset, r_lastLimit = 0, r_count = 0, r_filtered = 0, r_ignore = ignore\<rparr>"

text \<open>The first part of \<open>Accepts\<close>: look the stream up, add it when it is unknown.\<close>

definition rate_lookup ::
  "filter_call \<Rightarrow> u64 \<Rightarrow> rate_filter \<Rightarrow> metrics \<Rightarrow> rate_state \<times> rate_filter \<times> metrics" where
  "rate_lookup call streamID f met =
     (case rf_state f streamID of
        Some state \<Rightarrow> (state, f, met)
      | None \<Rightarrow>
          let state = new_rate_state False (fc_create call);
              streamName = GetStreamName (fc_names call) streamID
          in (state, f\<lparr>rf_state := (rf_state f)(streamID \<mapsto> state)\<rparr>,
              metric_New (metricLimitAgo @ streamName) (metric_New (metricLimit @ streamName) met)))"

definition rate_reset :: "filter_call \<Rightarrow> int \<Rightarrow> rate_state \<Rightarrow> rate_state" where
  "rate_reset call rateLimit state =
     (if fc_check call - r_lastReset state > second then
        let numFiltered = r_count state;
            state = state\<lparr>r_lastReset := fc_reset call, r_count := 0\<rparr>
        in if numFiltered > rateLimit
           then state\<lparr>r_filtered := int64 (r_filtered state + int64 (numFiltered - rateLimit))\<rparr>
           else state
      else state)"

definition FilterRate_Accepts ::
  "filter_call \<Rightarrow> rate_filter \<Rightarrow> message \<Rightarrow> metrics \<Rightarrow> (bool \<times> (u64 \<times> message) list \<times> rate_filter) \<times> metrics" where
  "FilterRate_Accepts call f msg met =
     (let (state, f, met) = rate_lookup call (m_StreamID msg) f met
      in if r_ignore state then ((True, [], f), met)
         else
           let state = rate_reset call (rf_rateLimit f) state;
               count = int64 (r_count state + 1);
               f = f\<lparr>rf_state := (rf_state f)(m_StreamID msg \<mapsto> state\<lparr>r_count := count\<rparr>)\<rparr>
           in if count > rf_rateLimit f then ((False, drop_route (rf_dropStreamID f) msg, f), met)
              else ((True, [], f), met))"

text \<open>
  \<open>updateMetrics\<close>, which a timer calls every three seconds: \<open>ids\<close> is the order in which the map is
  iterated, \<open>ago\<close> the bits of the float for the time since the last limit.
\<close>

fun updateMetrics ::
  "stream_names \<Rightarrow> (int \<Rightarrow> 64 word) \<Rightarrow> int \<Rightarrow> u64 list \<Rightarrow> rate_filter \<Rightarrow> metrics \<Rightarrow> (rate_filter \<times> metrics) run" where
  "updateMetrics names ago now [] f met = Inr (f, met)"
| "updateMetrics names ago now (streamID # ids) f met =
     (case rf_state f streamID of
        None \<Rightarrow> updateMetrics names ago now ids f met
      | Some state \<Rightarrow>
          if r_ignore state then updateMetrics names ago now ids f met
          else
            run_bind (metric_Add (metricLimit @ GetStreamName names streamID) (of_int (r_filtered state)) met) (\<lambda>met.
            run_bind
              (metric_Set (metricLimitAgo @ GetStreamName names streamID)
                 (ago (now - (if r_filtered state > 0 then now else r_lastLimit state))) met) (\<lambda>met.
              updateMetrics names ago now ids
                (f\<lparr>rf_state := (rf_state f)(streamID \<mapsto>
                    state\<lparr>r_filtered := 0, r_lastLimit := (if r_filtered state > 0 then now else r_lastLimit state)\<rparr>)\<rparr>)
                met)))"

subsection \<open>Accepts\<close>

type_synonym accepted = "(bool \<times> (u64 \<times> message) list \<times> filter) \<times> metrics"

fun Accepts :: "filter_env \<Rightarrow> filter_call \<Rightarrow> filter \<Rightarrow> message \<Rightarrow> metrics \<Rightarrow> accepted run"
  and accepts_any :: "filter_env \<Rightarrow> filter_call \<Rightarrow> filter list \<Rightarrow> message \<Rightarrow> metrics \<Rightarrow>
    ((bool \<times> (u64 \<times> message) list \<times> filter list) \<times> metrics) run" where
  "Accepts fe call FilterAll msg met = Inr ((True, [], FilterAll), met)"
| "Accepts fe call FilterNone msg met = Inr ((False, [], FilterNone), met)"
| "Accepts fe call (FilterAny fs) msg met =
     run_bind (accepts_any fe call fs msg met) (\<lambda>((ok, routes, fs), met). Inr ((ok, routes, FilterAny fs), met))"
| "Accepts fe call (FilterJSON rej acc) msg met =
     run_bind (FilterJSON_Accepts fe rej acc (m_Data msg)) (\<lambda>ok. Inr ((ok, [], FilterJSON rej acc), met))"
| "Accepts fe call (FilterRegExp e ne) msg met =
     Inr ((FilterRegExp_Accepts fe e ne (m_Data msg), [], FilterRegExp e ne), met)"
| "Accepts fe call (FilterStream bl wl) msg met =
     Inr ((FilterStream_Accepts bl wl (m_StreamID msg), [], FilterStream bl wl), met)"
| "Accepts fe call (FilterRate f) msg met =
     (case FilterRate_Accepts call f msg met of ((ok, routes, f), met) \<Rightarrow> Inr ((ok, routes, FilterRate f), met))"
| "Accepts fe call (FilterSample f) msg met =
     run_bind (FilterSample_Accepts f msg) (\<lambda>(ok, routes, f). Inr ((ok, routes, FilterSample f), met))"
| "accepts_any fe call [] msg met = Inr ((False, [], []), met)"
| "accepts_any fe call (f # fs) msg met =
     run_bind (Accepts fe call f msg met) (\<lambda>((ok, routes, f), met).
       if ok then Inr ((True, routes, f # fs), met)
       else run_bind (accepts_any fe call fs msg met) (\<lambda>((ok, routes', fs), met).
              Inr ((ok, routes @ routes', f # fs), met)))"

text \<open>A sequence of messages, each with its clock readings.\<close>

fun accepts_all :: "filter_env \<Rightarrow> (filter_call \<times> message) list \<Rightarrow> filter \<Rightarrow> metrics \<Rightarrow>
    (bool list \<times> (u64 \<times> message) list \<times> filter \<times> metrics) run" where
  "accepts_all fe [] f met = Inr ([], [], f, met)"
| "accepts_all fe ((call, msg) # cs) f met =
     run_bind (Accepts fe call f msg met) (\<lambda>((ok, routes, f), met).
       run_bind (accepts_all fe cs f met) (\<lambda>(oks, routes', f, met). Inr (ok # oks, routes @ routes', f, met)))"

subsection \<open>Configure\<close>

text \<open>\<open>new\<close> is \<open>NewPluginWithType\<close> on the same configuration, restricted to filters.\<close>

fun new_filters :: "(bytes \<Rightarrow> filter cfg) \<Rightarrow> bytes list \<Rightarrow> filter list cfg" where
  "new_filters new [] = cfg_return []"
| "new_filters new (nm # nms) =
     cfg_bind (new nm) (\<lambda>f. cfg_bind (new_filters new nms) (\<lambda>fs. cfg_return (f # fs)))"

definition FilterAny_Configure :: "(bytes \<Rightarrow> filter cfg) \<Rightarrow> filter cfg" where
  "FilterAny_Configure new =
     cfg_bind (cfg_get (GetStringArray ''AnyFilter'' [])) (\<lambda>names.
     cfg_bind (new_filters new names) (\<lambda>fs. cfg_return (FilterAny fs)))"

fun compile_all :: "filter_env \<Rightarrow> (bytes \<times> bytes) list \<Rightarrow> (bytes \<times> bytes) list cfg" where
  "compile_all fe [] = cfg_return []"
| "compile_all fe ((key, e) # es) =
     (if fe_regexp_ok fe e then cfg_bind (compile_all fe es) (\<lambda>r. cfg_return ((key, e) # r))
      else cfg_fail (ConfError ''regexp''))"

definition FilterJSON_Configure :: "filter_env \<Rightarrow> filter cfg" where
  "FilterJSON_Configure fe =
     cfg_bind (cfg_get (GetStringMap ''FilterReject'' [])) (\<lambda>rejectValues.
     cfg_bind (cfg_get (GetStringMap ''FilterAccept'' [])) (\<lambda>acceptValues.
     cfg_bind (compile_all fe rejectValues) (\<lambda>rej.
     cfg_bind (compile_all fe acceptValues) (\<lambda>acc. cfg_return (FilterJSON rej acc)))))"

definition compile_opt :: "filter_env \<Rightarrow> bytes \<Rightarrow> bytes option cfg" where
  "compile_opt fe e =
     (if e \<noteq> [] then (if fe_regexp_ok fe e then cfg_return (Some e) else cfg_fail (ConfError ''regexp''))
      else cfg_return None)"

definition FilterRegExp_Configure :: "filter_env \<Rightarrow> filter cfg" where
  "FilterRegExp_Configure fe =
     cfg_bind (cfg_get (GetString ''FilterExpression'' [])) (\<lambda>e.
     cfg_bind (compile_opt fe e) (\<lambda>expr.
     cfg_bind (cfg_get (GetString ''FilterExpressionNot'' [])) (\<lambda>ne.
     cfg_bind (compile_opt fe ne) (\<lambda>exprNot. cfg_return (FilterRegExp expr exprNot)))))"

definition FilterStream_Configure :: "filter cfg" where
  "FilterStream_Configure =
     cfg_bind (cfg_names (GetStreamArray ''FilterBlockStreams'' [])) (\<lambda>bl.
     cfg_bind (cfg_names (GetStreamArray ''FilterOnlyStreams'' [])) (\<lambda>wl. cfg_return (FilterStream bl wl)))"

definition drop_stream :: "bytes \<Rightarrow> u64 cfg" where
  "drop_stream dropToStream =
     (if dropToStream \<noteq> [] then cfg_stream_id dropToStream else cfg_return InvalidStreamID)"

text \<open>The timer for \<open>updateMetrics\<close> that \<open>Configure\<close> starts is outside the model.\<close>

definition FilterRate_Configure :: "int \<Rightarrow> filter cfg" where
  "FilterRate_Configure now =
     cfg_bind (cfg_get (GetInt ''RateLimitPerSec'' 100)) (\<lambda>rateLimit.
     cfg_bind (cfg_get (GetString ''RateLimitDropToStream'' [])) (\<lambda>dropToStream.
     cfg_bind (drop_stream dropToStream) (\<lambda>dropStreamID.
     cfg_bind (cfg_names (GetStreamArray ''RateLimitIgnore'' [])) (\<lambda>ignored.
     cfg_return (FilterRate \<lparr>rf_rateLimit = rateLimit,
       rf_state = (\<lambda>s. if s \<in> set ignored then Some (new_rate_state True (now - second)) else None),
       rf_dropStreamID = dropStreamID\<rparr>)))))"

definition FilterSample_Configure :: "filter cfg" where
  "FilterSample_Configure =
     cfg_bind (cfg_get (GetInt ''SampleRatePerGroup'' 1)) (\<lambda>rate.
     cfg_bind (cfg_get (GetInt ''SampleGroupSize'' 1)) (\<lambda>group.
     cfg_bind (cfg_get (GetString ''SampleDropToStream'' [])) (\<lambda>dropToStream.
     cfg_bind (drop_stream dropToStream) (\<lambda>dropStreamID.
     cfg_bind (cfg_names (GetStreamArray ''SampleIgnore'' [])) (\<lambda>ignored.
     cfg_return (FilterSample \<lparr>sf_rate = rate, sf_group = group, sf_count = 0, sf_dropStreamID = dropStreamID,
       sf_ignore = (\<lambda>s. if s \<in> set ignored then Some True else None)\<rparr>))))))"

definition filter_types :: "filter_env \<Rightarrow> int \<Rightarrow> (bytes \<times> ((bytes \<Rightarrow> filter cfg) \<Rightarrow> filter cfg)) list" where
  "filter_types fe now =
     [(''filter.All'', \<lambda>new. cfg_return FilterAll), (''filter.None'', \<lambda>new. cfg_return FilterNone),
      (''filter.Any'', FilterAny_Configure), (''filter.JSON'', \<lambda>new. FilterJSON_Configure fe),
      (''filter.RegExp'', \<lambda>new. FilterRegExp_Configure fe), (''filter.Stream'', \<lambda>new. FilterStream_Configure),
      (''filter.Rate'', \<lambda>new. FilterRate_Configure now), (''filter.Sample'', \<lambda>new. FilterSample_Configure)]"

fun NewFilter :: "filter_env \<Rightarrow> int \<Rightarrow> nat \<Rightarrow> bytes \<Rightarrow> filter cfg" where
  "NewFilter fe now 0 typename = (\<lambda>st. None)"
| "NewFilter fe now (Suc n) typename =
     NewPluginWithType (\<lambda>t. map_option (\<lambda>c. c (NewFilter fe now n)) (map_of (filter_types fe now) t)) typename"

subsection \<open>Lemmas\<close>

lemma smod_pos: "0 \<le> a \<Longrightarrow> 0 < g \<Longrightarrow> a smod g = a mod g" for a g :: int
  by (cases "a = 0") (simp_all add: signed_modulo_int_def)

lemma smod_one [simp]: "a smod 1 = 0" for a :: int
  by (simp add: signed_modulo_int_def)

text \<open>The counter after \<open>k\<close> messages.\<close>

definition sample_at :: "int \<Rightarrow> nat \<Rightarrow> int" where
  "sample_at g k = (if k = 0 then 0 else if g = 1 then int k else int (k - 1) mod g + 1)"

lemma sample_step:
  assumes g: "0 < g" "g < 2 ^ 63 - 1" and k: "k < 2 ^ 63 - 1" and f: "sf_group f = g" "sf_count f = sample_at g k"
    and ig: "sf_ignore f (m_StreamID msg) \<noteq> Some True"
  shows "\<exists>routes. FilterSample_Accepts f msg = Inr (int k mod g < sf_rate f, routes, f\<lparr>sf_count := sample_at g (Suc k)\<rparr>)"
proof (cases "g = 1")
  case True
  have w: "int64 (int k + 1) = int k + 1" using k by (intro int64_id) auto
  show ?thesis using True f ig w by (auto simp: FilterSample_Accepts_def sample_at_def Let_def)
next
  case False
  then have g2: "2 \<le> g" using g by simp
  show ?thesis
  proof (cases "k = 0")
    case True
    then show ?thesis using g2 f ig by (auto simp: FilterSample_Accepts_def sample_at_def Let_def)
  next
    case k0: False
    obtain m where m: "m = int (k - 1) mod g" "0 \<le> m" "m < g" using g by simp
    have c: "sf_count f = m + 1" using f k0 False m by (simp add: sample_at_def)
    have w: "int64 (m + 1 + 1) = m + 2" using m(2,3) g by (subst int64_id) auto
    have n: "sample_at g (Suc k) = int k mod g + 1" using False by (simp add: sample_at_def)
    have km: "int k mod g = (m + 1) mod g" using k0 m(1) by (cases k) (simp_all add: mod_simps add.commute)
    note acc = FilterSample_Accepts_def Let_def f(1) ig c w n
    show ?thesis
    proof (cases "m + 1 = g")
      case True
      have s: "(g + 1) smod g = 1" using g2 by (subst smod_pos) (auto simp: mod_add_self1)
      have m2: "m = g - 1" using True by simp
      have i: "int64 (g + 1 + - g) = 1" by simp
      have e: "int k mod g = 0" using km True by simp
      have w2: "int64 (g - 1 + 1 + 1) = g + 1" using w m2 by simp
      have "FilterSample_Accepts f msg = Inr (int k mod g < sf_rate f,
          if 1 > sf_rate f then drop_route (sf_dropStreamID f) msg else [], f\<lparr>sf_count := int k mod g + 1\<rparr>)"
        unfolding acc m2 w2 using s i e g2 f(1) ig by auto
      then show ?thesis unfolding n by blast
    next
      case lt: False
      then have e: "int k mod g = m + 1" using km m by simp
      have "\<not> m + 2 > g" using lt m by simp
      then show ?thesis unfolding acc e using f(1) ig by (auto simp: acc e add.commute)
    qed
  qed
qed

lemma sample_all:
  assumes "0 < g" "g < 2 ^ 63 - 1" "k + length cs < 2 ^ 63"
    "sf_group f = g" "sf_count f = sample_at g k" "\<forall>(call, msg)\<in>set cs. sf_ignore f (m_StreamID msg) \<noteq> Some True"
  shows "\<exists>routes f'. accepts_all fe cs (FilterSample f) met =
    Inr (map (\<lambda>i. int i mod g < sf_rate f) [k..<k + length cs], routes, f', met)"
  using assms
proof (induction cs arbitrary: k f)
  case (Cons x cs)
  obtain call msg where x: "x = (call, msg)" by fastforce
  have ig: "sf_ignore f (m_StreamID msg) \<noteq> Some True" using Cons.prems(6) x by auto
  obtain routes where r: "FilterSample_Accepts f msg = Inr (int k mod g < sf_rate f, routes, f\<lparr>sf_count := sample_at g (Suc k)\<rparr>)"
    using sample_step [OF Cons.prems(1,2) _ Cons.prems(4,5) ig] Cons.prems(3) by auto
  obtain routes' f' where "accepts_all fe cs (FilterSample (f\<lparr>sf_count := sample_at g (Suc k)\<rparr>)) met =
      Inr (map (\<lambda>i. int i mod g < sf_rate f) [Suc k..<Suc k + length cs], routes', f', met)"
    using Cons.IH [of "Suc k" "f\<lparr>sf_count := sample_at g (Suc k)\<rparr>"] Cons.prems by auto
  moreover have "[k..<k + length (x # cs)] = k # [Suc k..<Suc k + length cs]" by (simp add: upt_rec)
  ultimately show ?case using x r by simp
qed simp

text \<open>
  The rate limiter on one stream. The calls on a stream are cut into windows: a call that finds more
  than a second passed since the last reset begins the next one. \<open>cut_windows t n cs\<close> are the
  sizes of the windows, \<open>n\<close> calls being counted since the reset at \<open>t\<close>; a stream that is
  not known yet gets its first reset when it is added.
\<close>

fun cut_windows :: "int \<Rightarrow> nat \<Rightarrow> filter_call list \<Rightarrow> nat list" where
  "cut_windows t n [] = [n]"
| "cut_windows t n (c # cs) =
     (if fc_check c - t > second then n # cut_windows (fc_reset c) 1 cs else cut_windows t (Suc n) cs)"

definition rate_windows :: "filter_call list \<Rightarrow> nat list" where
  "rate_windows cs = cut_windows (fc_create (hd cs)) 0 cs"

text \<open>In each window the first \<open>limit\<close> calls are accepted; what is beyond it in the windows that
  are over has been added to the number of filtered messages.\<close>

definition window_answers :: "int \<Rightarrow> nat \<Rightarrow> bool list" where
  "window_answers limit n = map (\<lambda>k. int k < limit) [0..<n]"

definition over_limit :: "int \<Rightarrow> nat list \<Rightarrow> int" where
  "over_limit limit ns = (\<Sum>n\<leftarrow>butlast ns. max 0 (int n - limit))"

fun rate_answers :: "int \<Rightarrow> int \<Rightarrow> nat \<Rightarrow> filter_call list \<Rightarrow> bool list" where
  "rate_answers limit t n [] = []"
| "rate_answers limit t n (c # cs) =
     (if fc_check c - t > second then (0 < limit) # rate_answers limit (fc_reset c) 1 cs
      else (int n < limit) # rate_answers limit t (Suc n) cs)"

lemma cut_windows_nonempty [simp]: "cut_windows t n cs \<noteq> []"
  by (induction t n cs rule: cut_windows.induct) auto

lemma over_limit_simps [simp]:
  "over_limit limit [n] = 0"
  "ns \<noteq> [] \<Longrightarrow> over_limit limit (n # ns) = max 0 (int n - limit) + over_limit limit ns"
  by (simp_all add: over_limit_def)

lemma rate_answers_windows:
  "window_answers limit n @ rate_answers limit t n cs = concat (map (window_answers limit) (cut_windows t n cs))"
proof (induction t n cs rule: cut_windows.induct)
  case (2 t n c cs)
  have w: "window_answers limit (Suc m) = window_answers limit m @ [int m < limit]" for m
    by (simp add: window_answers_def)
  show ?case
  proof (cases "fc_check c - t > second")
    case True
    have "window_answers limit 1 = [0 < limit]" by (simp add: window_answers_def)
    with 2(1) [OF True] True show ?thesis by simp
  next
    case False
    with 2(2) [OF False] w show ?thesis by simp
  qed
qed (simp add: window_answers_def)

text \<open>One call on a known stream.\<close>

lemma rate_step:
  fixes call :: filter_call
  assumes st: "rf_state f s = Some st" "\<not> r_ignore st" "r_lastReset st = t" "r_count st = int n"
    and "m_StreamID msg = s" "n < 2 ^ 63 - 1"
    and "0 \<le> rf_rateLimit f" "0 \<le> r_filtered st" "r_filtered st + int n < 2 ^ 63"
  defines "due \<equiv> fc_check call - t > second"
  shows "\<exists>routes f' st'. FilterRate_Accepts call f msg met =
      ((int (if due then 0 else n) < rf_rateLimit f, routes, f'), met) \<and>
    rf_state f' s = Some st' \<and> \<not> r_ignore st' \<and> r_lastReset st' = (if due then fc_reset call else t) \<and>
    r_count st' = int (Suc (if due then 0 else n)) \<and>
    r_filtered st' = r_filtered st + (if due then max 0 (int n - rf_rateLimit f) else 0) \<and>
    rf_rateLimit f' = rf_rateLimit f"
proof -
  have c: "int64 (int n + 1) = int n + 1" "int64 1 = 1" using assms(6) by (auto intro: int64_id)
  have d: "int64 (int n - rf_rateLimit f) = int n - rf_rateLimit f"
      "int64 (r_filtered st + (int n - rf_rateLimit f)) = r_filtered st + (int n - rf_rateLimit f)"
    if "rf_rateLimit f < int n"
    using that assms(6-9) by (auto intro!: int64_id)
  show ?thesis using assms(1-5) c d
    by (auto simp: FilterRate_Accepts_def rate_lookup_def rate_reset_def Let_def due_def)
qed

lemma rate_other:
  assumes "m_StreamID msg \<noteq> s"
  shows "\<exists>ok routes f' met'. FilterRate_Accepts call f msg met = ((ok, routes, f'), met') \<and>
    rf_state f' s = rf_state f s \<and> rf_rateLimit f' = rf_rateLimit f"
  using assms by (auto simp: FilterRate_Accepts_def rate_lookup_def Let_def split: option.splits)

definition on_stream :: "u64 \<Rightarrow> (filter_call \<times> message) list \<Rightarrow> (filter_call \<times> message) list" where
  "on_stream s cs = filter (\<lambda>(call, msg). m_StreamID msg = s) cs"

definition results_on :: "u64 \<Rightarrow> bool list \<Rightarrow> (filter_call \<times> message) list \<Rightarrow> bool list" where
  "results_on s oks cs = map fst (filter (\<lambda>(ok, call, msg). m_StreamID msg = s) (zip oks cs))"

lemma on_stream_Cons: "on_stream s ((call, msg) # cs) = (if m_StreamID msg = s then [(call, msg)] else []) @ on_stream s cs"
  by (simp add: on_stream_def)

lemma results_on_Cons: "results_on s (ok # oks) ((call, msg) # cs) = (if m_StreamID msg = s then [ok] else []) @ results_on s oks cs"
  by (simp add: results_on_def)

text \<open>Any run over a known stream, other streams in between. \<open>rate_end\<close> is what is stored at the end.\<close>

definition rate_end :: "rate_filter \<Rightarrow> u64 \<Rightarrow> nat list \<Rightarrow> int \<Rightarrow> bool" where
  "rate_end f s ns x \<longleftrightarrow> (\<exists>st. rf_state f s = Some st \<and> \<not> r_ignore st \<and> r_count st = int (last ns) \<and>
     r_filtered st = x + over_limit (rf_rateLimit f) ns)"

definition rate_run_ok :: "filter_env \<Rightarrow> rate_filter \<Rightarrow> metrics \<Rightarrow> (filter_call \<times> message) list \<Rightarrow> u64 \<Rightarrow> int \<Rightarrow> nat \<Rightarrow> int \<Rightarrow> bool" where
  "rate_run_ok fe f met cs s t n x \<longleftrightarrow> (\<exists>oks routes f' met'.
     accepts_all fe cs (FilterRate f) met = Inr (oks, routes, FilterRate f', met') \<and> length oks = length cs \<and>
     rf_rateLimit f' = rf_rateLimit f \<and>
     results_on s oks cs = rate_answers (rf_rateLimit f) t n (map fst (on_stream s cs)) \<and>
     rate_end f' s (cut_windows t n (map fst (on_stream s cs))) x)"

lemma rate_all:
  assumes "rf_state f s = Some st" "\<not> r_ignore st" "r_lastReset st = t" "r_count st = int n" "0 \<le> rf_rateLimit f"
    and "0 \<le> r_filtered st" "r_filtered st + int n + int (length (on_stream s cs)) < 2 ^ 63"
  shows "rate_run_ok fe f met cs s t n (r_filtered st)"
  using assms
proof (induction cs arbitrary: f st t n met)
  case Nil
  then show ?case by (auto simp: rate_run_ok_def rate_end_def on_stream_def results_on_def)
next
  case (Cons x cs)
  obtain call msg where x: "x = (call, msg)" by fastforce
  note simps = x on_stream_Cons results_on_Cons
  show ?case
  proof (cases "m_StreamID msg = s")
    case True
    let ?due = "fc_check call - t > second"
    have b: "n < 2 ^ 63 - 1" "r_filtered st + int n < 2 ^ 63"
      using Cons.prems(6,7) True by (simp_all add: simps)
    obtain routes f' st' where r: "FilterRate_Accepts call f msg met =
        ((int (if ?due then 0 else n) < rf_rateLimit f, routes, f'), met)"
      "rf_state f' s = Some st'" "\<not> r_ignore st'" "r_lastReset st' = (if ?due then fc_reset call else t)"
      "r_count st' = int (Suc (if ?due then 0 else n))"
      "r_filtered st' = r_filtered st + (if ?due then max 0 (int n - rf_rateLimit f) else 0)"
      "rf_rateLimit f' = rf_rateLimit f"
      using rate_step [OF Cons.prems(1-4) True b(1) Cons.prems(5,6) b(2)] by blast
    have "rate_run_ok fe f' met cs s (if ?due then fc_reset call else t) (Suc (if ?due then 0 else n)) (r_filtered st')"
      using Cons.prems(5-7) r(6,7) True
      by (intro Cons.IH [OF r(2-5)]) (auto simp: simps split: if_splits)
    then obtain oks rs g m where o: "accepts_all fe cs (FilterRate f') met = Inr (oks, rs, FilterRate g, m)"
        "length oks = length cs" "rf_rateLimit g = rf_rateLimit f'"
        "results_on s oks cs = rate_answers (rf_rateLimit f') (if ?due then fc_reset call else t) (Suc (if ?due then 0 else n)) (map fst (on_stream s cs))"
        "rate_end g s (cut_windows (if ?due then fc_reset call else t) (Suc (if ?due then 0 else n)) (map fst (on_stream s cs))) (r_filtered st')"
      by (auto simp: rate_run_ok_def)
    have "accepts_all fe (x # cs) (FilterRate f) met =
        Inr ((int (if ?due then 0 else n) < rf_rateLimit f) # oks, routes @ rs, FilterRate g, m)"
      using r(1) o(1) by (simp add: x)
    moreover have "rate_end g s (cut_windows t n (map fst (on_stream s (x # cs)))) (r_filtered st)"
      using o(3,5) r(6,7) True by (cases ?due) (simp_all add: simps rate_end_def algebra_simps)
    ultimately show ?thesis using o(2-4) r(7) True
      unfolding rate_run_ok_def by (cases ?due) (simp_all add: simps)
  next
    case False
    obtain ok routes f' met' where r: "FilterRate_Accepts call f msg met = ((ok, routes, f'), met')"
      "rf_state f' s = Some st" "rf_rateLimit f' = rf_rateLimit f" using rate_other [OF False, of call f met] Cons.prems(1) by auto
    have "rate_run_ok fe f' met' cs s t n (r_filtered st)"
      using Cons.prems(2-7) False r(3) by (intro Cons.IH [OF r(2)]) (simp_all add: simps)
    then obtain oks rs g m where o: "accepts_all fe cs (FilterRate f') met' = Inr (oks, rs, FilterRate g, m)"
        "length oks = length cs" "rf_rateLimit g = rf_rateLimit f'"
        "results_on s oks cs = rate_answers (rf_rateLimit f') t n (map fst (on_stream s cs))"
        "rate_end g s (cut_windows t n (map fst (on_stream s cs))) (r_filtered st)"
      by (auto simp: rate_run_ok_def)
    have "accepts_all fe (x # cs) (FilterRate f) met = Inr (ok # oks, routes @ rs, FilterRate g, m)"
      using r(1) o(1) by (simp add: x)
    then show ?thesis using o(2-5) r(3) False unfolding rate_run_ok_def by (simp add: simps)
  qed
qed

text \<open>A stream that is not known yet: its first message adds it with an empty window.\<close>

lemma rate_create:
  assumes "rf_state f (m_StreamID msg) = None"
  shows "\<exists>met'. FilterRate_Accepts call f msg met =
    FilterRate_Accepts call (f\<lparr>rf_state := (rf_state f)(m_StreamID msg \<mapsto> new_rate_state False (fc_create call))\<rparr>) msg met'"
  using assms by (auto simp: FilterRate_Accepts_def rate_lookup_def Let_def)

lemma rate_fresh:
  assumes "rf_state f s = None" "0 \<le> rf_rateLimit f" "on_stream s cs \<noteq> []" "int (length (on_stream s cs)) < 2 ^ 63"
  shows "rate_run_ok fe f met cs s (fc_create (fst (hd (on_stream s cs)))) 0 0"
  using assms
proof (induction cs arbitrary: f met)
  case (Cons x cs)
  obtain call msg where x: "x = (call, msg)" by fastforce
  note simps = x on_stream_Cons results_on_Cons
  show ?case
  proof (cases "m_StreamID msg = s")
    case True
    let ?st = "new_rate_state False (fc_create call)"
    let ?g = "f\<lparr>rf_state := (rf_state f)(s \<mapsto> ?st)\<rparr>"
    obtain met' where "FilterRate_Accepts call f msg met = FilterRate_Accepts call ?g msg met'"
      using rate_create [of f msg call met] Cons.prems(1) True by auto
    then have e: "accepts_all fe (x # cs) (FilterRate f) met = accepts_all fe (x # cs) (FilterRate ?g) met'"
      by (simp add: x)
    have "rate_run_ok fe ?g met' (x # cs) s (fc_create call) 0 (r_filtered ?st)"
      using Cons.prems(2,4) by (intro rate_all) (simp_all add: new_rate_state_def)
    then have "rate_run_ok fe f met (x # cs) s (fc_create call) 0 0"
      unfolding rate_run_ok_def e by (simp add: new_rate_state_def)
    then show ?thesis using True by (simp add: simps)
  next
    case False
    obtain ok routes f' met' where r: "FilterRate_Accepts call f msg met = ((ok, routes, f'), met')"
      "rf_state f' s = None" "rf_rateLimit f' = rf_rateLimit f" using rate_other [OF False, of call f met] Cons.prems(1) by auto
    have "rate_run_ok fe f' met' cs s (fc_create (fst (hd (on_stream s cs)))) 0 0"
      using Cons.prems(2-4) False r(3) by (intro Cons.IH [OF r(2)]) (simp_all add: simps)
    then obtain oks rs g m where o: "accepts_all fe cs (FilterRate f') met' = Inr (oks, rs, FilterRate g, m)"
        "length oks = length cs" "rf_rateLimit g = rf_rateLimit f'"
        "results_on s oks cs = rate_answers (rf_rateLimit f') (fc_create (fst (hd (on_stream s cs)))) 0 (map fst (on_stream s cs))"
        "rate_end g s (cut_windows (fc_create (fst (hd (on_stream s cs)))) 0 (map fst (on_stream s cs))) 0"
      by (auto simp: rate_run_ok_def)
    have "accepts_all fe (x # cs) (FilterRate f) met = Inr (ok # oks, routes @ rs, FilterRate g, m)"
      using r(1) o(1) by (simp add: x)
    then show ?thesis using o(2-5) r(3) False unfolding rate_run_ok_def by (simp add: simps)
  qed
qed (simp add: on_stream_def)

text \<open>
  What the windows mean for a second of time: it meets at most one reset, so at most twice the limit
  passes in it. The clock does not go back: the reset is not before the check.
\<close>

lemma length_rate_answers [simp]: "length (rate_answers limit t n cs) = length cs"
  by (induction limit t n cs rule: rate_answers.induct) auto

lemma rate_answers_append: "\<exists>t' n'. rate_answers limit t n (us @ vs) = rate_answers limit t n us @ rate_answers limit t' n' vs"
  by (induction limit t n us rule: rate_answers.induct) auto

lemma accepted_before_reset:
  "\<forall>c\<in>set cs. fc_check c - t \<le> second \<Longrightarrow> length (filter (\<lambda>ok. ok) (rate_answers limit t n cs)) \<le> nat (limit - int n)"
proof (induction cs arbitrary: n)
  case (Cons c cs)
  then have "length (filter (\<lambda>ok. ok) (rate_answers limit t (Suc n) cs)) \<le> nat (limit - int (Suc n))"
    using Cons.IH [of "Suc n"] by simp
  with Cons.prems show ?case by (auto simp: not_less)
qed simp

lemma accepted_in_second:
  assumes "\<forall>c\<in>set cs. a \<le> fc_check c \<and> fc_check c \<le> a + second \<and> fc_check c \<le> fc_reset c"
  shows "length (filter (\<lambda>ok. ok) (rate_answers limit t n cs)) \<le> nat (limit - int n) + nat limit"
  using assms
proof (induction cs arbitrary: n)
  case (Cons c cs)
  show ?case
  proof (cases "fc_check c - t > second")
    case True
    have "length (filter (\<lambda>ok. ok) (rate_answers limit (fc_reset c) 1 cs)) \<le> nat (limit - int 1)"
      by (rule accepted_before_reset) (use Cons.prems in force)
    with True show ?thesis by auto
  next
    case False
    have "length (filter (\<lambda>ok. ok) (rate_answers limit t (Suc n) cs)) \<le> nat (limit - int (Suc n)) + nat limit"
      using Cons.IH [of "Suc n"] Cons.prems by simp
    with False show ?thesis by auto
  qed
qed simp

lemma accepted_in_any_second:
  assumes "\<forall>c\<in>set ds. a \<le> fc_check c \<and> fc_check c \<le> a + second \<and> fc_check c \<le> fc_reset c"
  shows "length (filter (\<lambda>ok. ok) (take (length ds) (drop (length us) (rate_answers limit t n (us @ ds @ vs))))) \<le> 2 * nat limit"
proof -
  obtain t1 n1 where 1: "rate_answers limit t n (us @ ds @ vs) = rate_answers limit t n us @ rate_answers limit t1 n1 (ds @ vs)"
    using rate_answers_append by blast
  obtain t2 n2 where 2: "rate_answers limit t1 n1 (ds @ vs) = rate_answers limit t1 n1 ds @ rate_answers limit t2 n2 vs"
    using rate_answers_append by blast
  have "length (filter (\<lambda>ok. ok) (rate_answers limit t1 n1 ds)) \<le> nat (limit - int n1) + nat limit"
    using accepted_in_second [OF assms] .
  then show ?thesis by (simp add: 1 2)
qed

text \<open>The meaning of one expression loop when no path panics: is there an entry whose value decides?\<close>

lemma json_check_spec:
  assumes "\<And>k e. (k, e) \<in> set es \<Longrightarrow> getValue fe k vals = Inr (val k)"
  shows "json_check fe decides es vals = Inr (\<exists>(k, e)\<in>set es. \<exists>s. val k = Some s \<and> fe_regexp fe e s = decides)"
  using assms
proof (induction es)
  case (Cons x es)
  obtain k e where x: "x = (k, e)" by fastforce
  have v: "getValue fe k vals = Inr (val k)" using Cons.prems [of k e] x by simp
  have IH: "json_check fe decides es vals = Inr (\<exists>(k, e)\<in>set es. \<exists>s. val k = Some s \<and> fe_regexp fe e s = decides)"
    by (rule Cons.IH) (use Cons.prems in auto)
  show ?case using v IH x by (cases "val k") auto
qed simp

subsection \<open>Properties\<close>

text \<open>A new sampling filter with group size \<open>g\<close> accepts, of any sequence of messages that are not
  ignored, exactly the first \<open>SampleRatePerGroup\<close> of each group of \<open>g\<close>, without a panic.\<close>

theorem filter_Sample_periodic:
  assumes "0 < g" "g < 2 ^ 63 - 1" "length cs < 2 ^ 63" "sf_group f = g" "sf_count f = 0"
    "\<forall>(call, msg)\<in>set cs. sf_ignore f (m_StreamID msg) \<noteq> Some True"
  shows "\<exists>routes f'. accepts_all fe cs (FilterSample f) met =
    Inr (map (\<lambda>i. int i mod g < sf_rate f) [0..<length cs], routes, f', met)"
  using sample_all [of g 0 cs f fe met] assms by (simp add: sample_at_def)

theorem filter_Sample_periodic_witness:
  "\<forall>fe call met. \<exists>routes f'. accepts_all fe (replicate 3 (call, NewMessage None ''x'' 0 0))
     (FilterSample \<lparr>sf_rate = 1, sf_group = 2, sf_count = 0, sf_dropStreamID = 0, sf_ignore = Map.empty\<rparr>) met =
     Inr ([True, False, True], routes, f', met)"
proof (intro allI)
  fix fe call met
  show "\<exists>routes f'. accepts_all fe (replicate 3 (call, NewMessage None ''x'' 0 0))
     (FilterSample \<lparr>sf_rate = 1, sf_group = 2, sf_count = 0, sf_dropStreamID = 0, sf_ignore = Map.empty\<rparr>) met =
     Inr ([True, False, True], routes, f', met)"
  using filter_Sample_periodic [of 2 "replicate 3 (call, NewMessage None ''x'' 0 0)"
      "\<lparr>sf_rate = 1, sf_group = 2, sf_count = 0, sf_dropStreamID = 0, sf_ignore = Map.empty\<rparr>" fe met]
  by (simp add: upt_rec numeral_3_eq_3 del: accepts_all.simps)
qed

text \<open>A group size of 0 is accepted by the configuration and panics on the first message that is not
  ignored: the remainder by zero.\<close>

theorem filter_Sample_zero_group_panics:
  assumes "sf_ignore f (m_StreamID msg) \<noteq> Some True" "sf_group f = 0" "sf_count f = 0"
  shows "Accepts fe call (FilterSample f) msg met = Inl DivideByZero"
  using assms by (simp add: FilterSample_Accepts_def Let_def)

theorem filter_Sample_zero_group_panics_witness:
  "Accepts fe call (FilterSample \<lparr>sf_rate = 1, sf_group = 0, sf_count = 0, sf_dropStreamID = 0, sf_ignore = Map.empty\<rparr>)
     (NewMessage None ''x'' 0 0) met = Inl DivideByZero"
  by (rule filter_Sample_zero_group_panics) simp_all

text \<open>C25: the rate limiter, over any run and whatever messages of other streams come between: the
  calls on a stream that is not ignored are cut into windows, a new one beginning with the first call
  that comes more than a second after the last reset; in every window exactly the first
  \<open>RateLimitPerSec\<close> messages are accepted. At the end the state of the stream holds the number of
  calls of the last window and the number of messages the windows before it had beyond the limit. In any
  second of time at most twice the limit passes.\<close>

theorem filter_Rate_limits:
  assumes "rf_state f s = None" "0 \<le> rf_rateLimit f" "on_stream s cs \<noteq> []" "int (length (on_stream s cs)) < 2 ^ 63"
  shows "\<exists>oks routes f' met' st. accepts_all fe cs (FilterRate f) met = Inr (oks, routes, FilterRate f', met') \<and>
    results_on s oks cs = concat (map (window_answers (rf_rateLimit f)) (rate_windows (map fst (on_stream s cs)))) \<and>
    rf_state f' s = Some st \<and> \<not> r_ignore st \<and>
    r_count st = int (last (rate_windows (map fst (on_stream s cs)))) \<and>
    r_filtered st = over_limit (rf_rateLimit f) (rate_windows (map fst (on_stream s cs))) \<and>
    (\<forall>us ds vs a. map fst (on_stream s cs) = us @ ds @ vs \<and>
       (\<forall>c\<in>set ds. a \<le> fc_check c \<and> fc_check c \<le> a + second \<and> fc_check c \<le> fc_reset c) \<longrightarrow>
       length (filter (\<lambda>ok. ok) (take (length ds) (drop (length us) (results_on s oks cs)))) \<le> 2 * nat (rf_rateLimit f))"
proof -
  let ?ds = "map fst (on_stream s cs)" and ?t = "fc_create (fst (hd (on_stream s cs)))"
  have w: "rate_windows ?ds = cut_windows ?t 0 ?ds" using assms(3) by (simp add: rate_windows_def hd_map)
  have a: "rate_answers l ?t 0 ?ds = concat (map (window_answers l) (rate_windows ?ds))" for l
    unfolding w rate_answers_windows [symmetric] by (simp add: window_answers_def)
  from rate_fresh [OF assms, of fe met] obtain oks routes f' met' st where
    r: "accepts_all fe cs (FilterRate f) met = Inr (oks, routes, FilterRate f', met')"
      "rf_rateLimit f' = rf_rateLimit f" "results_on s oks cs = rate_answers (rf_rateLimit f) ?t 0 ?ds"
      "rf_state f' s = Some st" "\<not> r_ignore st" "r_count st = int (last (rate_windows ?ds))"
      "r_filtered st = over_limit (rf_rateLimit f) (rate_windows ?ds)"
    by (auto simp: rate_run_ok_def rate_end_def w)
  have b: "length (filter (\<lambda>ok. ok) (take (length ds) (drop (length us) (results_on s oks cs)))) \<le> 2 * nat (rf_rateLimit f)"
    if "?ds = us @ ds @ vs" "\<forall>c\<in>set ds. a \<le> fc_check c \<and> fc_check c \<le> a + second \<and> fc_check c \<le> fc_reset c" for us ds vs a
    unfolding r(3) that(1) by (rule accepted_in_any_second [OF that(2)])
  have c: "results_on s oks cs = concat (map (window_answers (rf_rateLimit f)) (rate_windows ?ds))"
    by (simp only: r(3) a)
  have d: "\<forall>us ds vs a. ?ds = us @ ds @ vs \<and>
       (\<forall>c\<in>set ds. a \<le> fc_check c \<and> fc_check c \<le> a + second \<and> fc_check c \<le> fc_reset c) \<longrightarrow>
       length (filter (\<lambda>ok. ok) (take (length ds) (drop (length us) (results_on s oks cs)))) \<le> 2 * nat (rf_rateLimit f)"
    using b by blast
  show ?thesis by (rule exI [of _ oks], rule exI [of _ routes], rule exI [of _ f'], rule exI [of _ met'], rule exI [of _ st])
    (intro conjI r(1) c r(4-7) d)
qed

text \<open>Limit 1, three messages: the second one is rejected, the third one comes after the next reset.\<close>

definition rate_example_call :: "int \<Rightarrow> filter_call \<times> message" where
  "rate_example_call t = (\<lparr>fc_names = Map.empty, fc_create = t, fc_check = t, fc_reset = t\<rparr>, NewMessage None ''x'' 0 0)"

theorem filter_Rate_limits_witness:
  "\<forall>fe met. \<exists>oks rest. accepts_all fe (map rate_example_call [5, 6, 2000000000])
     (FilterRate \<lparr>rf_rateLimit = 1, rf_state = Map.empty, rf_dropStreamID = 0\<rparr>) met = Inr (oks, rest) \<and>
     results_on WildcardStreamID oks (map rate_example_call [5, 6, 2000000000]) = [True, False, True]" (is "\<forall>fe met. ?P fe met")
proof (intro allI)
  fix fe met
  let ?f = "\<lparr>rf_rateLimit = 1, rf_state = Map.empty, rf_dropStreamID = 0\<rparr>"
  let ?cs = "map rate_example_call [5, 6, 2000000000]"
  have on: "on_stream WildcardStreamID ?cs = ?cs" by (simp add: on_stream_def NewMessage_def rate_example_call_def)
  have w: "rate_windows (map fst ?cs) = [2, 1]"
    by (simp add: rate_windows_def rate_example_call_def second_def)
  have r: "concat (map (window_answers (rf_rateLimit ?f)) [2, 1]) = [True, False, True]"
    by (simp add: window_answers_def upt_rec)
  have "?cs \<noteq> []" "int (length ?cs) < 2 ^ 63" by simp_all
  then obtain oks routes f' met' where "accepts_all fe ?cs (FilterRate ?f) met = Inr (oks, routes, FilterRate f', met')"
      "results_on WildcardStreamID oks ?cs = [True, False, True]"
    using filter_Rate_limits [of ?f WildcardStreamID ?cs fe met] unfolding on w r by (auto simp del: accepts_all.simps list.map)
  then show "?P fe met" by (intro exI conjI)
qed

text \<open>The JSON filter's answer does not depend on the order in which the maps of expressions are
  iterated: an object passes when no reject expression matches the value at its path and every accept
  expression matches the value at its path where there is one.\<close>

theorem filter_JSON_spec:
  assumes "fe_json fe data = Some vals" "\<And>k e. (k, e) \<in> set rej \<union> set acc \<Longrightarrow> getValue fe k vals = Inr (val k)"
  shows "FilterJSON_Accepts fe rej acc data =
    Inr ((\<forall>(k, e)\<in>set rej. \<forall>s. val k = Some s \<longrightarrow> \<not> fe_regexp fe e s) \<and>
         (\<forall>(k, e)\<in>set acc. \<forall>s. val k = Some s \<longrightarrow> fe_regexp fe e s))"
proof -
  have "json_check fe d es vals = Inr (\<exists>(k, e)\<in>set es. \<exists>s. val k = Some s \<and> fe_regexp fe e s = d)"
    if "set es \<subseteq> set rej \<union> set acc" for d es
    using that assms(2) by (intro json_check_spec) blast
  then show ?thesis using assms(1) by (auto simp: FilterJSON_Accepts_def)
qed

theorem filter_JSON_spec_witness:
  "FilterJSON_Accepts \<lparr>fe_regexp_ok = (\<lambda>e. True), fe_regexp = (\<lambda>e s. e = s), fe_json = (\<lambda>d. Some [(''a'', GString d)]), fe_float = (\<lambda>x. [])\<rparr>
     [(''a'', ''bad'')] [(''b'', ''x''), (''a'', ''good'')] ''good'' = Inr True"
proof -
  let ?fe = "\<lparr>fe_regexp_ok = (\<lambda>e. True), fe_regexp = (\<lambda>e s. e = s), fe_json = (\<lambda>d. Some [(''a'', GString d)]), fe_float = (\<lambda>x. [])\<rparr>"
  have v: "getValue ?fe ''a'' [(''a'', GString ''good'')] = Inr (Some ''good'')"
    "getValue ?fe ''b'' [(''a'', GString ''good'')] = Inr None"
    by (simp_all add: getValue_def Path_def resolvePath.simps resolvePathKey_def)
  have "FilterJSON_Accepts ?fe [(''a'', ''bad'')] [(''b'', ''x''), (''a'', ''good'')] ''good'' =
      Inr ((\<forall>(k, e)\<in>set [(''a'', ''bad'')]. \<forall>s. (if k = ''a'' then Some ''good'' else None) = Some s \<longrightarrow> \<not> fe_regexp ?fe e s) \<and>
       (\<forall>(k, e)\<in>set [(''b'', ''x''), (''a'', ''good'')]. \<forall>s. (if k = ''a'' then Some ''good'' else None) = Some s \<longrightarrow> fe_regexp ?fe e s))"
    by (rule filter_JSON_spec) (use v in auto)
  then show ?thesis by simp
qed

end
