(* ===== verification/ByteStreams.thy ===== *)
theory ByteStreams
  imports Prelude
begin

text \<open>
  \<open>shared/bytestream.go\<close>: a growing byte buffer that is written at its end and read from
  its start. The abstract value of a stream is the byte string written so far; \<open>Write\<close>
  appends to it whatever the capacity, and \<open>Read\<close> hands it out in order. The locale
  \<open>byte_reader\<close> is the contract of \<open>io.Reader\<close> as the clients use it; the
  stream's own \<open>Read\<close> is an instance.
\<close>

datatype io_err = EOF | IOFailure string

record byte_stream =
  bs_data :: bytes
  bs_writeOffset :: nat
  bs_readOffset :: nat

definition NewByteStream :: "nat \<Rightarrow> byte_stream" where
  "NewByteStream capacity = \<lparr>bs_data = replicate capacity (CHR 0x00), bs_writeOffset = 0, bs_readOffset = 0\<rparr>"

definition NewByteStreamFrom :: "bytes \<Rightarrow> byte_stream" where
  "NewByteStreamFrom data = \<lparr>bs_data = data, bs_writeOffset = length data, bs_readOffset = 0\<rparr>"

definition stream_Len :: "byte_stream \<Rightarrow> nat" where
  "stream_Len stream = bs_writeOffset stream"

definition stream_Cap :: "byte_stream \<Rightarrow> nat" where
  "stream_Cap stream = length (bs_data stream)"

definition stream_Bytes :: "byte_stream \<Rightarrow> bytes" where
  "stream_Bytes stream = take (bs_writeOffset stream) (bs_data stream)"

definition stream_SetCapacity :: "byte_stream \<Rightarrow> nat \<Rightarrow> byte_stream" where
  "stream_SetCapacity stream capacity =
     (if stream_Cap stream < capacity then
        let current = bs_data stream;
            data = replicate capacity (CHR 0x00)
        in stream\<lparr>bs_data :=
             (if bs_writeOffset stream > 0 then copy_at 0 (take (bs_writeOffset stream) current) data
              else data)\<rparr>
      else stream)"

definition stream_ResetRead :: "byte_stream \<Rightarrow> byte_stream" where
  "stream_ResetRead stream = stream\<lparr>bs_readOffset := 0\<rparr>"

definition stream_Reset :: "byte_stream \<Rightarrow> byte_stream" where
  "stream_Reset stream = stream_ResetRead (stream\<lparr>bs_writeOffset := 0\<rparr>)"

definition stream_Write :: "byte_stream \<Rightarrow> bytes \<Rightarrow> nat \<times> byte_stream" where
  "stream_Write stream source =
     (let sourceLen = length source
      in if sourceLen = 0 then (0, stream)
         else let stream = stream_SetCapacity stream (bs_writeOffset stream + sourceLen);
                  data = copy_at (bs_writeOffset stream) source (bs_data stream)
              in (sourceLen, stream\<lparr>bs_data := data, bs_writeOffset := bs_writeOffset stream + sourceLen\<rparr>))"

definition stream_WriteByte :: "byte_stream \<Rightarrow> char \<Rightarrow> byte_stream" where
  "stream_WriteByte stream source =
     (let stream = stream_SetCapacity stream (bs_writeOffset stream + 1)
      in stream\<lparr>bs_data := (bs_data stream)[bs_writeOffset stream := source],
                bs_writeOffset := bs_writeOffset stream + 1\<rparr>)"

text \<open>\<open>Read\<close> into a target of length \<open>n\<close>: the bytes copied, the error, the stream.\<close>

definition stream_Read :: "byte_stream \<Rightarrow> nat \<Rightarrow> bytes \<times> io_err option \<times> byte_stream" where
  "stream_Read stream n =
     (if bs_readOffset stream \<ge> bs_writeOffset stream then ([], Some EOF, stream)
      else let copied = take n (subslice (bs_readOffset stream) (bs_writeOffset stream) (bs_data stream));
               stream = stream\<lparr>bs_readOffset := bs_readOffset stream + length copied\<rparr>
           in if bs_readOffset stream \<ge> bs_writeOffset stream then (copied, Some EOF, stream)
              else (copied, None, stream))"

subsection \<open>Invariant and functional behaviour\<close>

definition stream_ok :: "byte_stream \<Rightarrow> bool" where
  "stream_ok s \<longleftrightarrow> bs_readOffset s \<le> bs_writeOffset s \<and> bs_writeOffset s \<le> length (bs_data s)"

text \<open>What is still to be read.\<close>

definition stream_rest :: "byte_stream \<Rightarrow> bytes" where
  "stream_rest s = drop (bs_readOffset s) (stream_Bytes s)"

lemma stream_ok_new [simp, inv_intros]:
  "stream_ok (NewByteStream n)" "stream_ok (NewByteStreamFrom d)"
  by (simp_all add: stream_ok_def NewByteStream_def NewByteStreamFrom_def)

lemma stream_SetCapacity_ok [inv_intros]: "stream_ok s \<Longrightarrow> stream_ok (stream_SetCapacity s n)"
  by (auto simp: stream_ok_def stream_SetCapacity_def stream_Cap_def Let_def)

lemma stream_SetCapacity_offsets [simp]:
  "bs_writeOffset (stream_SetCapacity s n) = bs_writeOffset s"
  "bs_readOffset (stream_SetCapacity s n) = bs_readOffset s"
  by (simp_all add: stream_SetCapacity_def Let_def)

lemma stream_SetCapacity_Cap: "stream_Cap (stream_SetCapacity s n) = max (stream_Cap s) n"
  by (simp add: stream_SetCapacity_def stream_Cap_def Let_def)

lemma stream_SetCapacity_Bytes [simp]:
  "stream_ok s \<Longrightarrow> stream_Bytes (stream_SetCapacity s n) = stream_Bytes s"
  by (auto simp: stream_SetCapacity_def stream_Bytes_def stream_ok_def stream_Cap_def Let_def copy_at_fits)

lemma stream_Write_Bytes:
  assumes "stream_ok s"
  shows "stream_Bytes (snd (stream_Write s src)) = stream_Bytes s @ src"
proof (cases "src = []")
  case False
  let ?t = "stream_SetCapacity s (bs_writeOffset s + length src)"
  have fit: "bs_writeOffset s + length src \<le> length (bs_data ?t)"
    using stream_SetCapacity_Cap [of s "bs_writeOffset s + length src"] by (simp add: stream_Cap_def)
  have "take (bs_writeOffset s) (bs_data ?t) = stream_Bytes s"
    using stream_SetCapacity_Bytes [OF assms, of "bs_writeOffset s + length src"] by (simp add: stream_Bytes_def)
  with False take_copy_at [OF fit] show ?thesis
    by (simp add: stream_Write_def stream_Bytes_def Let_def)
qed (simp add: stream_Write_def)

lemma stream_Write_ok [inv_intros]: "stream_ok s \<Longrightarrow> stream_ok (snd (stream_Write s src))"
  using stream_SetCapacity_Cap [of s "bs_writeOffset s + length src"]
  by (auto simp: stream_ok_def stream_Write_def stream_Cap_def Let_def)

lemma stream_WriteByte_Write: "stream_ok s \<Longrightarrow> stream_WriteByte s c = snd (stream_Write s [c])"
proof -
  assume ok: "stream_ok s"
  let ?t = "stream_SetCapacity s (bs_writeOffset s + 1)"
  have "bs_writeOffset s + 1 \<le> length (bs_data ?t)"
    using stream_SetCapacity_Cap [of s "bs_writeOffset s + 1"] by (simp add: stream_Cap_def)
  then show ?thesis
    by (simp add: stream_WriteByte_def stream_Write_def Let_def copy_at_fits list_update_nth_split)
qed

lemma stream_Read_ok [inv_intros]:
  "stream_ok s \<Longrightarrow> stream_Read s n = (b, e, t) \<Longrightarrow> stream_ok t"
  by (auto simp: stream_ok_def stream_Read_def subslice_def Let_def split: if_splits)

lemma stream_Read_Bytes [simp]: "stream_Read s n = (b, e, t) \<Longrightarrow> stream_Bytes t = stream_Bytes s"
  by (auto simp: stream_Read_def stream_Bytes_def Let_def split: if_splits)

lemma stream_Read_copied:
  assumes "stream_ok s" "stream_Read s n = (b, e, t)"
  shows "b = take n (stream_rest s) \<and> stream_rest t = drop n (stream_rest s)"
proof (cases "bs_readOffset s \<ge> bs_writeOffset s")
  case True
  with assms have "stream_rest s = []" "b = []" "t = s"
    by (auto simp: stream_Read_def stream_rest_def stream_Bytes_def)
  then show ?thesis by simp
next
  case False
  have r: "subslice (bs_readOffset s) (bs_writeOffset s) (bs_data s) = stream_rest s"
    using assms(1) by (simp add: stream_rest_def stream_Bytes_def subslice_def drop_take)
  with assms False have b: "b = take n (stream_rest s)"
    and t: "t = s\<lparr>bs_readOffset := bs_readOffset s + length (take n (stream_rest s))\<rparr>"
    by (auto simp: stream_Read_def Let_def split: if_splits)
  have "stream_rest t = drop (length (take n (stream_rest s))) (stream_rest s)"
    unfolding t by (simp add: stream_rest_def stream_Bytes_def add.commute)
  then show ?thesis using b by (simp add: min_def)
qed

lemma stream_Read_err:
  "stream_Read s n = (b, e, t) \<Longrightarrow> e = None \<or> e = Some EOF"
  by (auto simp: stream_Read_def Let_def split: if_splits)

subsection \<open>The reader contract\<close>

text \<open>
  \<open>pend s\<close> is what a reader in state \<open>s\<close> will still deliver. A read delivers a
  prefix of it, at most as long as the target and not empty while there is room and data; a reader
  with nothing left answers \<open>io.EOF\<close>.
\<close>

locale byte_reader =
  fixes rd :: "'s \<Rightarrow> nat \<Rightarrow> bytes \<times> io_err option \<times> 's"
    and pend :: "'s \<Rightarrow> bytes"
    and inv :: "'s \<Rightarrow> bool"
  assumes rd_inv: "inv s \<Longrightarrow> rd s n = (b, e, s') \<Longrightarrow> inv s'"
    and rd_pend: "inv s \<Longrightarrow> rd s n = (b, e, s') \<Longrightarrow> pend s = b @ pend s'"
    and rd_length: "inv s \<Longrightarrow> rd s n = (b, e, s') \<Longrightarrow> length b \<le> n"
    and rd_progress: "inv s \<Longrightarrow> rd s n = (b, e, s') \<Longrightarrow> 0 < n \<Longrightarrow> pend s \<noteq> [] \<Longrightarrow> b \<noteq> []"
    and rd_eof: "inv s \<Longrightarrow> rd s n = (b, e, s') \<Longrightarrow> pend s = [] \<Longrightarrow> e = Some EOF"
    and rd_err: "inv s \<Longrightarrow> rd s n = (b, e, s') \<Longrightarrow> e = None \<or> e = Some EOF"
begin

lemma rd_empty: "inv s \<Longrightarrow> rd s n = ([], e, s') \<Longrightarrow> 0 < n \<Longrightarrow> pend s = [] \<and> e = Some EOF"
  using rd_eof rd_progress by blast

lemma rd_shrinks: "inv s \<Longrightarrow> rd s n = (b, e, s') \<Longrightarrow> length (pend s') = length (pend s) - length b"
  using rd_pend [of s n b e s'] by simp

end

interpretation stream_reader: byte_reader stream_Read stream_rest stream_ok
proof
  fix s n b e s'
  assume ok: "stream_ok s" and r: "stream_Read s n = (b, e, s')"
  note c = stream_Read_copied [OF ok r]
  show "stream_ok s'" using ok r by (rule stream_Read_ok)
  show "stream_rest s = b @ stream_rest s'" using c by simp
  show "length b \<le> n" using c by simp
  show "e = None \<or> e = Some EOF" using r by (rule stream_Read_err)
  show "b \<noteq> []" if "0 < n" "stream_rest s \<noteq> []" using c that by auto
  show "e = Some EOF" if "stream_rest s = []"
    using that r ok by (auto simp: stream_Read_def stream_rest_def stream_Bytes_def stream_ok_def)
qed

text \<open>
  A stream that was written in any number of pieces and is then read in any number of pieces
  gives back the bytes written, in order.
\<close>

fun stream_write_all :: "byte_stream \<Rightarrow> bytes list \<Rightarrow> byte_stream" where
  "stream_write_all s [] = s"
| "stream_write_all s (x # xs) = stream_write_all (snd (stream_Write s x)) xs"

fun stream_read_all :: "byte_stream \<Rightarrow> nat list \<Rightarrow> bytes \<times> byte_stream" where
  "stream_read_all s [] = ([], s)"
| "stream_read_all s (n # ns) =
     (let (b, e, s) = stream_Read s n; (bs, s) = stream_read_all s ns in (b @ bs, s))"

lemma stream_write_all_spec:
  "stream_ok s \<Longrightarrow>
   stream_ok (stream_write_all s xs) \<and> stream_Bytes (stream_write_all s xs) = stream_Bytes s @ concat xs"
  by (induction xs arbitrary: s) (auto simp: stream_Write_Bytes stream_Write_ok)

lemma stream_write_all_readOffset [simp]:
  "bs_readOffset (stream_write_all s xs) = bs_readOffset s"
  by (induction xs arbitrary: s) (auto simp: stream_Write_def Let_def)

lemma stream_read_all_spec:
  "stream_ok s \<Longrightarrow> fst (stream_read_all s ns) = take (sum_list ns) (stream_rest s)"
proof (induction ns arbitrary: s)
  case (Cons n ns)
  obtain b e t where r: "stream_Read s n = (b, e, t)" by (metis prod_cases3)
  have "fst (stream_read_all t ns) = take (sum_list ns) (stream_rest t)"
    using Cons.IH stream_Read_ok [OF Cons.prems r] by simp
  with stream_Read_copied [OF Cons.prems r] r show ?case
    by (simp add: case_prod_unfold Let_def take_add)
qed simp

end
