(* ===== verification/Base64s.thy ===== *)
theory Base64s
  imports Prelude
begin

text \<open>
  The base 64 coding of \<open>encoding/base64\<close> as the formatters use it, for a dictionary of 64
  characters: the standard one or the configured one. The decoder skips line feeds and carriage
  returns, needs the padding, and fails on every other character.
\<close>

definition StdEncoding :: bytes where
  "StdEncoding = ''ABCDEFGHIJKLMNOPQRSTUVWXYZabcdefghijklmnopqrstuvwxyz0123456789+/''"

abbreviation (input) num :: "char \<Rightarrow> nat" where "num c \<equiv> of_char c"

fun base64_encode :: "bytes \<Rightarrow> bytes \<Rightarrow> bytes" where
  "base64_encode D [] = []"
| "base64_encode D [a] = [D ! (num a div 4), D ! (num a mod 4 * 16), CHR ''='', CHR ''='']"
| "base64_encode D [a, b] =
     [D ! (num a div 4), D ! (num a mod 4 * 16 + num b div 16), D ! (num b mod 16 * 4), CHR ''='']"
| "base64_encode D (a # b # c # r) =
     [D ! (num a div 4), D ! (num a mod 4 * 16 + num b div 16), D ! (num b mod 16 * 4 + num c div 64),
      D ! (num c mod 64)] @ base64_encode D r"

definition dec_char :: "bytes \<Rightarrow> char \<Rightarrow> nat option" where
  "dec_char D c = map_option (\<lambda>i. length D - 1 - i) (find_index (\<lambda>d. d = c) (rev D))"

definition byte1 :: "nat \<Rightarrow> nat \<Rightarrow> char" where "byte1 w x = char_of (w * 4 + x div 16)"
definition byte2 :: "nat \<Rightarrow> nat \<Rightarrow> char" where "byte2 x y = char_of (x mod 16 * 16 + y div 4)"
definition byte3 :: "nat \<Rightarrow> nat \<Rightarrow> char" where "byte3 y z = char_of (y mod 4 * 64 + z)"

fun decode_quads :: "bytes \<Rightarrow> bytes \<Rightarrow> bytes option" where
  "decode_quads D [] = Some []"
| "decode_quads D (p # q # r # s # cs) =
     (case (dec_char D p, dec_char D q, dec_char D r, dec_char D s) of
        (Some w, Some x, Some y, Some z) \<Rightarrow>
          map_option (\<lambda>t. byte1 w x # byte2 x y # byte3 y z # t) (decode_quads D cs)
      | (Some w, Some x, Some y, None) \<Rightarrow>
          if s = CHR ''='' \<and> cs = [] then Some [byte1 w x, byte2 x y] else None
      | (Some w, Some x, None, None) \<Rightarrow>
          if r = CHR ''='' \<and> s = CHR ''='' \<and> cs = [] then Some [byte1 w x] else None
      | _ \<Rightarrow> None)"
| "decode_quads D _ = None"

definition base64_decode :: "bytes \<Rightarrow> bytes \<Rightarrow> bytes option" where
  "base64_decode D s =
     decode_quads D (filter (\<lambda>c. dec_char D c \<noteq> None \<or> (c \<noteq> CHR 0x0A \<and> c \<noteq> CHR 0x0D)) s)"

definition good_dictionary :: "bytes \<Rightarrow> bool" where
  "good_dictionary D \<longleftrightarrow> length D = 64 \<and> distinct D \<and> CHR ''='' \<notin> set D"

lemma good_StdEncoding: "good_dictionary StdEncoding"
  by (simp add: good_dictionary_def StdEncoding_def)

lemma dec_char_nth:
  assumes "distinct D" "i < length D"
  shows "dec_char D (D ! i) = Some i"
proof -
  have "find_index (\<lambda>d. d = D ! i) (rev D) = Some (length D - 1 - i)"
    using assms by (auto simp: find_index_upto rev_nth nth_eq_iff_index_eq)
  with assms show ?thesis by (simp add: dec_char_def)
qed

lemma dec_char_none: "c \<notin> set D \<Longrightarrow> dec_char D c = None"
  by (auto simp: dec_char_def find_index_None)

lemma num_less: "num c < 256"
  by simp

lemma char_of_num: "char_of (num c) = c"
  by simp

lemma digits_of:
  fixes q r n :: nat
  assumes "0 < n" "r < n"
  shows "(q * n + r) div n = q" "(q * n + r) mod n = r"
  using assms by simp_all

lemma div_bound: "num a div 16 < 16" "num a div 64 < 4" "num a div 4 < 64"
proof -
  have "num a < 256" by (rule num_less)
  then show "num a div 16 < 16" "num a div 64 < 4" "num a div 4 < 64" by (simp_all only: div_less_iff_less_mult)
qed

lemma bytes_back:
  "byte1 (num a div 4) (num a mod 4 * 16 + num b div 16) = a"
  "byte1 (num a div 4) (num a mod 4 * 16) = a"
  "byte2 (num a mod 4 * 16 + num b div 16) (num b mod 16 * 4 + num c div 64) = b"
  "byte2 (num a mod 4 * 16 + num b div 16) (num b mod 16 * 4) = b"
  "byte3 (num b mod 16 * 4 + num c div 64) (num c mod 64) = c"
proof -
  have d: "(num a mod 4 * 16 + num b div 16) div 16 = num a mod 4" "(num a mod 4 * 16 + num b div 16) mod 16 = num b div 16"
    "(num b mod 16 * 4 + num c div 64) div 4 = num b mod 16" "(num b mod 16 * 4 + num c div 64) mod 4 = num c div 64"
    by (rule digits_of; simp add: div_bound)+
  show "byte1 (num a div 4) (num a mod 4 * 16 + num b div 16) = a" "byte1 (num a div 4) (num a mod 4 * 16) = a"
    "byte2 (num a mod 4 * 16 + num b div 16) (num b mod 16 * 4 + num c div 64) = b"
    "byte2 (num a mod 4 * 16 + num b div 16) (num b mod 16 * 4) = b"
    "byte3 (num b mod 16 * 4 + num c div 64) (num c mod 64) = c"
    by (simp_all only: byte1_def byte2_def byte3_def d nonzero_mult_div_cancel_right div_mult_mod_eq char_of_num
        zero_neq_numeral not_False_eq_True if_False)
qed

lemma mixed_bound: "(x :: nat) < m \<Longrightarrow> y < n \<Longrightarrow> x * n + y < m * n"
proof -
  assume "x < m" "y < n"
  then have "x * n + y < Suc x * n" by simp
  also have "\<dots> \<le> m * n" using \<open>x < m\<close> by (intro mult_le_mono1) simp
  finally show ?thesis .
qed

lemma index_bounds:
  "num a div 4 < 64" "num a mod 4 * 16 < 64" "num a mod 4 * 16 + num b div 16 < 64" "num b mod 16 * 4 < 64"
  "num b mod 16 * 4 + num c div 64 < 64" "num c mod 64 < 64"
  using mixed_bound [of "num a mod 4" 4 "num b div 16" 16] mixed_bound [of "num a mod 4" 4 0 16]
    mixed_bound [of "num b mod 16" 16 "num c div 64" 4] mixed_bound [of "num b mod 16" 16 0 4]
  by (simp_all add: div_bound)

lemma dec_good: "good_dictionary D \<Longrightarrow> i < 64 \<Longrightarrow> dec_char D (D ! i) = Some i"
  by (intro dec_char_nth) (auto simp: good_dictionary_def)

lemma dec_pad: "good_dictionary D \<Longrightarrow> dec_char D (CHR ''='') = None"
  by (intro dec_char_none) (simp add: good_dictionary_def)

lemma decode_encode_quads: "good_dictionary D \<Longrightarrow> decode_quads D (base64_encode D s) = Some s"
  by (induction D s rule: base64_encode.induct)
     (simp_all add: dec_good dec_pad index_bounds bytes_back)

lemma base64_encode_chars:
  "good_dictionary D \<Longrightarrow> c \<in> set (base64_encode D s) \<Longrightarrow> c \<in> set D \<or> c = CHR ''=''"
proof (induction D s rule: base64_encode.induct)
  case (2 D a)
  then show ?case by (auto simp: good_dictionary_def index_bounds intro!: nth_mem)
next
  case (3 D a b)
  then show ?case by (auto simp: good_dictionary_def index_bounds intro!: nth_mem)
next
  case (4 D a b c r)
  then show ?case by (auto simp: good_dictionary_def index_bounds intro!: nth_mem)
qed simp

lemma base64_roundtrip:
  assumes "good_dictionary D"
  shows "base64_decode D (base64_encode D s) = Some s"
proof -
  have "dec_char D c \<noteq> None \<or> (c \<noteq> CHR 0x0A \<and> c \<noteq> CHR 0x0D)" if "c \<in> set (base64_encode D s)" for c
    using base64_encode_chars [OF assms that] dec_good [OF assms] assms
    by (auto simp: in_set_conv_nth good_dictionary_def)
  then have "filter (\<lambda>c. dec_char D c \<noteq> None \<or> (c \<noteq> CHR 0x0A \<and> c \<noteq> CHR 0x0D)) (base64_encode D s) = base64_encode D s"
    by (intro filter_True) auto
  with decode_encode_quads [OF assms] show ?thesis by (simp add: base64_decode_def)
qed

end
