(* ===== verification/ProcessTSVs.thy ===== *)
theory ProcessTSVs
  imports MarshalMaps Utilities
begin

text \<open>
  \<open>format/processtsv.go\<close>: the fields of a line of separated values, and the directives that change
  them. The user agent parser (a package outside the repository) and the package \<open>time\<close> are functions
  of the record \<open>process_env\<close>, which the JSON processor shares; an instant is a number of nanoseconds.
\<close>

record user_agent =
  ua_Mozilla :: bytes
  ua_Platform :: bytes
  ua_OS :: bytes
  ua_Localization :: bytes
  ua_Engine :: "bytes \<times> bytes"
  ua_Browser :: "bytes \<times> bytes"

record city_record =
  c_City :: "bytes option"
  c_IsoCode :: bytes
  c_Country :: "bytes option"
  c_ContinentCode :: bytes
  c_Continent :: "bytes option"
  c_TimeZone :: bytes
  c_IsAnonymousProxy :: bool
  c_IsSatelliteProvider :: bool
  c_Latitude :: u64
  c_Longitude :: u64

record process_env =
  pe_time_parse :: "bytes \<Rightarrow> bytes \<Rightarrow> int option"
  pe_time_format :: "bytes \<Rightarrow> int \<Rightarrow> bytes"
  pe_agent :: "bytes \<Rightarrow> user_agent"
  pe_float_int :: "u64 \<Rightarrow> int"
  pe_is_ip :: "bytes \<Rightarrow> bool"
  pe_city :: "bytes \<Rightarrow> city_record option"
  pe_geohash :: "u64 \<Rightarrow> u64 \<Rightarrow> bytes"
  pe_geo_open :: "bytes \<Rightarrow> bool"
  pe_json_marshal :: "marshal_map \<Rightarrow> bytes option"

record tsv_directive =
  td_index :: int
  td_operation :: bytes
  td_parameters :: "bytes list"

record tsv_value =
  tv_quoted :: bool
  tv_value :: bytes

subsection \<open>Directives\<close>

text \<open>The parts of a directive: split at colons, an escaped colon is part of the text.\<close>

definition split_directive :: "bytes \<Rightarrow> bytes list" where
  "split_directive directive =
     map (\<lambda>v. str_replace v [CHR 0x0D] '':'')
       (str_split (str_replace directive [CHR 0x5C, CHR '':''] [CHR 0x0D]) '':'')"

text \<open>The directives of the configuration; \<open>None\<close> is the error of an index that is no number.\<close>

fun read_tsv_directives :: "bytes list \<Rightarrow> tsv_directive list option" where
  "read_tsv_directives [] = Some []"
| "read_tsv_directives (d # ds) =
     (case split_directive d of
        key # operation # params \<Rightarrow>
          (case atoi key of
             (index, ok) \<Rightarrow>
               if \<not> ok then None
               else map_option (\<lambda>r. \<lparr>td_index = index, td_operation = str_to_lower operation,
                                      td_parameters = map Unescape params\<rparr> # r) (read_tsv_directives ds))
      | _ \<Rightarrow> read_tsv_directives ds)"

definition stringsToTSVValues :: "bytes list \<Rightarrow> tsv_value list" where
  "stringsToTSVValues vs = map (\<lambda>v. \<lparr>tv_quoted = False, tv_value = v\<rparr>) vs"

text \<open>The fields of a user agent and the text each has; other names are ignored.\<close>

definition agent_fields :: "bytes list" where
  "agent_fields = [''mozilla'', ''platform'', ''os'', ''localization'', ''engine'', ''engine_version'', ''browser'', ''version'']"

definition agent_field :: "user_agent \<Rightarrow> bytes \<Rightarrow> bytes option" where
  "agent_field ua field =
     (if field = ''mozilla'' then Some (ua_Mozilla ua)
      else if field = ''platform'' then Some (ua_Platform ua)
      else if field = ''os'' then Some (ua_OS ua)
      else if field = ''localization'' then Some (ua_Localization ua)
      else if field = ''engine'' then Some (fst (ua_Engine ua))
      else if field = ''engine_version'' then Some (snd (ua_Engine ua))
      else if field = ''browser'' then Some (fst (ua_Browser ua))
      else if field = ''version'' then Some (snd (ua_Browser ua))
      else None)"

text \<open>
  Reading a time: the value is cut to the length of the layout, which panics when it is shorter; a value
  that does not parse is left alone.
\<close>

definition convert_time :: "process_env \<Rightarrow> bytes \<Rightarrow> bytes \<Rightarrow> bytes \<Rightarrow> bytes option run" where
  "convert_time env readLayout writeLayout v =
     (if length v < length readLayout then Inl SliceOutOfRange
      else Inr (map_option (pe_time_format env writeLayout) (pe_time_parse env readLayout (take (length readLayout) v))))"

definition processTSVDirective :: "process_env \<Rightarrow> tsv_directive \<Rightarrow> tsv_value list \<Rightarrow> tsv_value list run" where
  "processTSVDirective env d vs =
     (if \<not> int (length vs) > td_index d then Inr vs
      else if td_index d < 0 then Inl IndexOutOfRange
      else
        let i = nat (td_index d); v = tv_value (vs ! i); params = td_parameters d; n = length params;
            set_value = (\<lambda>x. Inr (vs[i := (vs ! i)\<lparr>tv_value := x\<rparr>]))
        in if td_operation d = ''time'' then
             (if n = 2 then run_bind (convert_time env (params ! 0) (params ! 1) v)
                              (\<lambda>t. case t of None \<Rightarrow> Inr vs | Some x \<Rightarrow> set_value x)
              else Inr vs)
           else if td_operation d = ''replace'' then
             (if n = 2 then set_value (str_replace v (Unescape (params ! 0)) (Unescape (params ! 1))) else Inr vs)
           else if td_operation d = ''prefix'' then (if n = 1 then set_value (Unescape (params ! 0) @ v) else Inr vs)
           else if td_operation d = ''postfix'' then (if n = 1 then set_value (v @ Unescape (params ! 0)) else Inr vs)
           else if td_operation d = ''trim'' then
             (if n = 0 then set_value (str_trim v '' '') else if n = 1 then set_value (str_trim v (Unescape (params ! 0))) else Inr vs)
           else if td_operation d = ''quote'' then Inr (vs[i := (vs ! i)\<lparr>tv_quoted := True\<rparr>])
           else if td_operation d = ''remove'' then Inr (take i vs @ drop (Suc i) vs)
           else if td_operation d = ''agent'' then
             (let fields = (if n > 0 then params else agent_fields)
              in Inr (take (Suc i) vs @ stringsToTSVValues (List.map_filter (agent_field (pe_agent env v)) fields) @ drop (Suc i) vs))
           else Inr vs)"

fun process_tsv_all :: "process_env \<Rightarrow> tsv_directive list \<Rightarrow> tsv_value list \<Rightarrow> tsv_value list run" where
  "process_tsv_all env [] vs = Inr vs"
| "process_tsv_all env (d # ds) vs = run_bind (processTSVDirective env d vs) (process_tsv_all env ds)"

subsection \<open>Reading and writing lines\<close>

text \<open>
  One round of the loop over the rest of the line, up to an opening quote: the unquoted fields in front
  of it and what is behind it, or all the fields of a rest that has no quoted field.
\<close>

definition tsv_unquoted :: "bytes \<Rightarrow> bytes \<Rightarrow> tsv_value list \<times> bytes option" where
  "tsv_unquoted delim r =
     (if hd r = CHR 0x22 then ([], Some (tl r))
      else case str_index r (delim @ [CHR 0x22]) of
             None \<Rightarrow> (stringsToTSVValues (str_split r delim), None)
           | Some i \<Rightarrow> (stringsToTSVValues (str_split (take i r) delim), Some (drop (i + length delim + 1) r)))"

lemma tsv_unquoted_shorter: "r \<noteq> [] \<Longrightarrow> tsv_unquoted delim r = (us, Some r') \<Longrightarrow> length r' < length r"
  by (auto simp: tsv_unquoted_def split: if_splits option.splits)

text \<open>The result is \<open>None\<close> for an unmatched quote; the panics are the slices of an empty string.\<close>

function tsv_parse :: "bytes \<Rightarrow> bytes \<Rightarrow> tsv_value list \<Rightarrow> tsv_value list option run" where
  "tsv_parse delim r vs =
     (if r = [] then Inl SliceOutOfRange
      else case tsv_unquoted delim r of
        (us, None) \<Rightarrow> Inr (Some (vs @ us))
      | (us, Some r') \<Rightarrow>
          (case str_index r' (CHR 0x22 # delim) of
             Some i \<Rightarrow> tsv_parse delim (drop (i + 1 + length delim) r') (vs @ us @ [\<lparr>tv_quoted = True, tv_value = take i r'\<rparr>])
           | None \<Rightarrow>
               if r' = [] then Inl SliceOutOfRange
               else if last r' \<noteq> CHR 0x22 then Inr None
               else Inr (Some (vs @ us @ [\<lparr>tv_quoted = True, tv_value = butlast r'\<rparr>]))))"
  by pat_completeness auto

termination
  by (relation "measure (\<lambda>(delim, r, vs). length r)") (auto dest!: tsv_unquoted_shorter dest: sym)

declare tsv_parse.simps [simp del]

definition tsv_text :: "tsv_value \<Rightarrow> bytes" where
  "tsv_text v = (if tv_quoted v then [CHR 0x22] @ tv_value v @ [CHR 0x22] else tv_value v)"

definition tsv_render :: "bytes \<Rightarrow> tsv_value list \<Rightarrow> bytes" where
  "tsv_render delim vs = str_join (map tsv_text vs) delim"

text \<open>The part of \<open>Format\<close> behind the base formatter.\<close>

definition ProcessTSV_Format :: "process_env \<Rightarrow> tsv_directive list \<Rightarrow> bytes \<Rightarrow> bool \<Rightarrow> bytes \<Rightarrow> bytes run" where
  "ProcessTSV_Format env directives delim quotedValues data =
     (if directives = [] then Inr data
      else run_bind (if quotedValues then tsv_parse delim data [] else Inr (Some (stringsToTSVValues (str_split data delim))))
        (\<lambda>r. case r of
           None \<Rightarrow> Inr data
         | Some vs \<Rightarrow> run_bind (process_tsv_all env directives vs) (\<lambda>vs. Inr (tsv_render delim vs))))"

subsection \<open>Lemmas\<close>

lemma str_join_append: "xs \<noteq> [] \<Longrightarrow> ys \<noteq> [] \<Longrightarrow> str_join (xs @ ys) sep = str_join xs sep @ sep @ str_join ys sep"
proof (induction xs rule: list_nonempty_induct)
  case (cons x xs)
  then show ?case by (simp add: str_join_Cons)
qed (simp add: str_join_Cons)

lemma tsv_render_append:
  "vs \<noteq> [] \<Longrightarrow> ws \<noteq> [] \<Longrightarrow> tsv_render delim (vs @ ws) = tsv_render delim vs @ delim @ tsv_render delim ws"
  by (simp add: tsv_render_def str_join_append)

lemma tsv_render_single [simp]: "tsv_render delim [v] = tsv_text v"
  by (simp add: tsv_render_def)

lemma tsv_render_strings [simp]: "tsv_render delim (stringsToTSVValues vs) = str_join vs delim"
  by (simp add: tsv_render_def stringsToTSVValues_def comp_def tsv_text_def)

lemma stringsToTSVValues_Nil [simp]: "stringsToTSVValues vs = [] \<longleftrightarrow> vs = []"
  by (simp add: stringsToTSVValues_def)

text \<open>What one round read, rendered, is the text it read.\<close>

lemma tsv_unquoted_render:
  assumes "delim \<noteq> []" "r \<noteq> []" "tsv_unquoted delim r = (us, rest)"
  shows "case rest of
      None \<Rightarrow> us \<noteq> [] \<and> tsv_render delim us = r
    | Some r' \<Rightarrow> r = (if us = [] then [] else tsv_render delim us @ delim) @ CHR 0x22 # r'"
proof (cases "hd r = CHR 0x22")
  case True
  with assms(2,3) show ?thesis by (cases r) (auto simp: tsv_unquoted_def)
next
  case False
  show ?thesis
  proof (cases "str_index r (delim @ [CHR 0x22])")
    case None
    with False assms show ?thesis by (auto simp: tsv_unquoted_def str_join_split str_split_nonempty)
  next
    case (Some i)
    from str_index_decomp [OF Some] have "r = take i r @ delim @ CHR 0x22 # drop (i + length delim + 1) r"
      by (simp add: add.assoc)
    with False assms Some show ?thesis by (auto simp: tsv_unquoted_def str_join_split str_split_nonempty)
  qed
qed

lemma tsv_render_join: "tsv_render delim (us @ [v]) = (if us = [] then [] else tsv_render delim us @ delim) @ tsv_text v"
  by (simp add: tsv_render_append)

lemma tsv_parse_render:
  "delim \<noteq> [] \<Longrightarrow> tsv_parse delim r acc = Inr (Some vs) \<Longrightarrow> \<exists>ws. vs = acc @ ws \<and> ws \<noteq> [] \<and> tsv_render delim ws = r"
proof (induction delim r acc rule: tsv_parse.induct)
  case (1 delim r acc)
  note step = tsv_parse.simps [of delim r acc]
  have r: "r \<noteq> []" using 1(3) step by (auto split: if_splits)
  obtain us rest where u: "tsv_unquoted delim r = (us, rest)" by fastforce
  note ur = tsv_unquoted_render [OF 1(2) r u]
  show ?case
  proof (cases rest)
    case None
    with 1(3) r u ur step show ?thesis by (intro exI [of _ us]) simp
  next
    case rest: (Some r')
    then have r': "r = (if us = [] then [] else tsv_render delim us @ delim) @ CHR 0x22 # r'" using ur by simp
    show ?thesis
    proof (cases "str_index r' (CHR 0x22 # delim)")
      case None
      with 1(3) r u rest step have "r' \<noteq> []" "last r' = CHR 0x22"
        "vs = acc @ us @ [\<lparr>tv_quoted = True, tv_value = butlast r'\<rparr>]" by (auto split: if_splits)
      moreover have "tsv_text \<lparr>tv_quoted = True, tv_value = butlast r'\<rparr> = CHR 0x22 # r'"
        using calculation(1,2) append_butlast_last_id [of r'] by (simp add: tsv_text_def)
      ultimately show ?thesis using r' tsv_render_join [of delim us]
        by (intro exI [of _ "us @ [\<lparr>tv_quoted = True, tv_value = butlast r'\<rparr>]"]) simp
    next
      case (Some i)
      let ?q = "\<lparr>tv_quoted = True, tv_value = take i r'\<rparr>" and ?r = "drop (i + 1 + length delim) r'"
      have nxt: "tsv_parse delim ?r (acc @ us @ [?q]) = Inr (Some vs)" using 1(3) r u rest Some step by simp
      from 1(1) [OF r u [symmetric] rest Some 1(2) nxt] obtain ws where
        ws: "vs = (acc @ us @ [?q]) @ ws" "ws \<noteq> []" "tsv_render delim ws = ?r" by blast
      have "r' = take i r' @ CHR 0x22 # delim @ ?r" using str_index_decomp [OF Some] by simp
      then have "tsv_text ?q @ delim @ ?r = CHR 0x22 # r'" by (simp add: tsv_text_def)
      then have "tsv_render delim ((us @ [?q]) @ ws) = r"
        using r' ws(2,3) tsv_render_join [of delim us ?q] tsv_render_append [of "us @ [?q]" ws delim] by simp
      with ws(1,2) show ?thesis by (intro exI [of _ "(us @ [?q]) @ ws"]) simp
    qed
  qed
qed

text \<open>
  Fields that a line can hold: no delimiter in an unquoted field, which does not start with a quote
  either, and no quote in a quoted one. A line of quoted fields may not end in an empty unquoted field.
\<close>

definition plain_field :: "char \<Rightarrow> tsv_value \<Rightarrow> bool" where
  "plain_field c v \<longleftrightarrow>
     (if tv_quoted v then CHR 0x22 \<notin> set (tv_value v)
      else c \<notin> set (tv_value v) \<and> (tv_value v = [] \<or> hd (tv_value v) \<noteq> CHR 0x22))"

definition plain_line :: "char \<Rightarrow> tsv_value list \<Rightarrow> bool" where
  "plain_line c vs \<longleftrightarrow> vs \<noteq> [] \<and> c \<noteq> CHR 0x22 \<and> list_all (plain_field c) vs \<and> (tv_quoted (last vs) \<or> tv_value (last vs) \<noteq> [])"

lemma strings_of_unquoted: "list_all (\<lambda>v. \<not> tv_quoted v) us \<Longrightarrow> stringsToTSVValues (map tv_value us) = us"
  by (induction us) (auto simp: stringsToTSVValues_def)

lemma text_of_unquoted: "list_all (\<lambda>v. \<not> tv_quoted v) us \<Longrightarrow> map tsv_text us = map tv_value us"
  by (induction us) (auto simp: tsv_text_def)

text \<open>The text of unquoted fields has no delimiter that is followed by a quote.\<close>

fun pairless :: "char \<Rightarrow> char \<Rightarrow> bytes \<Rightarrow> bool" where
  "pairless a b [] = True"
| "pairless a b (x # s) = (pairless a b s \<and> \<not> (x = a \<and> s \<noteq> [] \<and> hd s = b))"

lemma take_two: "take (length [a, b]) (x # s) = [a, b] \<longleftrightarrow> x = a \<and> s \<noteq> [] \<and> hd s = b"
  by (cases s) auto

lemma pairless_index: "pairless a b s \<Longrightarrow> str_index s [a, b] = None"
proof (induction s)
  case (Cons x s)
  then show ?case using take_two [of a b x s] by simp
qed simp

lemma pairless_index_first: "pairless a b (s @ [a]) \<Longrightarrow> str_index (s @ a # b # t) [a, b] = Some (length s)"
proof (induction s)
  case (Cons x s)
  have "\<not> (x = a \<and> hd (s @ a # b # t) = b)" using Cons.prems by (cases s) auto
  then show ?case using Cons take_two [of a b x "s @ a # b # t"] by (simp del: length_Cons)
qed simp

lemma pairless_skip: "a \<notin> set v \<Longrightarrow> pairless a b (v @ s) \<longleftrightarrow> pairless a b s"
  by (induction v) auto

lemma pairless_join:
  assumes "c \<noteq> CHR 0x22" "list_all (\<lambda>v. c \<notin> set v \<and> (v = [] \<or> hd v \<noteq> CHR 0x22)) xs" "s = [] \<or> s = [c]" "xs \<noteq> []"
  shows "pairless c (CHR 0x22) (str_join xs [c] @ s) \<and> (str_join xs [c] = [] \<or> hd (str_join xs [c]) \<noteq> CHR 0x22)"
  using assms(4,2)
proof (induction xs rule: list_nonempty_induct)
  case (single x)
  then show ?case using assms(3) by (auto simp: pairless_skip)
next
  case (cons x xs)
  have "pairless c (CHR 0x22) (c # str_join xs [c] @ s)" using cons assms(1,3) by (auto simp: hd_append)
  then show ?case using cons assms(1) by (cases x) (auto simp: str_join_Cons pairless_skip)
qed

text \<open>The rounds of the loop on a line that was rendered from plain fields.\<close>

lemma unquoted_strings:
  assumes "list_all (\<lambda>v. \<not> tv_quoted v \<and> plain_field c v) us" "c \<noteq> CHR 0x22"
  shows "list_all (\<lambda>v. c \<notin> set v \<and> (v = [] \<or> hd v \<noteq> CHR 0x22)) (map tv_value us)" "stringsToTSVValues (map tv_value us) = us"
    "map tsv_text us = map tv_value us"
  using assms(1) strings_of_unquoted [of us] text_of_unquoted [of us]
  by (auto simp: list_all_iff plain_field_def)

lemma tsv_unquoted_last:
  assumes "list_all (\<lambda>v. \<not> tv_quoted v \<and> plain_field c v) us" "us \<noteq> []" "c \<noteq> CHR 0x22" "tsv_render [c] us \<noteq> []"
  shows "tsv_unquoted [c] (tsv_render [c] us) = (us, None)"
proof -
  note u = unquoted_strings [OF assms(1,3)]
  have j: "pairless c (CHR 0x22) (str_join (map tv_value us) [c])" "hd (str_join (map tv_value us) [c]) \<noteq> CHR 0x22"
    using pairless_join [OF assms(3) u(1), of "[]"] assms(2,4) by (auto simp: tsv_render_def u(3))
  have "str_split (str_join (map tv_value us) [c]) [c] = map tv_value us"
    using u(1) assms(2) by (intro str_split_join) (auto simp: list_all_iff)
  with j show ?thesis by (simp add: tsv_unquoted_def tsv_render_def u pairless_index)
qed

lemma tsv_unquoted_next:
  assumes "list_all (\<lambda>v. \<not> tv_quoted v \<and> plain_field c v) us" "c \<noteq> CHR 0x22"
  shows "tsv_unquoted [c] ((if us = [] then [] else tsv_render [c] us @ [c]) @ CHR 0x22 # r) = (us, Some r)"
proof (cases "us = []")
  case False
  note u = unquoted_strings [OF assms]
  let ?j = "str_join (map tv_value us) [c]"
  have "pairless c (CHR 0x22) (?j @ [c])" "?j = [] \<or> hd ?j \<noteq> CHR 0x22"
    using pairless_join [OF assms(2) u(1), of "[c]"] False by auto
  then have "str_index (?j @ c # CHR 0x22 # r) [c, CHR 0x22] = Some (length ?j)" "hd (?j @ c # CHR 0x22 # r) \<noteq> CHR 0x22"
    using assms(2) pairless_index_first [of c "CHR 0x22" ?j r] by (auto simp: hd_append)
  moreover have "str_split ?j [c] = map tv_value us"
    using u(1) False by (intro str_split_join) (auto simp: list_all_iff)
  ultimately show ?thesis using False by (simp add: tsv_unquoted_def tsv_render_def u)
qed (simp add: tsv_unquoted_def)

lemma tsv_parse_rendered:
  "plain_line c vs \<Longrightarrow> tsv_parse [c] (tsv_render [c] vs) acc = Inr (Some (acc @ vs))"
proof (induction "length vs" arbitrary: vs acc rule: less_induct)
  case less
  define us where "us = takeWhile (\<lambda>v. \<not> tv_quoted v) vs"
  have c: "c \<noteq> CHR 0x22" and all: "list_all (plain_field c) vs" and vs: "vs \<noteq> []"
    and lst: "tv_quoted (last vs) \<or> tv_value (last vs) \<noteq> []" using less.prems by (auto simp: plain_line_def)
  have us: "list_all (\<lambda>v. \<not> tv_quoted v \<and> plain_field c v) us"
    using all by (auto simp: us_def list_all_iff dest: set_takeWhileD)
  show ?case
  proof (cases "dropWhile (\<lambda>v. \<not> tv_quoted v) vs")
    case Nil
    then have "us = vs" unfolding us_def by (metis append_Nil2 takeWhile_dropWhile_id)
    moreover have "tsv_render [c] vs \<noteq> []"
    proof -
      have "vs = butlast vs @ [last vs]" using vs by simp
      moreover have "tsv_text (last vs) \<noteq> []" using lst by (auto simp: tsv_text_def)
      ultimately show ?thesis using tsv_render_join [of "[c]" "butlast vs" "last vs"] by (metis append_is_Nil_conv)
    qed
    ultimately show ?thesis using tsv_unquoted_last [OF us _ c] vs by (subst tsv_parse.simps) simp
  next
    case (Cons q ws)
    then have split: "vs = us @ q # ws" unfolding us_def by (metis takeWhile_dropWhile_id)
    have q: "tv_quoted q" using Cons by (metis dropWhile_eq_Cons_conv)
    then have pq: "CHR 0x22 \<notin> set (tv_value q)" using all split by (auto simp: plain_field_def list_all_iff)
    have q_eq: "\<lparr>tv_quoted = True, tv_value = tv_value q\<rparr> = q" using q by (cases q) simp
    let ?pre = "if us = [] then [] else tsv_render [c] us @ [c]"
    show ?thesis
    proof (cases "ws = []")
      case True
      then have "tsv_render [c] vs = ?pre @ CHR 0x22 # tv_value q @ [CHR 0x22]"
        using tsv_render_join [of "[c]" us q] split q by (simp add: tsv_text_def)
      moreover have "str_index (tv_value q @ [CHR 0x22]) [CHR 0x22, c] = None"
      proof (rule pairless_index)
        show "pairless (CHR 0x22) c (tv_value q @ [CHR 0x22])" using pq by (simp add: pairless_skip)
      qed
      ultimately show ?thesis using tsv_unquoted_next [OF us c, of "tv_value q @ [CHR 0x22]"] split True q_eq
        by (subst tsv_parse.simps) simp
    next
      case False
      have r: "tsv_render [c] vs = ?pre @ CHR 0x22 # tv_value q @ CHR 0x22 # c # tsv_render [c] ws"
        using tsv_render_join [of "[c]" us q] tsv_render_append [of "us @ [q]" ws "[c]"] split False q by (simp add: tsv_text_def)
      have "pairless (CHR 0x22) c (tv_value q @ [CHR 0x22])" using pq by (simp add: pairless_skip)
      then have i: "str_index (tv_value q @ CHR 0x22 # c # tsv_render [c] ws) [CHR 0x22, c] = Some (length (tv_value q))"
        by (rule pairless_index_first)
      have "plain_line c ws" using less.prems split False by (auto simp: plain_line_def)
      then have "tsv_parse [c] (tsv_render [c] ws) (acc @ us @ [q]) = Inr (Some ((acc @ us @ [q]) @ ws))"
        using split by (intro less.hyps) simp_all
      then show ?thesis using tsv_unquoted_next [OF us c, of "tv_value q @ CHR 0x22 # c # tsv_render [c] ws"] r i q_eq split
        by (subst tsv_parse.simps) simp
    qed
  qed
qed

text \<open>Without a quote in the line both modes read the same fields.\<close>

lemma str_index_missing: "x \<in> set sep \<Longrightarrow> x \<notin> set s \<Longrightarrow> str_index s sep = None"
proof (induction s)
  case (Cons y s)
  have "take (length sep) (y # s) \<noteq> sep" using Cons.prems by (metis in_set_takeD)
  with Cons show ?case by simp
qed auto

lemma tsv_parse_no_quote:
  assumes "CHR 0x22 \<notin> set data" "data \<noteq> []"
  shows "tsv_parse delim data vs = Inr (Some (vs @ stringsToTSVValues (str_split data delim)))"
proof -
  have "hd data \<noteq> CHR 0x22" using assms by (metis hd_in_set)
  with assms show ?thesis
    by (subst tsv_parse.simps) (simp add: tsv_unquoted_def str_index_missing [of "CHR 0x22"])
qed

text \<open>A directive for one column leaves the other columns alone, unless it removes or inserts.\<close>

lemma processTSVDirective_other:
  assumes "processTSVDirective env d vs = Inr ws" "td_operation d \<noteq> ''remove''" "td_operation d \<noteq> ''agent''"
  shows "length ws = length vs \<and> (\<forall>j. int j \<noteq> td_index d \<longrightarrow> ws ! j = vs ! j)"
proof -
  have "j \<noteq> nat (td_index d)" if "int j \<noteq> td_index d" "\<not> td_index d < 0" for j using that by auto
  then show ?thesis using assms
    by (auto simp: processTSVDirective_def Let_def run_bind_Inr_iff split: if_splits option.splits)
qed

lemma process_tsv_all_beyond:
  "list_all (\<lambda>d. int (length vs) \<le> td_index d) ds \<Longrightarrow> process_tsv_all env ds vs = Inr vs"
  by (induction ds) (auto simp: processTSVDirective_def)

subsection \<open>Properties\<close>

text \<open>The fields a line is taken apart into make up the line: rendering what \<open>Format\<close> parsed gives every
  byte back, so a line whose directives address no column of it leaves the formatter unchanged.\<close>

theorem tsv_parse_exact:
  assumes "delim \<noteq> []" "tsv_parse delim data [] = Inr (Some vs)" "list_all (\<lambda>d. int (length vs) \<le> td_index d) ds"
  shows "tsv_render delim vs = data \<and> ProcessTSV_Format env ds delim True data = Inr data"
proof -
  have "tsv_render delim vs = data" using tsv_parse_render [OF assms(1,2)] by simp
  with assms show ?thesis by (simp add: ProcessTSV_Format_def process_tsv_all_beyond)
qed

theorem tsv_parse_exact_witness:
  "tsv_render '','' [\<lparr>tv_quoted = False, tv_value = ''a''\<rparr>, \<lparr>tv_quoted = True, tv_value = ''b,c''\<rparr>] = ''a,'' @ [CHR 0x22] @ ''b,c'' @ [CHR 0x22]"
proof -
  let ?data = "''a,'' @ [CHR 0x22] @ ''b,c'' @ [CHR 0x22]"
  let ?vs = "[\<lparr>tv_quoted = False, tv_value = ''a''\<rparr>, \<lparr>tv_quoted = True, tv_value = ''b,c''\<rparr>]"
  have parse: "tsv_parse '','' ?data [] = Inr (Some ?vs)"
    by (subst tsv_parse.simps) (simp add: tsv_unquoted_def stringsToTSVValues_def str_split.simps)
  have "list_all (\<lambda>d. int (length ?vs) \<le> td_index d) [\<lparr>td_index = 2, td_operation = ''remove'', td_parameters = []\<rparr>]" by simp
  from tsv_parse_exact [OF _ parse this] show ?thesis by simp
qed

text \<open>C29: \<open>Format\<close> works on the fields: for a line of plain fields, quoted ones among them, it is the line of
  the fields the directives make of them, and it panics exactly when a directive does.\<close>

theorem tsv_Format_fields:
  assumes "plain_line c vs" "ds \<noteq> []"
  shows "ProcessTSV_Format env ds [c] True (tsv_render [c] vs) =
    run_bind (process_tsv_all env ds vs) (\<lambda>ws. Inr (tsv_render [c] ws))"
  using tsv_parse_rendered [OF assms(1), of "[]"] assms(2) by (simp add: ProcessTSV_Format_def)

theorem tsv_Format_fields_witness:
  "\<forall>env. ProcessTSV_Format env [\<lparr>td_index = 1, td_operation = ''prefix'', td_parameters = [''x'']\<rparr>,
      \<lparr>td_index = 0, td_operation = ''remove'', td_parameters = []\<rparr>] '','' True (''a,'' @ [CHR 0x22] @ ''b,c'' @ [CHR 0x22])
    = Inr ([CHR 0x22] @ ''xb,c'' @ [CHR 0x22])"
proof
  fix env
  let ?ds = "[\<lparr>td_index = 1, td_operation = ''prefix'', td_parameters = [''x'']\<rparr>, \<lparr>td_index = 0, td_operation = ''remove'', td_parameters = []\<rparr>]"
  let ?vs = "[\<lparr>tv_quoted = False, tv_value = ''a''\<rparr>, \<lparr>tv_quoted = True, tv_value = ''b,c''\<rparr>]"
  have "plain_line (CHR '','') ?vs" by (simp add: plain_line_def plain_field_def)
  then have "ProcessTSV_Format env ?ds '','' True (tsv_render '','' ?vs) =
      run_bind (process_tsv_all env ?ds ?vs) (\<lambda>ws. Inr (tsv_render '','' ws))" by (rule tsv_Format_fields) simp
  then show "ProcessTSV_Format env ?ds '','' True (''a,'' @ [CHR 0x22] @ ''b,c'' @ [CHR 0x22]) = Inr ([CHR 0x22] @ ''xb,c'' @ [CHR 0x22])"
    by (simp add: processTSVDirective_def Let_def Unescape_id tsv_render_def tsv_text_def)
qed



text \<open>Some lines panic: an empty line with quoted values on, a line that ends in a delimiter behind a quoted
  value, a single quote, and a value that is shorter than the layout a time directive reads it with.\<close>

theorem tsv_panics:
  assumes "CHR 0x22 \<notin> set v" "length v < length l" "td_index d < 0"
  shows "tsv_parse delim [] vs = Inl SliceOutOfRange \<and>
    tsv_parse delim ([CHR 0x22] @ v @ [CHR 0x22] @ delim) vs = Inl SliceOutOfRange \<and>
    tsv_parse delim [CHR 0x22] vs = Inl SliceOutOfRange \<and>
    processTSVDirective env \<lparr>td_index = 0, td_operation = ''time'', td_parameters = [l, w]\<rparr> [\<lparr>tv_quoted = q, tv_value = v\<rparr>] =
      Inl SliceOutOfRange \<and>
    processTSVDirective env d ws = Inl IndexOutOfRange"
proof (intro conjI)
  have "str_index (v @ CHR 0x22 # delim) (CHR 0x22 # delim) = Some (length v)"
    using str_index_skip [of "CHR 0x22 # delim" "CHR 0x22" delim v "[]"] assms(1) by simp
  then show "tsv_parse delim ([CHR 0x22] @ v @ [CHR 0x22] @ delim) vs = Inl SliceOutOfRange"
    by (subst tsv_parse.simps) (simp add: tsv_unquoted_def tsv_parse.simps [of delim "[]"])
qed (use assms in \<open>simp_all add: tsv_parse.simps tsv_unquoted_def processTSVDirective_def convert_time_def Let_def\<close>)

theorem tsv_panics_witness:
  "tsv_parse '','' ([CHR 0x22] @ ''a'' @ [CHR 0x22] @ '','') [] = Inl SliceOutOfRange"
  using tsv_panics [of "''a''" "''2006''" "\<lparr>td_index = - 1, td_operation = [], td_parameters = []\<rparr>" "'',''" "[]"] by simp

end
