(* ===== verification/ProcessJSONs.thy ===== *)
theory ProcessJSONs
  imports ProcessTSVs
begin

text \<open>
  \<open>format/processjson.go\<close>: directives that change the fields of a JSON object. Decoding and encoding, the
  user agent parser and the GeoIP database are functions of \<open>process_env\<close>. The directive \<open>remove\<close> moves the
  elements of an array in place, which every slice of it sees, also one that \<open>pick\<close> took out of another
  array; so arrays live in a store here. A decoded message (\<open>gval\<close>) is loaded into the store, the
  directives work on slices, and the result is read back for the encoder.
\<close>

record transform_directive =
  tr_key :: bytes
  tr_operation :: bytes
  tr_parameters :: "bytes list"

fun read_transform_directives :: "bytes list \<Rightarrow> transform_directive list" where
  "read_transform_directives [] = []"
| "read_transform_directives (d # ds) =
     (case split_directive d of
        key # operation # params \<Rightarrow>
          \<lparr>tr_key = key, tr_operation = str_to_lower operation, tr_parameters = map Unescape params\<rparr>
            # read_transform_directives ds
      | _ \<Rightarrow> read_transform_directives ds)"

subsection \<open>Values that share arrays\<close>

text \<open>A slice is the first elements of the array at an address (all slices of this file start at the front), or nil.\<close>

datatype array_slice = NilSlice | Slice nat nat

datatype jval = JVal gval | JArray array_slice | JObject "(bytes \<times> jval) list"

abbreviation JString :: "bytes \<Rightarrow> jval" where "JString s \<equiv> JVal (GString s)"

type_synonym jobject = "(bytes \<times> jval) list"
type_synonym arrays = "jval list list"
type_synonym json_doc = "jobject \<times> arrays"

fun slice_items :: "arrays \<Rightarrow> array_slice \<Rightarrow> jval list" where
  "slice_items a NilSlice = []"
| "slice_items a (Slice p n) = take n (a ! p)"

text \<open>The decoder allocates each array behind its elements.\<close>

fun load_value :: "gval \<Rightarrow> arrays \<Rightarrow> jval \<times> arrays"
  and load_values :: "gval list \<Rightarrow> arrays \<Rightarrow> jval list \<times> arrays"
  and load_members :: "marshal_map \<Rightarrow> arrays \<Rightarrow> jobject \<times> arrays" where
  "load_value (GArray vs) a = (case load_values vs a of (xs, a) \<Rightarrow> (JArray (Slice (length a) (length xs)), a @ [xs]))"
| "load_value (GStrMap m) a = (case load_members m a of (ms, a) \<Rightarrow> (JObject ms, a))"
| "load_value v a = (JVal v, a)"
| "load_values [] a = ([], a)"
| "load_values (v # vs) a = (case load_value v a of (x, a) \<Rightarrow> case load_values vs a of (xs, a) \<Rightarrow> (x # xs, a))"
| "load_members [] a = ([], a)"
| "load_members ((k, v) # m) a = (case load_value v a of (x, a) \<Rightarrow> case load_members m a of (ms, a) \<Rightarrow> ((k, x) # ms, a))"

text \<open>
  What the encoder sees; a nil slice is written like \<open>nil\<close>. The fuel bounds how deep arrays are nested: as an array
  holds only arrays with a smaller address, the number of arrays is enough (\<open>read_load\<close>).
\<close>

function read_value :: "nat \<Rightarrow> arrays \<Rightarrow> jval \<Rightarrow> gval" where
  "read_value n a (JVal g) = g"
| "read_value n a (JArray NilSlice) = GNil"
| "read_value 0 a (JArray (Slice p l)) = GNil"
| "read_value (Suc n) a (JArray (Slice p l)) = GArray (map (read_value n a) (take l (a ! p)))"
| "read_value n a (JObject ms) = GStrMap (map (\<lambda>(k, v). (k, read_value n a v)) ms)"
  by pat_completeness auto
termination
proof (relation "measures [\<lambda>(n, a, v). n, \<lambda>(n, a, v). size v]")
  fix n :: nat and a :: arrays and ms :: jobject and kv k v
  assume "kv \<in> set ms" "(k, v) = kv"
  then have "size v < size (JObject ms)" by (induction ms) auto
  then show "((n, a, v), n, a, JObject ms) \<in> measures [\<lambda>(n, a, v). n, \<lambda>(n, a, v). size v]" by simp
qed auto

definition read_object :: "json_doc \<Rightarrow> marshal_map" where
  "read_object = (\<lambda>(m, a). map (\<lambda>(k, v). (k, read_value (length a) a v)) m)"

text \<open>The getters of the map, for the kinds of values a decoded message has.\<close>

definition j_lookup :: "jobject \<Rightarrow> bytes \<Rightarrow> (jval \<Rightarrow> 'a marshal) \<Rightarrow> 'a marshal" where
  "j_lookup m key f = (case map_of m key of None \<Rightarrow> Inl (NotSet key) | Some val \<Rightarrow> f val)"

definition j_String :: "jobject \<Rightarrow> bytes \<Rightarrow> bytes marshal" where
  "j_String m key = j_lookup m key (\<lambda>val. case val of JString s \<Rightarrow> Inr s | _ \<Rightarrow> Inl (NotExpected key ''string''))"

definition j_Float64 :: "jobject \<Rightarrow> bytes \<Rightarrow> u64 marshal" where
  "j_Float64 m key = j_lookup m key (\<lambda>val. case val of JVal (GFloat64 f) \<Rightarrow> Inr f | _ \<Rightarrow> Inl (NotExpected key ''float64''))"

definition j_Array :: "jobject \<Rightarrow> bytes \<Rightarrow> array_slice marshal" where
  "j_Array m key = j_lookup m key (\<lambda>val. case val of JArray s \<Rightarrow> Inr s | _ \<Rightarrow> Inl (NotExpected key ''array''))"

definition j_MarshalMap :: "jobject \<Rightarrow> bytes \<Rightarrow> jobject marshal" where
  "j_MarshalMap m key = j_lookup m key (\<lambda>val. case val of JObject ms \<Rightarrow> Inr ms | _ \<Rightarrow> Inl (NotExpected key ''map[string]interface{}''))"

text \<open>\<open>delete\<close>, and a sequence of assignments.\<close>

definition mm_delete :: "(bytes \<times> 'v) list \<Rightarrow> bytes \<Rightarrow> (bytes \<times> 'v) list" where
  "mm_delete m k = filter (\<lambda>(k', v). k' \<noteq> k) m"

definition mm_set_all :: "(bytes \<times> 'v) list \<Rightarrow> (bytes \<times> 'v) list \<Rightarrow> (bytes \<times> 'v) list" where
  "mm_set_all m kvs = foldl (\<lambda>m (k, v). mm_set m k v) m kvs"

text \<open>A getter whose error ends the directive with a warning.\<close>

definition or_unchanged :: "'a marshal \<Rightarrow> 'm \<Rightarrow> ('a \<Rightarrow> 'm run) \<Rightarrow> 'm run" where
  "or_unchanged r m f = (case r of Inl e \<Rightarrow> Inr m | Inr x \<Rightarrow> f x)"

definition array_or_nil :: "jobject \<Rightarrow> bytes \<Rightarrow> array_slice" where
  "array_or_nil m k = (case j_Array m k of Inl e \<Rightarrow> NilSlice | Inr s \<Rightarrow> s)"

subsection \<open>The operations\<close>

definition pj_rename :: "bytes \<Rightarrow> bytes list \<Rightarrow> jval \<Rightarrow> jobject \<Rightarrow> jobject" where
  "pj_rename key params v m =
     (if length params = 1 then mm_delete (mm_set m (Unescape (params ! 0)) v) key else m)"

definition pj_time :: "process_env \<Rightarrow> bytes \<Rightarrow> bytes list \<Rightarrow> jobject \<Rightarrow> jobject run" where
  "pj_time env key params m =
     or_unchanged (j_String m key) m (\<lambda>s.
       if length params = 2 then
         run_bind (convert_time env (params ! 0) (params ! 1) s)
           (\<lambda>t. Inr (case t of None \<Rightarrow> m | Some x \<Rightarrow> mm_set m key (JString x)))
       else Inr m)"

definition pj_unixtimestamp :: "process_env \<Rightarrow> bytes \<Rightarrow> bytes list \<Rightarrow> jobject \<Rightarrow> jobject run" where
  "pj_unixtimestamp env key params m =
     or_unchanged (j_Float64 m key) m (\<lambda>f.
       let intValue = pe_float_int env f
       in if length params = 2 then
            let set_time = (\<lambda>t. Inr (mm_set m key (JString (pe_time_format env (params ! 1) t))))
            in if params ! 0 = ''s'' then set_time (intValue * 1000000000)
               else if params ! 0 = ''ms'' then set_time (int64 (intValue * 1000000))
               else if params ! 0 = ''ns'' then set_time intValue
               else Inr m
          else Inr m)"

definition pj_split :: "bytes \<Rightarrow> bytes list \<Rightarrow> jobject \<Rightarrow> jobject run" where
  "pj_split key params m =
     or_unchanged (j_String m key) m (\<lambda>s.
       if length params > 1 then
         let token = Unescape (params ! 0)
         in if str_contains s token then Inr (mm_set_all m (zip (drop 1 params) (map JString (str_split s token)))) else Inr m
       else Inr m)"

definition pj_pick :: "bytes \<Rightarrow> bytes list \<Rightarrow> json_doc \<Rightarrow> jobject run" where
  "pj_pick key params = (\<lambda>(m, a).
     (if length params < 2 then Inl IndexOutOfRange
      else
        let index = fst (atoi (params ! 0)); array = slice_items a (array_or_nil m key);
            index = (if index < 0 then int64 (int (length array) - index) else index)
        in if index < 0 \<or> index \<ge> int (length array) then Inr m else Inr (mm_set m (params ! 1) (array ! nat index))))"

text \<open>The loop of \<open>remove\<close>: \<open>k\<close> elements from \<open>ri\<close> on are left to look at, and \<open>wi\<close> elements were kept.\<close>

definition is_removed :: "bytes list \<Rightarrow> jval \<Rightarrow> bool" where
  "is_removed params v \<longleftrightarrow> (case v of JString s \<Rightarrow> s \<in> set params | _ \<Rightarrow> False)"

fun remove_loop :: "bytes list \<Rightarrow> nat \<Rightarrow> nat \<Rightarrow> nat \<Rightarrow> jval list \<Rightarrow> jval list \<times> nat" where
  "remove_loop params 0 ri wi array = (array, wi)"
| "remove_loop params (Suc k) ri wi array =
     (if is_removed params (array ! ri) then remove_loop params k (Suc ri) wi array
      else remove_loop params k (Suc ri) (Suc wi) (if ri \<noteq> wi then array[wi := array ! ri] else array))"

definition pj_remove :: "bytes \<Rightarrow> bytes list \<Rightarrow> json_doc \<Rightarrow> json_doc" where
  "pj_remove key params = (\<lambda>(m, a).
     if params = [] then (mm_delete m key, a)
     else case array_or_nil m key of
            NilSlice \<Rightarrow> (mm_set m key (JArray NilSlice), a)
          | Slice p n \<Rightarrow>
              (case remove_loop params n 0 0 (a ! p) of
                 (array, wi) \<Rightarrow> (mm_set m key (JArray (Slice p wi)), a[p := array])))"

definition pj_replace :: "bytes \<Rightarrow> bytes list \<Rightarrow> jobject \<Rightarrow> jobject run" where
  "pj_replace key params m =
     or_unchanged (j_String m key) m (\<lambda>s.
       if length params = 2 then Inr (mm_set m key (JString (str_replace s (Unescape (params ! 0)) (Unescape (params ! 1)))))
       else Inr m)"

definition pj_trim :: "bytes \<Rightarrow> bytes list \<Rightarrow> jobject \<Rightarrow> jobject run" where
  "pj_trim key params m =
     or_unchanged (j_String m key) m (\<lambda>s.
       if length params = 0 then Inr (mm_set m key (JString (str_trim s [CHR '' '', CHR 0x09])))
       else if length params = 1 then Inr (mm_set m key (JString (str_trim s (Unescape (params ! 0)))))
       else Inr m)"

definition flatten_prefix :: "bytes \<Rightarrow> bytes list \<Rightarrow> bytes" where
  "flatten_prefix key params = key @ (if length params = 1 then params ! 0 else ''.'')"

definition pj_flatten :: "bytes \<Rightarrow> bytes list \<Rightarrow> json_doc \<Rightarrow> jobject" where
  "pj_flatten key params = (\<lambda>(m, a).
     let pre = flatten_prefix key params
     in case j_MarshalMap m key of
          Inr members \<Rightarrow> mm_delete (mm_set_all m (map (\<lambda>(k, v). (pre @ k, v)) members)) key
        | Inl e \<Rightarrow>
            (case j_Array m key of
               Inr s \<Rightarrow>
                 let array = slice_items a s
                 in mm_delete (mm_set_all m (map (\<lambda>(i, v). (pre @ itoa (int i), v)) (zip [0..<length array] array))) key
             | Inl e \<Rightarrow> m))"

definition pj_agent :: "process_env \<Rightarrow> bytes \<Rightarrow> bytes list \<Rightarrow> jobject \<Rightarrow> jobject run" where
  "pj_agent env key params m =
     or_unchanged (j_String m key) m (\<lambda>s.
       let fields = (if params \<noteq> [] then params else agent_fields); ua = pe_agent env s
       in Inr (mm_set_all m (List.map_filter (\<lambda>f. map_option (\<lambda>x. (key @ ''_'' @ f, JString x)) (agent_field ua f)) fields)))"

text \<open>The cleaned addresses are a new array.\<close>

definition pj_ip :: "process_env \<Rightarrow> bytes \<Rightarrow> json_doc \<Rightarrow> json_doc run" where
  "pj_ip env key = (\<lambda>(m, a).
     or_unchanged (j_Array m key) (m, a) (\<lambda>s.
       let sanitized = filter (\<lambda>v. case v of JString s \<Rightarrow> pe_is_ip env s | _ \<Rightarrow> True) (slice_items a s)
       in Inr (mm_set m key (JArray (Slice (length a) (length sanitized))), a @ [sanitized])))"

definition geo_fields :: "bytes list" where
  "geo_fields = [''country'', ''city'', ''continent'', ''timezone'', ''proxy'', ''location'']"

definition optional_field :: "bytes \<Rightarrow> bytes option \<Rightarrow> jobject" where
  "optional_field k v = (case v of None \<Rightarrow> [] | Some x \<Rightarrow> [(k, JString x)])"

text \<open>The assignments of one field of the database record.\<close>

definition geo_field :: "process_env \<Rightarrow> bytes \<Rightarrow> city_record \<Rightarrow> bytes \<Rightarrow> jobject" where
  "geo_field env key r field =
     (if field = ''city'' then optional_field (key @ ''_city'') (c_City r)
      else if field = ''country'' then (key @ ''_countryCode'', JString (c_IsoCode r)) # optional_field (key @ ''_country'') (c_Country r)
      else if field = ''continent'' then
        (key @ ''_continentCode'', JString (c_ContinentCode r)) # optional_field (key @ ''_continent'') (c_Continent r)
      else if field = ''timezone'' then [(key @ ''_timezone'', JString (c_TimeZone r))]
      else if field = ''proxy'' then
        [(key @ ''_proxy'', JVal (GBool (c_IsAnonymousProxy r))), (key @ ''_satellite'', JVal (GBool (c_IsSatelliteProvider r)))]
      else if field = ''location'' then
        [(key @ ''_geocoord'', JVal (GFloats [c_Latitude r, c_Longitude r])),
         (key @ ''_geohash'', JString (pe_geohash env (c_Latitude r) (c_Longitude r)))]
      else [])"

definition pj_geoip :: "process_env \<Rightarrow> bool \<Rightarrow> bytes \<Rightarrow> bytes list \<Rightarrow> jobject \<Rightarrow> jobject run" where
  "pj_geoip env db key params m =
     (if \<not> db then Inr m
      else or_unchanged (j_String m key) m (\<lambda>ip.
        let fields = (if params \<noteq> [] then params else geo_fields)
        in case pe_city env ip of
             None \<Rightarrow> Inr m
           | Some r \<Rightarrow> Inr (mm_set_all m (concat (map (geo_field env key r) fields)))))"

text \<open>The other operations leave the arrays as they are.\<close>

definition same_arrays :: "arrays \<Rightarrow> jobject run \<Rightarrow> json_doc run" where
  "same_arrays a r = run_bind r (\<lambda>m. Inr (m, a))"

definition processDirective :: "process_env \<Rightarrow> bool \<Rightarrow> transform_directive \<Rightarrow> json_doc \<Rightarrow> json_doc run" where
  "processDirective env db d = (\<lambda>(m, a).
     let key = tr_key d; params = tr_parameters d; operation = tr_operation d
     in case map_of m key of
          None \<Rightarrow> Inr (m, a)
        | Some v \<Rightarrow>
            if operation = ''rename'' then Inr (pj_rename key params v m, a)
            else if operation = ''time'' then same_arrays a (pj_time env key params m)
            else if operation = ''unixtimestamp'' then same_arrays a (pj_unixtimestamp env key params m)
            else if operation = ''split'' then same_arrays a (pj_split key params m)
            else if operation = ''pick'' then same_arrays a (pj_pick key params (m, a))
            else if operation = ''remove'' then Inr (pj_remove key params (m, a))
            else if operation = ''replace'' then same_arrays a (pj_replace key params m)
            else if operation = ''trim'' then same_arrays a (pj_trim key params m)
            else if operation = ''flatten'' then Inr (pj_flatten key params (m, a), a)
            else if operation = ''agent'' then same_arrays a (pj_agent env key params m)
            else if operation = ''ip'' then pj_ip env key (m, a)
            else if operation = ''geoip'' then same_arrays a (pj_geoip env db key params m)
            else Inr (m, a))"

fun process_json_all :: "process_env \<Rightarrow> bool \<Rightarrow> transform_directive list \<Rightarrow> json_doc \<Rightarrow> json_doc run" where
  "process_json_all env db [] st = Inr st"
| "process_json_all env db (d # ds) st = run_bind (processDirective env db d st) (process_json_all env db ds)"

definition trim_values :: "jobject \<Rightarrow> jobject" where
  "trim_values m = map (\<lambda>(k, v). (k, case v of JString s \<Rightarrow> JString (str_trim s '' '') | _ \<Rightarrow> v)) m"

text \<open>The part of \<open>Format\<close> behind the base formatter; \<open>unmarshal\<close> decodes the payload.\<close>

definition ProcessJSON_Format ::
  "process_env \<Rightarrow> (bytes \<Rightarrow> marshal_map option) \<Rightarrow> transform_directive list \<Rightarrow> bool \<Rightarrow> bool \<Rightarrow> bytes \<Rightarrow> bytes run" where
  "ProcessJSON_Format env unmarshal directives trimValues db data =
     (if directives = [] then Inr data
      else case unmarshal data of
             None \<Rightarrow> Inr data
           | Some m \<Rightarrow> run_bind (process_json_all env db directives (load_members m [])) (\<lambda>(m, a).
               let m = (if trimValues then trim_values m else m)
               in Inr (case pe_json_marshal env (read_object (m, a)) of None \<Rightarrow> data | Some jsonData \<Rightarrow> jsonData)))"

subsection \<open>Lemmas\<close>

lemma mm_set_keys: "fst ` set (mm_set m k v) = insert k (fst ` set m)"
  by (induction m k v rule: mm_set.induct) auto

lemma mm_set_distinct: "distinct (map fst m) \<Longrightarrow> distinct (map fst (mm_set m k v))"
proof (induction m k v rule: mm_set.induct)
  case (2 k' v' m k v)
  then show ?case using mm_set_keys [of m k v] by (auto simp: image_iff)
qed simp

lemma set_mm_set: "set (mm_set m k v) \<subseteq> insert (k, v) (set m)"
  by (induction m k v rule: mm_set.induct) auto

lemma mm_delete_lookup: "map_of (mm_delete m k) k' = (if k' = k then None else map_of m k')"
  by (induction m) (auto simp: mm_delete_def)

lemma mm_delete_distinct: "distinct (map fst m) \<Longrightarrow> distinct (map fst (mm_delete m k))"
  by (induction m) (auto simp: mm_delete_def image_iff)

lemma mm_set_all_lookup: "map_of (mm_set_all m kvs) k = (case map_of (rev kvs) k of Some v \<Rightarrow> Some v | None \<Rightarrow> map_of m k)"
  by (induction kvs rule: rev_induct) (auto simp: mm_set_all_def mm_set_lookup)

lemma mm_set_all_distinct: "distinct (map fst m) \<Longrightarrow> distinct (map fst (mm_set_all m kvs))"
  by (induction kvs rule: rev_induct) (auto simp: mm_set_all_def mm_set_distinct)

lemma set_mm_set_all: "set (mm_set_all m kvs) \<subseteq> set m \<union> set kvs"
proof (induction kvs rule: rev_induct)
  case (snoc kv kvs)
  then show ?case using set_mm_set [of "mm_set_all m kvs" "fst kv" "snd kv"] by (cases kv) (auto simp: mm_set_all_def)
qed (simp add: mm_set_all_def)

lemma mm_set_all_other: "k \<notin> fst ` set kvs \<Longrightarrow> map_of (mm_set_all m kvs) k = map_of m k"
proof -
  assume "k \<notin> fst ` set kvs"
  then have "map_of (rev kvs) k = None" by (simp add: map_of_eq_None_iff)
  then show ?thesis by (simp add: mm_set_all_lookup)
qed

lemma trim_values_keys: "map fst (trim_values m) = map fst m"
  by (simp add: trim_values_def case_prod_unfold)

lemma or_unchanged_Inr: "or_unchanged r m f = Inr x \<longleftrightarrow> (case r of Inl e \<Rightarrow> x = m | Inr y \<Rightarrow> f y = Inr x)"
  by (auto simp: or_unchanged_def split: sum.splits)

lemma same_arrays_Inr: "same_arrays a r = Inr (m', a') \<longleftrightarrow> r = Inr m' \<and> a' = a"
  by (auto simp: same_arrays_def run_bind_Inr_iff)

lemmas pj_defs = pj_rename_def pj_time_def pj_unixtimestamp_def pj_split_def pj_pick_def pj_remove_def pj_replace_def
  pj_trim_def pj_flatten_def pj_agent_def pj_ip_def pj_geoip_def

lemma j_String_Inr: "j_String m k = Inr s \<longleftrightarrow> map_of m k = Some (JString s)"
  by (cases "map_of m k") (auto simp: j_String_def j_lookup_def split: jval.splits gval.splits)

lemma j_Array_Inr: "j_Array m k = Inr s \<longleftrightarrow> map_of m k = Some (JArray s)"
  by (cases "map_of m k") (auto simp: j_Array_def j_lookup_def split: jval.splits)

lemma j_MarshalMap_Inr: "j_MarshalMap m k = Inr ms \<longleftrightarrow> map_of m k = Some (JObject ms)"
  by (cases "map_of m k") (auto simp: j_MarshalMap_def j_lookup_def split: jval.splits)

text \<open>\<open>remove\<close> moves the elements it keeps to the front, in order, and leaves the rest of the array as it was.\<close>

lemma remove_loop_inv:
  assumes "ri + k \<le> length array" "wi \<le> ri"
  shows "remove_loop params k ri wi array =
    (let kept = filter (\<lambda>v. \<not> is_removed params v) (take k (drop ri array))
     in (take wi array @ kept @ drop (wi + length kept) array, wi + length kept))"
  using assms
proof (induction k arbitrary: ri wi array)
  case (Suc k)
  have r: "ri < length array" using Suc.prems by simp
  have t: "take (Suc k) (drop ri array) = array ! ri # take k (drop (Suc ri) array)"
    using r by (simp add: Cons_nth_drop_Suc [symmetric])
  show ?case
  proof (cases "is_removed params (array ! ri)")
    case True
    then show ?thesis using Suc.IH [of "Suc ri" array wi] Suc.prems t by simp
  next
    case False
    let ?b = "array[wi := array ! ri]"
    have b: "remove_loop params (Suc k) ri wi array = remove_loop params k (Suc ri) (Suc wi) ?b" using False by (cases "ri = wi") simp_all
    have d: "drop (Suc ri) ?b = drop (Suc ri) array" using Suc.prems by (simp add: drop_update_cancel)
    have w: "take (Suc wi) ?b = take wi array @ [array ! ri]" using Suc.prems r by (simp add: take_Suc_conv_app_nth)
    have e: "drop (Suc (wi + n)) ?b = drop (Suc (wi + n)) array" for n by (simp add: drop_update_cancel)
    show ?thesis using Suc.IH [of "Suc ri" ?b "Suc wi"] Suc.prems False t by (simp add: b Let_def d w e del: remove_loop.simps)
  qed
qed simp

lemma remove_loop_spec:
  "n \<le> length array \<Longrightarrow> remove_loop params n 0 0 array =
     (let kept = filter (\<lambda>v. \<not> is_removed params v) (take n array) in (kept @ drop (length kept) array, length kept))"
  using remove_loop_inv [of 0 n array 0 params] by simp

text \<open>The arrays a value refers to, without the ones in them.\<close>

fun addresses :: "jval \<Rightarrow> nat set" where
  "addresses (JVal g) = {}"
| "addresses (JArray NilSlice) = {}"
| "addresses (JArray (Slice p n)) = {p}"
| "addresses (JObject ms) = (\<Union>(k, v) \<in> set ms. addresses v)"

lemma addresses_JObject [simp]: "addresses (JObject ms) \<subseteq> R \<longleftrightarrow> (\<forall>(k, v)\<in>set ms. addresses v \<subseteq> R)"
  by (auto simp: UN_subset_iff split: prod.splits)

declare addresses.simps(4) [simp del]

text \<open>A loaded value refers to arrays of its own, and each of them only to earlier ones.\<close>

definition own :: "nat \<Rightarrow> arrays \<Rightarrow> bool" where
  "own lo a \<longleftrightarrow> (\<forall>p. lo \<le> p \<and> p < length a \<longrightarrow> (\<forall>x\<in>set (a ! p). addresses x \<subseteq> {lo..<p}))"

lemma own_self [simp]: "own (length a) a"
  by (auto simp: own_def)

lemma own_trans:
  assumes "own lo a" "own (length a) b" "prefix a b" "lo \<le> length a"
  shows "own lo b"
  unfolding own_def
proof (intro allI impI ballI)
  fix p x assume p: "lo \<le> p \<and> p < length b" and x: "x \<in> set (b ! p)"
  show "addresses x \<subseteq> {lo..<p}"
  proof (cases "p < length a")
    case True
    then have "b ! p = a ! p" using assms(3) by (auto simp: prefix_def nth_append)
    then show ?thesis using assms(1) p x True by (simp add: own_def)
  next
    case False
    then have "addresses x \<subseteq> {length a..<p}" using assms(2) p x by (simp add: own_def)
    then show ?thesis using assms(4) by (meson atLeastLessThan_subset_iff ivl_subset order_refl subset_trans)
  qed
qed

lemma own_snoc: "own lo a \<Longrightarrow> lo \<le> length a \<Longrightarrow> \<forall>x\<in>set xs. addresses x \<subseteq> {lo..<length a} \<Longrightarrow> own lo (a @ [xs])"
  by (auto simp: own_def nth_append less_Suc_eq)

lemma prefix_length_trans: "prefix a b \<Longrightarrow> prefix b c \<Longrightarrow> prefix a c \<and> length a \<le> length b \<and> length b \<le> length c"
  by (auto dest: prefix_length_le prefix_order.trans)

lemma load_own:
  "load_value g a = (v, a') \<Longrightarrow> prefix a a' \<and> addresses v \<subseteq> {length a..<length a'} \<and> own (length a) a'"
  "load_values gs a = (xs, a') \<Longrightarrow> prefix a a' \<and> (\<forall>x\<in>set xs. addresses x \<subseteq> {length a..<length a'}) \<and> own (length a) a'"
  "load_members m a = (ms, a') \<Longrightarrow> prefix a a' \<and> (\<forall>(k, x)\<in>set ms. addresses x \<subseteq> {length a..<length a'}) \<and> own (length a) a'"
proof (induction g a and gs a and m a arbitrary: v a' and xs a' and ms a' rule: load_value_load_values_load_members.induct)
  case (1 vs a)
  obtain ys b where b: "load_values vs a = (ys, b)" by fastforce
  from "1.IH" [OF b] "1.prems" b show ?case
    by (auto simp: own_snoc dest: prefix_length_le intro: prefix_prefix)
next
  case (2 m a)
  obtain ys b where b: "load_members m a = (ys, b)" by fastforce
  moreover have "v = JObject ys" "a' = b" using "2.prems" b by simp_all
  ultimately show ?case using "2.IH" [OF b] by simp
next
  case (5 v vs a)
  obtain x b where b: "load_value v a = (x, b)" by fastforce
  obtain ys c where c: "load_values vs b = (ys, c)" by fastforce
  have x: "prefix a b" "addresses x \<subseteq> {length a..<length b}" "own (length a) b" using "5.IH"(1) [OF b] by blast+
  have y: "prefix b c" "(\<forall>y\<in>set ys. addresses y \<subseteq> {length b..<length c})" "own (length b) c" using "5.IH"(2) [OF b [symmetric] c] by blast+
  note le = prefix_length_trans [OF x(1) y(1)]
  have "{length a..<length b} \<subseteq> {length a..<length c}" "{length b..<length c} \<subseteq> {length a..<length c}" using le by auto
  with x(2) y(2) have "addresses x \<subseteq> {length a..<length c}" "\<forall>y\<in>set ys. addresses y \<subseteq> {length a..<length c}" by (meson order_trans)+
  moreover have "xs = x # ys" "a' = c" using "5.prems" b c by simp_all
  ultimately show ?case using own_trans [OF x(3) y(3) y(1)] le by simp
next
  case (7 k v m a)
  obtain x b where b: "load_value v a = (x, b)" by fastforce
  obtain ys c where c: "load_members m b = (ys, c)" by fastforce
  have x: "prefix a b" "addresses x \<subseteq> {length a..<length b}" "own (length a) b" using "7.IH"(1) [OF b] by blast+
  have y: "prefix b c" "\<forall>(k, y)\<in>set ys. addresses y \<subseteq> {length b..<length c}" "own (length b) c" using "7.IH"(2) [OF b [symmetric] c] by blast+
  note le = prefix_length_trans [OF x(1) y(1)]
  have "{length a..<length b} \<subseteq> {length a..<length c}" "{length b..<length c} \<subseteq> {length a..<length c}" using le by auto
  with x(2) y(2) have "addresses x \<subseteq> {length a..<length c}" "\<forall>(k, y)\<in>set ys. addresses y \<subseteq> {length a..<length c}" by blast+
  moreover have "ms = (k, x) # ys" "a' = c" using "7.prems" b c by simp_all
  ultimately show ?case using own_trans [OF x(3) y(3) y(1)] le by simp
qed auto

lemma read_load:
  "load_value g a = (v, a') \<Longrightarrow> length a' \<le> n \<Longrightarrow> read_value n (a' @ b) v = g"
  "load_values gs a = (xs, a') \<Longrightarrow> length a' \<le> n \<Longrightarrow> map (read_value n (a' @ b)) xs = gs"
  "load_members m a = (ms, a') \<Longrightarrow> length a' \<le> n \<Longrightarrow> map (\<lambda>(k, v). (k, read_value n (a' @ b) v)) ms = m"
proof (induction g a and gs a and m a arbitrary: v a' n b and xs a' n b and ms a' n b rule: load_value_load_values_load_members.induct)
  case (1 vs a)
  obtain ys c where c: "load_values vs a = (ys, c)" by fastforce
  with "1.prems" obtain k where n: "n = Suc k" "length c \<le> k" by (cases n) auto
  have "map (read_value k (c @ [ys] @ b)) ys = vs" using "1.IH" [OF c n(2)] by blast
  then show ?case using "1.prems" c n by auto
next
  case (2 m a)
  then show ?case by (auto split: prod.splits)
next
  case (5 v vs a)
  obtain x c where c: "load_value v a = (x, c)" by fastforce
  obtain ys d where d: "load_values vs c = (ys, d)" by fastforce
  obtain e where e: "d = c @ e" using load_own(2) [OF d] by (auto simp: prefix_def)
  from "5.IH"(1) [OF c, of n "e @ b"] "5.IH"(2) [OF c [symmetric] d, of n b] "5.prems" c d e show ?case by auto
next
  case (7 k v m a)
  obtain x c where c: "load_value v a = (x, c)" by fastforce
  obtain ys d where d: "load_members m c = (ys, d)" by fastforce
  obtain e where e: "d = c @ e" using load_own(3) [OF d] by (auto simp: prefix_def)
  from "7.IH"(1) [OF c, of n "e @ b"] "7.IH"(2) [OF c [symmetric] d, of n b] "7.prems" c d e show ?case by auto
qed auto

text \<open>What is read of a value depends on its own arrays only.\<close>

lemma read_value_agree:
  assumes "\<forall>p\<in>R. a ! p = b ! p \<and> (\<forall>x\<in>set (b ! p). addresses x \<subseteq> R)" "addresses v \<subseteq> R"
  shows "read_value n a v = read_value n b v"
  using assms
proof (induction n a v rule: read_value.induct)
  case (4 n a p l)
  have p: "a ! p = b ! p" "\<forall>x\<in>set (b ! p). addresses x \<subseteq> R" using "4.prems" by auto
  have "map (read_value n a) (take l (a ! p)) = map (read_value n b) (take l (a ! p))"
  proof (intro map_cong refl)
    fix x assume x: "x \<in> set (take l (a ! p))"
    then have "x \<in> set (b ! p)" using p(1) in_set_takeD [of x l "b ! p"] by simp
    then show "read_value n a x = read_value n b x" using "4.IH" [OF x "4.prems"(1)] p(2) by blast
  qed
  then show ?case using p by simp
next
  case (5 n a ms)
  have "(case kv of (k, v) \<Rightarrow> (k, read_value n a v)) = (case kv of (k, v) \<Rightarrow> (k, read_value n b v))" if kv: "kv \<in> set ms" for kv
    using "5.IH" [OF kv _ "5.prems"(1)] "5.prems"(2) kv by (cases kv) fastforce
  then show ?case by simp
qed auto

text \<open>Slices are within their arrays; no operation shortens an array.\<close>

fun valid :: "arrays \<Rightarrow> jval \<Rightarrow> bool" where
  "valid a (JVal g) \<longleftrightarrow> True"
| "valid a (JArray NilSlice) \<longleftrightarrow> True"
| "valid a (JArray (Slice p n)) \<longleftrightarrow> p < length a \<and> n \<le> length (a ! p)"
| "valid a (JObject ms) \<longleftrightarrow> (\<forall>(k, v)\<in>set ms. valid a v)"

definition arrays_grow :: "arrays \<Rightarrow> arrays \<Rightarrow> bool" where
  "arrays_grow a b \<longleftrightarrow> length a \<le> length b \<and> (\<forall>p<length a. length (b ! p) = length (a ! p))"

definition valid_store :: "arrays \<Rightarrow> bool" where
  "valid_store a \<longleftrightarrow> (\<forall>p<length a. \<forall>v\<in>set (a ! p). valid a v)"

lemma arrays_grow_refl [simp]: "arrays_grow a a"
  by (simp add: arrays_grow_def)

lemma arrays_grow_prefix: "prefix a b \<Longrightarrow> arrays_grow a b"
  by (auto simp: arrays_grow_def prefix_def nth_append)

lemma valid_arrays_grow: "valid a v \<Longrightarrow> arrays_grow a b \<Longrightarrow> valid b v"
proof (induction a v rule: valid.induct)
  case (4 a ms)
  then show ?case by fastforce
qed (auto simp: arrays_grow_def)

lemma valid_store_snoc: "valid_store a \<Longrightarrow> \<forall>v\<in>set xs. valid a v \<Longrightarrow> valid_store (a @ [xs])"
  using valid_arrays_grow [OF _ arrays_grow_prefix, of a _ "a @ [xs]"] by (auto simp: valid_store_def nth_append less_Suc_eq)

lemma load_valid:
  "load_value g a = (v, a') \<Longrightarrow> valid_store a \<Longrightarrow> valid_store a' \<and> valid a' v"
  "load_values gs a = (xs, a') \<Longrightarrow> valid_store a \<Longrightarrow> valid_store a' \<and> (\<forall>x\<in>set xs. valid a' x)"
  "load_members m a = (ms, a') \<Longrightarrow> valid_store a \<Longrightarrow> valid_store a' \<and> (\<forall>(k, x)\<in>set ms. valid a' x)"
proof (induction g a and gs a and m a arbitrary: v a' and xs a' and ms a' rule: load_value_load_values_load_members.induct)
  case (1 vs a)
  obtain ys b where b: "load_values vs a = (ys, b)" by fastforce
  from "1.IH" [OF b "1.prems"(2)] "1.prems"(1) b show ?case by (auto simp: valid_store_snoc)
next
  case (2 m a)
  obtain ys b where b: "load_members m a = (ys, b)" by fastforce
  from "2.IH" [OF b "2.prems"(2)] "2.prems"(1) b show ?case by auto
next
  case (5 v vs a)
  obtain x b where b: "load_value v a = (x, b)" by fastforce
  obtain ys c where c: "load_values vs b = (ys, c)" by fastforce
  have x: "valid_store b" "valid b x" using "5.IH"(1) [OF b "5.prems"(2)] by blast+
  have "valid c x" using valid_arrays_grow [OF x(2) arrays_grow_prefix] load_own(2) [OF c] by blast
  then show ?case using "5.IH"(2) [OF b [symmetric] c x(1)] "5.prems"(1) b c by auto
next
  case (7 k v m a)
  obtain x b where b: "load_value v a = (x, b)" by fastforce
  obtain ys c where c: "load_members m b = (ys, c)" by fastforce
  have x: "valid_store b" "valid b x" using "7.IH"(1) [OF b "7.prems"(2)] by blast+
  have "valid c x" using valid_arrays_grow [OF x(2) arrays_grow_prefix] load_own(3) [OF c] by blast
  then show ?case using "7.IH"(2) [OF b [symmetric] c x(1)] "7.prems"(1) b c by auto
qed auto

text \<open>
  A set of addresses is guarded when no field but those in \<open>N\<close> and no other array leads into it: what the
  directives reach from other fields stays outside.
\<close>

definition clear :: "nat set \<Rightarrow> arrays \<Rightarrow> jval \<Rightarrow> bool" where
  "clear R a v \<longleftrightarrow> valid a v \<and> addresses v \<subseteq> - R"

definition outside :: "nat set \<Rightarrow> arrays \<Rightarrow> bool" where
  "outside R a \<longleftrightarrow> R \<subseteq> {..<length a} \<and> (\<forall>p<length a. p \<notin> R \<longrightarrow> (\<forall>v\<in>set (a ! p). clear R a v))"

definition guarded :: "nat set \<Rightarrow> bytes set \<Rightarrow> json_doc \<Rightarrow> bool" where
  "guarded R N = (\<lambda>(m, a). (\<forall>(k, v)\<in>set m. k \<notin> N \<longrightarrow> clear R a v) \<and> outside R a)"

definition store_step :: "nat set \<Rightarrow> arrays \<Rightarrow> arrays \<Rightarrow> bool" where
  "store_step R a b \<longleftrightarrow> arrays_grow a b \<and> (\<forall>p\<in>R. p < length a \<longrightarrow> b ! p = a ! p) \<and> outside R b"

lemma clear_simps [simp]:
  "clear R a (JVal g)" "clear R a (JArray NilSlice)"
  "clear R a (JArray (Slice p n)) \<longleftrightarrow> p < length a \<and> n \<le> length (a ! p) \<and> p \<notin> R"
  "clear R a (JObject ms) \<longleftrightarrow> (\<forall>(k, v)\<in>set ms. clear R a v)"
  by (auto simp: clear_def)

lemma clear_arrays_grow: "clear R a v \<Longrightarrow> arrays_grow a b \<Longrightarrow> clear R b v"
  by (auto simp: clear_def valid_arrays_grow)

lemma items_clear: "outside R a \<Longrightarrow> clear R a (JArray s) \<Longrightarrow> v \<in> set (slice_items a s) \<Longrightarrow> clear R a v"
  by (cases s) (auto simp: outside_def dest: in_set_takeD)

lemma field_clear: "guarded R N (m, a) \<Longrightarrow> k \<notin> N \<Longrightarrow> map_of m k = Some v \<Longrightarrow> clear R a v"
  by (fastforce simp: guarded_def dest: map_of_SomeD)

lemma store_step_refl: "outside R a \<Longrightarrow> store_step R a a"
  by (simp add: store_step_def)

lemma store_step_snoc:
  assumes "outside R a" "\<forall>v\<in>set xs. clear R a v"
  shows "store_step R a (a @ [xs])"
proof -
  have "arrays_grow a (a @ [xs])" by (rule arrays_grow_prefix) simp
  then show ?thesis using assms clear_arrays_grow [of R a _ "a @ [xs]"]
    by (auto simp: store_step_def outside_def nth_append less_Suc_eq)
qed

lemma store_step_update:
  assumes "outside R a" "p \<notin> R" "p < length a" "length xs = length (a ! p)" "set xs \<subseteq> set (a ! p)"
  shows "store_step R a (a[p := xs])"
proof -
  have g: "arrays_grow a (a[p := xs])" using assms(3,4) by (auto simp: arrays_grow_def nth_list_update)
  have "clear R (a[p := xs]) v" if "v \<in> set (a[p := xs] ! q)" "q < length a" "q \<notin> R" for v q
    using that assms clear_arrays_grow [OF _ g] by (cases "q = p") (auto simp: outside_def)
  moreover have "a[p := xs] ! q = a ! q" if "q \<in> R" for q using that assms(2) by (cases "q = p") simp_all
  moreover have "R \<subseteq> {..<length a}" using assms(1) by (simp add: outside_def)
  ultimately show ?thesis using g by (simp add: store_step_def outside_def)
qed

text \<open>
  Every directive is a sequence of assignments to fields in \<open>K\<close> of values in \<open>V\<close>, perhaps followed by the
  removal of its field.
\<close>

definition assigns :: "bytes \<Rightarrow> bytes set \<Rightarrow> 'v set \<Rightarrow> (bytes \<times> 'v) list \<Rightarrow> (bytes \<times> 'v) list \<Rightarrow> bool" where
  "assigns key K V m m' \<longleftrightarrow>
     (\<exists>kvs. set kvs \<subseteq> K \<times> V \<and> (m' = mm_set_all m kvs \<or> m' = mm_delete (mm_set_all m kvs) key))"

lemma assigns_id [simp]: "assigns key K V m m"
  unfolding assigns_def by (rule exI [of _ "[]"]) (simp add: mm_set_all_def)

lemma assigns_set: "k \<in> K \<Longrightarrow> v \<in> V \<Longrightarrow> assigns key K V m (mm_set m k v)"
  unfolding assigns_def by (rule exI [of _ "[(k, v)]"]) (simp add: mm_set_all_def)

lemma assigns_all: "set kvs \<subseteq> K \<times> V \<Longrightarrow> assigns key K V m (mm_set_all m kvs)"
  unfolding assigns_def by blast

lemma assigns_all_delete: "set kvs \<subseteq> K \<times> V \<Longrightarrow> assigns key K V m (mm_delete (mm_set_all m kvs) key)"
  unfolding assigns_def by blast

lemma assigns_set_delete: "k \<in> K \<Longrightarrow> v \<in> V \<Longrightarrow> assigns key K V m (mm_delete (mm_set m k v) key)"
  using assigns_all_delete [where kvs = "[(k, v)]"] by (simp add: mm_set_all_def)

lemma assigns_delete: "assigns key K V m (mm_delete m key)"
  using assigns_all_delete [where kvs = "[]"] by (simp add: mm_set_all_def)

lemma assigns_distinct: "assigns key K V m m' \<Longrightarrow> distinct (map fst m) \<Longrightarrow> distinct (map fst m')"
  by (auto simp: assigns_def mm_delete_distinct mm_set_all_distinct)

lemma assigns_fields: "assigns key K V m m' \<Longrightarrow> (k, v) \<in> set m' \<Longrightarrow> (k, v) \<in> set m \<or> v \<in> V"
  using set_mm_set_all by (fastforce simp: assigns_def mm_delete_def)

lemma assigns_other:
  assumes "assigns key K V m m'" "k \<notin> K" "k \<noteq> key"
  shows "map_of m' k = map_of m k"
proof -
  obtain kvs where kvs: "set kvs \<subseteq> K \<times> V" "m' = mm_set_all m kvs \<or> m' = mm_delete (mm_set_all m kvs) key"
    using assms(1) by (auto simp: assigns_def)
  then have "k \<notin> fst ` set kvs" using assms(2) by auto
  with kvs(2) assms(3) show ?thesis by (auto simp: mm_delete_lookup mm_set_all_other)
qed

text \<open>The fields a directive may assign.\<close>

definition assigned_keys :: "transform_directive \<Rightarrow> bytes set" where
  "assigned_keys d =
     (let key = tr_key d; params = tr_parameters d; operation = tr_operation d
      in insert key (
         if operation = ''rename'' then {Unescape (params ! 0)}
         else if operation = ''split'' then set (drop 1 params)
         else if operation = ''pick'' then {params ! 1}
         else if operation = ''flatten'' then {k. prefix (flatten_prefix key params) k}
         else if operation = ''agent'' \<or> operation = ''geoip'' then {k. prefix (key @ ''_'') k}
         else {}))"

text \<open>Values without arrays are always allowed.\<close>

lemma geo_field_sets: "set (geo_field env key r f) \<subseteq> {k. prefix (key @ ''_'') k} \<times> range JVal"
proof -
  have "list_all (\<lambda>(k, v). prefix (key @ ''_'') k \<and> v \<in> range JVal) (optional_field (key @ CHR ''_'' # s) v)" for s v
    by (cases v) (simp_all add: optional_field_def)
  then have "list_all (\<lambda>(k, v). prefix (key @ ''_'') k \<and> v \<in> range JVal) (geo_field env key r f)" by (simp add: geo_field_def)
  then show ?thesis by (auto simp: list_all_iff)
qed

lemma map_filter_sets:
  "set (List.map_filter (\<lambda>f. map_option (\<lambda>x. (g f, JVal (h x))) (p f)) fs) \<subseteq> g ` set fs \<times> range JVal"
  by (induction fs) (auto simp: List.map_filter_simps split: option.splits)

lemma assigns_strings:
  assumes "\<And>g. JVal g \<in> V" "key \<in> K"
  shows "pj_time env key ps m = Inr m' \<Longrightarrow> assigns key K V m m'"
    "pj_unixtimestamp env key ps m = Inr m' \<Longrightarrow> assigns key K V m m'"
    "pj_replace key ps m = Inr m' \<Longrightarrow> assigns key K V m m'"
    "pj_trim key ps m = Inr m' \<Longrightarrow> assigns key K V m m'"
  using assms
  by (auto simp: pj_defs or_unchanged_Inr run_bind_Inr_iff Let_def intro!: assigns_set split: sum.splits if_splits option.splits)

lemma assigns_split:
  assumes "\<And>g. JVal g \<in> V" "pj_split key ps m = Inr m'"
  shows "assigns key (insert key (set (drop 1 ps))) V m m'"
proof -
  have "set (zip (drop 1 ps) (map JString xs)) \<subseteq> insert key (set (drop 1 ps)) \<times> V" for xs
  proof
    fix kv assume kv: "kv \<in> set (zip (drop 1 ps) (map JString xs))"
    then have "fst kv \<in> set (drop 1 ps)" "snd kv \<in> set (map JString xs)"
      using set_zip_leftD [of "fst kv" "snd kv" "drop 1 ps" "map JString xs"]
        set_zip_rightD [of "fst kv" "snd kv" "drop 1 ps" "map JString xs"] by (simp_all del: set_map)
    then show "kv \<in> insert key (set (drop 1 ps)) \<times> V" using assms(1) by (cases kv) auto
  qed
  with assms(2) show ?thesis
    by (auto simp: pj_split_def or_unchanged_Inr Let_def intro!: assigns_all split: sum.splits if_splits)
qed

lemma assigns_agent:
  assumes "\<And>g. JVal g \<in> V" "pj_agent env key ps m = Inr m'"
  shows "assigns key (insert key {k. prefix (key @ ''_'') k}) V m m'"
proof -
  have "set (List.map_filter (\<lambda>f. map_option (\<lambda>x. (key @ ''_'' @ f, JString x)) (agent_field ua f)) fs)
      \<subseteq> insert key {k. prefix (key @ ''_'') k} \<times> V" for ua fs
    using map_filter_sets [of "\<lambda>f. key @ ''_'' @ f" GString "agent_field ua" fs] assms(1) by fastforce
  with assms(2) show ?thesis by (auto simp: pj_agent_def or_unchanged_Inr Let_def intro!: assigns_all split: sum.splits)
qed

lemma assigns_geoip:
  assumes "\<And>g. JVal g \<in> V" "pj_geoip env db key ps m = Inr m'"
  shows "assigns key (insert key {k. prefix (key @ ''_'') k}) V m m'"
proof -
  have K: "set (concat (map (geo_field env key r) fs)) \<subseteq> insert key {k. prefix (key @ ''_'') k} \<times> V" for r fs
    using geo_field_sets [of env key r] assms(1) by fastforce
  consider "m' = m" | r fs where "m' = mm_set_all m (concat (map (geo_field env key r) fs))"
    using assms(2) by (auto simp: pj_geoip_def or_unchanged_Inr Let_def split: sum.splits if_splits option.splits)
  then show ?thesis by cases (simp_all add: assigns_all [OF K])
qed

text \<open>The operations that touch arrays.\<close>

lemma array_or_nil_clear: "guarded R N (m, a) \<Longrightarrow> key \<notin> N \<Longrightarrow> clear R a (JArray (array_or_nil m key))"
  using field_clear [of R N m a key] by (auto simp: array_or_nil_def j_Array_Inr split: sum.split)

lemma guarded_outside: "guarded R N (m, a) \<Longrightarrow> outside R a"
  by (simp add: guarded_def)

lemma assigns_pick:
  assumes "guarded R N (m, a)" "key \<notin> N" "pj_pick key ps (m, a) = Inr m'"
  shows "assigns key {key, ps ! 1} {v. clear R a v} m m'"
  using assms(3) items_clear [OF guarded_outside [OF assms(1)] array_or_nil_clear [OF assms(1,2)] nth_mem]
  by (auto simp: pj_pick_def Let_def intro!: assigns_set split: if_splits)

lemma assigns_flatten:
  assumes "guarded R N (m, a)" "key \<notin> N"
  shows "assigns key (insert key {k. prefix (flatten_prefix key ps) k}) {v. clear R a v} m (pj_flatten key ps (m, a))"
proof -
  let ?K = "insert key {k. prefix (flatten_prefix key ps) k}" and ?V = "{v. clear R a v}"
  have "set (map (\<lambda>(k, v). (flatten_prefix key ps @ k, v)) ms) \<subseteq> ?K \<times> ?V" if "j_MarshalMap m key = Inr ms" for ms
    using field_clear [OF assms, of "JObject ms"] that by (auto simp: j_MarshalMap_Inr)
  moreover have "set (map (\<lambda>(i, v). (flatten_prefix key ps @ itoa (int i), v)) (zip [0..<length (slice_items a s)] (slice_items a s))) \<subseteq> ?K \<times> ?V"
    if "j_Array m key = Inr s" for s
    using items_clear [OF guarded_outside [OF assms(1)] field_clear [OF assms]] that by (auto simp: j_Array_Inr dest!: set_zip_rightD)
  ultimately show ?thesis
    by (simp add: pj_flatten_def Let_def assigns_all_delete split: sum.split)
qed

lemma ip_step:
  assumes "guarded R N (m, a)" "key \<notin> N" "key \<in> K" "pj_ip env key (m, a) = Inr (m', a')"
  shows "assigns key K {v. clear R a' v} m m' \<and> store_step R a a'"
proof (cases "j_Array m key")
  case (Inl e)
  then show ?thesis using assms(4) store_step_refl [OF guarded_outside [OF assms(1)]] by (auto simp: pj_ip_def or_unchanged_def)
next
  case (Inr s)
  let ?xs = "filter (\<lambda>v. case v of JString s \<Rightarrow> pe_is_ip env s | _ \<Rightarrow> True) (slice_items a s)"
  have o: "outside R a" by (rule guarded_outside [OF assms(1)])
  have "\<forall>v\<in>set ?xs. clear R a v" using items_clear [OF o field_clear [OF assms(1,2)]] Inr by (auto simp: j_Array_Inr)
  then have "store_step R a (a @ [?xs])" by (rule store_step_snoc [OF o])
  moreover have "a' = a @ [?xs]" "m' = mm_set m key (JArray (Slice (length a) (length ?xs)))"
    using assms(4) Inr by (auto simp: pj_ip_def or_unchanged_def Let_def)
  moreover have "length a \<notin> R" using o by (auto simp: outside_def)
  ultimately show ?thesis using assms(3) by (auto intro!: assigns_set)
qed

lemma remove_step:
  assumes "guarded R N (m, a)" "key \<notin> N" "key \<in> K" "pj_remove key ps (m, a) = (m', a')"
  shows "assigns key K {v. clear R a' v} m m' \<and> store_step R a a'"
proof (cases "array_or_nil m key")
  case NilSlice
  then show ?thesis using assms(3,4) store_step_refl [OF guarded_outside [OF assms(1)]]
    by (auto simp: pj_remove_def intro!: assigns_set assigns_delete split: if_splits)
next
  case (Slice p n)
  have o: "outside R a" by (rule guarded_outside [OF assms(1)])
  have s: "p < length a" "n \<le> length (a ! p)" "p \<notin> R" using array_or_nil_clear [OF assms(1,2)] Slice by simp_all
  let ?kept = "filter (\<lambda>v. \<not> is_removed ps v) (take n (a ! p))"
  let ?xs = "?kept @ drop (length ?kept) (a ! p)"
  have k: "length ?kept \<le> n" using length_filter_le [of "\<lambda>v. \<not> is_removed ps v" "take n (a ! p)"] by simp
  have l: "length ?xs = length (a ! p)" using k s(2) by simp
  have "set ?xs \<subseteq> set (a ! p)" by (auto dest: in_set_takeD in_set_dropD)
  then have step: "store_step R a (a[p := ?xs])" by (rule store_step_update [OF o s(3,1) l])
  show ?thesis
  proof (cases "ps = []")
    case True
    then show ?thesis using assms(4) store_step_refl [OF o] by (auto simp: pj_remove_def intro!: assigns_delete)
  next
    case False
    then have "m' = mm_set m key (JArray (Slice p (length ?kept)))" "a' = a[p := ?xs]"
      using assms(4) Slice remove_loop_spec [OF s(2), of ps] by (auto simp: pj_remove_def Let_def)
    then show ?thesis using step assms(3) s k l by (auto intro!: assigns_set)
  qed
qed

lemma step_strings:
  assumes "outside R a" "same_arrays a r = Inr (m', a')" "\<And>V. (\<And>g. JVal g \<in> V) \<Longrightarrow> r = Inr m' \<Longrightarrow> assigns key K V m m'"
  shows "assigns key K {v. clear R a' v} m m' \<and> store_step R a a'"
  using assms(2) assms(3) [of "{v. clear R a v}"] store_step_refl [OF assms(1)] by (simp add: same_arrays_Inr)

lemma directive_step:
  assumes "processDirective env db d (m, a) = Inr (m', a')" "guarded R N (m, a)" "tr_key d \<notin> N"
  shows "assigns (tr_key d) (assigned_keys d) {v. clear R a' v} m m' \<and> store_step R a a'"
proof (cases "map_of m (tr_key d)")
  case None
  then show ?thesis using assms(1) store_step_refl [OF guarded_outside [OF assms(2)]] by (simp add: processDirective_def Let_def)
next
  case (Some v)
  let ?op = "tr_operation d" and ?k = "tr_key d" and ?ps = "tr_parameters d"
  note strings = step_strings [OF guarded_outside [OF assms(2)]]
  have key: "?k \<in> assigned_keys d" by (simp add: assigned_keys_def Let_def)
  consider "?op = ''rename''" | "?op = ''split''" | "?op = ''pick''" | "?op = ''remove''" | "?op = ''flatten''" | "?op = ''agent''"
    | "?op = ''ip''" | "?op = ''geoip''" | "?op = ''time''" | "?op = ''unixtimestamp''" | "?op = ''replace''" | "?op = ''trim''"
    | "?op \<notin> {''rename'', ''split'', ''pick'', ''remove'', ''flatten'', ''agent'', ''ip'', ''geoip'', ''time'', ''unixtimestamp'', ''replace'', ''trim''}"
    by blast
  then show ?thesis
  proof cases
    case 1
    then show ?thesis using assms(1) Some field_clear [OF assms(2,3) Some] store_step_refl [OF guarded_outside [OF assms(2)]]
      by (auto simp: processDirective_def pj_rename_def assigned_keys_def Let_def intro!: assigns_set_delete)
  next
    case 2
    then have "assigned_keys d = insert ?k (set (drop 1 ?ps))" by (simp add: assigned_keys_def Let_def)
    then show ?thesis using strings [of "pj_split ?k ?ps m" m' a' ?k "assigned_keys d" m] assigns_split assms(1) Some 2
      by (simp add: processDirective_def Let_def)
  next
    case 3
    then have "assigned_keys d = {?k, ?ps ! 1}" by (simp add: assigned_keys_def Let_def)
    then show ?thesis using assms(1) Some 3 assigns_pick [OF assms(2,3), of ?ps m'] store_step_refl [OF guarded_outside [OF assms(2)]]
      by (simp add: processDirective_def Let_def same_arrays_Inr)
  next
    case 4
    then show ?thesis using assms(1) Some remove_step [OF assms(2,3) key, of ?ps m' a'] by (simp add: processDirective_def Let_def)
  next
    case 5
    then have "assigned_keys d = insert ?k {k. prefix (flatten_prefix ?k ?ps) k}" by (simp add: assigned_keys_def Let_def)
    then show ?thesis using assms(1) Some 5 assigns_flatten [OF assms(2,3), of ?ps] store_step_refl [OF guarded_outside [OF assms(2)]]
      by (auto simp: processDirective_def Let_def)
  next
    case 6
    then have "assigned_keys d = insert ?k {k. prefix (?k @ ''_'') k}" by (simp add: assigned_keys_def Let_def)
    then show ?thesis using strings [of "pj_agent env ?k ?ps m" m' a' ?k "assigned_keys d" m] assigns_agent assms(1) Some 6
      by (simp add: processDirective_def Let_def)
  next
    case 7
    then show ?thesis using assms(1) Some ip_step [OF assms(2,3) key, of env m' a'] by (simp add: processDirective_def Let_def)
  next
    case 8
    then have "assigned_keys d = insert ?k {k. prefix (?k @ ''_'') k}" by (simp add: assigned_keys_def Let_def)
    then show ?thesis using strings [of "pj_geoip env db ?k ?ps m" m' a' ?k "assigned_keys d" m] assigns_geoip assms(1) Some 8
      by (simp add: processDirective_def Let_def)
  next
    case 9
    then show ?thesis using strings [of "pj_time env ?k ?ps m" m' a' ?k "assigned_keys d" m] assigns_strings(1) [OF _ key] assms(1) Some
      by (simp add: processDirective_def Let_def)
  next
    case 10
    then show ?thesis using strings [of "pj_unixtimestamp env ?k ?ps m" m' a' ?k "assigned_keys d" m] assigns_strings(2) [OF _ key] assms(1) Some
      by (simp add: processDirective_def Let_def)
  next
    case 11
    then show ?thesis using strings [of "pj_replace ?k ?ps m" m' a' ?k "assigned_keys d" m] assigns_strings(3) [OF _ key] assms(1) Some
      by (simp add: processDirective_def Let_def)
  next
    case 12
    then show ?thesis using strings [of "pj_trim ?k ?ps m" m' a' ?k "assigned_keys d" m] assigns_strings(4) [OF _ key] assms(1) Some
      by (simp add: processDirective_def Let_def)
  next
    case 13
    then show ?thesis using assms(1) Some store_step_refl [OF guarded_outside [OF assms(2)]]
      by (simp add: processDirective_def Let_def)
  qed
qed

lemma guarded_step:
  assumes "guarded R N (m, a)" "assigns key K {v. clear R a' v} m m'" "store_step R a a'"
  shows "guarded R N (m', a')"
proof -
  have "clear R a' v" if "(k, v) \<in> set m'" "k \<notin> N" for k v
    using assigns_fields [OF assms(2) that(1)] assms(1,3) that(2) clear_arrays_grow [of R a v a']
    by (auto simp: guarded_def store_step_def)
  then show ?thesis using assms(3) by (auto simp: guarded_def store_step_def)
qed

text \<open>The fields no directive names keep their values, and the arrays only they lead to keep their elements.\<close>

lemma process_json_all_frame:
  assumes "process_json_all env db ds (m, a) = Inr (m', a')" "guarded R N (m, a)" "N \<inter> \<Union> (assigned_keys ` set ds) = {}"
  shows "(\<forall>k\<in>N. map_of m' k = map_of m k) \<and> (\<forall>p\<in>R. a' ! p = a ! p) \<and> length a \<le> length a' \<and>
    (distinct (map fst m) \<longrightarrow> distinct (map fst m'))"
  using assms
proof (induction ds arbitrary: m a)
  case (Cons d ds)
  then obtain m1 a1 where m1: "processDirective env db d (m, a) = Inr (m1, a1)" "process_json_all env db ds (m1, a1) = Inr (m', a')"
    by (auto simp: run_bind_Inr_iff)
  have key: "tr_key d \<in> assigned_keys d" by (simp add: assigned_keys_def Let_def)
  then have "tr_key d \<notin> N" using Cons.prems(3) by auto
  note step = directive_step [OF m1(1) Cons.prems(2) this]
  have as: "assigns (tr_key d) (assigned_keys d) {v. clear R a1 v} m m1" and st: "store_step R a a1" using step by blast+
  have IH: "(\<forall>k\<in>N. map_of m' k = map_of m1 k) \<and> (\<forall>p\<in>R. a' ! p = a1 ! p) \<and> length a1 \<le> length a' \<and>
    (distinct (map fst m1) \<longrightarrow> distinct (map fst m'))"
    using Cons.IH [OF m1(2) guarded_step [OF Cons.prems(2) as st]] Cons.prems(3) by auto
  have "map_of m1 k = map_of m k" if "k \<in> N" for k
    using assigns_other [OF as, of k] that Cons.prems(3) key by auto
  moreover have "a1 ! p = a ! p" if "p \<in> R" for p
    using that st Cons.prems(2) by (auto simp: store_step_def guarded_def outside_def)
  moreover have "length a \<le> length a1" using st by (simp add: store_step_def arrays_grow_def)
  ultimately show ?case using IH assigns_distinct [OF as] by auto
qed simp

text \<open>Loading a message: the arrays of one field are guarded.\<close>

lemma load_members_append:
  "load_members (m @ m') a = (case load_members m a of (ms, a) \<Rightarrow> case load_members m' a of (ms', a) \<Rightarrow> (ms @ ms', a))"
  by (induction m arbitrary: a) (auto split: prod.splits)

lemma load_members_keys: "load_members m a = (ms, a') \<Longrightarrow> map fst ms = map fst m"
  by (induction m arbitrary: a ms) (auto split: prod.splits)

lemma read_object_lookup: "map_of (read_object (m, a)) k = map_option (read_value (length a) a) (map_of m k)"
  by (simp add: read_object_def map_of_map)

lemma read_object_keys: "map fst (read_object (m, a)) = map fst m"
  by (simp add: read_object_def case_prod_unfold)

lemma guarded_loaded: "load_members m [] = (ms, a) \<Longrightarrow> guarded {} N (ms, a)"
  using load_valid(3) [of m "[]" ms a] by (auto simp: guarded_def outside_def clear_def valid_store_def)

lemma load_field:
  assumes "load_members (m1 @ (k, g) # m2) [] = (ms, a)" "k \<notin> fst ` set m1" "k \<notin> fst ` set m2"
  obtains v R where "map_of ms k = Some v" "guarded R {k} (ms, a)" "addresses v \<subseteq> R"
    "\<forall>p\<in>R. \<forall>x\<in>set (a ! p). addresses x \<subseteq> R" "\<And>n. length a \<le> n \<Longrightarrow> read_value n a v = g"
proof -
  obtain x1 a1 where l1: "load_members m1 [] = (x1, a1)" by fastforce
  obtain v a2 where l2: "load_value g a1 = (v, a2)" by fastforce
  obtain x3 where l3: "load_members m2 a2 = (x3, a)" and ms: "ms = x1 @ (k, v) # x3"
    using assms(1) l1 l2 by (auto simp: load_members_append split: prod.splits)
  note o1 = load_own(3) [OF l1] and o2 = load_own(1) [OF l2] and o3 = load_own(3) [OF l3]
  obtain b2 b3 where a: "a2 = a1 @ b2" "a = a2 @ b3" using o2 o3 by (auto simp: prefix_def)
  let ?R = "{length a1..<length a2}"
  have valid: "valid_store a" "\<forall>(k, x)\<in>set ms. valid a x" using load_valid(3) [OF assms(1)] by (simp_all add: valid_store_def)
  have own: "own 0 a1" "own (length a1) a2" "own (length a2) a" using o1 o2 o3 by simp_all
  have at: "p < length a1 \<Longrightarrow> a ! p = a1 ! p" "p < length a2 \<Longrightarrow> a ! p = a2 ! p" for p
    using a by (auto simp: nth_append)
  have other: "addresses x \<subseteq> - ?R" if "p < length a" "p \<notin> ?R" "x \<in> set (a ! p)" for p x
  proof (cases "p < length a1")
    case True
    then have "addresses x \<subseteq> {0..<p}" using own(1) that(3) at(1) by (simp add: own_def)
    then show ?thesis using True by auto
  next
    case False
    then have "addresses x \<subseteq> {length a2..<p}" using own(3) that by (simp add: own_def)
    then show ?thesis by auto
  qed
  have field: "addresses x \<subseteq> - ?R" if "(k', x) \<in> set ms" "k' \<noteq> k" for k' x
  proof -
    have "addresses x \<subseteq> {0..<length a1} \<or> addresses x \<subseteq> {length a2..<length a}" using that ms o1 o3 by auto
    then show ?thesis by auto
  qed
  have "?R \<subseteq> {..<length a}" by (auto simp: a)
  with valid(1) other have "outside ?R a" unfolding outside_def clear_def valid_store_def by blast
  moreover have "\<forall>(k', x)\<in>set ms. k' \<notin> {k} \<longrightarrow> clear ?R a x" using valid(2) field unfolding clear_def by blast
  ultimately have "guarded ?R {k} (ms, a)" by (simp add: guarded_def)
  moreover have "k \<notin> fst ` set x1" using assms(2) load_members_keys [OF l1] by (metis list.set_map)
  then have "map_of ms k = Some v" by (simp add: ms map_add_def map_of_eq_None_iff [THEN iffD2])
  moreover have "addresses x \<subseteq> ?R" if "p \<in> ?R" "x \<in> set (a ! p)" for p x
  proof -
    have "addresses x \<subseteq> {length a1..<p}" using that at(2) own(2) by (simp add: own_def)
    then show ?thesis using that(1) by auto
  qed
  moreover have "read_value n a v = g" if "length a \<le> n" for n using read_load(1) [OF l2, of n b3] that by (simp add: a)
  ultimately show thesis using that [of v ?R] o2 by blast
qed

lemma processed_field:
  assumes "process_json_all env db ds (load_members m []) = Inr (m', a')" "distinct (map fst m)"
    and "k \<notin> \<Union> (assigned_keys ` set ds)"
  shows "map_of (read_object (m', a')) k = map_of m k"
proof -
  obtain ms a where l: "load_members m [] = (ms, a)" by fastforce
  have N: "{k} \<inter> \<Union> (assigned_keys ` set ds) = {}" using assms(3) by simp
  show ?thesis
  proof (cases "map_of m k")
    case None
    then have "map_of ms k = None" using load_members_keys [OF l] by (metis map_of_eq_None_iff list.set_map)
    then show ?thesis
      using process_json_all_frame [OF assms(1) [unfolded l] guarded_loaded [OF l] N] None by (simp add: read_object_lookup)
  next
    case (Some g)
    then obtain m1 m2 where m: "m = m1 @ (k, g) # m2" by (meson map_of_SomeD split_list)
    have "k \<notin> fst ` set m1" "k \<notin> fst ` set m2" using assms(2) by (auto simp: m)
    then obtain v R where v: "map_of ms k = Some v" "guarded R {k} (ms, a)" "addresses v \<subseteq> R"
      "\<forall>p\<in>R. \<forall>x\<in>set (a ! p). addresses x \<subseteq> R" "\<And>n. length a \<le> n \<Longrightarrow> read_value n a v = g"
      using load_field [of m1 k g m2 ms a] l m by blast
    note frame = process_json_all_frame [OF assms(1) [unfolded l] v(2) N]
    have "\<forall>p\<in>R. a' ! p = a ! p \<and> (\<forall>x\<in>set (a ! p). addresses x \<subseteq> R)" using frame v(4) by blast
    then have "read_value (length a') a' v = read_value (length a') a v" by (rule read_value_agree [OF _ v(3)])
    then show ?thesis using frame v(1) v(5) [of "length a'"] Some by (simp add: read_object_lookup)
  qed
qed

lemma processed_distinct:
  assumes "process_json_all env db ds (load_members m []) = Inr (m', a')" "distinct (map fst m)"
  shows "distinct (map fst (read_object (m', a')))"
proof -
  obtain ms a where l: "load_members m [] = (ms, a)" by fastforce
  have "distinct (map fst ms)" using assms(2) load_members_keys [OF l] by simp
  then show ?thesis
    using process_json_all_frame [OF assms(1) [unfolded l] guarded_loaded [OF l, of "{}"]] by (simp add: read_object_keys)
qed

lemma or_unchanged_panics: "or_unchanged r m f = Inl e \<longleftrightarrow> (\<exists>x. r = Inr x \<and> f x = Inl e)"
  by (auto simp: or_unchanged_def split: sum.split)

lemma run_bind_panics: "run_bind r (\<lambda>x. Inr (f x)) = Inl e \<longleftrightarrow> r = Inl e"
  by (cases r) auto

lemma same_arrays_panics: "same_arrays a r = Inl e \<longleftrightarrow> r = Inl e"
  unfolding same_arrays_def by (rule run_bind_panics)

lemma directive_panics:
  "(\<exists>e. processDirective env db d (m, a) = Inl e) \<longleftrightarrow>
     (tr_operation d = ''pick'' \<and> length (tr_parameters d) < 2 \<and> map_of m (tr_key d) \<noteq> None) \<or>
     (tr_operation d = ''time'' \<and> length (tr_parameters d) = 2 \<and>
        (\<exists>s. map_of m (tr_key d) = Some (JString s) \<and> length s < length (tr_parameters d ! 0)))"
proof (cases "map_of m (tr_key d)")
  case (Some v)
  have time: "(\<exists>e. pj_time env k ps m = Inl e) \<longleftrightarrow>
      length ps = 2 \<and> (\<exists>s. map_of m k = Some (JString s) \<and> length s < length (ps ! 0))" for k ps
    by (auto simp: pj_time_def or_unchanged_panics run_bind_panics j_String_Inr convert_time_def)
  have pick: "(\<exists>e. pj_pick k ps (m, a) = Inl e) \<longleftrightarrow> length ps < 2" for k ps by (simp add: pj_pick_def Let_def)
  have "pj_unixtimestamp env k ps m \<noteq> Inl e" "pj_split k ps m \<noteq> Inl e" "pj_replace k ps m \<noteq> Inl e" "pj_trim k ps m \<noteq> Inl e"
    "pj_agent env k ps m \<noteq> Inl e" "pj_ip env k (m, a) \<noteq> Inl e" "pj_geoip env db k ps m \<noteq> Inl e" for k ps e
    by (auto simp: pj_defs or_unchanged_panics Let_def split: if_splits option.splits)
  with Some time [of "tr_key d" "tr_parameters d"] pick [of "tr_key d" "tr_parameters d"] show ?thesis
    by (simp add: processDirective_def Let_def same_arrays_panics)
qed (simp add: processDirective_def Let_def)

subsection \<open>Properties\<close>

text \<open>C31: a sequence of directives changes only the fields they name: their keys, the target of \<open>rename\<close>,
  \<open>split\<close> and \<open>pick\<close>, and for \<open>flatten\<close>, \<open>agent\<close> and \<open>geoip\<close> the fields with the key as prefix. Every other
  field of the message has its value in the result, arrays in it included, although the directives edit
  arrays in place; and a key occurs once in the result when it does in the message.\<close>

theorem json_directives_frame:
  assumes "process_json_all env db ds (load_members m []) = Inr st" "distinct (map fst m)"
  shows "distinct (map fst (read_object st)) \<and>
    (\<forall>k. k \<notin> \<Union> (assigned_keys ` set ds) \<longrightarrow> map_of (read_object st) k = map_of m k)"
  using processed_field [of env db ds m "fst st" "snd st"] processed_distinct [of env db ds m "fst st" "snd st"] assms by simp

text \<open>The message of the witness has an array next to the one that is edited.\<close>

theorem json_directives_frame_witness:
  "\<forall>env. \<exists>st. process_json_all env False [\<lparr>tr_key = ''a'', tr_operation = ''remove'', tr_parameters = [''x'']\<rparr>]
      (load_members [(''a'', GArray [GString ''x'', GString ''y'']), (''c'', GArray [GString ''x''])] []) = Inr st \<and>
    map_of (read_object st) ''c'' = Some (GArray [GString ''x''])"
proof
  fix env
  let ?ds = "[\<lparr>tr_key = ''a'', tr_operation = ''remove'', tr_parameters = [''x'']\<rparr>]"
  let ?m = "[(''a'', GArray [GString ''x'', GString ''y'']), (''c'', GArray [GString ''x''])]"
  obtain st where st: "process_json_all env False ?ds (load_members ?m []) = Inr st"
    by (simp add: processDirective_def Let_def)
  have "distinct (map fst (read_object st)) \<and>
      (\<forall>k. k \<notin> \<Union> (assigned_keys ` set ?ds) \<longrightarrow> map_of (read_object st) k = map_of ?m k)"
    by (rule json_directives_frame [OF st]) simp
  moreover have "''c'' \<notin> \<Union> (assigned_keys ` set ?ds)" by (simp add: assigned_keys_def)
  ultimately show "\<exists>st. process_json_all env False ?ds (load_members ?m []) = Inr st \<and>
      map_of (read_object st) ''c'' = Some (GArray [GString ''x''])" using st by auto
qed

text \<open>
  Between fields that directives name the sharing shows: an array that was picked out of another one is the same
  array, so removing an element from it leaves the other one with an element twice.
\<close>

theorem json_remove_shared:
  "\<exists>st. process_json_all env db [\<lparr>tr_key = ''a'', tr_operation = ''pick'', tr_parameters = [''0'', ''b'']\<rparr>,
      \<lparr>tr_key = ''b'', tr_operation = ''remove'', tr_parameters = [''x'']\<rparr>]
      (load_members [(''a'', GArray [GArray [GString ''x'', GString ''y'']])] []) = Inr st \<and>
    read_object st = [(''a'', GArray [GArray [GString ''y'', GString ''y'']]), (''b'', GArray [GString ''y''])]"
proof -
  let ?pick = "\<lparr>tr_key = ''a'', tr_operation = ''pick'', tr_parameters = [''0'', ''b'']\<rparr>"
  let ?remove = "\<lparr>tr_key = ''b'', tr_operation = ''remove'', tr_parameters = [''x'']\<rparr>"
  let ?a = "[[JString ''x'', JString ''y''], [JArray (Slice 0 2)]]" and ?b = "[[JString ''y'', JString ''y''], [JArray (Slice 0 2)]]"
  have i: "atoi ''0'' = (0, True)" by code_simp
  have load: "load_members [(''a'', GArray [GArray [GString ''x'', GString ''y'']])] [] = ([(''a'', JArray (Slice 1 1))], ?a)" by simp
  have pick: "processDirective env db ?pick ([(''a'', JArray (Slice 1 1))], ?a) = Inr ([(''a'', JArray (Slice 1 1)), (''b'', JArray (Slice 0 2))], ?a)"
    by (simp add: processDirective_def pj_pick_def array_or_nil_def j_Array_def j_lookup_def i same_arrays_def Let_def)
  have "remove_loop [''x''] 2 0 0 (?a ! 0) = (?b ! 0, 1)" by (simp add: numeral_2_eq_2 is_removed_def)
  then have remove: "processDirective env db ?remove ([(''a'', JArray (Slice 1 1)), (''b'', JArray (Slice 0 2))], ?a) =
      Inr ([(''a'', JArray (Slice 1 1)), (''b'', JArray (Slice 0 1))], ?b)"
    by (simp add: processDirective_def pj_remove_def array_or_nil_def j_Array_def j_lookup_def Let_def)
  have read: "read_object ([(''a'', JArray (Slice 1 1)), (''b'', JArray (Slice 0 1))], ?b) =
      [(''a'', GArray [GArray [GString ''y'', GString ''y'']]), (''b'', GArray [GString ''y''])]"
    by (simp add: read_object_def numeral_2_eq_2)
  show ?thesis unfolding load process_json_all.simps pick using remove read by simp
qed

text \<open>A directive panics on exactly two kinds of input: \<open>pick\<close> with less than two parameters, and a
  \<open>time\<close> directive on a text that is shorter than the layout. Everything else that does not fit leaves the
  message as it is.\<close>

theorem json_directive_panics:
  "(\<exists>e. processDirective env db d (m, a) = Inl e) \<longleftrightarrow>
     (tr_operation d = ''pick'' \<and> length (tr_parameters d) < 2 \<and> map_of m (tr_key d) \<noteq> None) \<or>
     (tr_operation d = ''time'' \<and> length (tr_parameters d) = 2 \<and>
        (\<exists>s. map_of m (tr_key d) = Some (JString s) \<and> length s < length (tr_parameters d ! 0)))"
  by (rule directive_panics)

text \<open>Renaming a field to a free name and back restores every field.\<close>

theorem json_rename_back:
  assumes "map_of m a = Some v" "map_of m b = None" "CHR 0x5C \<notin> set a" "CHR 0x5C \<notin> set b"
  shows "\<exists>m'. process_json_all env db [\<lparr>tr_key = a, tr_operation = ''rename'', tr_parameters = [b]\<rparr>,
      \<lparr>tr_key = b, tr_operation = ''rename'', tr_parameters = [a]\<rparr>] (m, s) = Inr (m', s) \<and> map_of m' = map_of m"
proof -
  have ab: "a \<noteq> b" using assms(1,2) by auto
  have u: "Unescape a = a" "Unescape b = b" using assms(3,4) by (simp_all add: Unescape_id)
  let ?m1 = "mm_delete (mm_set m b v) a"
  have "map_of ?m1 b = Some v" using ab by (simp add: mm_delete_lookup mm_set_lookup)
  moreover have "map_of (mm_delete (mm_set ?m1 a v) b) = map_of m"
    using assms(1,2) ab by (auto simp: fun_eq_iff mm_delete_lookup mm_set_lookup)
  ultimately show ?thesis using assms(1) u by (simp add: processDirective_def pj_rename_def Let_def)
qed

theorem json_rename_back_witness:
  "\<forall>env. \<exists>m'. process_json_all env False [\<lparr>tr_key = ''a'', tr_operation = ''rename'', tr_parameters = [''b'']\<rparr>,
      \<lparr>tr_key = ''b'', tr_operation = ''rename'', tr_parameters = [''a'']\<rparr>] ([(''a'', JString ''x'')], []) = Inr (m', []) \<and>
    map_of m' = map_of [(''a'', JString ''x'')]"
  by (intro allI, rule json_rename_back) simp_all

text \<open>Renaming a field to its own name removes it.\<close>

lemma json_rename_self:
  assumes "map_of m a = Some v" "CHR 0x5C \<notin> set a"
  shows "processDirective env db \<lparr>tr_key = a, tr_operation = ''rename'', tr_parameters = [a]\<rparr> (m, s) = Inr (mm_delete (mm_set m a v) a, s)"
  using assms by (simp add: processDirective_def pj_rename_def Let_def Unescape_id)

text \<open>\<open>flatten\<close> replaces an object by its members, each under the field's name, the delimiter and its own
  name, and keeps all other fields.\<close>

theorem json_flatten_spec:
  assumes "map_of m key = Some (JObject members)" "distinct (map fst members)" "delim \<noteq> []"
  shows "\<exists>m'. processDirective env db \<lparr>tr_key = key, tr_operation = ''flatten'', tr_parameters = [delim]\<rparr> (m, a) = Inr (m', a) \<and>
    map_of m' key = None \<and> (\<forall>k v. map_of members k = Some v \<longrightarrow> map_of m' (key @ delim @ k) = Some v) \<and>
    (\<forall>k. k \<noteq> key \<and> \<not> prefix (key @ delim) k \<longrightarrow> map_of m' k = map_of m k)"
proof -
  let ?kvs = "map (\<lambda>(k, v). ((key @ delim) @ k, v)) members" and ?d = "\<lparr>tr_key = key, tr_operation = ''flatten'', tr_parameters = [delim]\<rparr>"
  let ?m = "mm_delete (mm_set_all m ?kvs) key"
  have mm: "j_MarshalMap m key = Inr members" using assms(1) by (simp add: j_MarshalMap_Inr)
  have run: "processDirective env db ?d (m, a) = Inr (?m, a)"
    using assms(1) mm by (simp add: processDirective_def pj_flatten_def flatten_prefix_def Let_def)
  have "map_of (rev ?kvs) ((key @ delim) @ k) = Some v" if "map_of members k = Some v" for k v
  proof -
    have "distinct (map fst ms) \<Longrightarrow> distinct (map fst (map (\<lambda>(k, v). ((key @ delim) @ k, v)) ms))" for ms :: jobject
      by (induction ms) (auto simp: image_iff)
    then have "distinct (map fst ?kvs)" using assms(2) by blast
    then have "map_of (rev ?kvs) = map_of ?kvs" by (intro map_of_inject_set [THEN iffD2]) (simp_all add: rev_map [symmetric])
    moreover have "map_of ?kvs ((key @ delim) @ k) = map_of members k"
      by (induction members) auto
    ultimately show ?thesis using that by simp
  qed
  then have members: "map_of ?m (key @ delim @ k) = Some v" if "map_of members k = Some v" for k v
    using that assms(3) by (simp add: mm_delete_lookup mm_set_all_lookup)
  have "map_of ?m k = map_of m k" if "k \<noteq> key" "\<not> prefix (key @ delim) k" for k
    using that by (auto simp: mm_delete_lookup intro!: mm_set_all_other)
  moreover have "map_of ?m key = None" by (simp add: mm_delete_lookup)
  ultimately show ?thesis using run members by blast
qed

theorem json_flatten_spec_witness:
  "\<forall>env. \<exists>m'. processDirective env False \<lparr>tr_key = ''a'', tr_operation = ''flatten'', tr_parameters = [''.'']\<rparr>
      ([(''a'', JObject [(''x'', JVal (GBool True))]), (''b'', JVal GNil)], []) = Inr (m', []) \<and> map_of m' ''a.x'' = Some (JVal (GBool True))"
proof
  fix env
  let ?d = "\<lparr>tr_key = ''a'', tr_operation = ''flatten'', tr_parameters = [''.'']\<rparr>"
  let ?ms = "[(''x'', JVal (GBool True))]" let ?m = "[(''a'', JObject ?ms), (''b'', JVal GNil)]"
  obtain m' where m': "processDirective env False ?d (?m, []) = Inr (m', [])"
    "\<And>k v. map_of ?ms k = Some v \<Longrightarrow> map_of m' (''a'' @ ''.'' @ k) = Some v"
    using json_flatten_spec [of ?m "''a''" ?ms "''.''" env False "[]"] by auto
  from m'(2) [of "''x''"] m'(1)
  show "\<exists>m'. processDirective env False ?d (?m, []) = Inr (m', []) \<and> map_of m' ''a.x'' = Some (JVal (GBool True))" by auto
qed

text \<open>A negative index, which is meant to count from the end, never picks anything; and a text field is not
  converted to an array by \<open>ip\<close>.\<close>

lemma json_pick_negative:
  assumes "fst (atoi i) < 0" "- (2 ^ 62) < fst (atoi i)" "length (slice_items a (array_or_nil m key)) < 2 ^ 62"
  shows "pj_pick key [i, name] (m, a) = Inr m"
proof -
  let ?n = "int (length (slice_items a (array_or_nil m key)))"
  have "?n < 2 ^ 62" using assms(3) by simp
  then have "int64 (?n - fst (atoi i)) = ?n - fst (atoi i)" using assms(1,2) by (intro int64_id; simp)
  with assms(1) show ?thesis by (simp add: pj_pick_def Let_def)
qed

lemma json_ip_text: "map_of m key = Some (JString s) \<Longrightarrow> pj_ip env key (m, a) = Inr (m, a)"
  by (simp add: pj_ip_def or_unchanged_def j_Array_def j_lookup_def)

text \<open>A field that is no array is set to the empty slice, which the encoder writes as null.\<close>

lemma json_remove_no_array:
  "map_of m key = Some (JVal g) \<Longrightarrow> params \<noteq> [] \<Longrightarrow>
   read_object (pj_remove key params (m, a)) = mm_set (read_object (m, a)) key GNil"
proof -
  have "map (\<lambda>(k, v). (k, f v)) (mm_set m key x) = mm_set (map (\<lambda>(k, v). (k, f v)) m) key (f x)" for f :: "jval \<Rightarrow> gval" and x
    by (induction m key x rule: mm_set.induct) auto
  moreover assume "map_of m key = Some (JVal g)" "params \<noteq> []"
  ultimately show ?thesis by (simp add: pj_remove_def array_or_nil_def j_Array_def j_lookup_def read_object_def)
qed

end
