(* ===== verification/Formatters.thy ===== *)
theory Formatters
  imports Plugins ByteStreams Base64s ProcessJSONs
begin

text \<open>
  The formatter plugins of \<open>format/\<close>. A formatter is a tree: most formatters own a base formatter
  that is applied first. \<open>Format\<close> maps a message to a payload and a stream id; a formatter that
  computes a stream id from a name registers the name. What comes from outside the program (the host
  name, time and number formatting, the JSON and protobuf codecs, templates) is the record
  \<open>format_env\<close>. \<open>Configure\<close> of every formatter builds its base through the plugin registry, by
  name, from the same configuration.
\<close>

record collectd_packet =
  cd_Values :: "u64 list"
  cd_Dstypes :: "bytes list"
  cd_Dsnames :: "bytes list"
  cd_Time :: u64
  cd_Host :: bytes
  cd_Plugin :: bytes
  cd_PluginInstance :: bytes
  cd_PluginType :: bytes
  cd_TypeInstance :: bytes

record format_env =
  env_hostname :: "bytes option"
  env_time :: "bytes \<Rightarrow> int \<Rightarrow> bytes"
  env_json :: "bytes \<Rightarrow> marshal_map option"
  env_is_json :: "bytes \<Rightarrow> bool"
  env_collectd :: "bytes \<Rightarrow> collectd_packet option"
  env_float :: "bytes \<Rightarrow> u64 \<Rightarrow> bytes"
  env_float_int :: "u64 \<Rightarrow> int \<Rightarrow> int"
  env_sprint :: "gval \<Rightarrow> bytes"
  env_marshal :: "serialized_message \<Rightarrow> bytes option"
  env_template :: "bytes \<Rightarrow> marshal_map \<Rightarrow> bytes option"
  env_template_ok :: "bytes \<Rightarrow> bool"
  env_process :: process_env

datatype identifier_type = IdHash | IdTime | IdSeq | IdSeqHex

datatype formatter =
    Forward
  | Clear
  | Envelope formatter bytes bytes
  | Runlength formatter bytes
  | Hostname formatter bytes
  | Sequence formatter bytes
  | Timestamp formatter bytes
  | Base64Encode formatter bytes
  | Base64Decode formatter bytes
  | StreamName formatter bytes bool
  | StreamRevert formatter
  | StreamRoute formatter formatter bytes bool
  | SplitPick formatter int bytes
  | SplitToJSON formatter bytes "bytes list" bool
  | Identifier formatter identifier_type
  | SerializeMessage formatter bool
  | ExtractJSON formatter bytes bool bytes
  | TemplateJSON formatter bytes
  | CollectdToInflux08 formatter
  | CollectdToInflux09 formatter
  | CollectdToInflux10 formatter
  | ProcessTSV formatter "tsv_directive list" bytes bool
  | ProcessJSON formatter "transform_directive list" bool bool

subsection \<open>The transformations\<close>

text \<open>\<open>make\<close> and two or three \<open>copy\<close> calls, as the formatters write their payload.\<close>

definition copy_parts :: "bytes \<Rightarrow> bytes \<Rightarrow> bytes" where
  "copy_parts head basePayload =
     (let payload = replicate (length head + length basePayload) (CHR 0x00);
          payload = copy_at 0 head payload
      in copy_at (length head) basePayload payload)"

definition Envelope_Format :: "bytes \<Rightarrow> bytes \<Rightarrow> bytes \<Rightarrow> bytes" where
  "Envelope_Format pre post basePayload =
     (let payload = replicate (length pre + length basePayload + length post) (CHR 0x00);
          payload = (if length pre > 0 then copy_at 0 pre payload else payload);
          payload = copy_at (length pre) basePayload payload
      in if length post > 0 then copy_at (length pre + length basePayload) post payload else payload)"

definition Runlength_Format :: "bytes \<Rightarrow> bytes \<Rightarrow> bytes" where
  "Runlength_Format separator basePayload =
     copy_parts (itoa (int (length basePayload)) @ separator) basePayload"

definition Hostname_Format :: "format_env \<Rightarrow> bytes \<Rightarrow> bytes \<Rightarrow> bytes" where
  "Hostname_Format env separator basePayload =
     copy_parts (case env_hostname env of None \<Rightarrow> [] | Some h \<Rightarrow> h @ separator) basePayload"

definition Sequence_Format :: "bytes \<Rightarrow> u64 \<Rightarrow> bytes \<Rightarrow> bytes" where
  "Sequence_Format separator sequence basePayload =
     copy_parts (format_uint (unat sequence) 10 @ separator) basePayload"

definition Timestamp_Format :: "format_env \<Rightarrow> bytes \<Rightarrow> int \<Rightarrow> bytes \<Rightarrow> bytes" where
  "Timestamp_Format env layout time basePayload = copy_parts (env_time env layout time) basePayload"

definition Base64Encode_Format :: "bytes \<Rightarrow> bytes \<Rightarrow> bytes" where
  "Base64Encode_Format dictionary data = base64_encode dictionary data"

definition Base64Decode_Format :: "bytes \<Rightarrow> bytes \<Rightarrow> bytes" where
  "Base64Decode_Format dictionary data =
     (case base64_decode dictionary data of None \<Rightarrow> data | Some decoded \<Rightarrow> decoded)"

definition StreamName_Format :: "bytes \<Rightarrow> bool \<Rightarrow> stream_names \<Rightarrow> message \<Rightarrow> bytes \<Rightarrow> u64 \<Rightarrow> bytes" where
  "StreamName_Format separator usePrevious names msg data streamID =
     (let streamName = (if \<not> usePrevious then GetStreamName names streamID
                        else if streamID \<noteq> m_StreamID msg then GetStreamName names (m_StreamID msg)
                        else GetStreamName names (m_PrevStreamID msg));
          payload = replicate (length streamName + length separator + length data) (CHR 0x00);
          payload = copy_at 0 streamName payload;
          payload = copy_at (length streamName) separator payload
      in copy_at (length streamName + length separator) data payload)"

definition SplitPick_Format :: "int \<Rightarrow> bytes \<Rightarrow> bytes \<Rightarrow> bytes run" where
  "SplitPick_Format index delimiter data =
     (let parts = str_split data delimiter
      in if index < int (length parts) then
           (if index < 0 then Inl IndexOutOfRange else Inr (parts ! nat index))
         else Inr [])"

definition json_member :: "format_env \<Rightarrow> bool \<Rightarrow> bytes \<Rightarrow> bytes \<Rightarrow> bytes" where
  "json_member env keepJSON key component =
     [CHR 0x22] @ EscapeJSON key @ [CHR 0x22] @ '':'' @
     (if \<not> keepJSON \<or> \<not> env_is_json env component then [CHR 0x22] @ EscapeJSON component @ [CHR 0x22] else component)"

definition SplitToJSON_Format :: "format_env \<Rightarrow> bytes \<Rightarrow> bytes list \<Rightarrow> bool \<Rightarrow> bytes \<Rightarrow> bytes" where
  "SplitToJSON_Format env token keys keepJSON data =
     (let components = str_split data token;
          maxIdx = nat (MinI (int (length keys)) (int (length components)))
      in if maxIdx = 0 then []
         else if maxIdx = 1 then
           ''{'' @ keys ! 0 @ '':'' @ [CHR 0x22] @ components ! 0 @ [CHR 0x22] @ ''}''
         else foldl (\<lambda>jsonData i.
                let m = json_member env keepJSON (keys ! i) (components ! i)
                in if i = 0 then ''{'' @ m
                   else if i = maxIdx - 1 then jsonData @ '','' @ m @ ''}''
                   else jsonData @ '','' @ m) [] [0..<maxIdx])"

definition Identifier_hash :: "format_env \<Rightarrow> identifier_type \<Rightarrow> message \<Rightarrow> bytes" where
  "Identifier_hash env kind msg =
     (case kind of
        IdHash \<Rightarrow> format_uint (unat (fnv1a (m_Data msg))) 16
      | IdTime \<Rightarrow> env_time env ''060102150405'' (m_Timestamp msg) @ format_uint (unat (m_Sequence msg) mod 10000000) 10
      | IdSeq \<Rightarrow> format_uint (unat (m_Sequence msg)) 10
      | IdSeqHex \<Rightarrow> format_uint (unat (m_Sequence msg)) 16)"

definition Serialize_Format :: "format_env \<Rightarrow> bool \<Rightarrow> message \<Rightarrow> bytes" where
  "Serialize_Format env encode msg =
     (case Serialize (env_marshal env) msg of
        None \<Rightarrow> m_Data msg
      | Some data \<Rightarrow> if \<not> encode then data else base64_encode StdEncoding data @ [CHR 0x0A])"

definition ExtractJSON_Format :: "format_env \<Rightarrow> bytes \<Rightarrow> bytes \<Rightarrow> bytes \<Rightarrow> bytes" where
  "ExtractJSON_Format env field numberFormat data =
     (case env_json env data of
        None \<Rightarrow> data
      | Some vals \<Rightarrow>
          (case map_of vals field of
             None \<Rightarrow> []
           | Some (GInt64 i) \<Rightarrow> itoa (sint i)
           | Some (GString s) \<Rightarrow> s
           | Some (GFloat64 f) \<Rightarrow> env_float env numberFormat f
           | Some v \<Rightarrow> env_sprint env v))"

definition TemplateJSON_Format :: "format_env \<Rightarrow> bytes \<Rightarrow> bytes \<Rightarrow> bytes" where
  "TemplateJSON_Format env templ data =
     (case env_json env data of
        None \<Rightarrow> data
      | Some vals \<Rightarrow> (case env_template env templ vals of None \<Rightarrow> data | Some d \<Rightarrow> d))"

definition parseCollectdPacket :: "format_env \<Rightarrow> bytes \<Rightarrow> collectd_packet option" where
  "parseCollectdPacket env data = env_collectd env (str_trim data [CHR '' '', CHR 0x09, CHR '',''])"

definition quoted :: "bytes \<Rightarrow> bytes" where
  "quoted s = [CHR 0x22] @ s @ [CHR 0x22]"

definition int32 :: "int \<Rightarrow> int" where
  "int32 x = (x + 2 ^ 31) mod 2 ^ 32 - 2 ^ 31"

definition createMetricName :: "bytes \<Rightarrow> bytes \<Rightarrow> bytes \<Rightarrow> bytes \<Rightarrow> bytes \<Rightarrow> bytes" where
  "createMetricName plugin pluginInstance pluginType pluginTypeInstance host =
     (let pluginInstance = (if pluginInstance \<noteq> [] then ''-'' @ pluginInstance else pluginInstance);
          pluginTypeInstance = (if pluginTypeInstance \<noteq> [] then ''-'' @ pluginTypeInstance else pluginTypeInstance)
      in host @ ''.'' @ plugin @ pluginInstance @ ''.'' @ pluginType @ pluginTypeInstance)"

definition CollectdToInflux08_Format :: "format_env \<Rightarrow> bytes \<Rightarrow> bytes" where
  "CollectdToInflux08_Format env data =
     (case parseCollectdPacket env data of
        None \<Rightarrow> []
      | Some p \<Rightarrow>
          let nm = createMetricName (cd_Plugin p) (cd_PluginInstance p) (cd_PluginType p) (cd_TypeInstance p) (cd_Host p);
              line = (\<lambda>v. ''{'' @ quoted ''name'' @ '': '' @ quoted nm @ '', '' @ quoted ''columns'' @ '': [''
                        @ quoted ''time'' @ '', '' @ quoted ''value'' @ ''], '' @ quoted ''points'' @ '':[[''
                        @ itoa (int32 (env_float_int env (cd_Time p) 1)) @ '', '' @ env_float env ''%f'' v @ '']]},'')
          in stream_Bytes (stream_write_all (NewByteStream (length data)) (map line (cd_Values p))))"

definition set_size :: "collectd_packet \<Rightarrow> nat" where
  "set_size p = nat (Min3I (int (length (cd_Dstypes p))) (int (length (cd_Dsnames p))) (int (length (cd_Values p))))"

definition CollectdToInflux09_Format :: "format_env \<Rightarrow> bytes \<Rightarrow> bytes" where
  "CollectdToInflux09_Format env data =
     (case parseCollectdPacket env data of
        None \<Rightarrow> []
      | Some p \<Rightarrow>
          let fixedPart = ''{'' @ quoted ''name'' @ '': '' @ quoted (cd_Plugin p) @ '', '' @ quoted ''timestamp'' @ '': ''
                 @ itoa (env_float_int env (cd_Time p) 1) @ '', '' @ quoted ''precision'' @ '': '' @ quoted ''ms'' @ '', ''
                 @ quoted ''tags'' @ '': {'' @ quoted ''plugin_instance'' @ '': '' @ quoted (cd_PluginInstance p) @ '', ''
                 @ quoted ''type'' @ '': '' @ quoted (cd_PluginType p) @ '', '' @ quoted ''type_instance'' @ '': ''
                 @ quoted (cd_TypeInstance p) @ '', '' @ quoted ''host'' @ '': '' @ quoted (cd_Host p);
              line = (\<lambda>i. fixedPart @ '', '' @ quoted ''dstype'' @ '': '' @ quoted (cd_Dstypes p ! i) @ '', ''
                 @ quoted ''dsname'' @ '': '' @ quoted (cd_Dsnames p ! i) @ ''}, '' @ quoted ''fields'' @ '': {''
                 @ quoted ''value'' @ '': '' @ env_float env ''%f'' (cd_Values p ! i) @ ''} },'')
          in stream_Bytes (stream_write_all (NewByteStream (length data)) (map line [0..<set_size p])))"

definition tagString :: "(bytes \<times> bytes) list" where
  "tagString = [('','', [CHR 0x5C, CHR '','']), ('' '', [CHR 0x5C, CHR '' ''])]"

definition escapeTag :: "bytes \<Rightarrow> bytes" where
  "escapeTag v = replacer tagString v"

text \<open>The format string of the code is a raw string: the line ends in a backslash and an n.\<close>

definition CollectdToInflux10_Format :: "format_env \<Rightarrow> bytes \<Rightarrow> bytes" where
  "CollectdToInflux10_Format env data =
     (case parseCollectdPacket env data of
        None \<Rightarrow> []
      | Some p \<Rightarrow>
          let timestamp = env_float_int env (cd_Time p) 1000;
              fixedPart = escapeTag (cd_Plugin p) @ '',plugin_instance='' @ escapeTag (cd_PluginInstance p)
                 @ '',type='' @ escapeTag (cd_PluginType p) @ '',type_instance='' @ escapeTag (cd_TypeInstance p)
                 @ '',host='' @ escapeTag (cd_Host p);
              line = (\<lambda>i. fixedPart @ '',dstype='' @ escapeTag (cd_Dstypes p ! i) @ '',dsname=''
                 @ escapeTag (cd_Dsnames p ! i) @ '' value='' @ env_float env ''%f'' (cd_Values p ! i) @ '' ''
                 @ itoa timestamp @ [CHR 0x5C, CHR ''n''])
          in stream_Bytes (stream_write_all (NewByteStream (length data)) (map line [0..<set_size p])))"

text \<open>
  What \<open>StreamRoute\<close> does to the message before the base formatter: a prefix up to the delimiter,
  without a space, names the stream. \<open>fmt\<close> is the formatter of the stream name.
\<close>

definition StreamRoute_modify ::
  "(message \<Rightarrow> stream_names \<Rightarrow> ((bytes \<times> u64) \<times> stream_names) run) \<Rightarrow> bytes \<Rightarrow> bool \<Rightarrow> message \<Rightarrow> int \<Rightarrow>
   stream_names \<Rightarrow> (message \<times> stream_names) run" where
  "StreamRoute_modify fmt delimiter formatBoth msg now names =
     (case str_index (m_Data msg) delimiter of
        None \<Rightarrow> Inr (msg, names)
      | Some prefixEnd \<Rightarrow>
          if prefixEnd = 0 then
            (if m_Data msg = [] then Inl SliceOutOfRange else Inr (msg\<lparr>m_Data := drop 1 (m_Data msg)\<rparr>, names))
          else if (case str_index (m_Data msg) '' '' of None \<Rightarrow> True | Some i \<Rightarrow> i \<ge> prefixEnd) then
            run_bind (if formatBoth
                      then run_bind (fmt (NewMessage None (take prefixEnd (m_Data msg)) 0 now) names)
                             (\<lambda>((nm, _), names). Inr (nm, names))
                      else Inr (take prefixEnd (m_Data msg), names))
              (\<lambda>(streamName, names).
                 let (streamID, names) = GetStreamID names streamName
                 in Inr (msg\<lparr>m_StreamID := streamID, m_Data := drop (prefixEnd + 1) (m_Data msg)\<rparr>, names))
          else Inr (msg, names))"

subsection \<open>Format\<close>

fun Format :: "format_env \<Rightarrow> int \<Rightarrow> formatter \<Rightarrow> message \<Rightarrow> stream_names \<Rightarrow> ((bytes \<times> u64) \<times> stream_names) run" where
  "Format env now Forward msg names = Inr ((m_Data msg, m_StreamID msg), names)"
| "Format env now Clear msg names = Inr (([], m_StreamID msg), names)"
| "Format env now (Envelope b pre post) msg names =
     run_bind (Format env now b msg names) (\<lambda>((d, s), names). Inr ((Envelope_Format pre post d, s), names))"
| "Format env now (Runlength b sep) msg names =
     run_bind (Format env now b msg names) (\<lambda>((d, s), names). Inr ((Runlength_Format sep d, s), names))"
| "Format env now (Hostname b sep) msg names =
     run_bind (Format env now b msg names) (\<lambda>((d, s), names). Inr ((Hostname_Format env sep d, s), names))"
| "Format env now (Sequence b sep) msg names =
     run_bind (Format env now b msg names)
       (\<lambda>((d, s), names). Inr ((Sequence_Format sep (m_Sequence msg) d, s), names))"
| "Format env now (Timestamp b layout) msg names =
     run_bind (Format env now b msg names)
       (\<lambda>((d, s), names). Inr ((Timestamp_Format env layout (m_Timestamp msg) d, s), names))"
| "Format env now (Base64Encode b dict) msg names =
     run_bind (Format env now b msg names) (\<lambda>((d, s), names). Inr ((Base64Encode_Format dict d, s), names))"
| "Format env now (Base64Decode b dict) msg names =
     run_bind (Format env now b msg names) (\<lambda>((d, s), names). Inr ((Base64Decode_Format dict d, s), names))"
| "Format env now (StreamName b sep prev) msg names =
     run_bind (Format env now b msg names)
       (\<lambda>((d, s), names). Inr ((StreamName_Format sep prev names msg d s, s), names))"
| "Format env now (StreamRevert b) msg names =
     run_bind (Format env now b msg names) (\<lambda>((d, s), names). Inr ((d, m_PrevStreamID msg), names))"
| "Format env now (StreamRoute b sf delim both) msg names =
     run_bind (StreamRoute_modify (Format env now sf) delim both msg now names)
       (\<lambda>(modMsg, names). Format env now b modMsg names)"
| "Format env now (SplitPick b index delim) msg names =
     run_bind (Format env now b msg names)
       (\<lambda>((d, s), names). run_bind (SplitPick_Format index delim d) (\<lambda>part. Inr ((part, s), names)))"
| "Format env now (SplitToJSON b token keys keep) msg names =
     run_bind (Format env now b msg names) (\<lambda>((d, s), names). Inr ((SplitToJSON_Format env token keys keep d, s), names))"
| "Format env now (Identifier b kind) msg names =
     run_bind (Format env now b msg names)
       (\<lambda>((d, s), names). Inr ((Identifier_hash env kind (msg\<lparr>m_Data := d, m_StreamID := s\<rparr>), s), names))"
| "Format env now (SerializeMessage b encode) msg names =
     run_bind (Format env now b msg names)
       (\<lambda>((d, s), names). Inr ((Serialize_Format env encode (msg\<lparr>m_Data := d, m_StreamID := s\<rparr>), s), names))"
| "Format env now (ExtractJSON b field trim numberFormat) msg names =
     run_bind (Format env now b msg names) (\<lambda>((d, s), names). Inr ((ExtractJSON_Format env field numberFormat d, s), names))"
| "Format env now (TemplateJSON b templ) msg names =
     run_bind (Format env now b msg names) (\<lambda>((d, s), names). Inr ((TemplateJSON_Format env templ d, s), names))"
| "Format env now (CollectdToInflux08 b) msg names =
     run_bind (Format env now b msg names) (\<lambda>((d, s), names). Inr ((CollectdToInflux08_Format env d, s), names))"
| "Format env now (CollectdToInflux09 b) msg names =
     run_bind (Format env now b msg names) (\<lambda>((d, s), names). Inr ((CollectdToInflux09_Format env d, s), names))"
| "Format env now (CollectdToInflux10 b) msg names =
     run_bind (Format env now b msg names) (\<lambda>((d, s), names). Inr ((CollectdToInflux10_Format env d, s), names))"
| "Format env now (ProcessTSV b directives delim quotedValues) msg names =
     run_bind (Format env now b msg names) (\<lambda>((d, s), names).
       run_bind (ProcessTSV_Format (env_process env) directives delim quotedValues d) (\<lambda>d. Inr ((d, s), names)))"
| "Format env now (ProcessJSON b directives trimValues db) msg names =
     run_bind (Format env now b msg names) (\<lambda>((d, s), names).
       run_bind (ProcessJSON_Format (env_process env) (env_json env) directives trimValues db d) (\<lambda>d. Inr ((d, s), names)))"

subsection \<open>Configure\<close>

text \<open>\<open>new\<close> is \<open>NewPluginWithType\<close> on the same configuration.\<close>

definition base_formatter :: "(bytes \<Rightarrow> formatter cfg) \<Rightarrow> bytes \<Rightarrow> formatter cfg" where
  "base_formatter new key = cfg_bind (cfg_get (GetString key ''format.Forward'')) new"

definition Envelope_Configure :: "(bytes \<Rightarrow> formatter cfg) \<Rightarrow> formatter cfg" where
  "Envelope_Configure new =
     cfg_bind (base_formatter new ''EnvelopeFormatter'') (\<lambda>b.
     cfg_bind (cfg_get (GetString ''EnvelopePrefix'' [])) (\<lambda>pre.
     cfg_bind (cfg_get (GetString ''EnvelopePostfix'' [CHR 0x0A])) (\<lambda>post.
     cfg_return (Envelope b (Unescape pre) (Unescape post)))))"

definition Runlength_Configure :: "(bytes \<Rightarrow> formatter cfg) \<Rightarrow> formatter cfg" where
  "Runlength_Configure new =
     cfg_bind (base_formatter new ''RunlengthFormatter'') (\<lambda>b.
     cfg_bind (cfg_get (GetString ''RunlengthSeparator'' '':'')) (\<lambda>sep. cfg_return (Runlength b sep)))"

definition Hostname_Configure :: "(bytes \<Rightarrow> formatter cfg) \<Rightarrow> formatter cfg" where
  "Hostname_Configure new =
     cfg_bind (base_formatter new ''HostnameFormatter'') (\<lambda>b.
     cfg_bind (cfg_get (GetString ''HostnameSeparator'' '' '')) (\<lambda>sep. cfg_return (Hostname b sep)))"

definition Sequence_Configure :: "(bytes \<Rightarrow> formatter cfg) \<Rightarrow> formatter cfg" where
  "Sequence_Configure new =
     cfg_bind (base_formatter new ''SequenceFormatter'') (\<lambda>b.
     cfg_bind (cfg_get (GetString ''SequenceSeparator'' '':'')) (\<lambda>sep. cfg_return (Sequence b sep)))"

definition Timestamp_Configure :: "(bytes \<Rightarrow> formatter cfg) \<Rightarrow> formatter cfg" where
  "Timestamp_Configure new =
     cfg_bind (base_formatter new ''TimestampFormatter'') (\<lambda>b.
     cfg_bind (cfg_get (GetString ''Timestamp'' ''2006-01-02 15:04:05 MST | '')) (\<lambda>layout.
     cfg_return (Timestamp b layout)))"

definition base64_dictionary :: "bytes \<Rightarrow> bytes cfg" where
  "base64_dictionary dict =
     (if dict = [] then cfg_return StdEncoding
      else if length dict \<noteq> 64 then cfg_fail (ConfError ''Base64 dictionary must contain 64 characters.'')
      else cfg_return dict)"

definition Base64Encode_Configure :: "(bytes \<Rightarrow> formatter cfg) \<Rightarrow> formatter cfg" where
  "Base64Encode_Configure new =
     cfg_bind (base_formatter new ''Base64DataFormatter'') (\<lambda>b.
     cfg_bind (cfg_get (GetString ''Base64Formatter'' [])) (\<lambda>dict.
     cfg_bind (base64_dictionary dict) (\<lambda>d. cfg_return (Base64Encode b d))))"

definition Base64Decode_Configure :: "(bytes \<Rightarrow> formatter cfg) \<Rightarrow> formatter cfg" where
  "Base64Decode_Configure new =
     cfg_bind (base_formatter new ''Base64Formatter'') (\<lambda>b.
     cfg_bind (cfg_get (GetString ''Base64Dictionary'' [])) (\<lambda>dict.
     cfg_bind (base64_dictionary dict) (\<lambda>d. cfg_return (Base64Decode b d))))"

definition StreamName_Configure :: "(bytes \<Rightarrow> formatter cfg) \<Rightarrow> formatter cfg" where
  "StreamName_Configure new =
     cfg_bind (base_formatter new ''StreamNameFormatter'') (\<lambda>b.
     cfg_bind (cfg_get (GetString ''StreamNameSeparator'' '' '')) (\<lambda>sep.
     cfg_bind (cfg_get (GetBool ''StreamNameHistory'' False)) (\<lambda>prev. cfg_return (StreamName b sep prev))))"

definition StreamRevert_Configure :: "(bytes \<Rightarrow> formatter cfg) \<Rightarrow> formatter cfg" where
  "StreamRevert_Configure new =
     cfg_bind (base_formatter new ''StreamRevertFormatter'') (\<lambda>b. cfg_return (StreamRevert b))"

definition StreamRoute_Configure :: "(bytes \<Rightarrow> formatter cfg) \<Rightarrow> formatter cfg" where
  "StreamRoute_Configure new =
     cfg_bind (cfg_get (GetString ''StreamRouteFormatter'' ''format.Forward'')) (\<lambda>baseFormatter.
     cfg_bind (new baseFormatter) (\<lambda>b.
     cfg_bind (cfg_get (GetString ''StreamRouteStreamFormatter'' baseFormatter)) (\<lambda>streamFormatter.
     cfg_bind (new streamFormatter) (\<lambda>sf.
     cfg_bind (cfg_get (GetString ''StreamRouteDelimiter'' '':'')) (\<lambda>delim.
     cfg_bind (cfg_get (GetBool ''StreamRouteFormatStream'' False)) (\<lambda>both.
     cfg_return (StreamRoute b sf delim both)))))))"

definition SplitPick_Configure :: "(bytes \<Rightarrow> formatter cfg) \<Rightarrow> formatter cfg" where
  "SplitPick_Configure new =
     cfg_bind (base_formatter new ''SplitPickFormatter'') (\<lambda>b.
     cfg_bind (cfg_get (GetInt ''SplitPickIndex'' 0)) (\<lambda>index.
     cfg_bind (cfg_get (GetString ''SplitPickDelimiter'' '':'')) (\<lambda>delim. cfg_return (SplitPick b index delim))))"

definition SplitToJSON_Configure :: "(bytes \<Rightarrow> formatter cfg) \<Rightarrow> formatter cfg" where
  "SplitToJSON_Configure new =
     cfg_bind (base_formatter new ''SplitToJSONDataFormatter'') (\<lambda>b.
     cfg_bind (cfg_get (GetString ''SplitToJSONToken'' ''|'')) (\<lambda>token.
     cfg_bind (cfg_get (GetStringArray ''SplitToJSONKeys'' [])) (\<lambda>keys.
     cfg_bind (cfg_get (GetBool ''SplitToJSONKeepJSON'' True)) (\<lambda>keep.
     cfg_return (SplitToJSON b token keys keep)))))"

definition Identifier_Configure :: "(bytes \<Rightarrow> formatter cfg) \<Rightarrow> formatter cfg" where
  "Identifier_Configure new =
     cfg_bind (base_formatter new ''IdentifierDataFormatter'') (\<lambda>b.
     cfg_bind (cfg_get (GetString ''IdentifierType'' ''time'')) (\<lambda>t.
     let t = str_to_lower t
     in cfg_return (Identifier b (if t = ''hash'' then IdHash else if t = ''seq'' then IdSeq
                                  else if t = ''seqhex'' then IdSeqHex else IdTime))))"

definition Serialize_Configure :: "(bytes \<Rightarrow> formatter cfg) \<Rightarrow> formatter cfg" where
  "Serialize_Configure new =
     cfg_bind (base_formatter new ''SerializeFormatter'') (\<lambda>b.
     cfg_bind (cfg_get (GetBool ''SerializeStringEncode'' True)) (\<lambda>e. cfg_return (SerializeMessage b e)))"

definition ExtractJSON_Configure :: "(bytes \<Rightarrow> formatter cfg) \<Rightarrow> formatter cfg" where
  "ExtractJSON_Configure new =
     cfg_bind (base_formatter new ''ExtractJSONdataFormatter'') (\<lambda>b.
     cfg_bind (cfg_get (GetString ''ExtractJSONField'' [])) (\<lambda>field.
     cfg_bind (cfg_get (GetBool ''ExtractJSONTrimValues'' True)) (\<lambda>trim.
     cfg_bind (cfg_get (GetInt ''ExtractJSONPrecision'' 0)) (\<lambda>precision.
     cfg_return (ExtractJSON b field trim (''%.'' @ itoa precision @ ''f''))))))"

definition TemplateJSON_Configure :: "format_env \<Rightarrow> (bytes \<Rightarrow> formatter cfg) \<Rightarrow> formatter cfg" where
  "TemplateJSON_Configure env new =
     cfg_bind (base_formatter new ''TemplateJSONFormatter'') (\<lambda>b.
     cfg_bind (cfg_get (GetString ''TemplateJSONTemplate'' [])) (\<lambda>templ.
     if env_template_ok env templ then cfg_return (TemplateJSON b templ) else cfg_fail (ConfError ''template'')))"

definition CollectdToInflux08_Configure :: "(bytes \<Rightarrow> formatter cfg) \<Rightarrow> formatter cfg" where
  "CollectdToInflux08_Configure new =
     cfg_bind (base_formatter new ''CollectdToInfluxFormatter'') (\<lambda>b. cfg_return (CollectdToInflux08 b))"

definition CollectdToInflux09_Configure :: "(bytes \<Rightarrow> formatter cfg) \<Rightarrow> formatter cfg" where
  "CollectdToInflux09_Configure new =
     cfg_bind (base_formatter new ''CollectdToInflux09'') (\<lambda>b. cfg_return (CollectdToInflux09 b))"

definition CollectdToInflux10_Configure :: "(bytes \<Rightarrow> formatter cfg) \<Rightarrow> formatter cfg" where
  "CollectdToInflux10_Configure new =
     cfg_bind (base_formatter new ''CollectdToInflux1009'') (\<lambda>b. cfg_return (CollectdToInflux10 b))"

definition ProcessTSV_Configure :: "(bytes \<Rightarrow> formatter cfg) \<Rightarrow> formatter cfg" where
  "ProcessTSV_Configure new =
     cfg_bind (base_formatter new ''ProcessTSVDataFormatter'') (\<lambda>b.
     cfg_bind (cfg_get (GetStringArray ''ProcessTSVDirectives'' [])) (\<lambda>directives.
     cfg_bind (cfg_get (GetString ''ProcessTSVDelimiter'' [CHR 0x09])) (\<lambda>delim.
     cfg_bind (cfg_get (GetBool ''ProcessTSVQuotedValues'' False)) (\<lambda>quotedValues.
     case read_tsv_directives directives of
       None \<Rightarrow> cfg_fail (ConfError ''strconv.Atoi'')
     | Some ds \<Rightarrow> cfg_return (ProcessTSV b ds delim quotedValues)))))"

definition ProcessJSON_Configure :: "format_env \<Rightarrow> (bytes \<Rightarrow> formatter cfg) \<Rightarrow> formatter cfg" where
  "ProcessJSON_Configure env new =
     cfg_bind (base_formatter new ''ProcessJSONDataFormatter'') (\<lambda>b.
     cfg_bind (cfg_get (GetStringArray ''ProcessJSONDirectives'' [])) (\<lambda>directives.
     cfg_bind (cfg_get (GetBool ''ProcessJSONTrimValues'' True)) (\<lambda>trimValues.
     cfg_bind (cfg_get (GetString ''ProcessJSONGeoIPFile'' [])) (\<lambda>geoIPFile.
     if geoIPFile \<noteq> [] \<and> \<not> pe_geo_open (env_process env) geoIPFile then cfg_fail (ConfError ''geoip2.Open'')
     else cfg_return (ProcessJSON b (read_transform_directives directives) trimValues (geoIPFile \<noteq> []))))))"

text \<open>
  The types registered by the package, and the construction of a formatter by name. Construction is
  recursive through the base formatters; \<open>NewFormatter n\<close> allows \<open>n\<close> nested constructions.
\<close>

definition formatter_types :: "format_env \<Rightarrow> (bytes \<times> ((bytes \<Rightarrow> formatter cfg) \<Rightarrow> formatter cfg)) list" where
  "formatter_types env =
     [(''format.Forward'', \<lambda>new. cfg_return Forward), (''format.Clear'', \<lambda>new. cfg_return Clear),
      (''format.Envelope'', Envelope_Configure), (''format.Runlength'', Runlength_Configure),
      (''format.Hostname'', Hostname_Configure), (''format.Sequence'', Sequence_Configure),
      (''format.Timestamp'', Timestamp_Configure), (''format.Base64Encode'', Base64Encode_Configure),
      (''format.Base64Decode'', Base64Decode_Configure), (''format.StreamName'', StreamName_Configure),
      (''format.StreamRevert'', StreamRevert_Configure), (''format.StreamRoute'', StreamRoute_Configure),
      (''format.SplitPick'', SplitPick_Configure), (''format.SplitToJSON'', SplitToJSON_Configure),
      (''format.Identifier'', Identifier_Configure), (''format.Serialize'', Serialize_Configure),
      (''format.ExtractJSON'', ExtractJSON_Configure), (''format.TemplateJSON'', TemplateJSON_Configure env),
      (''format.CollectdToInflux08'', CollectdToInflux08_Configure),
      (''format.CollectdToInflux09'', CollectdToInflux09_Configure),
      (''format.CollectdToInflux10'', CollectdToInflux10_Configure),
      (''format.ProcessTSV'', ProcessTSV_Configure), (''format.ProcessJSON'', ProcessJSON_Configure env)]"

fun NewFormatter :: "format_env \<Rightarrow> nat \<Rightarrow> bytes \<Rightarrow> formatter cfg" where
  "NewFormatter env 0 typename = (\<lambda>st. None)"
| "NewFormatter env (Suc n) typename =
     NewPluginWithType (\<lambda>t. map_option (\<lambda>c. c (NewFormatter env n)) (map_of (formatter_types env) t)) typename"

subsection \<open>Lemmas\<close>

lemma copy_parts_append: "copy_parts head d = head @ d"
  by (simp add: copy_parts_def copy_at_fits Let_def)

lemma Envelope_Format_append: "Envelope_Format pre post d = pre @ d @ post"
  by (simp add: Envelope_Format_def copy_at_fits Let_def)

lemma StreamName_Format_append:
  "StreamName_Format sep prev names msg d s =
     (if \<not> prev then GetStreamName names s
      else if s \<noteq> m_StreamID msg then GetStreamName names (m_StreamID msg)
      else GetStreamName names (m_PrevStreamID msg)) @ sep @ d"
  by (simp add: StreamName_Format_def copy_at_fits Let_def)

lemmas format_appends = copy_parts_append Envelope_Format_append StreamName_Format_append
  Runlength_Format_def Hostname_Format_def Sequence_Format_def Timestamp_Format_def

lemma itoa_nat: "itoa (int n) = format_uint n 10"
  by (simp add: itoa_def)

text \<open>
  The formatters that cannot panic: no negative index, no empty routing delimiter, no quoted values, no
  \<open>time\<close> directive, no \<open>pick\<close> without its two parameters.
\<close>

definition safe_tsv_directive :: "tsv_directive \<Rightarrow> bool" where
  "safe_tsv_directive d \<longleftrightarrow> 0 \<le> td_index d \<and> td_operation d \<noteq> ''time''"

definition safe_json_directive :: "transform_directive \<Rightarrow> bool" where
  "safe_json_directive d \<longleftrightarrow> tr_operation d \<noteq> ''time'' \<and> (tr_operation d = ''pick'' \<longrightarrow> 2 \<le> length (tr_parameters d))"

fun safe_formatter :: "formatter \<Rightarrow> bool" where
  "safe_formatter Forward = True"
| "safe_formatter Clear = True"
| "safe_formatter (StreamRoute b sf delim both) = (delim \<noteq> [] \<and> safe_formatter b \<and> safe_formatter sf)"
| "safe_formatter (SplitPick b index delim) = (0 \<le> index \<and> safe_formatter b)"
| "safe_formatter (Envelope b x y) = safe_formatter b"
| "safe_formatter (Runlength b x) = safe_formatter b"
| "safe_formatter (Hostname b x) = safe_formatter b"
| "safe_formatter (Sequence b x) = safe_formatter b"
| "safe_formatter (Timestamp b x) = safe_formatter b"
| "safe_formatter (Base64Encode b x) = safe_formatter b"
| "safe_formatter (Base64Decode b x) = safe_formatter b"
| "safe_formatter (StreamName b x y) = safe_formatter b"
| "safe_formatter (StreamRevert b) = safe_formatter b"
| "safe_formatter (SplitToJSON b x y z) = safe_formatter b"
| "safe_formatter (Identifier b x) = safe_formatter b"
| "safe_formatter (SerializeMessage b x) = safe_formatter b"
| "safe_formatter (ExtractJSON b x y z) = safe_formatter b"
| "safe_formatter (TemplateJSON b x) = safe_formatter b"
| "safe_formatter (CollectdToInflux08 b) = safe_formatter b"
| "safe_formatter (CollectdToInflux09 b) = safe_formatter b"
| "safe_formatter (CollectdToInflux10 b) = safe_formatter b"
| "safe_formatter (ProcessTSV b ds delim quotedValues) = (\<not> quotedValues \<and> list_all safe_tsv_directive ds \<and> safe_formatter b)"
| "safe_formatter (ProcessJSON b ds trimValues db) = (list_all safe_json_directive ds \<and> safe_formatter b)"

lemma process_tsv_safe: "list_all safe_tsv_directive ds \<Longrightarrow> \<exists>ws. process_tsv_all env ds vs = Inr ws"
proof (induction ds arbitrary: vs)
  case (Cons d ds)
  then have "\<exists>ws. processTSVDirective env d vs = Inr ws"
    by (auto simp: safe_tsv_directive_def processTSVDirective_def Let_def)
  then obtain ws where "processTSVDirective env d vs = Inr ws" by blast
  with Cons show ?case by simp
qed simp

lemma process_json_safe: "list_all safe_json_directive ds \<Longrightarrow> \<exists>st'. process_json_all env db ds st = Inr st'"
proof (induction ds arbitrary: st)
  case (Cons d ds)
  then have "\<not> (\<exists>e. processDirective env db d (fst st, snd st) = Inl e)"
    unfolding directive_panics by (auto simp: safe_json_directive_def)
  then obtain st1 where "processDirective env db d st = Inr st1" by (cases "processDirective env db d st") auto
  with Cons show ?case by simp
qed simp

lemma ProcessTSV_safe: "list_all safe_tsv_directive ds \<Longrightarrow> \<exists>d'. ProcessTSV_Format env ds delim False d = Inr d'"
  using process_tsv_safe [of ds env "stringsToTSVValues (str_split d delim)"] by (auto simp: ProcessTSV_Format_def)

lemma ProcessJSON_safe: "list_all safe_json_directive ds \<Longrightarrow> \<exists>d'. ProcessJSON_Format env unmarshal ds trimValues db d = Inr d'"
proof (cases "unmarshal d")
  case (Some m)
  moreover assume "list_all safe_json_directive ds"
  then obtain m' a' where "process_json_all env db ds (load_members m []) = Inr (m', a')" using process_json_safe by (metis surj_pair)
  ultimately show ?thesis by (simp add: ProcessJSON_Format_def Let_def)
qed (simp add: ProcessJSON_Format_def)

lemma SplitPick_safe: "0 \<le> index \<Longrightarrow> \<exists>d'. SplitPick_Format index delim d = Inr d'"
  by (simp add: SplitPick_Format_def Let_def)

lemma StreamRoute_safe:
  assumes "delim \<noteq> []" "\<And>m ns. \<exists>r ns'. fmt m ns = Inr (r, ns')"
  shows "\<exists>m ns. StreamRoute_modify fmt delim both msg now names = Inr (m, ns)"
proof (cases "str_index (m_Data msg) delim")
  case (Some k)
  with str_index_Some [OF Some] assms(1) have ne: "m_Data msg \<noteq> []" by (cases delim) auto
  obtain r ns' where "fmt (NewMessage None (take k (m_Data msg)) 0 now) names = Inr (r, ns')" using assms(2) by blast
  with Some ne show ?thesis by (cases r) (auto simp: StreamRoute_modify_def GetStreamID_def Let_def)
qed (simp add: StreamRoute_modify_def)

lemma bind_total:
  "\<exists>d s n. m = Inr ((d, s), n) \<Longrightarrow> (\<And>d s n. \<exists>d' s' n'. f ((d, s), n) = Inr ((d', s'), n')) \<Longrightarrow>
   \<exists>d s n. run_bind m f = Inr ((d, s), n)"
  by auto

lemma Format_safe: "safe_formatter f \<Longrightarrow> \<exists>d s names'. Format env now f msg names = Inr ((d, s), names')"
proof (induction f arbitrary: msg names rule: safe_formatter.induct)
  case (3 b sf delim both)
  have "\<exists>m ns. StreamRoute_modify (Format env now sf) delim both msg now names = Inr (m, ns)"
    using 3 by (intro StreamRoute_safe) (simp_all, blast?)
  then obtain m ns where "StreamRoute_modify (Format env now sf) delim both msg now names = Inr (m, ns)" by blast
  with 3 show ?case by simp
next
  case (4 b index delim)
  then have "\<exists>d s names'. Format env now b msg names = Inr ((d, s), names')" by simp
  then obtain d s names' where "Format env now b msg names = Inr ((d, s), names')" by blast
  moreover obtain d' where "SplitPick_Format index delim d = Inr d'" using SplitPick_safe [of index delim d] 4(2) by auto
  ultimately show ?case by simp
next
  case (22 b ds delim quotedValues)
  then have "\<exists>d s names'. Format env now b msg names = Inr ((d, s), names')" by simp
  then obtain d s names' where "Format env now b msg names = Inr ((d, s), names')" by blast
  moreover obtain d' where "ProcessTSV_Format (env_process env) ds delim False d = Inr d'"
    using ProcessTSV_safe [of ds "env_process env" delim d] 22(2) by auto
  ultimately show ?case using 22(2) by simp
next
  case (23 b ds trimValues db)
  then have "\<exists>d s names'. Format env now b msg names = Inr ((d, s), names')" by simp
  then obtain d s names' where "Format env now b msg names = Inr ((d, s), names')" by blast
  moreover obtain d' where "ProcessJSON_Format (env_process env) (env_json env) ds trimValues db d = Inr d'"
    using ProcessJSON_safe [of ds "env_process env" "env_json env" trimValues db d] 23(2) by auto
  ultimately show ?case by simp
qed ((simp; fail) | (simp only: Format.simps safe_formatter.simps, rule bind_total, blast, simp))+

lemma NewFormatter_self:
  assumes "map_of (Settings conf) ''EnvelopeFormatter'' = Some (GString ''format.Envelope'')"
  shows "NewFormatter env n ''format.Envelope'' \<lparr>cs_conf = conf, cs_plugins = ps, cs_names = ns\<rparr> = None"
  using assms
proof (induction n arbitrary: conf)
  case (Suc n)
  have g: "GetString ''EnvelopeFormatter'' ''format.Forward'' conf = Inr (''format.Envelope'', registerKey ''EnvelopeFormatter'' conf)"
    using Suc.prems by (simp add: getter_defs get_setting_spec mm_String_def mm_lookup_def)
  have "NewFormatter env n ''format.Envelope'' \<lparr>cs_conf = registerKey ''EnvelopeFormatter'' conf, cs_plugins = ps, cs_names = ns\<rparr> = None"
    using Suc by (simp add: registerKey_def)
  with g have "Envelope_Configure (NewFormatter env n) \<lparr>cs_conf = conf, cs_plugins = ps, cs_names = ns\<rparr> = None"
    by (simp add: Envelope_Configure_def base_formatter_def cfg_bind_def cfg_get_def)
  then show ?case by (simp add: NewPluginWithType_def formatter_types_def)
qed simp

subsection \<open>Properties\<close>



text \<open>A negative pick index panics on every message, it is not treated as out of bounds.\<close>

theorem formatter_pick_negative_panics:
  assumes "index < 0"
  shows "Format env now (SplitPick Forward index delim) msg names = Inl IndexOutOfRange"
  using assms by (simp add: SplitPick_Format_def Let_def)

theorem formatter_pick_negative_panics_witness:
  "Format env now (SplitPick Forward (- 1) '':'') (NewMessage None ''a:b'' 1 0) Map.empty = Inl IndexOutOfRange"
  by (rule formatter_pick_negative_panics) simp

text \<open>C35: decoding undoes encoding: with the same dictionary of 64 distinct characters without the
  padding character, \<open>Base64Decode\<close> over \<open>Base64Encode\<close> is the base formatter.\<close>

theorem formatter_base64_roundtrip:
  assumes "good_dictionary D"
  shows "Format env now (Base64Decode (Base64Encode b D) D) msg names = Format env now b msg names"
  by (cases "Format env now b msg names")
     (auto simp: Base64Decode_Format_def Base64Encode_Format_def base64_roundtrip [OF assms])

theorem formatter_base64_roundtrip_witness:
  "\<forall>env now. Format env now (Base64Decode (Base64Encode Forward StdEncoding) StdEncoding) (NewMessage None ''hello'' 1 0) Map.empty
    = Inr ((''hello'', WildcardStreamID), Map.empty)"
  using formatter_base64_roundtrip [OF good_StdEncoding, of _ _ Forward "NewMessage None ''hello'' 1 0" Map.empty]
  by (simp add: NewMessage_def)

text \<open>A message "name, delimiter, rest" is routed to the stream of that name when the name has no
  space; the name is registered. Only one byte of the delimiter is removed: a longer delimiter leaves
  its tail in the payload.\<close>

theorem formatter_StreamRoute_routes:
  assumes "m_Data msg = nm @ delim @ rest" "nm \<noteq> []" "delim = c # cs" "c \<notin> set nm" "CHR '' '' \<notin> set nm"
  shows "Format env now (StreamRoute Forward sf delim False) msg names
    = Inr ((cs @ rest, fnv1a nm), names(fnv1a nm \<mapsto> nm))"
proof -
  have d: "str_index (m_Data msg) delim = Some (length nm)"
    using str_index_skip [OF assms(3,4), of rest] assms(1) by simp
  have sp: "length nm \<le> i" if "str_index (m_Data msg) '' '' = Some i" for i
  proof (rule ccontr)
    assume "\<not> length nm \<le> i"
    then have i: "i < length nm" by simp
    from that have "m_Data msg ! i = CHR '' ''"
      using find_index_Some [of "\<lambda>x. x = CHR '' ''" "m_Data msg" i] by (simp add: str_index_single)
    with i assms(1,5) show False by (simp add: nth_append in_set_conv_nth)
  qed
  from d sp assms(1,2,3) show ?thesis
    by (auto simp: StreamRoute_modify_def GetStreamID_def Let_def split: option.splits)
qed

theorem formatter_StreamRoute_routes_witness:
  "\<forall>env now. Format env now (StreamRoute Forward Forward ''::'' False) (NewMessage None ''logs::text'' 1 0) Map.empty
    = Inr (('':text'', fnv1a ''logs''), [fnv1a ''logs'' \<mapsto> ''logs''])"
  using formatter_StreamRoute_routes [of "NewMessage None ''logs::text'' 1 0" "''logs''" "''::''" "''text''" "CHR '':''" "'':''"
      _ _ Forward Map.empty]
  by (simp add: NewMessage_def)

text \<open>A formatter configured as its own base is never built: construction does not return, with
  any bound on the nesting.\<close>

theorem formatter_self_reference_diverges:
  assumes "map_of (Settings conf) ''EnvelopeFormatter'' = Some (GString ''format.Envelope'')"
  shows "NewFormatter env n ''format.Envelope'' \<lparr>cs_conf = conf, cs_plugins = ps, cs_names = ns\<rparr> = None"
  by (rule NewFormatter_self [OF assms])

theorem formatter_self_reference_diverges_witness:
  "NewFormatter env 5 ''format.Envelope''
     \<lparr>cs_conf = (NewPluginConfig ''stream.Broadcast'')\<lparr>Settings := [(''EnvelopeFormatter'', GString ''format.Envelope'')]\<rparr>,
      cs_plugins = Map.empty, cs_names = Map.empty\<rparr> = None"
  by (rule formatter_self_reference_diverges) simp

end
