(* ===== verification/Streams.thy ===== *)
theory Streams
  imports Filters Formatters SyncPrims
begin

text \<open>
  Streams, their registry and the way a message takes through them: \<open>core/stream.go\<close>,
  \<open>core/streamregistry.go\<close>, the stream plugins of \<open>stream/\<close>, and the queueing side of a producer
  (\<open>Enqueue\<close>, \<open>Drop\<close>, dependencies) from \<open>core/producer.go\<close>. Streams and producers are objects
  in a store, the registry maps stream ids to the addresses of streams. An outcome is a panic or the
  next state; it is \<open>None\<close> when the call does not return, because it blocks on a channel nobody
  reads or because the message is routed in circles: a call is given the number of nested
  \<open>Enqueue\<close> calls it may make.
\<close>

type_synonym 'a outcome = "'a run option"

definition then_do :: "'a outcome \<Rightarrow> ('a \<Rightarrow> 'b outcome) \<Rightarrow> 'b outcome" where
  "then_do m f = (case m of None \<Rightarrow> None | Some (Inl p) \<Rightarrow> Some (Inl p) | Some (Inr x) \<Rightarrow> f x)"

lemma then_do_simps [simp]:
  "then_do None f = None" "then_do (Some (Inl p)) f = Some (Inl p)" "then_do (Some (Inr x)) f = f x"
  by (simp_all add: then_do_def)

subsection \<open>State\<close>

text \<open>
  The four distributors. A \<open>Route\<close> stream keeps, for each target, its id and the stream it found when
  it was configured, if there was one.
\<close>

datatype stream_kind =
    Broadcast
  | Random
  | RoundRobin "32 word"
  | Route "(u64 \<times> nat option) list"

text \<open>\<open>s_paused\<close> is the channel of a paused stream: its messages and its capacity.\<close>

record stream =
  s_kind :: stream_kind
  s_Filter :: filter
  s_Format :: formatter
  s_Producers :: "nat list"
  s_Timeout :: "int option"
  s_bound :: u64
  s_stashing :: bool
  s_paused :: "(message list \<times> nat) option"

record producer =
  p_messages :: "message list"
  p_capacity :: nat
  p_closed :: bool
  p_streams :: "u64 list"
  p_dropStreamID :: u64
  p_dependencies :: "nat list"
  p_state :: plugin_state
  p_timeout :: int
  p_shutdownTimeout :: int
  p_fuseTimeout :: int
  p_fuseName :: bytes
  p_format :: formatter
  p_filters :: "filter list"

record counts =
  n_messages :: u32
  n_dropped :: u32
  n_discarded :: u32
  n_filtered :: u32
  n_noRoute :: u32

record world =
  w_heap :: "nat \<rightharpoonup> stream"
  w_next :: nat
  w_prods :: "nat \<rightharpoonup> producer"
  w_streams :: "u64 \<rightharpoonup> nat"
  w_names :: stream_names
  w_fuses :: "bytes \<rightharpoonup> fuse_state"
  w_wildcard :: "nat list"
  w_counts :: counts
  w_metrics :: metrics

text \<open>
  What a call reads of the outside: the codecs of formatters and filters, the clock (three readings in
  a filter, one in a formatter, one per round of a channel send) and the random number below a bound.
\<close>

record stream_env =
  e_format :: format_env
  e_filter :: filter_env
  e_now :: int
  e_create :: int
  e_check :: int
  e_reset :: int
  e_ticks :: "int list"
  e_rand :: "nat \<Rightarrow> nat"

definition set_stream :: "nat \<Rightarrow> stream \<Rightarrow> world \<Rightarrow> world" where
  "set_stream a s w = w\<lparr>w_heap := (w_heap w)(a \<mapsto> s)\<rparr>"

definition set_prod :: "nat \<Rightarrow> producer \<Rightarrow> world \<Rightarrow> world" where
  "set_prod p x w = w\<lparr>w_prods := (w_prods w)(p \<mapsto> x)\<rparr>"

definition with_stream :: "nat \<Rightarrow> world \<Rightarrow> (stream \<Rightarrow> 'a outcome) \<Rightarrow> 'a outcome" where
  "with_stream a w f = (case w_heap w a of None \<Rightarrow> Some (Inl NilDereference) | Some s \<Rightarrow> f s)"

definition with_prod :: "nat \<Rightarrow> world \<Rightarrow> (producer \<Rightarrow> 'a outcome) \<Rightarrow> 'a outcome" where
  "with_prod p w f = (case w_prods w p of None \<Rightarrow> Some (Inl NilDereference) | Some x \<Rightarrow> f x)"

subsection \<open>Counters\<close>

definition CountProcessedMessage :: "world \<Rightarrow> world" where
  "CountProcessedMessage w = w\<lparr>w_counts := (w_counts w)\<lparr>n_messages := n_messages (w_counts w) + 1\<rparr>\<rparr>"
definition CountDroppedMessage :: "world \<Rightarrow> world" where
  "CountDroppedMessage w = w\<lparr>w_counts := (w_counts w)\<lparr>n_dropped := n_dropped (w_counts w) + 1\<rparr>\<rparr>"
definition CountDiscardedMessage :: "world \<Rightarrow> world" where
  "CountDiscardedMessage w = w\<lparr>w_counts := (w_counts w)\<lparr>n_discarded := n_discarded (w_counts w) + 1\<rparr>\<rparr>"
definition CountFilteredMessage :: "world \<Rightarrow> world" where
  "CountFilteredMessage w = w\<lparr>w_counts := (w_counts w)\<lparr>n_filtered := n_filtered (w_counts w) + 1\<rparr>\<rparr>"
definition CountNoRouteForMessage :: "world \<Rightarrow> world" where
  "CountNoRouteForMessage w = w\<lparr>w_counts := (w_counts w)\<lparr>n_noRoute := n_noRoute (w_counts w) + 1\<rparr>\<rparr>"

definition no_counts :: counts where
  "no_counts = \<lparr>n_messages = 0, n_dropped = 0, n_discarded = 0, n_filtered = 0, n_noRoute = 0\<rparr>"

definition GetAndResetMessageCount :: "world \<Rightarrow> counts \<times> world" where
  "GetAndResetMessageCount w = (w_counts w, w\<lparr>w_counts := no_counts\<rparr>)"

lemmas count_defs = CountProcessedMessage_def CountDroppedMessage_def CountDiscardedMessage_def
  CountFilteredMessage_def CountNoRouteForMessage_def

subsection \<open>Registry\<close>

definition metricStreams :: bytes where "metricStreams = ''Streams''"

definition registry_GetStream :: "u64 \<Rightarrow> world \<Rightarrow> nat option" where
  "registry_GetStream i w = w_streams w i"

definition GetStreamByName :: "bytes \<Rightarrow> world \<Rightarrow> nat option \<times> world" where
  "GetStreamByName nm w =
     (let (i, names) = GetStreamID (w_names w) nm; w = w\<lparr>w_names := names\<rparr> in (registry_GetStream i w, w))"

definition IsStreamRegistered :: "u64 \<Rightarrow> world \<Rightarrow> bool" where
  "IsStreamRegistered i w \<longleftrightarrow> w_streams w i \<noteq> None"

text \<open>\<open>ForEachStream\<close>; \<open>ids\<close> is the order in which the map is iterated.\<close>

fun ForEachStream :: "u64 list \<Rightarrow> (u64 \<Rightarrow> nat \<Rightarrow> world \<Rightarrow> world outcome) \<Rightarrow> world \<Rightarrow> world outcome" where
  "ForEachStream [] callback w = Some (Inr w)"
| "ForEachStream (i # ids) callback w =
     (case w_streams w i of
        None \<Rightarrow> ForEachStream ids callback w
      | Some a \<Rightarrow> then_do (callback i a w) (ForEachStream ids callback))"

definition WildcardProducersExist :: "world \<Rightarrow> bool" where
  "WildcardProducersExist w \<longleftrightarrow> length (w_wildcard w) > 0"

definition RegisterWildcardProducer :: "nat list \<Rightarrow> world \<Rightarrow> world" where
  "RegisterWildcardProducer prods w = w\<lparr>w_wildcard := foldl append_new (w_wildcard w) prods\<rparr>"

text \<open>\<open>AddProducer\<close> returns at the first producer that is in the list already.\<close>

fun add_producers :: "nat list \<Rightarrow> nat list \<Rightarrow> nat list" where
  "add_producers listed [] = listed"
| "add_producers listed (p # ps) = (if p \<in> set listed then listed else add_producers (listed @ [p]) ps)"

definition AddProducer :: "nat \<Rightarrow> nat list \<Rightarrow> world \<Rightarrow> world outcome" where
  "AddProducer a prods w =
     with_stream a w (\<lambda>s. Some (Inr (set_stream a (s\<lparr>s_Producers := add_producers (s_Producers s) prods\<rparr>) w)))"

definition AddWildcardProducersToStream :: "nat \<Rightarrow> world \<Rightarrow> world outcome" where
  "AddWildcardProducersToStream a w =
     with_stream a w (\<lambda>s.
       if s_bound s \<noteq> LogInternalStreamID \<and> s_bound s \<noteq> DroppedStreamID
       then AddProducer a (w_wildcard w) w else Some (Inr w))"

definition Register :: "nat \<Rightarrow> u64 \<Rightarrow> world \<Rightarrow> world outcome" where
  "Register a i w =
     then_do (if w_streams w i \<noteq> None then Some (Inr w)
              else Some (run_bind (metric_Inc metricStreams (w_metrics w)) (\<lambda>met. Inr (w\<lparr>w_metrics := met\<rparr>))))
       (\<lambda>w. Some (Inr (w\<lparr>w_streams := (w_streams w)(i \<mapsto> a)\<rparr>)))"

text \<open>A stream as \<open>ConfigureStream\<close> leaves it when the configuration sets nothing.\<close>

definition new_stream :: "stream_kind \<Rightarrow> u64 \<Rightarrow> stream" where
  "new_stream kind bound =
     \<lparr>s_kind = kind, s_Filter = FilterAll, s_Format = Forward, s_Producers = [], s_Timeout = None,
      s_bound = bound, s_stashing = False, s_paused = None\<rparr>"

definition GetStreamOrFallback :: "u64 \<Rightarrow> world \<Rightarrow> (nat \<times> world) outcome" where
  "GetStreamOrFallback streamID w =
     (case w_streams w streamID of
        Some a \<Rightarrow> Some (Inr (a, w))
      | None \<Rightarrow>
          let streamName = GetStreamName (w_names w) streamID;
              a = w_next w;
              (bound, names) = GetStreamID (w_names w) streamName;
              w = w\<lparr>w_names := names, w_next := Suc a, w_heap := (w_heap w)(a \<mapsto> new_stream Broadcast bound)\<rparr>
          in then_do (AddWildcardProducersToStream a w) (\<lambda>w.
             let w = w\<lparr>w_streams := (w_streams w)(streamID \<mapsto> a)\<rparr>
             in Some (run_bind (metric_Inc metricStreams (w_metrics w)) (\<lambda>met. Inr (a, w\<lparr>w_metrics := met\<rparr>)))))"

definition GetFuse :: "bytes \<Rightarrow> world \<Rightarrow> fuse_state \<times> world" where
  "GetFuse nm w =
     (case w_fuses w nm of
        Some fuse \<Rightarrow> (fuse, w)
      | None \<Rightarrow> (NewFuse, w\<lparr>w_fuses := (w_fuses w)(nm \<mapsto> NewFuse)\<rparr>))"

definition ActivateAllFuses :: "world \<Rightarrow> world" where
  "ActivateAllFuses w =
     w\<lparr>w_fuses := (\<lambda>nm. map_option (\<lambda>f. if fu_burned f = 1 then Broadcast_all (Activate_swap f) else f) (w_fuses w nm))\<rparr>"

text \<open>\<open>Message.Route\<close>: \<open>enq\<close> is the \<open>Enqueue\<close> of the stream at an address.\<close>

type_synonym enqueue = "nat \<Rightarrow> message \<Rightarrow> world \<Rightarrow> world outcome"

definition msg_Route :: "enqueue \<Rightarrow> message \<Rightarrow> u64 \<Rightarrow> world \<Rightarrow> world outcome" where
  "msg_Route enq msg targetID w =
     (let msg = msg\<lparr>m_PrevStreamID := m_StreamID msg, m_StreamID := targetID\<rparr>
      in then_do (GetStreamOrFallback (m_StreamID msg) w) (\<lambda>(a, w). enq a msg w))"

fun route_all :: "enqueue \<Rightarrow> (u64 \<times> message) list \<Rightarrow> world \<Rightarrow> world outcome" where
  "route_all enq [] w = Some (Inr w)"
| "route_all enq ((i, msg) # rs) w = then_do (msg_Route enq msg i w) (route_all enq rs)"

subsection \<open>Queueing at a producer\<close>

fun accepts_every :: "filter_env \<Rightarrow> filter_call \<Rightarrow> filter list \<Rightarrow> message \<Rightarrow> metrics \<Rightarrow>
    ((bool \<times> (u64 \<times> message) list \<times> filter list) \<times> metrics) run" where
  "accepts_every fe call [] msg met = Inr ((True, [], []), met)"
| "accepts_every fe call (f # fs) msg met =
     run_bind (Accepts fe call f msg met) (\<lambda>((ok, routes, f), met).
       if \<not> ok then Inr ((False, routes, f # fs), met)
       else run_bind (accepts_every fe call fs msg met) (\<lambda>((ok, routes', fs), met).
              Inr ((ok, routes @ routes', f # fs), met)))"

definition env_call :: "stream_env \<Rightarrow> world \<Rightarrow> filter_call" where
  "env_call env w = \<lparr>fc_names = w_names w, fc_create = e_create env, fc_check = e_check env, fc_reset = e_reset env\<rparr>"

definition setState :: "plugin_state \<Rightarrow> nat \<Rightarrow> world \<Rightarrow> world outcome" where
  "setState state p w = with_prod p w (\<lambda>x. Some (Inr (if state = p_state x then w else set_prod p (x\<lparr>p_state := state\<rparr>) w)))"

definition Drop :: "enqueue \<Rightarrow> nat \<Rightarrow> message \<Rightarrow> world \<Rightarrow> world outcome" where
  "Drop enq p msg w =
     with_prod p w (\<lambda>x. msg_Route enq (msg\<lparr>m_Source := Some p\<rparr>) (p_dropStreamID x) (CountDroppedMessage w))"

text \<open>\<open>Message.Enqueue\<close> on the producer's channel, with nobody reading it meanwhile.\<close>

definition channel_send :: "stream_env \<Rightarrow> int \<Rightarrow> producer \<Rightarrow> (message_state \<times> bool) outcome" where
  "channel_send env timeout x =
     (if p_closed x then Some (Inl SendOnClosedChannel)
      else map_option Inr (message_Enqueue timeout (map (\<lambda>t. (length (p_messages x) < p_capacity x, t)) (e_ticks env))))"

definition producer_Enqueue :: "stream_env \<Rightarrow> enqueue \<Rightarrow> nat \<Rightarrow> message \<Rightarrow> int option \<Rightarrow> world \<Rightarrow> world outcome" where
  "producer_Enqueue env enq p msg timeout w =
     with_prod p w (\<lambda>x.
       case accepts_every (e_filter env) (env_call env w) (p_filters x) msg (w_metrics w) of
         Inl e \<Rightarrow> Some (Inl e)
       | Inr ((ok, routes, fs), met) \<Rightarrow>
           then_do (route_all enq routes ((set_prod p (x\<lparr>p_filters := fs\<rparr>) w)\<lparr>w_metrics := met\<rparr>)) (\<lambda>w.
             if \<not> ok then Some (Inr (CountFilteredMessage w))
             else with_prod p w (\<lambda>x.
               if p_state x \<ge> StateStopping then Drop enq p msg w
               else
                 let usedTimeout = (case timeout of Some t \<Rightarrow> t | None \<Rightarrow> p_timeout x)
                 in then_do (channel_send env usedTimeout x) (\<lambda>(st, sent).
                      let w = (if sent then set_prod p (x\<lparr>p_messages := p_messages x @ [msg]\<rparr>) w else w)
                      in case st of
                           MessageStateTimeout \<Rightarrow> then_do (Drop enq p msg w) (setState StateWaiting p)
                         | MessageStateDiscard \<Rightarrow> setState StateWaiting p (CountDiscardedMessage w)
                         | MessageStateOk \<Rightarrow> setState StateActive p w))))"

subsection \<open>Streams\<close>

definition Pause :: "nat \<Rightarrow> nat \<Rightarrow> world \<Rightarrow> world outcome" where
  "Pause a capacity w =
     with_stream a w (\<lambda>s. Some (Inr (if s_paused s = None
       then set_stream a (s\<lparr>s_paused := Some ([], capacity), s_stashing := True\<rparr>) w else w)))"

text \<open>Sending on the channel of a stream that is not paused, or on a full one, blocks.\<close>

definition stash :: "nat \<Rightarrow> message \<Rightarrow> world \<Rightarrow> world outcome" where
  "stash a msg w =
     with_stream a w (\<lambda>s. case s_paused s of
         None \<Rightarrow> None
       | Some (msgs, capacity) \<Rightarrow>
           if length msgs < capacity then Some (Inr (set_stream a (s\<lparr>s_paused := Some (msgs @ [msg], capacity)\<rparr>) w))
           else None)"

fun send_all :: "stream_env \<Rightarrow> enqueue \<Rightarrow> nat list \<Rightarrow> message \<Rightarrow> int option \<Rightarrow> world \<Rightarrow> world outcome" where
  "send_all env enq [] msg timeout w = Some (Inr w)"
| "send_all env enq (p # ps) msg timeout w =
     then_do (producer_Enqueue env enq p msg timeout w) (send_all env enq ps msg timeout)"

definition stream_Broadcast :: "stream_env \<Rightarrow> enqueue \<Rightarrow> nat \<Rightarrow> message \<Rightarrow> world \<Rightarrow> world outcome" where
  "stream_Broadcast env enq a msg w = with_stream a w (\<lambda>s. send_all env enq (s_Producers s) msg (s_Timeout s) w)"

text \<open>Indexing the list of producers with a Go integer.\<close>

definition send_index :: "stream_env \<Rightarrow> enqueue \<Rightarrow> int \<Rightarrow> stream \<Rightarrow> message \<Rightarrow> world \<Rightarrow> world outcome" where
  "send_index env enq index s msg w =
     (if index < 0 \<or> index \<ge> int (length (s_Producers s)) then Some (Inl IndexOutOfRange)
      else producer_Enqueue env enq (s_Producers s ! nat index) msg (s_Timeout s) w)"

definition random :: "stream_env \<Rightarrow> enqueue \<Rightarrow> nat \<Rightarrow> message \<Rightarrow> world \<Rightarrow> world outcome" where
  "random env enq a msg w =
     with_stream a w (\<lambda>s. if s_Producers s = [] then Some (Inl (ExplicitPanic ''invalid argument to Intn''))
       else send_index env enq (int (e_rand env (length (s_Producers s)))) s msg w)"

definition roundRobin :: "stream_env \<Rightarrow> enqueue \<Rightarrow> nat \<Rightarrow> 32 word \<Rightarrow> message \<Rightarrow> world \<Rightarrow> world outcome" where
  "roundRobin env enq a i msg w =
     with_stream a w (\<lambda>s.
       let index = i + 1; s = s\<lparr>s_kind := RoundRobin index\<rparr>
       in if s_Producers s = [] then Some (Inl DivideByZero)
          else send_index env enq (sint index smod int (length (s_Producers s))) s msg (set_stream a s w))"

definition distribute :: "stream_env \<Rightarrow> enqueue \<Rightarrow> nat \<Rightarrow> message \<Rightarrow> world \<Rightarrow> world outcome" where
  "distribute env enq a msg w =
     with_stream a w (\<lambda>s.
       if s_stashing s then stash a msg w
       else case s_kind s of
              Broadcast \<Rightarrow> stream_Broadcast env enq a msg w
            | Random \<Rightarrow> random env enq a msg w
            | RoundRobin i \<Rightarrow> roundRobin env enq a i msg w
            | Route rs \<Rightarrow> stream_Broadcast env enq a msg w)"

definition stream_Route :: "stream_env \<Rightarrow> enqueue \<Rightarrow> nat \<Rightarrow> message \<Rightarrow> u64 \<Rightarrow> world \<Rightarrow> world outcome" where
  "stream_Route env enq a msg targetID w =
     (if m_StreamID msg \<noteq> targetID then msg_Route enq msg targetID w
      else with_stream a w (\<lambda>s.
        if s_Producers s = [] then Some (Inr (CountNoRouteForMessage w))
        else distribute env enq a msg (CountProcessedMessage w)))"

text \<open>
  \<open>routeMessage\<close> of a \<open>Route\<close> stream: a target whose stream does not exist is removed by moving
  the last one in its place. \<open>n\<close> counts the turns of the loop, of which there are at most as
  many as targets.
\<close>

fun routeMessage :: "stream_env \<Rightarrow> enqueue \<Rightarrow> nat \<Rightarrow> message \<Rightarrow> nat \<Rightarrow> nat \<Rightarrow> world \<Rightarrow> world outcome" where
  "routeMessage env enq a msg 0 i w = Some (Inr w)"
| "routeMessage env enq a msg (Suc n) i w =
     with_stream a w (\<lambda>s. case s_kind s of
         Route routes \<Rightarrow>
           if i \<ge> length routes then Some (Inr w)
           else
             (case routes ! i of (tid, tstream) \<Rightarrow>
                then_do
                  (case tstream of
                     Some t \<Rightarrow> Some (Inr (Some t, w))
                   | None \<Rightarrow>
                       if WildcardProducersExist w
                       then then_do (GetStreamOrFallback tid w) (\<lambda>(t, w). Some (Inr (Some t, w)))
                       else Some (Inr (registry_GetStream tid w, w)))
                  (\<lambda>(target, w). case target of
                     None \<Rightarrow>
                       routeMessage env enq a msg n i
                         (set_stream a (s\<lparr>s_kind := Route (butlast (routes[i := last routes]))\<rparr>) w)
                   | Some t \<Rightarrow>
                       then_do (if tid = s_bound s then stream_Route env enq a msg (s_bound s) w
                                else enq t (msg\<lparr>m_StreamID := tid\<rparr>) w)
                         (routeMessage env enq a msg n (Suc i))))
       | _ \<Rightarrow> Some (Inr w))"

text \<open>The two \<open>Enqueue\<close> methods: of \<open>StreamBase\<close>, and of a \<open>Route\<close> stream.\<close>

definition routes_of :: "stream \<Rightarrow> (u64 \<times> nat option) list option" where
  "routes_of s = (case s_kind s of Route rs \<Rightarrow> Some rs | _ \<Rightarrow> None)"

definition route_enqueue :: "stream_env \<Rightarrow> enqueue \<Rightarrow> nat \<Rightarrow> message \<Rightarrow> u64 \<Rightarrow> (u64 \<times> nat option) list \<Rightarrow> world \<Rightarrow> world outcome" where
  "route_enqueue env enq a msg streamID rs w =
     (if m_StreamID msg \<noteq> streamID then stream_Route env enq a msg streamID w
      else then_do (routeMessage env enq a msg (length rs) 0 w) (\<lambda>w.
        with_stream a w (\<lambda>s. Some (Inr (if routes_of s = Some [] then CountNoRouteForMessage w else w)))))"

definition enqueue_body :: "stream_env \<Rightarrow> enqueue \<Rightarrow> nat \<Rightarrow> message \<Rightarrow> world \<Rightarrow> world outcome" where
  "enqueue_body env enq a msg w =
     with_stream a w (\<lambda>s.
       case Accepts (e_filter env) (env_call env w) (s_Filter s) msg (w_metrics w) of
         Inl p \<Rightarrow> Some (Inl p)
       | Inr ((ok, routes, f), met) \<Rightarrow>
           then_do (route_all enq routes ((set_stream a (s\<lparr>s_Filter := f\<rparr>) w)\<lparr>w_metrics := met\<rparr>)) (\<lambda>w.
             if \<not> ok then Some (Inr (if routes_of s = None then CountFilteredMessage w else w))
             else case Format (e_format env) (e_now env) (s_Format s) msg (w_names w) of
                    Inl p \<Rightarrow> Some (Inl p)
                  | Inr ((d, streamID), names) \<Rightarrow>
                      let msg = msg\<lparr>m_Data := d\<rparr>; w = w\<lparr>w_names := names\<rparr>
                      in case routes_of s of
                           None \<Rightarrow> stream_Route env enq a msg streamID w
                         | Some rs \<Rightarrow> route_enqueue env enq a msg streamID rs w))"

primrec stream_Enqueue :: "stream_env \<Rightarrow> nat \<Rightarrow> nat \<Rightarrow> message \<Rightarrow> world \<Rightarrow> world outcome" where
  "stream_Enqueue env 0 = (\<lambda>a msg w. None)"
| "stream_Enqueue env (Suc n) = enqueue_body env (stream_Enqueue env n)"

text \<open>\<open>Resume\<close> hands the stashed messages to a goroutine that distributes them; \<open>Flush\<close> waits for it.\<close>

definition Resume :: "nat \<Rightarrow> world \<Rightarrow> (message list \<times> world) outcome" where
  "Resume a w =
     with_stream a w (\<lambda>s. case s_paused s of
         None \<Rightarrow> Some (Inr ([], w))
       | Some (msgs, capacity) \<Rightarrow> Some (Inr (msgs, set_stream a (s\<lparr>s_stashing := False, s_paused := None\<rparr>) w)))"

fun distribute_all :: "stream_env \<Rightarrow> enqueue \<Rightarrow> nat \<Rightarrow> message list \<Rightarrow> world \<Rightarrow> world outcome" where
  "distribute_all env enq a [] w = Some (Inr w)"
| "distribute_all env enq a (m # ms) w = then_do (distribute env enq a m w) (distribute_all env enq a ms)"

definition stream_Flush :: "stream_env \<Rightarrow> enqueue \<Rightarrow> nat \<Rightarrow> world \<Rightarrow> world outcome" where
  "stream_Flush env enq a w = then_do (Resume a w) (\<lambda>(msgs, w). distribute_all env enq a msgs w)"

subsection \<open>Configure\<close>

text \<open>
  \<open>newFormat\<close> and \<open>newFilter\<close> are \<open>NewPluginWithType\<close> with the type assertion that follows;
  \<open>lookup\<close> is the registry at the time of the call.
\<close>

definition cfg_get_streams :: "bytes list cfg" where
  "cfg_get_streams = (\<lambda>st. Some (Inr (Inr (Stream (cs_conf st)), st)))"

definition cfg_has :: "bytes \<Rightarrow> bool cfg" where
  "cfg_has key = (\<lambda>st. case HasValue key (cs_conf st) of (b, conf) \<Rightarrow> Some (Inr (Inr b, st\<lparr>cs_conf := conf\<rparr>)))"

definition ConfigureStream ::
  "(bytes \<Rightarrow> formatter cfg) \<Rightarrow> (bytes \<Rightarrow> filter cfg) \<Rightarrow> stream_kind \<Rightarrow> stream cfg" where
  "ConfigureStream newFormat newFilter kind =
     cfg_bind (cfg_get (GetString ''Formatter'' ''format.Forward'')) (\<lambda>fname.
     cfg_bind (newFormat fname) (\<lambda>format.
     cfg_bind (cfg_get (GetString ''Filter'' ''filter.All'')) (\<lambda>name.
     cfg_bind (newFilter name) (\<lambda>filter.
     cfg_bind cfg_get_streams (\<lambda>streams.
     if streams = [] then cfg_panic (ExplicitPanic ''No source stream configured.'')
     else
       cfg_bind (cfg_stream_id (hd streams)) (\<lambda>bound.
       cfg_bind (cfg_has ''TimeoutMs'') (\<lambda>has.
       cfg_bind (if has then cfg_bind (cfg_get (GetInt ''TimeoutMs'' 0)) (\<lambda>t. cfg_return (Some (int64 (t * 1000000))))
                 else cfg_return None) (\<lambda>timeout.
       cfg_return ((new_stream kind bound)\<lparr>s_Filter := filter, s_Format := format, s_Timeout := timeout\<rparr>)))))))))"

definition newStreamWithID :: "(u64 \<Rightarrow> nat option) \<Rightarrow> bytes \<Rightarrow> (u64 \<times> nat option) cfg" where
  "newStreamWithID lookup streamName = cfg_bind (cfg_stream_id streamName) (\<lambda>i. cfg_return (i, lookup i))"

fun newStreamsWithID :: "(u64 \<Rightarrow> nat option) \<Rightarrow> bytes list \<Rightarrow> (u64 \<times> nat option) list cfg" where
  "newStreamsWithID lookup [] = cfg_return []"
| "newStreamsWithID lookup (nm # nms) =
     cfg_bind (newStreamWithID lookup nm) (\<lambda>r. cfg_bind (newStreamsWithID lookup nms) (\<lambda>rs. cfg_return (r # rs)))"

definition Broadcast_Configure :: "(bytes \<Rightarrow> formatter cfg) \<Rightarrow> (bytes \<Rightarrow> filter cfg) \<Rightarrow> stream cfg" where
  "Broadcast_Configure newFormat newFilter = ConfigureStream newFormat newFilter Broadcast"

definition Random_Configure :: "(bytes \<Rightarrow> formatter cfg) \<Rightarrow> (bytes \<Rightarrow> filter cfg) \<Rightarrow> stream cfg" where
  "Random_Configure newFormat newFilter = ConfigureStream newFormat newFilter Random"

definition RoundRobin_Configure :: "(bytes \<Rightarrow> formatter cfg) \<Rightarrow> (bytes \<Rightarrow> filter cfg) \<Rightarrow> stream cfg" where
  "RoundRobin_Configure newFormat newFilter = ConfigureStream newFormat newFilter (RoundRobin 0)"

definition Route_Configure ::
  "(u64 \<Rightarrow> nat option) \<Rightarrow> (bytes \<Rightarrow> formatter cfg) \<Rightarrow> (bytes \<Rightarrow> filter cfg) \<Rightarrow> stream cfg" where
  "Route_Configure lookup newFormat newFilter =
     cfg_bind (ConfigureStream newFormat newFilter (Route [])) (\<lambda>s.
     cfg_bind (cfg_get (GetStringArray ''Routes'' [])) (\<lambda>routes.
     cfg_bind (newStreamsWithID lookup routes) (\<lambda>rs. cfg_return (s\<lparr>s_kind := Route rs\<rparr>))))"

subsection \<open>Lemmas\<close>

lemma add_producers_distinct:
  "distinct (listed @ ps) \<Longrightarrow> add_producers listed ps = listed @ ps"
  by (induction listed ps rule: add_producers.induct) auto

lemma add_producers_keeps: "distinct listed \<Longrightarrow> distinct (add_producers listed ps)"
  by (induction listed ps rule: add_producers.induct) auto

lemma with_stream_set [simp]: "with_stream a (set_stream a s w) f = f s"
  by (simp add: with_stream_def set_stream_def)

lemma set_stream_twice [simp]: "set_stream a s (set_stream a t w) = set_stream a s w"
  by (simp add: set_stream_def)

lemma set_stream_id: "w_heap w a = Some s \<Longrightarrow> set_stream a s w = w"
  by (simp add: set_stream_def fun_upd_idem)

lemma set_prod_id: "w_prods w p = Some x \<Longrightarrow> set_prod p x w = w"
  by (simp add: set_prod_def fun_upd_idem)

lemma stash_all:
  assumes "s_paused s = Some (msgs, c)" "s_stashing s" "length msgs + length ms \<le> c"
  shows "distribute_all env enq a ms (set_stream a s w) = Some (Inr (set_stream a (s\<lparr>s_paused := Some (msgs @ ms, c)\<rparr>) w))"
  using assms
proof (induction ms arbitrary: s msgs)
  case Nil
  then show ?case by simp (metis stream.surjective stream.update_convs(8))
next
  case (Cons m ms)
  have "distribute env enq a m (set_stream a s w) = Some (Inr (set_stream a (s\<lparr>s_paused := Some (msgs @ [m], c)\<rparr>) w))"
    using Cons.prems by (simp add: distribute_def stash_def)
  then show ?case using Cons.IH [of "s\<lparr>s_paused := Some (msgs @ [m], c)\<rparr>" "msgs @ [m]"] Cons.prems by simp
qed

text \<open>A producer that takes the next message without a wait.\<close>

definition healthy :: "world \<Rightarrow> nat \<Rightarrow> nat \<Rightarrow> bool" where
  "healthy w n p \<longleftrightarrow> (\<exists>x. w_prods w p = Some x \<and> p_filters x = [] \<and> p_state x = StateActive \<and> \<not> p_closed x \<and>
     length (p_messages x) + n \<le> p_capacity x)"

definition give :: "nat \<Rightarrow> message \<Rightarrow> world \<Rightarrow> world" where
  "give p msg w = (case w_prods w p of None \<Rightarrow> w | Some x \<Rightarrow> set_prod p (x\<lparr>p_messages := p_messages x @ [msg]\<rparr>) w)"

lemma message_Enqueue_room:
  "ts \<noteq> [] \<Longrightarrow> message_Enqueue timeout (map (\<lambda>t. (True, t)) ts) = Some (MessageStateOk, True)"
  by (cases ts) (auto simp: message_Enqueue_def)

lemma producer_Enqueue_healthy:
  assumes "healthy w (Suc n) p" "e_ticks env \<noteq> []"
  shows "producer_Enqueue env enq p msg timeout w = Some (Inr (give p msg w))"
proof -
  obtain x where x: "w_prods w p = Some x" "p_filters x = []" "p_state x = StateActive" "\<not> p_closed x"
      "length (p_messages x) < p_capacity x" using assms by (auto simp: healthy_def)
  have "x\<lparr>p_filters := []\<rparr> = x" using x(2) by (cases x) simp
  then have u: "(set_prod p (x\<lparr>p_filters := []\<rparr>) w)\<lparr>w_metrics := w_metrics w\<rparr> = w" using set_prod_id [OF x(1)] by simp
  have s: "\<not> StateStopping \<le> StateActive" by (simp add: state_order_defs)
  show ?thesis
    unfolding producer_Enqueue_def with_prod_def x(1,2) option.case accepts_every.simps sum.case prod.case u
      route_all.simps then_do_simps
    using x message_Enqueue_room [OF assms(2)] s
    by (simp add: with_prod_def channel_send_def setState_def give_def set_prod_def)
qed

lemma give_healthy: "healthy w (Suc n) q \<Longrightarrow> healthy (give p msg w) n q"
  by (auto simp: healthy_def give_def set_prod_def split: option.splits)

lemma give_other_healthy: "healthy w n q \<Longrightarrow> q \<noteq> p \<Longrightarrow> healthy (give p msg w) n q"
  by (auto simp: healthy_def give_def set_prod_def split: option.splits)

lemma give_heap [simp]: "w_heap (give p msg w) = w_heap w"
  by (simp add: give_def set_prod_def split: option.splits)

lemma healthy_heap [simp]: "healthy (set_stream a s w) n p = healthy w n p" "w_prods (set_stream a s w) = w_prods w"
  "healthy (CountProcessedMessage w) n p = healthy w n p"
  by (simp_all add: healthy_def set_stream_def CountProcessedMessage_def)

lemma send_all_healthy:
  assumes "distinct ps" "\<forall>p\<in>set ps. healthy w (Suc n) p" "e_ticks env \<noteq> []"
  shows "send_all env enq ps msg timeout w = Some (Inr (foldl (\<lambda>w p. give p msg w) w ps))"
  using assms
proof (induction ps arbitrary: w)
  case (Cons p ps)
  have "\<forall>q\<in>set ps. healthy (give p msg w) (Suc n) q" using Cons.prems by (auto intro: give_other_healthy)
  then show ?case using Cons producer_Enqueue_healthy [of w n p env enq msg timeout] by simp
qed simp

lemma give_queue:
  "w_prods w q = Some x \<Longrightarrow> w_prods (give p msg w) q = Some (if q = p then x\<lparr>p_messages := p_messages x @ [msg]\<rparr> else x)"
  by (auto simp: give_def set_prod_def split: option.splits)

lemma give_all_queue:
  assumes "distinct ps" "w_prods w q = Some x"
  shows "w_prods (foldl (\<lambda>w p. give p msg w) w ps) q = Some (if q \<in> set ps then x\<lparr>p_messages := p_messages x @ [msg]\<rparr> else x)"
  using assms
proof (induction ps arbitrary: w x)
  case (Cons p ps)
  show ?case using Cons.IH [of "give p msg w" "if q = p then x\<lparr>p_messages := p_messages x @ [msg]\<rparr> else x"] Cons.prems
      give_queue [OF Cons.prems(2), of p msg] by auto
qed simp

text \<open>What a stream that neither filters nor formats does with a message.\<close>

definition plain :: "stream \<Rightarrow> bool" where
  "plain s \<longleftrightarrow> s_Filter s = FilterAll \<and> s_Format s = Forward \<and> routes_of s = None"

lemma unfiltered_Enqueue:
  assumes "w_heap w a = Some s" "s_Filter s = FilterAll" "routes_of s = None"
  shows "enqueue_body env enq a msg w = (case Format (e_format env) (e_now env) (s_Format s) msg (w_names w) of
      Inl p \<Rightarrow> Some (Inl p)
    | Inr ((d, streamID), names) \<Rightarrow> stream_Route env enq a (msg\<lparr>m_Data := d\<rparr>) streamID (w\<lparr>w_names := names\<rparr>))"
proof -
  have "s\<lparr>s_Filter := FilterAll\<rparr> = s" using assms(2) by (cases s) simp
  then have u: "(set_stream a (s\<lparr>s_Filter := FilterAll\<rparr>) w)\<lparr>w_metrics := w_metrics w\<rparr> = w" using set_stream_id [OF assms(1)] by simp
  show ?thesis
    unfolding enqueue_body_def with_stream_def assms option.case Accepts.simps sum.case prod.case u route_all.simps then_do_simps
    unfolding Let_def by simp
qed

lemma plain_Enqueue:
  assumes "w_heap w a = Some s" "plain s"
  shows "stream_Enqueue env (Suc n) a msg w = stream_Route env (stream_Enqueue env n) a msg (m_StreamID msg) w"
  using unfiltered_Enqueue [OF assms(1)] assms(2) by (simp add: plain_def)

text \<open>A plain broadcast stream whose producers have room for \<open>k\<close> messages each.\<close>

definition broadcast_ready :: "world \<Rightarrow> nat \<Rightarrow> nat \<Rightarrow> bool" where
  "broadcast_ready w k a \<longleftrightarrow> (\<exists>s. w_heap w a = Some s \<and> plain s \<and> s_kind s = Broadcast \<and> \<not> s_stashing s \<and>
     s_Producers s \<noteq> [] \<and> distinct (s_Producers s) \<and> (\<forall>p\<in>set (s_Producers s). healthy w k p))"

definition producers_at :: "world \<Rightarrow> nat \<Rightarrow> nat list" where
  "producers_at w a = (case w_heap w a of None \<Rightarrow> [] | Some s \<Rightarrow> s_Producers s)"

lemma broadcast_Enqueue:
  assumes "broadcast_ready w (Suc k) a" "e_ticks env \<noteq> []"
  shows "stream_Enqueue env (Suc n) a msg w =
    Some (Inr (foldl (\<lambda>w p. give p msg w) (CountProcessedMessage w) (producers_at w a)))"
proof -
  obtain s where s: "w_heap w a = Some s" "plain s" "s_kind s = Broadcast" "\<not> s_stashing s" "s_Producers s \<noteq> []"
    "distinct (s_Producers s)" "\<forall>p\<in>set (s_Producers s). healthy w (Suc k) p" using assms(1) by (auto simp: broadcast_ready_def)
  let ?w = "CountProcessedMessage w"
  have "w_heap ?w a = Some s" using s(1) by (simp add: CountProcessedMessage_def)
  moreover have "send_all env (stream_Enqueue env n) (s_Producers s) msg (s_Timeout s) ?w =
      Some (Inr (foldl (\<lambda>w p. give p msg w) ?w (s_Producers s)))"
    using s assms(2) by (intro send_all_healthy [where n = k]) simp_all
  ultimately show ?thesis using plain_Enqueue [OF s(1,2)] s
    by (simp add: stream_Route_def distribute_def stream_Broadcast_def with_stream_def producers_at_def)
qed

subsection \<open>What becomes of a message at one producer\<close>

text \<open>
  \<open>Enqueue\<close> of a producer ends in one of five ways, told by the answer of its filters, its state, the
  room in its channel and the timeout. A refused message and one that timed out are handed to the drop
  stream; \<open>silent_drop\<close> says that nobody listens there.
\<close>

datatype fate = Taken | Filtered | Refused | Discarded | TimedOut

definition fate_of :: "bool \<Rightarrow> int \<Rightarrow> producer \<Rightarrow> fate" where
  "fate_of ok timeout x =
     (if \<not> ok then Filtered
      else if p_state x \<ge> StateStopping then Refused
      else if length (p_messages x) < p_capacity x then Taken
      else if timeout < 0 then Discarded else TimedOut)"

definition settle :: "fate \<Rightarrow> message \<Rightarrow> producer \<Rightarrow> producer" where
  "settle f msg x =
     (case f of
        Taken \<Rightarrow> x\<lparr>p_messages := p_messages x @ [msg], p_state := StateActive\<rparr>
      | Filtered \<Rightarrow> x
      | Refused \<Rightarrow> x
      | Discarded \<Rightarrow> x\<lparr>p_state := StateWaiting\<rparr>
      | TimedOut \<Rightarrow> x\<lparr>p_state := StateWaiting\<rparr>)"

definition count_fate :: "fate \<Rightarrow> counts \<Rightarrow> counts" where
  "count_fate f c =
     (case f of
        Taken \<Rightarrow> c
      | Filtered \<Rightarrow> c\<lparr>n_filtered := n_filtered c + 1\<rparr>
      | Discarded \<Rightarrow> c\<lparr>n_discarded := n_discarded c + 1\<rparr>
      | _ \<Rightarrow> c\<lparr>n_dropped := n_dropped c + 1, n_noRoute := n_noRoute c + 1\<rparr>)"

definition judged :: "stream_env \<Rightarrow> world \<Rightarrow> message \<Rightarrow> producer \<Rightarrow> bool \<times> filter list" where
  "judged env w msg x =
     (case accepts_every (e_filter env) (env_call env w) (p_filters x) msg (w_metrics w) of
        Inr ((ok, routes, fs), met) \<Rightarrow> (ok, fs)
      | Inl e \<Rightarrow> (False, []))"

text \<open>The filters answer, hand the message to no other stream and create no metric.\<close>

definition judges :: "stream_env \<Rightarrow> world \<Rightarrow> message \<Rightarrow> producer \<Rightarrow> bool" where
  "judges env w msg x \<longleftrightarrow>
     accepts_every (e_filter env) (env_call env w) (p_filters x) msg (w_metrics w) =
       Inr ((fst (judged env w msg x), [], snd (judged env w msg x)), w_metrics w)"

definition timeout_at :: "int option \<Rightarrow> producer \<Rightarrow> int" where
  "timeout_at timeout x = (case timeout of Some t \<Rightarrow> t | None \<Rightarrow> p_timeout x)"

lemma timeout_at_filters [simp]: "timeout_at timeout (x\<lparr>p_filters := fs\<rparr>) = timeout_at timeout x"
  by (simp add: timeout_at_def split: option.split)

definition fate_at :: "stream_env \<Rightarrow> world \<Rightarrow> int option \<Rightarrow> message \<Rightarrow> producer \<Rightarrow> fate" where
  "fate_at env w timeout msg x = fate_of (fst (judged env w msg x)) (timeout_at timeout x) x"

definition after_send :: "stream_env \<Rightarrow> world \<Rightarrow> int option \<Rightarrow> message \<Rightarrow> producer \<Rightarrow> producer" where
  "after_send env w timeout msg x = settle (fate_at env w timeout msg x) msg (x\<lparr>p_filters := snd (judged env w msg x)\<rparr>)"

definition silent_drop :: "world \<Rightarrow> producer \<Rightarrow> bool" where
  "silent_drop w x \<longleftrightarrow>
     (\<exists>b d. w_streams w (p_dropStreamID x) = Some b \<and> w_heap w b = Some d \<and> plain d \<and> s_Producers d = [])"

text \<open>
  The call ends: the channel is open where it is used, the clock passes the timeout of a full one (with
  timeout 0 the call blocks), and dropped messages disappear.
\<close>

definition ends_at :: "stream_env \<Rightarrow> world \<Rightarrow> int option \<Rightarrow> message \<Rightarrow> producer \<Rightarrow> bool" where
  "ends_at env w timeout msg x \<longleftrightarrow> judges env w msg x \<and>
     (case fate_at env w timeout msg x of
        Filtered \<Rightarrow> True
      | Refused \<Rightarrow> silent_drop w x
      | TimedOut \<Rightarrow> \<not> p_closed x \<and> silent_drop w x \<and> 0 < timeout_at timeout x \<and>
          (\<exists>t\<in>set (tl (e_ticks env)). t - hd (e_ticks env) > timeout_at timeout x)
      | _ \<Rightarrow> \<not> p_closed x)"

lemma enqueue_rounds_full:
  "(\<exists>u\<in>set ts. u - t > timeout) \<Longrightarrow>
   enqueue_rounds timeout (Some t) (map (\<lambda>t. (False, t)) ts) = Some (MessageStateTimeout, False)"
  by (induction ts) auto

lemma channel_send_fate:
  assumes "\<not> p_closed x" "e_ticks env \<noteq> []" "f = fate_of True timeout x" "f \<noteq> Refused"
    and "f = TimedOut \<Longrightarrow> 0 < timeout \<and> (\<exists>t\<in>set (tl (e_ticks env)). t - hd (e_ticks env) > timeout)"
  shows "channel_send env timeout x = Some (Inr
    (case f of Taken \<Rightarrow> (MessageStateOk, True) | Discarded \<Rightarrow> (MessageStateDiscard, False) | _ \<Rightarrow> (MessageStateTimeout, False)))"
proof -
  obtain t ts where ts: "e_ticks env = t # ts" using assms(2) by (cases "e_ticks env") auto
  have st: "\<not> StateStopping \<le> p_state x" using assms(3,4) by (auto simp: fate_of_def)
  show ?thesis
  proof (cases "length (p_messages x) < p_capacity x")
    case True
    then show ?thesis using assms(1,3) st message_Enqueue_room [OF assms(2)] by (simp add: channel_send_def fate_of_def)
  next
    case full: False
    show ?thesis
    proof (cases "timeout < 0")
      case True
      then show ?thesis using assms(1,3) st full ts by (simp add: channel_send_def fate_of_def message_Enqueue_def)
    next
      case False
      then have f: "f = TimedOut" using assms(3) st full by (simp add: fate_of_def)
      with assms(5) ts have "0 < timeout" "\<exists>u\<in>set ts. u - t > timeout" by auto
      with f full assms(1) ts show ?thesis by (simp add: channel_send_def message_Enqueue_def enqueue_rounds_full)
    qed
  qed
qed

lemma Drop_silent:
  assumes "silent_drop w x" "w_prods w p = Some x"
  shows "Drop (stream_Enqueue env (Suc n)) p msg w =
    Some (Inr (w\<lparr>w_counts := (w_counts w)\<lparr>n_dropped := n_dropped (w_counts w) + 1, n_noRoute := n_noRoute (w_counts w) + 1\<rparr>\<rparr>))"
proof -
  obtain b d where d: "w_streams w (p_dropStreamID x) = Some b" "w_heap w b = Some d" "plain d" "s_Producers d = []"
    using assms(1) by (auto simp: silent_drop_def)
  let ?w = "CountDroppedMessage w"
  let ?m = "msg\<lparr>m_Source := Some p, m_PrevStreamID := m_StreamID msg, m_StreamID := p_dropStreamID x\<rparr>"
  have "w_heap ?w b = Some d" using d(2) by (simp add: CountDroppedMessage_def)
  then have "stream_Enqueue env (Suc n) b ?m ?w = Some (Inr (CountNoRouteForMessage ?w))"
    using plain_Enqueue d by (simp add: stream_Route_def with_stream_def del: stream_Enqueue.simps)
  then show ?thesis using assms(2) d(1)
    by (simp add: Drop_def with_prod_def msg_Route_def GetStreamOrFallback_def count_defs Let_def del: stream_Enqueue.simps)
qed

lemma keep_state:
  "StateActive = p_state x \<Longrightarrow> x\<lparr>p_filters := fs, p_messages := ms, p_state := StateActive\<rparr> = x\<lparr>p_filters := fs, p_messages := ms\<rparr>"
  "StateWaiting = p_state x \<Longrightarrow> x\<lparr>p_filters := fs, p_state := StateWaiting\<rparr> = x\<lparr>p_filters := fs\<rparr>"
  by (cases x; simp)+

lemma producer_Enqueue_fate:
  assumes x: "w_prods w p = Some x" and e: "ends_at env w timeout msg x" "e_ticks env \<noteq> []"
  defines "f \<equiv> fate_at env w timeout msg x"
  shows "producer_Enqueue env (stream_Enqueue env (Suc n)) p msg timeout w =
    Some (Inr (w\<lparr>w_prods := (w_prods w)(p \<mapsto> after_send env w timeout msg x), w_counts := count_fate f (w_counts w)\<rparr>))"
proof -
  obtain ok fs where j: "judged env w msg x = (ok, fs)" by fastforce
  then have acc: "accepts_every (e_filter env) (env_call env w) (p_filters x) msg (w_metrics w) = Inr ((ok, [], fs), w_metrics w)"
    using e(1) by (simp add: ends_at_def judges_def)
  let ?x = "x\<lparr>p_filters := fs\<rparr>"
  let ?w = "(set_prod p ?x w)\<lparr>w_metrics := w_metrics w\<rparr>"
  have w: "?w = w\<lparr>w_prods := (w_prods w)(p \<mapsto> ?x)\<rparr>" by (simp add: set_prod_def)
  have f: "f = fate_of ok (timeout_at timeout x) ?x" by (simp add: f_def fate_at_def j fate_of_def)
  have s: "after_send env w timeout msg x = settle f msg ?x" by (simp add: after_send_def j f_def)
  have sd: "silent_drop w x \<Longrightarrow> silent_drop (w\<lparr>w_prods := P, w_counts := C\<rparr>) ?x" for P C by (simp add: silent_drop_def)
  note start = producer_Enqueue_def with_prod_def x option.case acc sum.case prod.case route_all.simps then_do_simps w
  show ?thesis
  proof (cases f)
    case Filtered
    then have "\<not> ok" using f by (auto simp: fate_of_def split: if_splits)
    then show ?thesis unfolding start by (simp add: s Filtered settle_def count_fate_def count_defs)
  next
    case Refused
    then have st: "ok" "StateStopping \<le> p_state ?x" using f by (auto simp: fate_of_def split: if_splits)
    have "silent_drop w x" using e(1) Refused by (simp add: ends_at_def f_def [symmetric])
    then have "silent_drop (w\<lparr>w_prods := (w_prods w)(p \<mapsto> ?x)\<rparr>) ?x" by (simp add: silent_drop_def)
    from Drop_silent [OF this, of p] st show ?thesis
      unfolding start by (simp add: with_prod_def s Refused settle_def count_fate_def del: stream_Enqueue.simps)
  next
    case Taken
    then have st: "ok" "\<not> StateStopping \<le> p_state ?x" using f by (auto simp: fate_of_def split: if_splits)
    have "\<not> p_closed x" using e(1) Taken by (simp add: ends_at_def f_def [symmetric])
    then have "channel_send env (timeout_at timeout x) ?x = Some (Inr (MessageStateOk, True))"
      using channel_send_fate [of ?x env f "timeout_at timeout x"] e(2) f st Taken by simp
    then show ?thesis using st unfolding start
      by (simp add: timeout_at_def [symmetric] with_prod_def s Taken settle_def count_fate_def setState_def set_prod_def Let_def
          keep_state del: stream_Enqueue.simps)
  next
    case Discarded
    then have st: "ok" "\<not> StateStopping \<le> p_state ?x" using f by (auto simp: fate_of_def split: if_splits)
    have "\<not> p_closed x" using e(1) Discarded by (simp add: ends_at_def f_def [symmetric])
    then have "channel_send env (timeout_at timeout x) ?x = Some (Inr (MessageStateDiscard, False))"
      using channel_send_fate [of ?x env f "timeout_at timeout x"] e(2) f st Discarded by simp
    then show ?thesis using st unfolding start
      by (simp add: timeout_at_def [symmetric] with_prod_def s Discarded settle_def count_fate_def count_defs setState_def set_prod_def Let_def
          keep_state del: stream_Enqueue.simps)
  next
    case TimedOut
    then have st: "ok" "\<not> StateStopping \<le> p_state ?x" using f by (auto simp: fate_of_def split: if_splits)
    have c: "\<not> p_closed x" "silent_drop w x" "0 < timeout_at timeout x"
      "\<exists>t\<in>set (tl (e_ticks env)). t - hd (e_ticks env) > timeout_at timeout x"
      using e(1) TimedOut by (simp_all add: ends_at_def f_def [symmetric])
    then have send: "channel_send env (timeout_at timeout x) ?x = Some (Inr (MessageStateTimeout, False))"
      using channel_send_fate [of ?x env f "timeout_at timeout x"] e(2) f st TimedOut by simp
    have "silent_drop (w\<lparr>w_prods := (w_prods w)(p \<mapsto> ?x)\<rparr>) ?x" using c(2) by (simp add: silent_drop_def)
    from Drop_silent [OF this, of p] send st show ?thesis unfolding start
      by (simp add: timeout_at_def [symmetric] with_prod_def s TimedOut settle_def count_fate_def setState_def set_prod_def Let_def
          keep_state del: stream_Enqueue.simps)
  qed
qed

text \<open>A list of producers, one after the other: nothing of what one does concerns another.\<close>

lemma fate_frame [simp]:
  "judged env (w\<lparr>w_prods := P\<rparr>) = judged env w" "judged env (w\<lparr>w_counts := C\<rparr>) = judged env w"
  "fate_at env (w\<lparr>w_prods := P\<rparr>) = fate_at env w" "fate_at env (w\<lparr>w_counts := C\<rparr>) = fate_at env w"
  "after_send env (w\<lparr>w_prods := P\<rparr>) = after_send env w" "after_send env (w\<lparr>w_counts := C\<rparr>) = after_send env w"
  "ends_at env (w\<lparr>w_prods := P\<rparr>) = ends_at env w" "ends_at env (w\<lparr>w_counts := C\<rparr>) = ends_at env w"
  by (intro ext; simp add: judged_def env_call_def fate_at_def after_send_def ends_at_def judges_def silent_drop_def cong: fate.case_cong)+

definition fate_in :: "stream_env \<Rightarrow> world \<Rightarrow> int option \<Rightarrow> message \<Rightarrow> nat \<Rightarrow> fate" where
  "fate_in env w timeout msg p = (case w_prods w p of None \<Rightarrow> Filtered | Some x \<Rightarrow> fate_at env w timeout msg x)"

lemma send_all_fates:
  assumes "distinct ps" "\<forall>p\<in>set ps. \<exists>x. w_prods w p = Some x \<and> ends_at env w timeout msg x" "e_ticks env \<noteq> []"
  shows "send_all env (stream_Enqueue env (Suc n)) ps msg timeout w =
    Some (Inr (w\<lparr>w_prods := (\<lambda>q. if q \<in> set ps then map_option (after_send env w timeout msg) (w_prods w q) else w_prods w q),
                w_counts := fold count_fate (map (fate_in env w timeout msg) ps) (w_counts w)\<rparr>))"
  using assms
proof (induction ps arbitrary: w)
  case (Cons p ps)
  obtain x where x: "w_prods w p = Some x" "ends_at env w timeout msg x" using Cons.prems(2) by auto
  let ?f = "fate_at env w timeout msg x"
  let ?w = "w\<lparr>w_prods := (w_prods w)(p \<mapsto> after_send env w timeout msg x), w_counts := count_fate ?f (w_counts w)\<rparr>"
  have one: "producer_Enqueue env (stream_Enqueue env (Suc n)) p msg timeout w = Some (Inr ?w)"
    using producer_Enqueue_fate [OF x Cons.prems(3)] .
  have other: "w_prods ?w q = w_prods w q" "fate_in env ?w timeout msg q = fate_in env w timeout msg q" if "q \<in> set ps" for q
    using that Cons.prems(1) by (auto simp: fate_in_def split: option.split)
  then have "\<forall>q\<in>set ps. \<exists>y. w_prods ?w q = Some y \<and> ends_at env ?w timeout msg y" using Cons.prems(2) by auto
  from Cons.IH [OF _ this Cons.prems(3)] Cons.prems(1)
  have "send_all env (stream_Enqueue env (Suc n)) ps msg timeout ?w =
    Some (Inr (?w\<lparr>w_prods := (\<lambda>q. if q \<in> set ps then map_option (after_send env ?w timeout msg) (w_prods ?w q) else w_prods ?w q),
                w_counts := fold count_fate (map (fate_in env ?w timeout msg) ps) (w_counts ?w)\<rparr>))" by simp
  moreover have "map (fate_in env ?w timeout msg) ps = map (fate_in env w timeout msg) ps" using other(2) by simp
  moreover have "(\<lambda>q. if q \<in> set ps then map_option (after_send env ?w timeout msg) (w_prods ?w q) else w_prods ?w q) =
      (\<lambda>q. if q \<in> set (p # ps) then map_option (after_send env w timeout msg) (w_prods w q) else w_prods w q)"
    using Cons.prems(1) x(1) by (auto simp: fun_eq_iff)
  moreover have "fate_in env w timeout msg p = ?f" using x(1) by (simp add: fate_in_def)
  ultimately show ?case using one by (simp del: stream_Enqueue.simps)
qed simp

definition with_fate :: "fate set \<Rightarrow> fate list \<Rightarrow> u32" where
  "with_fate F fs = of_nat (length (filter (\<lambda>f. f \<in> F) fs))"

lemma fold_count_fate:
  "fold count_fate fs c = c\<lparr>n_filtered := n_filtered c + with_fate {Filtered} fs,
     n_discarded := n_discarded c + with_fate {Discarded} fs,
     n_dropped := n_dropped c + with_fate {Refused, TimedOut} fs,
     n_noRoute := n_noRoute c + with_fate {Refused, TimedOut} fs\<rparr>"
proof (induction fs arbitrary: c)
  case (Cons f fs)
  then show ?case by (cases f) (simp_all add: with_fate_def count_fate_def)
qed (simp add: with_fate_def)

lemma broadcast_ready_grown:
  assumes "broadcast_ready w (k + m) a" "w_heap w' = w_heap w"
    and "\<And>q x. w_prods w q = Some x \<Longrightarrow> \<exists>ms. length ms \<le> m \<and> w_prods w' q = Some (x\<lparr>p_messages := p_messages x @ ms\<rparr>)"
  shows "broadcast_ready w' k a"
proof -
  have "healthy w' k q" if "healthy w (k + m) q" for q
    using that assms(3) [of q] by (fastforce simp: healthy_def)
  with assms(1,2) show ?thesis unfolding broadcast_ready_def by fastforce
qed

lemma give_all_keeps:
  "w_heap (foldl (\<lambda>w p. give p msg w) w ps) = w_heap w" "w_counts (foldl (\<lambda>w p. give p msg w) w ps) = w_counts w"
  "w_names (foldl (\<lambda>w p. give p msg w) w ps) = w_names w" "w_fuses (foldl (\<lambda>w p. give p msg w) w ps) = w_fuses w"
  by (induction ps arbitrary: w) (simp_all add: give_def set_prod_def split: option.splits)

lemma sint_index: "sint (i :: 32 word) = int n \<Longrightarrow> Suc n < 2 ^ 31 \<Longrightarrow> sint (i + 1) = int (Suc n)"
  by (simp add: sint_word_ariths signed_take_bit_int_eq_self)

lemma roundRobin_step:
  assumes "w_heap w a = Some s" "s_kind s = RoundRobin i" "\<not> s_stashing s" "sint i = int n" "Suc n < 2 ^ 31"
    "s_Producers s \<noteq> []"
  shows "distribute env enq a msg w = producer_Enqueue env enq (s_Producers s ! (Suc n mod length (s_Producers s))) msg
    (s_Timeout s) (set_stream a (s\<lparr>s_kind := RoundRobin (i + 1)\<rparr>) w)"
proof -
  let ?l = "length (s_Producers s)"
  have lt: "(?l \<le> Suc n mod ?l) = False" using assms(6) by (simp add: not_le)
  have "int (Suc n) smod int ?l = int (Suc n mod ?l)" using assms(6) by (subst smod_pos) (auto simp: zmod_int)
  then show ?thesis using assms sint_index [OF assms(4,5)]
    by (simp add: lt distribute_def with_stream_def roundRobin_def send_index_def Let_def not_le)
qed

text \<open>The registry only knows streams that exist, and there is a metric that counts them.\<close>

definition wf_world :: "world \<Rightarrow> bool" where
  "wf_world w \<longleftrightarrow> (\<forall>i a. w_streams w i = Some a \<longrightarrow> w_heap w a \<noteq> None) \<and> (\<forall>a. w_heap w a \<noteq> None \<longrightarrow> a < w_next w) \<and>
     w_metrics w metricStreams \<noteq> None"

lemma wf_world_updates [simp]:
  "wf_world (w\<lparr>w_names := names\<rparr>) = wf_world w" "wf_world (w\<lparr>w_fuses := fuses\<rparr>) = wf_world w"
  "wf_world (w\<lparr>w_prods := ps\<rparr>) = wf_world w" "wf_world (w\<lparr>w_counts := cs\<rparr>) = wf_world w"
  "wf_world (w\<lparr>w_wildcard := ws\<rparr>) = wf_world w"
  by (simp_all add: wf_world_def)

lemma wf_world_metric_New [simp]: "wf_world w \<Longrightarrow> wf_world (w\<lparr>w_metrics := metric_New nm (w_metrics w)\<rparr>)"
  by (simp add: wf_world_def metric_New_def)

lemma AddProducer_ok:
  assumes "w_heap w a = Some s"
  shows "AddProducer a ps w = Some (Inr (set_stream a (s\<lparr>s_Producers := add_producers (s_Producers s) ps\<rparr>) w))"
  using assms by (simp add: AddProducer_def with_stream_def)

lemma wf_world_set_stream: "wf_world w \<Longrightarrow> w_heap w a \<noteq> None \<Longrightarrow> wf_world (set_stream a s w)"
  by (auto simp: wf_world_def set_stream_def)

lemma AddWildcardProducersToStream_ok:
  assumes "wf_world w" "w_heap w a \<noteq> None"
  shows "\<exists>s'. AddWildcardProducersToStream a w = Some (Inr (set_stream a s' w))"
proof -
  obtain s where s: "w_heap w a = Some s" using assms(2) by auto
  then show ?thesis using set_stream_id [OF s] AddProducer_ok [OF s, of "w_wildcard w"]
    by (auto simp: AddWildcardProducersToStream_def with_stream_def intro: exI [of _ s])
qed

lemma GetStreamOrFallback_ok:
  assumes "wf_world w"
  shows "\<exists>a w'. GetStreamOrFallback i w = Some (Inr (a, w')) \<and> wf_world w' \<and> w_streams w' = (w_streams w)(i \<mapsto> a) \<and>
    (\<forall>j b. w_streams w j = Some b \<longrightarrow> w_streams w' j = Some b) \<and> w_prods w' = w_prods w \<and> w_wildcard w' = w_wildcard w \<and>
    (\<forall>b s. w_heap w b = Some s \<longrightarrow> w_heap w' b = Some s) \<and> dom (w_metrics w') = dom (w_metrics w)"
proof (cases "w_streams w i")
  case (Some a)
  then show ?thesis using assms by (auto simp: GetStreamOrFallback_def fun_upd_idem)
next
  case None
  obtain bound names where g: "GetStreamID (w_names w) (GetStreamName (w_names w) i) = (bound, names)" by fastforce
  let ?a = "w_next w"
  let ?w = "w\<lparr>w_names := names, w_next := Suc ?a, w_heap := (w_heap w)(?a \<mapsto> new_stream Broadcast bound)\<rparr>"
  have fresh: "w_heap w ?a = None" using assms by (auto simp: wf_world_def)
  have "wf_world ?w" using assms fresh by (auto simp: wf_world_def less_Suc_eq)
  then obtain s' where s': "AddWildcardProducersToStream ?a ?w = Some (Inr (set_stream ?a s' ?w))"
    using AddWildcardProducersToStream_ok [of ?w ?a] by auto
  obtain v where v: "w_metrics w metricStreams = Some v" using assms by (auto simp: wf_world_def)
  let ?u = "(set_stream ?a s' ?w)\<lparr>w_streams := (w_streams w)(i \<mapsto> ?a), w_metrics := (w_metrics w)(metricStreams \<mapsto> v + 1)\<rparr>"
  have "GetStreamOrFallback i w = Some (Inr (?a, ?u))"
    using None g s' v by (simp add: GetStreamOrFallback_def metric_defs metric_update_def set_stream_def Let_def)
  moreover have "wf_world ?u" using assms fresh by (auto simp: wf_world_def set_stream_def less_Suc_eq)
  moreover have "w_streams ?u = (w_streams w)(i \<mapsto> ?a)" "\<forall>j b. w_streams w j = Some b \<longrightarrow> w_streams ?u j = Some b"
    using None by auto
  moreover have "\<forall>b s. w_heap w b = Some s \<longrightarrow> w_heap ?u b = Some s" "dom (w_metrics ?u) = dom (w_metrics w)"
    using fresh v by (auto simp: set_stream_def)
  ultimately show ?thesis
    by (intro exI [of _ ?a] exI [of _ ?u]) (simp add: set_stream_def)
qed

text \<open>Handing messages to the producers of a list in turn, starting behind index \<open>n\<close>.\<close>

fun give_round :: "nat list \<Rightarrow> nat \<Rightarrow> message list \<Rightarrow> world \<Rightarrow> world" where
  "give_round ps n [] w = w"
| "give_round ps n (m # ms) w = give_round ps (Suc n) ms (give (ps ! (Suc n mod length ps)) m w)"

lemma roundRobin_all:
  assumes "w_heap w a = Some s" "s_kind s = RoundRobin i" "\<not> s_stashing s" "sint i = int n" "n + length ms < 2 ^ 31"
    "s_Producers s \<noteq> []" "\<forall>p\<in>set (s_Producers s). healthy w (length ms) p" "e_ticks env \<noteq> []"
  shows "distribute_all env enq a ms w =
    Some (Inr (give_round (s_Producers s) n ms (set_stream a (s\<lparr>s_kind := RoundRobin (i + of_nat (length ms))\<rparr>) w)))"
  using assms
proof (induction ms arbitrary: w s i n)
  case Nil
  have "s\<lparr>s_kind := RoundRobin i\<rparr> = s" using Nil.prems(2) by (cases s) simp
  then show ?case using set_stream_id [OF Nil.prems(1)] by simp
next
  case (Cons m ms)
  let ?s = "s\<lparr>s_kind := RoundRobin (i + 1)\<rparr>" let ?p = "s_Producers s ! (Suc n mod length (s_Producers s))"
  have p: "?p \<in> set (s_Producers s)" using Cons.prems(6) by (intro nth_mem) simp
  have st: "set_stream a v (give q m w) = give q m (set_stream a v w)" for v q w
    by (simp add: give_def set_stream_def set_prod_def split: option.splits)
  have "distribute env enq a m w = producer_Enqueue env enq ?p m (s_Timeout s) (set_stream a ?s w)"
    using Cons.prems by (intro roundRobin_step) simp_all
  also have "\<dots> = Some (Inr (give ?p m (set_stream a ?s w)))"
    using Cons.prems(7,8) p by (intro producer_Enqueue_healthy [where n = "length ms"]) simp_all
  finally have d: "distribute env enq a m w = Some (Inr (give ?p m (set_stream a ?s w)))" .
  have "distribute_all env enq a ms (give ?p m (set_stream a ?s w)) =
      Some (Inr (give_round (s_Producers ?s) (Suc n) ms (set_stream a (?s\<lparr>s_kind := RoundRobin (i + 1 + of_nat (length ms))\<rparr>)
        (give ?p m (set_stream a ?s w)))))"
    using Cons.prems sint_index [OF Cons.prems(4)]
    by (intro Cons.IH) (auto simp: set_stream_def [of _ ?s] healthy_heap [unfolded set_stream_def] intro!: give_healthy)
  then show ?case using d by (simp add: st add.assoc)
qed

lemma filter_upt_Suc:
  "filter P [0..<Suc n] = (if P 0 then [0] else []) @ map Suc (filter (\<lambda>k. P (Suc k)) [0..<n])"
  by (simp only: upt_conv_Cons [of 0 "Suc n"] map_Suc_upt [symmetric]) (simp add: filter_map o_def)

lemma give_round_queue:
  assumes "ps \<noteq> []" "distinct ps" "j < length ps" "w_prods w (ps ! j) = Some x"
  shows "w_prods (give_round ps n ms w) (ps ! j) = Some (x\<lparr>p_messages := p_messages x @
    map (\<lambda>k. ms ! k) (filter (\<lambda>k. (n + 1 + k) mod length ps = j) [0..<length ms])\<rparr>)"
  using assms(4)
proof (induction ms arbitrary: n w x)
  case (Cons m ms)
  let ?i = "Suc n mod length ps"
  have e: "ps ! ?i = ps ! j \<longleftrightarrow> ?i = j" using assms(1-3) by (simp add: nth_eq_iff_index_eq)
  have g: "w_prods (give (ps ! ?i) m w) (ps ! j) = Some (if ?i = j then x\<lparr>p_messages := p_messages x @ [m]\<rparr> else x)"
    using give_queue [OF Cons.prems, of "ps ! ?i" m] e by auto
  show ?case using Cons.IH [OF g, of "Suc n"]
    by (simp only: length_Cons filter_upt_Suc give_round.simps) (auto simp: o_def simp del: upt_Suc)
qed simp

subsection \<open>Properties\<close>

text \<open>C13: looking up an unknown stream creates it: a broadcast stream bound to the id of its name, with the
  wildcard producers unless it is one of the two internal streams; it is stored under the id, counted in
  the metric, and looking the id up again finds the same stream and changes nothing.\<close>

theorem registry_fallback:
  assumes "w_streams w i = None" "w_metrics w metricStreams = Some v" "distinct (w_wildcard w)"
  shows "\<exists>w'. GetStreamOrFallback i w = Some (Inr (w_next w, w')) \<and> GetStreamOrFallback i w' = Some (Inr (w_next w, w')) \<and>
    w_streams w' = (w_streams w)(i \<mapsto> w_next w) \<and> metric_Get metricStreams (w_metrics w') = (v + 1, True) \<and>
    (\<exists>bound. bound = fnv1a (GetStreamName (w_names w) i) \<and> w_names w' bound = Some (GetStreamName (w_names w) i) \<and>
       w_heap w' = (w_heap w)(w_next w \<mapsto> (new_stream Broadcast bound)
         \<lparr>s_Producers := (if bound = LogInternalStreamID \<or> bound = DroppedStreamID then [] else w_wildcard w)\<rparr>))"
proof -
  define bound where "bound = fnv1a (GetStreamName (w_names w) i)"
  have d: "add_producers [] (w_wildcard w) = w_wildcard w" using add_producers_distinct [of "[]" "w_wildcard w"] assms(3) by simp
  show ?thesis using assms(1,2) d
    by (cases "bound = LogInternalStreamID \<or> bound = DroppedStreamID")
       (auto simp: GetStreamOrFallback_def GetStreamID_def Let_def AddWildcardProducersToStream_def AddProducer_def
          with_stream_def set_stream_def new_stream_def metric_defs metric_update_def metric_Get_def bound_def [symmetric])
qed

definition start_world :: world where
  "start_world = \<lparr>w_heap = Map.empty, w_next = 0, w_prods = Map.empty, w_streams = Map.empty, w_names = Map.empty,
     w_fuses = Map.empty, w_wildcard = [], w_counts = no_counts, w_metrics = [metricStreams \<mapsto> 0]\<rparr>"

theorem registry_fallback_witness:
  "\<exists>w'. GetStreamOrFallback 7 (start_world\<lparr>w_wildcard := [4]\<rparr>) = Some (Inr (0, w')) \<and> w_streams w' 7 = Some 0"
  using registry_fallback [of "start_world\<lparr>w_wildcard := [4]\<rparr>" 7 0] by (auto simp: start_world_def)

text \<open>C12: pausing is transparent: pausing a stream, distributing messages that fit into the pause channel, and
  flushing is the same as distributing them without the pause.\<close>

theorem stream_pause_transparent:
  assumes "w_heap w a = Some s" "s_paused s = None" "\<not> s_stashing s" "length ms \<le> c"
  shows "then_do (Pause a c w) (\<lambda>w. then_do (distribute_all env enq a ms w) (stream_Flush env enq a)) = distribute_all env enq a ms w"
proof -
  let ?p = "s\<lparr>s_paused := Some ([], c), s_stashing := True\<rparr>"
  have p: "Pause a c w = Some (Inr (set_stream a ?p w))" using assms by (simp add: Pause_def with_stream_def)
  have d: "distribute_all env enq a ms (set_stream a ?p w) = Some (Inr (set_stream a (?p\<lparr>s_paused := Some (ms, c)\<rparr>) w))"
    using stash_all [of ?p "[]" c ms env enq a w] assms(4) by simp
  have r: "s\<lparr>s_stashing := False, s_paused := None\<rparr> = s" using assms(2,3) by (cases s) simp
  have "stream_Flush env enq a (set_stream a (?p\<lparr>s_paused := Some (ms, c)\<rparr>) w) = distribute_all env enq a ms w"
    using r set_stream_id [OF assms(1)] by (simp add: stream_Flush_def Resume_def)
  then show ?thesis using p d by simp
qed

theorem stream_pause_transparent_witness:
  "\<forall>env enq. then_do (Pause 0 1 (start_world\<lparr>w_heap := [0 \<mapsto> new_stream Broadcast 5]\<rparr>))
     (\<lambda>w. then_do (distribute_all env enq 0 [NewMessage None ''x'' 0 0] w) (stream_Flush env enq 0)) =
   distribute_all env enq 0 [NewMessage None ''x'' 0 0] (start_world\<lparr>w_heap := [0 \<mapsto> new_stream Broadcast 5]\<rparr>)"
  by (intro allI, rule stream_pause_transparent [where s = "new_stream Broadcast 5"]) (simp_all add: new_stream_def)


definition idle_producer :: "nat \<Rightarrow> producer" where
  "idle_producer c = \<lparr>p_messages = [], p_capacity = c, p_closed = False, p_streams = [], p_dropStreamID = DroppedStreamID,
     p_dependencies = [], p_state = StateActive, p_timeout = 0, p_shutdownTimeout = 3000, p_fuseTimeout = 10,
     p_fuseName = [], p_format = Forward, p_filters = []\<rparr>"

definition two_worlds :: world where
  "two_worlds = start_world\<lparr>w_heap := [0 \<mapsto> (new_stream Broadcast 5)\<lparr>s_Producers := [1, 2]\<rparr>],
     w_prods := [1 \<mapsto> idle_producer 3, 2 \<mapsto> idle_producer 3, 3 \<mapsto> idle_producer 3]\<rparr>"

text \<open>One producer has room, one is full with a negative timeout, one waits and has room again.\<close>

definition mixed_world :: world where
  "mixed_world = start_world\<lparr>w_heap := [0 \<mapsto> (new_stream Broadcast 5)\<lparr>s_Producers := [1, 2, 3]\<rparr>],
     w_prods := [1 \<mapsto> idle_producer 3, 2 \<mapsto> (idle_producer 0)\<lparr>p_timeout := -1\<rparr>,
                 3 \<mapsto> (idle_producer 3)\<lparr>p_state := StateWaiting\<rparr>, 4 \<mapsto> idle_producer 3]\<rparr>"


text \<open>C11: a round robin stream hands a sequence of messages to its producers in turn: of producers that have
  room, number \<open>j\<close> gets exactly every message whose position is \<open>j\<close> modulo their number, in
  order, counted from the index the stream had, as long as the index stays in 31 bits.\<close>

theorem stream_roundRobin_in_turn:
  assumes "w_heap w a = Some s" "s_kind s = RoundRobin i" "\<not> s_stashing s" "sint i = int n" "n + length ms < 2 ^ 31"
    "s_Producers s \<noteq> []" "distinct (s_Producers s)" "\<forall>p\<in>set (s_Producers s). healthy w (length ms) p" "e_ticks env \<noteq> []"
  shows "\<exists>w'. distribute_all env enq a ms w = Some (Inr w') \<and>
    (\<forall>j < length (s_Producers s). \<forall>x. w_prods w (s_Producers s ! j) = Some x \<longrightarrow>
       w_prods w' (s_Producers s ! j) = Some (x\<lparr>p_messages := p_messages x @
         map (\<lambda>k. ms ! k) (filter (\<lambda>k. (n + 1 + k) mod length (s_Producers s) = j) [0..<length ms])\<rparr>))"
proof -
  let ?w = "set_stream a (s\<lparr>s_kind := RoundRobin (i + of_nat (length ms))\<rparr>) w"
  have "distribute_all env enq a ms w = Some (Inr (give_round (s_Producers s) n ms ?w))"
    by (rule roundRobin_all [OF assms(1-6,8,9)])
  moreover have "w_prods (give_round (s_Producers s) n ms ?w) (s_Producers s ! j) = Some (x\<lparr>p_messages := p_messages x @
         map (\<lambda>k. ms ! k) (filter (\<lambda>k. (n + 1 + k) mod length (s_Producers s) = j) [0..<length ms])\<rparr>)"
    if "j < length (s_Producers s)" "w_prods w (s_Producers s ! j) = Some x" for j x
    using that by (intro give_round_queue assms(6,7)) simp_all
  ultimately show ?thesis by blast
qed

theorem stream_roundRobin_in_turn_witness:
  "\<forall>env enq. \<exists>w'. distribute_all (env\<lparr>e_ticks := [0]\<rparr>) enq 0 (map (\<lambda>d. NewMessage None d 0 0) [''a'', ''b'', ''c''])
      (two_worlds\<lparr>w_heap := [0 \<mapsto> (new_stream (RoundRobin 0) 5)\<lparr>s_Producers := [1, 2]\<rparr>]\<rparr>) = Some (Inr w') \<and>
    map_option (map m_Data \<circ> p_messages) (w_prods w' 2) = Some [''a'', ''c'']" (is "\<forall>env enq. ?P env enq")
proof (intro allI)
  fix env :: stream_env and enq
  let ?s = "(new_stream (RoundRobin 0) 5)\<lparr>s_Producers := [1, 2]\<rparr>" let ?w = "two_worlds\<lparr>w_heap := [0 \<mapsto> ?s]\<rparr>"
  let ?ms = "map (\<lambda>d. NewMessage None d 0 0) [''a'', ''b'', ''c'']"
  have "\<exists>w'. distribute_all (env\<lparr>e_ticks := [0]\<rparr>) enq 0 ?ms ?w = Some (Inr w') \<and>
    (\<forall>j < length (s_Producers ?s). \<forall>x. w_prods ?w (s_Producers ?s ! j) = Some x \<longrightarrow>
       w_prods w' (s_Producers ?s ! j) = Some (x\<lparr>p_messages := p_messages x @
         map (\<lambda>k. ?ms ! k) (filter (\<lambda>k. (0 + 1 + k) mod length (s_Producers ?s) = j) [0..<length ?ms])\<rparr>))"
    by (rule stream_roundRobin_in_turn [where i = 0])
       (simp_all add: new_stream_def two_worlds_def healthy_def idle_producer_def)
  then obtain w' where w': "distribute_all (env\<lparr>e_ticks := [0]\<rparr>) enq 0 ?ms ?w = Some (Inr w')"
    "\<And>j x. j < length (s_Producers ?s) \<Longrightarrow> w_prods ?w (s_Producers ?s ! j) = Some x \<Longrightarrow>
       w_prods w' (s_Producers ?s ! j) = Some (x\<lparr>p_messages := p_messages x @
         map (\<lambda>k. ?ms ! k) (filter (\<lambda>k. (0 + 1 + k) mod length (s_Producers ?s) = j) [0..<length ?ms])\<rparr>)" by blast
  have "w_prods w' 2 = Some ((idle_producer 3)\<lparr>p_messages := [NewMessage None ''a'' 0 0, NewMessage None ''c'' 0 0]\<rparr>)"
    using w'(2) [of 1 "idle_producer 3"] by (simp add: two_worlds_def idle_producer_def upt_rec new_stream_def mod_Suc)
  then show "?P env enq" using w'(1) by (intro exI [of _ w']) (simp add: NewMessage_def del: distribute_all.simps)
qed

text \<open>After \<open>2\<^sup>3\<^sup>1 - 1\<close> messages the index of a round robin stream turns negative, and with a number
  of producers that does not divide \<open>2\<^sup>3\<^sup>1\<close> the next message panics.\<close>

theorem stream_roundRobin_overflow:
  assumes "w_heap w a = Some s" "s_kind s = RoundRobin 0x7FFFFFFF" "\<not> s_stashing s" "length (s_Producers s) = k"
    "\<not> int k dvd 2 ^ 31" "0 < k"
  shows "distribute env enq a msg w = Some (Inl IndexOutOfRange)"
proof -
  have si: "sint ((0x7FFFFFFF :: 32 word) + 1) = - (2 ^ 31)" by (simp add: sint_uint signed_take_bit_int_eq_self)
  have "(- (2 ^ 31)) smod int k < 0"
  proof -
    have "(2 ^ 31 :: int) mod int k \<noteq> 0" using assms(5) by (simp add: dvd_eq_mod_eq_0)
    moreover have "0 \<le> (2 ^ 31 :: int) mod int k" using assms(6) by simp
    ultimately have "0 < (2 ^ 31 :: int) mod int k" by linarith
    moreover have "(- (2 ^ 31)) smod int k = - ((2 ^ 31) mod int k)" using assms(6) by (simp add: signed_modulo_int_def)
    ultimately show ?thesis by simp
  qed
  moreover have "s_Producers s \<noteq> []" using assms(4,6) by auto
  ultimately show ?thesis using assms si
    by (simp add: distribute_def with_stream_def roundRobin_def send_index_def Let_def)
qed

theorem stream_roundRobin_overflow_witness:
  "\<forall>env enq msg. distribute env enq 0 msg (start_world\<lparr>w_heap := [0 \<mapsto> (new_stream (RoundRobin 0x7FFFFFFF) 5)\<lparr>s_Producers := [1, 2, 3]\<rparr>]\<rparr>)
     = Some (Inl IndexOutOfRange)"
  by (intro allI, rule stream_roundRobin_overflow [where s = "(new_stream (RoundRobin 0x7FFFFFFF) 5)\<lparr>s_Producers := [1, 2, 3]\<rparr>" and k = 3])
     (simp_all add: new_stream_def)

definition reverting :: "world \<Rightarrow> u64 \<Rightarrow> nat \<Rightarrow> bool" where
  "reverting w i a \<longleftrightarrow> w_streams w i = Some a \<and>
     (\<exists>s. w_heap w a = Some s \<and> s_Filter s = FilterAll \<and> s_Format s = StreamRevert Forward \<and> routes_of s = None)"

lemma reverting_step:
  assumes "reverting w i a" "reverting w j b" "i \<noteq> j" "m_StreamID msg = i" "m_PrevStreamID msg = j"
  shows "\<exists>msg'. stream_Enqueue env (Suc n) a msg w = stream_Enqueue env n b msg' w \<and> m_StreamID msg' = j \<and> m_PrevStreamID msg' = i"
proof -
  obtain s where s: "w_heap w a = Some s" "s_Filter s = FilterAll" "s_Format s = StreamRevert Forward" "routes_of s = None"
    using assms(1) by (auto simp: reverting_def)
  show ?thesis using s assms unfiltered_Enqueue [OF s(1,2,4), of env "stream_Enqueue env n" msg]
    by (intro exI [of _ "msg\<lparr>m_PrevStreamID := i, m_StreamID := j\<rparr>"])
       (simp add: stream_Route_def msg_Route_def GetStreamOrFallback_def reverting_def Let_def)
qed

text \<open>Two streams whose formatter is \<open>StreamRevert\<close> send a message that came from one to the other back
  and forth: \<open>Enqueue\<close> never returns.\<close>

theorem stream_revert_pingpong:
  assumes "reverting w i a" "reverting w j b" "i \<noteq> j" "m_StreamID msg = i" "m_PrevStreamID msg = j"
  shows "stream_Enqueue env n a msg w = None"
  using assms
proof (induction n arbitrary: i j a b msg)
  case (Suc n)
  obtain msg' where m: "stream_Enqueue env (Suc n) a msg w = stream_Enqueue env n b msg' w"
    "m_StreamID msg' = j" "m_PrevStreamID msg' = i" using reverting_step [OF Suc.prems] by blast
  show ?case using m Suc.IH [OF Suc.prems(2,1) _ m(2,3)] Suc.prems(3) by simp
qed simp

definition revert_world :: world where
  "revert_world = start_world\<lparr>w_heap := [0 \<mapsto> (new_stream Broadcast 7)\<lparr>s_Format := StreamRevert Forward\<rparr>,
     1 \<mapsto> (new_stream Broadcast 8)\<lparr>s_Format := StreamRevert Forward\<rparr>], w_streams := [7 \<mapsto> 0, 8 \<mapsto> 1]\<rparr>"

theorem stream_revert_pingpong_witness:
  "\<forall>env. stream_Enqueue env 1000 0 ((NewMessage None ''x'' 0 0)\<lparr>m_StreamID := 7, m_PrevStreamID := 8\<rparr>) revert_world = None"
  by (intro allI, rule stream_revert_pingpong [where i = 7 and j = 8 and b = 1])
     (simp_all add: reverting_def revert_world_def new_stream_def routes_of_def)

text \<open>A producer that is shutting down and listens to its own drop stream never gets rid of a message:
  dropping routes it to that stream, which hands it to the producer again.\<close>

theorem producer_drop_cycle:
  assumes "w_streams w i = Some a" "w_heap w a = Some s" "plain s" "s_kind s = Broadcast" "\<not> s_stashing s" "s_Producers s = [p]"
    "w_prods w p = Some x" "p_filters x = []" "StateStopping \<le> p_state x" "p_dropStreamID x = i" "m_StreamID msg = i"
  shows "stream_Enqueue env n a msg w = None"
  using assms
proof (induction n arbitrary: w msg)
  case (Suc n)
  let ?w = "CountDroppedMessage (CountProcessedMessage w)"
  have x: "x\<lparr>p_filters := []\<rparr> = x" using Suc.prems(8) by (cases x) simp
  have c: "w_prods (CountProcessedMessage w) = w_prods w" "w_heap (CountProcessedMessage w) = w_heap w"
    "w_metrics (CountProcessedMessage w) = w_metrics w" by (simp_all add: count_defs)
  have id: "set_prod p x (CountProcessedMessage w) = CountProcessedMessage w"
    using Suc.prems(7) c by (intro set_prod_id) simp
  have k: "w_streams ?w = w_streams w" "w_heap ?w = w_heap w" "w_prods ?w = w_prods w" by (simp_all add: count_defs)
  let ?m = "msg\<lparr>m_Source := Some p, m_PrevStreamID := i, m_StreamID := i\<rparr>"
  have IH: "stream_Enqueue env n a ?m ?w = None"
    using Suc.prems k by (intro Suc.IH) simp_all
  have "(CountProcessedMessage w)\<lparr>w_metrics := w_metrics w\<rparr> = CountProcessedMessage w" using c(3) by (metis world.surjective world.update_convs(9))
  then have r: "route_all e [] ((set_prod p (x\<lparr>p_filters := []\<rparr>) (CountProcessedMessage w))\<lparr>w_metrics := w_metrics (CountProcessedMessage w)\<rparr>)
      = Some (Inr (CountProcessedMessage w))" for e by (simp add: x id c)
  have "producer_Enqueue env (stream_Enqueue env n) p msg (s_Timeout s) (CountProcessedMessage w)
      = Drop (stream_Enqueue env n) p msg (CountProcessedMessage w)"
    unfolding producer_Enqueue_def with_prod_def c(1) Suc.prems(7,8) option.case accepts_every.simps sum.case prod.case r
    using Suc.prems c by (simp add: with_prod_def)
  also have "\<dots> = None" using Suc.prems c IH k by (simp add: Drop_def with_prod_def msg_Route_def GetStreamOrFallback_def Let_def)
  finally show ?case using Suc.prems plain_Enqueue [OF Suc.prems(2,3)] c
    by (simp add: stream_Route_def distribute_def stream_Broadcast_def with_stream_def del: stream_Enqueue.simps)
qed simp

theorem producer_drop_cycle_witness:
  "\<forall>env. stream_Enqueue env 1000 0 ((NewMessage None ''x'' 0 0)\<lparr>m_StreamID := 7\<rparr>)
     (start_world\<lparr>w_heap := [0 \<mapsto> (new_stream Broadcast 7)\<lparr>s_Producers := [1]\<rparr>], w_streams := [7 \<mapsto> 0],
        w_prods := [1 \<mapsto> (idle_producer 5)\<lparr>p_state := StateStopping, p_dropStreamID := 7\<rparr>]\<rparr>) = None"
  by (intro allI, rule producer_drop_cycle [where i = 7 and s = "(new_stream Broadcast 7)\<lparr>s_Producers := [1]\<rparr>" and p = 1
        and x = "(idle_producer 5)\<lparr>p_state := StateStopping, p_dropStreamID := 7\<rparr>"])
     (simp_all add: new_stream_def plain_def routes_of_def idle_producer_def)

text \<open>\<open>AddProducer\<close> stops at the first producer that is listed already: the ones behind it are not
  added.\<close>

theorem stream_AddProducer_stops:
  assumes "w_heap w a = Some s" "distinct (s_Producers s @ ps)" "p \<in> set (s_Producers s @ ps)"
  shows "AddProducer a (ps @ p # qs) w = Some (Inr (set_stream a (s\<lparr>s_Producers := s_Producers s @ ps\<rparr>) w))"
proof -
  have "add_producers listed (ps @ p # qs) = listed @ ps" if "distinct (listed @ ps)" "p \<in> set (listed @ ps)" for listed ps
    using that by (induction ps arbitrary: listed) auto
  then show ?thesis using assms by (simp add: AddProducer_def with_stream_def)
qed

theorem stream_AddProducer_stops_witness:
  "AddProducer 0 [2, 1, 3] (start_world\<lparr>w_heap := [0 \<mapsto> (new_stream Broadcast 5)\<lparr>s_Producers := [1]\<rparr>]\<rparr>) =
     Some (Inr (start_world\<lparr>w_heap := [0 \<mapsto> (new_stream Broadcast 5)\<lparr>s_Producers := [1, 2]\<rparr>]\<rparr>))"
  using stream_AddProducer_stops [of "start_world\<lparr>w_heap := [0 \<mapsto> (new_stream Broadcast 5)\<lparr>s_Producers := [1]\<rparr>]\<rparr>" 0
      "(new_stream Broadcast 5)\<lparr>s_Producers := [1]\<rparr>" "[2]" 1 "[3]"]
  by (simp add: new_stream_def set_stream_def)

end
