(* ===== verification/Producers.thy ===== *)
theory Producers
  imports Streams
begin

text \<open>
  \<open>core/producer.go\<close>: what a producer does beyond queueing messages. Its configuration; the graph of
  dependencies with \<open>DependsOn\<close> and the registry's \<open>LinkDependencies\<close>; the control loop with its
  callbacks; the closing of the message channel; the fuse. The last part is the race of \<open>Enqueue\<close>
  with a shutdown as a step relation.
\<close>

subsection \<open>Configure\<close>

fun stream_ids :: "bytes list \<Rightarrow> u64 list cfg" where
  "stream_ids [] = cfg_return []"
| "stream_ids (s # ss) = cfg_bind (cfg_stream_id s) (\<lambda>i. cfg_bind (stream_ids ss) (\<lambda>is. cfg_return (i # is)))"

text \<open>\<open>make(chan Message, n)\<close> panics for a negative size.\<close>

definition producer_Configure :: "(bytes \<Rightarrow> formatter cfg) \<Rightarrow> (bytes \<Rightarrow> filter cfg) \<Rightarrow> producer cfg" where
  "producer_Configure newFormat newFilter =
     cfg_bind (cfg_get (GetString ''Formatter'' ''format.Forward'')) (\<lambda>fname.
     cfg_bind (newFormat fname) (\<lambda>format.
     cfg_bind (cfg_get (GetStringArray ''Filter'' [])) (\<lambda>names.
     cfg_bind (new_filters newFilter names) (\<lambda>filters.
     cfg_bind (cfg_get (GetInt ''Channel'' 8192)) (\<lambda>channel.
     if channel < 0 then cfg_panic (ExplicitPanic ''makechan: size out of range'')
     else
       cfg_bind (cfg_get (GetInt ''ChannelTimeoutMs'' 0)) (\<lambda>timeout.
       cfg_bind (cfg_get (GetInt ''ShutdownTimeoutMs'' 3000)) (\<lambda>shutdownTimeout.
       cfg_bind (cfg_get (GetInt ''FuseTimeoutSec'' 10)) (\<lambda>fuseTimeout.
       cfg_bind (cfg_get (GetString ''Fuse'' [])) (\<lambda>fuseName.
       cfg_bind (cfg_get (GetString ''DropToStream'' DroppedStream)) (\<lambda>drop.
       cfg_bind (cfg_stream_id drop) (\<lambda>dropStreamID.
       cfg_bind cfg_get_streams (\<lambda>streams.
       cfg_bind (stream_ids streams) (\<lambda>ids.
       cfg_return \<lparr>p_messages = [], p_capacity = nat channel, p_closed = False, p_streams = ids,
         p_dropStreamID = dropStreamID, p_dependencies = [], p_state = StateInitializing,
         p_timeout = int64 (timeout * 1000000), p_shutdownTimeout = int64 (shutdownTimeout * 1000000),
         p_fuseTimeout = int64 (fuseTimeout * 1000000000), p_fuseName = fuseName, p_format = format,
         p_filters = filters\<rparr>)))))))))))))"

subsection \<open>State and accessors\<close>

definition IsBlocked :: "producer \<Rightarrow> bool" where "IsBlocked x \<longleftrightarrow> p_state x = StateWaiting"
definition IsActive :: "producer \<Rightarrow> bool" where "IsActive x \<longleftrightarrow> p_state x \<le> StateActive"
definition IsStopping :: "producer \<Rightarrow> bool" where "IsStopping x \<longleftrightarrow> p_state x = StateStopping"
definition IsActiveOrStopping :: "producer \<Rightarrow> bool" where
  "IsActiveOrStopping x \<longleftrightarrow> IsActive x \<or> IsStopping x"

definition GetFilter :: "producer \<Rightarrow> filter run" where
  "GetFilter x = (case p_filters x of [] \<Rightarrow> Inl IndexOutOfRange | f # fs \<Rightarrow> Inr f)"

definition producer_GetFuse :: "producer \<Rightarrow> world \<Rightarrow> (fuse_state option \<times> world)" where
  "producer_GetFuse x w =
     (if p_fuseName x = [] \<or> p_fuseTimeout x \<le> 0 then (None, w)
      else case GetFuse (p_fuseName x) w of (fuse, w) \<Rightarrow> (Some fuse, w))"

text \<open>The workers of a plugin are counted in its run state; \<open>SetWorkerWaitGroup\<close> sets the group.\<close>

definition producer_AddMainWorker :: "int \<Rightarrow> run_state \<Rightarrow> metrics \<Rightarrow> (run_state \<times> metrics) run" where
  "producer_AddMainWorker workers st met = AddWorker (SetWorkerWaitGroup workers st) met"

definition producer_Accepts :: "stream_env \<Rightarrow> producer \<Rightarrow> message \<Rightarrow> world \<Rightarrow>
    ((bool \<times> (u64 \<times> message) list \<times> filter list) \<times> metrics) run" where
  "producer_Accepts env x msg w = accepts_every (e_filter env) (env_call env w) (p_filters x) msg (w_metrics w)"

definition producer_Format :: "stream_env \<Rightarrow> producer \<Rightarrow> message \<Rightarrow> world \<Rightarrow> ((bytes \<times> u64) \<times> world) run" where
  "producer_Format env x msg w =
     run_bind (Format (e_format env) (e_now env) (p_format x) msg (w_names w)) (\<lambda>(r, names). Inr (r, w\<lparr>w_names := names\<rparr>))"

text \<open>A receive from the message channel: \<open>None\<close> while it blocks.\<close>

definition producer_Next :: "nat \<Rightarrow> world \<Rightarrow> (message option \<times> world) outcome" where
  "producer_Next p w =
     with_prod p w (\<lambda>x. case p_messages x of
         m # ms \<Rightarrow> Some (Inr (Some m, set_prod p (x\<lparr>p_messages := ms\<rparr>) w))
       | [] \<Rightarrow> if p_closed x then Some (Inr (None, w)) else None)"

text \<open>
  \<open>NextNonBlocking\<close> does not look whether the channel is closed: a receive from a closed and empty
  channel delivers a zero message to the callback.
\<close>

definition zero_message :: message where
  "zero_message = \<lparr>m_Data = [], m_StreamID = 0, m_PrevStreamID = 0, m_Source = None, m_Timestamp = 0, m_Sequence = 0\<rparr>"

definition NextNonBlocking :: "nat \<Rightarrow> (message \<Rightarrow> world \<Rightarrow> world outcome) \<Rightarrow> world \<Rightarrow> (bool \<times> world) outcome" where
  "NextNonBlocking p onMessage w =
     with_prod p w (\<lambda>x. case p_messages x of
         m # ms \<Rightarrow> then_do (onMessage m (set_prod p (x\<lparr>p_messages := ms\<rparr>) w)) (\<lambda>w. Some (Inr (True, w)))
       | [] \<Rightarrow> if p_closed x then then_do (onMessage zero_message w) (\<lambda>w. Some (Inr (True, w)))
               else Some (Inr (False, w)))"

fun PauseAllStreams :: "nat \<Rightarrow> u64 list \<Rightarrow> world \<Rightarrow> world outcome" where
  "PauseAllStreams capacity [] w = Some (Inr w)"
| "PauseAllStreams capacity (i # ids) w =
     (case registry_GetStream i w of
        None \<Rightarrow> Some (Inl NilDereference)
      | Some a \<Rightarrow> then_do (Pause a capacity w) (PauseAllStreams capacity ids))"

text \<open>Each \<open>Resume\<close> starts a goroutine that distributes the stashed messages: the result lists them
  with their streams.\<close>

fun ResumeAllStreams :: "u64 list \<Rightarrow> world \<Rightarrow> ((nat \<times> message list) list \<times> world) outcome" where
  "ResumeAllStreams [] w = Some (Inr ([], w))"
| "ResumeAllStreams (i # ids) w =
     (case registry_GetStream i w of
        None \<Rightarrow> Some (Inl NilDereference)
      | Some a \<Rightarrow> then_do (Resume a w) (\<lambda>(msgs, w).
                  then_do (ResumeAllStreams ids w) (\<lambda>(rs, w). Some (Inr ((a, msgs) # rs, w)))))"

subsection \<open>Dependencies\<close>

type_synonym deps = "nat \<Rightarrow> nat list"

text \<open>\<open>DependsOn\<close> and its loop: \<open>ps\<close> are the stored dependencies still to be looked at.\<close>

partial_function (option) depends_loop :: "deps \<Rightarrow> nat \<Rightarrow> nat list \<Rightarrow> bool option" where
  "depends_loop ds d ps =
     (case ps of
        [] \<Rightarrow> Some False
      | p # ps \<Rightarrow> if p = d then Some True
                  else Option.bind (depends_loop ds d (ds p))
                         (\<lambda>nested. if nested then Some True else depends_loop ds d ps))"

definition DependsOn :: "deps \<Rightarrow> nat \<Rightarrow> nat \<Rightarrow> bool option" where
  "DependsOn ds p d = depends_loop ds d (ds p)"

definition AddDependency :: "nat \<Rightarrow> nat \<Rightarrow> deps \<Rightarrow> deps" where
  "AddDependency p dep ds = ds(p := append_new (ds p) dep)"

definition world_deps :: "world \<Rightarrow> deps" where
  "world_deps w p = (case w_prods w p of None \<Rightarrow> [] | Some x \<Rightarrow> p_dependencies x)"

text \<open>\<open>LinkDependencies\<close>: the loop over the producers of the stream.\<close>

fun link_all :: "nat \<Rightarrow> nat list \<Rightarrow> deps \<Rightarrow> deps option" where
  "link_all parent [] ds = Some ds"
| "link_all parent (child # cs) ds =
     (if parent = child then link_all parent cs ds
      else Option.bind (DependsOn ds parent child) (\<lambda>circular.
        if circular then link_all parent cs ds
        else Option.bind (DependsOn ds child parent) (\<lambda>circular.
          if circular then link_all parent cs ds
          else link_all parent cs (AddDependency child parent ds))))"

definition store_deps :: "deps \<Rightarrow> world \<Rightarrow> world" where
  "store_deps ds w = w\<lparr>w_prods := (\<lambda>p. map_option (\<lambda>x. x\<lparr>p_dependencies := ds p\<rparr>) (w_prods w p))\<rparr>"

definition LinkDependencies :: "nat \<Rightarrow> u64 \<Rightarrow> world \<Rightarrow> world outcome" where
  "LinkDependencies parent streamID w =
     then_do (GetStreamOrFallback streamID w) (\<lambda>(a, w).
       with_stream a w (\<lambda>s. map_option (\<lambda>ds. Inr (store_deps ds w)) (link_all parent (s_Producers s) (world_deps w))))"

definition dep_rel :: "deps \<Rightarrow> (nat \<times> nat) set" where
  "dep_rel ds = {(q, p). q \<in> set (ds p)}"

lemma depends_loop_Nil: "depends_loop ds d [] = Some False"
  by (simp add: depends_loop.simps [of ds d "[]"])

lemma depends_loop_Cons:
  assumes "depends_loop ds d (ds q) = Some a" "depends_loop ds d qs = Some b"
  shows "depends_loop ds d (q # qs) = Some (q = d \<or> a \<or> b)"
  unfolding depends_loop.simps [of ds d "q # qs"] using assms by simp

lemma rtrancl_or: "(d, q) \<in> r\<^sup>* \<longleftrightarrow> q = d \<or> (d, q) \<in> r\<^sup>+"
  using rtrancl_eq_or_trancl [of d q r] by blast

lemma dep_trancl: "(d, p) \<in> (dep_rel ds)\<^sup>+ \<longleftrightarrow> (\<exists>q\<in>set (ds p). (d, q) \<in> (dep_rel ds)\<^sup>*)"
proof
  assume "(d, p) \<in> (dep_rel ds)\<^sup>+"
  then obtain q where "(d, q) \<in> (dep_rel ds)\<^sup>*" "(q, p) \<in> dep_rel ds" by (meson tranclD2)
  then show "\<exists>q\<in>set (ds p). (d, q) \<in> (dep_rel ds)\<^sup>*" by (auto simp: dep_rel_def)
next
  assume "\<exists>q\<in>set (ds p). (d, q) \<in> (dep_rel ds)\<^sup>*"
  then obtain q where "(q, p) \<in> dep_rel ds" "(d, q) \<in> (dep_rel ds)\<^sup>*" by (auto simp: dep_rel_def)
  then show "(d, p) \<in> (dep_rel ds)\<^sup>+" by (meson rtrancl_into_trancl1)
qed

lemma depends_loop_spec:
  assumes "wf (dep_rel ds)"
  shows "depends_loop ds d ps = Some (\<exists>p\<in>set ps. (d, p) \<in> (dep_rel ds)\<^sup>*)"
proof -
  have one: "depends_loop ds d (ds p) = Some ((d, p) \<in> (dep_rel ds)\<^sup>+)"
    if ih: "\<And>q. (q, p) \<in> dep_rel ds \<Longrightarrow> depends_loop ds d (ds q) = Some ((d, q) \<in> (dep_rel ds)\<^sup>+)" for p
  proof -
    have "depends_loop ds d qs = Some (\<exists>q\<in>set qs. (d, q) \<in> (dep_rel ds)\<^sup>*)" if "set qs \<subseteq> set (ds p)" for qs
      using that
    proof (induction qs)
      case Nil
      then show ?case by (simp add: depends_loop_Nil)
    next
      case (Cons q qs)
      have nested: "depends_loop ds d (ds q) = Some ((d, q) \<in> (dep_rel ds)\<^sup>+)" using Cons.prems by (intro ih) (auto simp: dep_rel_def)
      have "depends_loop ds d qs = Some (\<exists>q\<in>set qs. (d, q) \<in> (dep_rel ds)\<^sup>*)" using Cons by simp
      then show ?case by (simp only: depends_loop_Cons [OF nested] rtrancl_or [of d q] list.set bex_simps de_Morgan_disj simp_thms disj_assoc)
    qed
    from this [of "ds p"] show ?thesis by (simp add: dep_trancl)
  qed
  have all: "depends_loop ds d (ds p) = Some ((d, p) \<in> (dep_rel ds)\<^sup>+)" for p
    using assms by (induction p rule: wf_induct_rule) (blast intro: one)
  show ?thesis
  proof (induction ps)
    case Nil
    then show ?case by (simp add: depends_loop_Nil)
  next
    case (Cons q qs)
    then show ?case by (simp only: depends_loop_Cons [OF all [of q] Cons] rtrancl_or [of d q] list.set bex_simps simp_thms disj_assoc)
  qed
qed

lemma DependsOn_spec: "wf (dep_rel ds) \<Longrightarrow> DependsOn ds p d = Some ((d, p) \<in> (dep_rel ds)\<^sup>+)"
  by (simp add: DependsOn_def depends_loop_spec dep_trancl)

lemma AddDependency_rel: "dep_rel (AddDependency p dep ds) = insert (dep, p) (dep_rel ds)"
  by (auto simp: dep_rel_def AddDependency_def)

lemma link_all_wf:
  "wf (dep_rel ds) \<Longrightarrow> \<exists>ds'. link_all parent cs ds = Some ds' \<and> wf (dep_rel ds') \<and> (\<forall>p. set (ds p) \<subseteq> set (ds' p) \<and>
     set (ds' p) \<subseteq> insert parent (set (ds p)))"
proof (induction cs arbitrary: ds)
  case (Cons c cs)
  note dep = DependsOn_spec [OF Cons.prems]
  show ?case
  proof (cases "parent = c \<or> (c, parent) \<in> (dep_rel ds)\<^sup>+ \<or> (parent, c) \<in> (dep_rel ds)\<^sup>+")
    case True
    then have "link_all parent (c # cs) ds = link_all parent cs ds" using dep by auto
    with Cons show ?thesis by auto
  next
    case False
    then have l: "link_all parent (c # cs) ds = link_all parent cs (AddDependency c parent ds)" using dep by auto
    have "(c, parent) \<notin> (dep_rel ds)\<^sup>*" using False by (simp add: rtrancl_or)
    then have wf: "wf (dep_rel (AddDependency c parent ds))" using Cons.prems by (simp add: AddDependency_rel wf_insert)
    obtain ds' where d: "link_all parent cs (AddDependency c parent ds) = Some ds'" "wf (dep_rel ds')"
      "\<And>p. set (AddDependency c parent ds p) \<subseteq> set (ds' p)" "\<And>p. set (ds' p) \<subseteq> insert parent (set (AddDependency c parent ds p))"
      using Cons.IH [OF wf] by blast
    have "set (ds p) \<subseteq> set (ds' p)" "set (ds' p) \<subseteq> insert parent (set (ds p))" for p
      using d(3,4) [of p] by (auto simp: AddDependency_def split: if_splits)
    with l d show ?thesis by auto
  qed
qed auto

lemma link_stored:
  assumes "wf (dep_rel (world_deps w))"
  shows "\<exists>ds. link_all parent ps (world_deps w) = Some ds \<and> wf (dep_rel (world_deps (store_deps ds w))) \<and>
    (\<forall>p. set (world_deps w p) \<subseteq> set (world_deps (store_deps ds w) p) \<and>
       set (world_deps (store_deps ds w) p) \<subseteq> insert parent (set (world_deps w p)))"
proof -
  obtain ds where ds: "link_all parent ps (world_deps w) = Some ds" "wf (dep_rel ds)"
    "\<forall>p. set (world_deps w p) \<subseteq> set (ds p) \<and> set (ds p) \<subseteq> insert parent (set (world_deps w p))"
    using link_all_wf [OF assms(1)] by blast
  have d: "world_deps (store_deps ds w) p = (if w_prods w p = None then [] else ds p)" for p
    by (auto simp: world_deps_def store_deps_def split: option.splits)
  have "dep_rel (world_deps (store_deps ds w)) \<subseteq> dep_rel ds" by (auto simp: dep_rel_def d split: if_splits)
  then have "wf (dep_rel (world_deps (store_deps ds w)))" using ds(2) by (rule wf_subset [rotated])
  moreover have "set (world_deps w p) \<subseteq> set (world_deps (store_deps ds w) p) \<and>
      set (world_deps (store_deps ds w) p) \<subseteq> insert parent (set (world_deps w p))" for p
  proof (cases "w_prods w p = None")
    case True
    then have "world_deps w p = []" by (simp add: world_deps_def)
    then show ?thesis using True by (simp add: d)
  next
    case False
    then have "world_deps (store_deps ds w) p = ds p" by (simp only: d if_False)
    then show ?thesis using ds(3) by simp
  qed
  ultimately show ?thesis using ds(1) by blast
qed

subsection \<open>Control loop\<close>

record callbacks =
  onRoll :: "(world \<Rightarrow> world outcome) option"
  onStop :: "(world \<Rightarrow> world outcome) option"
  onCheckFuse :: "(world \<Rightarrow> (bool \<times> world) outcome) option"

definition call_back :: "(world \<Rightarrow> world outcome) option \<Rightarrow> world \<Rightarrow> world outcome" where
  "call_back f w = (case f of None \<Rightarrow> Some (Inr w) | Some f \<Rightarrow> f w)"

text \<open>
  The loop of \<open>WaitForDependencies\<close> for one dependency: the states and times it reads, one pair per
  turn. \<open>Some False\<close> is a time out.
\<close>

fun wait_rounds :: "plugin_state \<Rightarrow> int \<Rightarrow> int \<Rightarrow> (plugin_state \<times> int) list \<Rightarrow> bool option" where
  "wait_rounds waitForState timeout start [] = None"
| "wait_rounds waitForState timeout start ((state, now) # rounds) =
     (if \<not> state < waitForState then Some True
      else if timeout > 0 \<and> now - start > timeout then Some False
      else wait_rounds waitForState timeout start rounds)"

text \<open>\<open>seen\<close>: for each dependency the start time and the rounds; the result says which were reached.\<close>

fun WaitForDependencies :: "plugin_state \<Rightarrow> int \<Rightarrow> (int \<times> (plugin_state \<times> int) list) list \<Rightarrow> bool list option" where
  "WaitForDependencies waitForState timeout [] = Some []"
| "WaitForDependencies waitForState timeout ((start, rounds) # seen) =
     (case wait_rounds waitForState timeout start rounds of
        None \<Rightarrow> None
      | Some r \<Rightarrow> map_option (\<lambda>rs. r # rs) (WaitForDependencies waitForState timeout seen))"

definition set_fuse :: "bytes \<Rightarrow> fuse_state \<Rightarrow> world \<Rightarrow> world" where
  "set_fuse nm f w = w\<lparr>w_fuses := (w_fuses w)(nm \<mapsto> f)\<rparr>"

definition fuse_Activate :: "fuse_state \<Rightarrow> fuse_state" where
  "fuse_Activate f = (if fu_burned f = 1 then Broadcast_all (Activate_swap f) else f)"

text \<open>
  State of the loop: the world, whether the timer of \<open>fuseControl\<close> is armed, and whether a goroutine for
  \<open>triggerCheckFuse\<close> was started. \<open>seen\<close> is what \<open>WaitForDependencies\<close> reads.
\<close>

record control =
  k_world :: world
  k_timer :: bool
  k_check :: bool

definition handle_command ::
  "callbacks \<Rightarrow> (int \<times> (plugin_state \<times> int) list) list \<Rightarrow> nat \<Rightarrow> plugin_control \<Rightarrow> control \<Rightarrow> (bool \<times> control) outcome" where
  "handle_command cb seen p command k =
     (case command of
        StopProducer \<Rightarrow>
          with_prod p (k_world k) (\<lambda>x.
            case WaitForDependencies StateDead (p_shutdownTimeout x) seen of
              None \<Rightarrow> None
            | Some reached \<Rightarrow>
                then_do (setState StateStopping p (k_world k)) (\<lambda>w.
                then_do (call_back (onStop cb) w) (\<lambda>w. Some (Inr (True, k\<lparr>k_world := w\<rparr>)))))
      | Roll \<Rightarrow> then_do (call_back (onRoll cb) (k_world k)) (\<lambda>w. Some (Inr (False, k\<lparr>k_world := w\<rparr>)))
      | FuseBurn \<Rightarrow>
          with_prod p (k_world k) (\<lambda>x.
            case producer_GetFuse x (k_world k) of
              (None, w) \<Rightarrow> Some (Inr (False, k\<lparr>k_world := w\<rparr>))
            | (Some fuse, w) \<Rightarrow>
                if \<not> IsBurned fuse
                then Some (Inr (False, k\<lparr>k_world := set_fuse (p_fuseName x) (Burn fuse) w, k_check := True\<rparr>))
                else Some (Inr (False, k\<lparr>k_world := w\<rparr>)))
      | FuseActive \<Rightarrow>
          with_prod p (k_world k) (\<lambda>x.
            case producer_GetFuse x (k_world k) of
              (None, w) \<Rightarrow> Some (Inr (False, k\<lparr>k_world := w\<rparr>))
            | (Some fuse, w) \<Rightarrow>
                if IsBurned fuse
                then Some (Inr (False, k\<lparr>k_world := set_fuse (p_fuseName x) (fuse_Activate fuse) w, k_timer := False\<rparr>))
                else Some (Inr (False, k\<lparr>k_world := w\<rparr>)))
      | StopConsumer \<Rightarrow> Some (Inr (False, k)))"

text \<open>The commands the loop receives; \<open>None\<close> when it waits for another.\<close>

fun control_commands ::
  "callbacks \<Rightarrow> (int \<times> (plugin_state \<times> int) list) list \<Rightarrow> nat \<Rightarrow> plugin_control list \<Rightarrow> control \<Rightarrow> control outcome" where
  "control_commands cb seen p [] k = None"
| "control_commands cb seen p (c # cs) k =
     then_do (handle_command cb seen p c k) (\<lambda>(stop, k). if stop then Some (Inr k) else control_commands cb seen p cs k)"

definition ControlLoop ::
  "callbacks \<Rightarrow> (int \<times> (plugin_state \<times> int) list) list \<Rightarrow> nat \<Rightarrow> plugin_control list \<Rightarrow> control \<Rightarrow> control outcome" where
  "ControlLoop cb seen p commands k =
     then_do (setState StateActive p (k_world k)) (\<lambda>w.
     then_do (control_commands cb seen p commands (k\<lparr>k_world := w\<rparr>)) (\<lambda>k.
     then_do (setState StateDead p (k_world k)) (\<lambda>w. Some (Inr (k\<lparr>k_world := w\<rparr>)))))"

text \<open>\<open>triggerCheckFuse\<close>: the command it sends, if any, and the state with the timer it arms.\<close>

definition triggerCheckFuse :: "callbacks \<Rightarrow> nat \<Rightarrow> control \<Rightarrow> (plugin_control option \<times> control) outcome" where
  "triggerCheckFuse cb p k =
     with_prod p (k_world k) (\<lambda>x.
       case producer_GetFuse x (k_world k) of (fuse, w) \<Rightarrow>
         case onCheckFuse cb of
           None \<Rightarrow> Some (Inr (None, k\<lparr>k_world := w\<rparr>))
         | Some check \<Rightarrow>
             (case fuse of
                None \<Rightarrow> Some (Inl NilDereference)
              | Some f \<Rightarrow>
                  if IsBurned f then
                    then_do (check w) (\<lambda>(ok, w).
                      if ok then Some (Inr (Some FuseActive, k\<lparr>k_world := w\<rparr>))
                      else Some (Inr (None, k\<lparr>k_world := w, k_timer := True\<rparr>)))
                  else Some (Inr (None, k\<lparr>k_world := w\<rparr>))))"

text \<open>\<open>setFuseControl\<close>: is the timer armed afterwards? A timer that was armed is stopped first.\<close>

definition setFuseControl :: "bool \<Rightarrow> control \<Rightarrow> control" where
  "setFuseControl callback k = k\<lparr>k_timer := callback\<rparr>"

subsection \<open>Message loop and ticker\<close>

text \<open>
  \<open>messageLoop\<close> for at most \<open>n\<close> turns. \<open>onMessage\<close> works on what the plugin keeps (\<open>'c\<close>)
  and the world; \<open>None\<close> when the loop waits for a message.
\<close>

fun messageLoop :: "nat \<Rightarrow> (message \<Rightarrow> 'c \<Rightarrow> world \<Rightarrow> ('c \<times> world) outcome) \<Rightarrow> nat \<Rightarrow> 'c \<Rightarrow> world \<Rightarrow> ('c \<times> world) outcome" where
  "messageLoop 0 onMessage p c w = Some (Inr (c, w))"
| "messageLoop (Suc n) onMessage p c w =
     with_prod p w (\<lambda>x.
       if \<not> IsActive x then Some (Inr (c, w))
       else then_do (producer_Next p w) (\<lambda>(m, w). case m of
              None \<Rightarrow> messageLoop n onMessage p c w
            | Some msg \<Rightarrow> then_do (onMessage msg c w) (\<lambda>(c, w). messageLoop n onMessage p c w)))"

text \<open>\<open>MessageControlLoop\<close> without the control loop, which is a goroutine of its own.\<close>

definition MessageControlLoop :: "nat \<Rightarrow> (message \<Rightarrow> 'c \<Rightarrow> world \<Rightarrow> ('c \<times> world) outcome) \<Rightarrow> nat \<Rightarrow> 'c \<Rightarrow> world \<Rightarrow> ('c \<times> world) outcome" where
  "MessageControlLoop n onMessage p c w = then_do (setState StateActive p w) (messageLoop n onMessage p c)"

text \<open>\<open>TickerMessageControlLoop\<close> starts the ticker as one more goroutine; \<open>ticker_rounds\<close> below is its loop.\<close>

definition TickerMessageControlLoop :: "nat \<Rightarrow> (message \<Rightarrow> 'c \<Rightarrow> world \<Rightarrow> ('c \<times> world) outcome) \<Rightarrow> nat \<Rightarrow> 'c \<Rightarrow> world \<Rightarrow> ('c \<times> world) outcome" where
  "TickerMessageControlLoop n onMessage p c w = then_do (setState StateActive p w) (messageLoop n onMessage p c)"

text \<open>
  \<open>tickerLoop\<close>: a round is the state the loop reads and the time its callback takes. The result has
  an entry for each call of the callback: the delay with which the next round is started. A negative delay starts the next round at once.
\<close>

fun ticker_rounds :: "int \<Rightarrow> (plugin_state \<times> int) list \<Rightarrow> int list" where
  "ticker_rounds interval [] = []"
| "ticker_rounds interval ((state, elapsed) # rounds) =
     (if state \<le> StateActive
      then (let nextDelay = int64 (interval - elapsed) in if nextDelay < 0 then 0 else nextDelay) # ticker_rounds interval rounds
      else [])"

text \<open>A drained loop: the messages of the queue go to the callback in order.\<close>

fun handle_all :: "(message \<Rightarrow> 'c \<Rightarrow> world \<Rightarrow> ('c \<times> world) outcome) \<Rightarrow> message list \<Rightarrow> 'c \<Rightarrow> world \<Rightarrow> ('c \<times> world) outcome" where
  "handle_all onMessage [] c w = Some (Inr (c, w))"
| "handle_all onMessage (m # ms) c w = then_do (onMessage m c w) (\<lambda>(c, w). handle_all onMessage ms c w)"

lemma messageLoop_drains:
  assumes "w_prods w p = Some x" "p_state x \<le> StateActive" "p_messages x = ms @ rest"
    and ok: "handle_all onMessage ms c (set_prod p (x\<lparr>p_messages := rest\<rparr>) w) = Some (Inr (c', w'))"
    and comm: "\<And>m c w y. onMessage m c (set_prod p y w) = (case onMessage m c w of
       Some (Inr (c', w')) \<Rightarrow> Some (Inr (c', set_prod p y w')) | r \<Rightarrow> r)"
  shows "messageLoop (length ms) onMessage p c w = Some (Inr (c', w'))"
  using assms(1-3) ok
proof (induction ms arbitrary: w x c)
  case Nil
  then have "x\<lparr>p_messages := rest\<rparr> = x" by (cases x) simp
  with Nil show ?case by (simp add: set_prod_id)
next
  case (Cons m ms)
  let ?x = "x\<lparr>p_messages := ms @ rest\<rparr>"
  have n: "producer_Next p w = Some (Inr (Some m, set_prod p ?x w))" using Cons.prems by (simp add: producer_Next_def with_prod_def)
  obtain c1 w1 where h: "onMessage m c w = Some (Inr (c1, w1))"
    "handle_all onMessage ms c1 (set_prod p (x\<lparr>p_messages := rest\<rparr>) w1) = Some (Inr (c', w'))"
    using Cons.prems(4) comm [of m c "x\<lparr>p_messages := rest\<rparr>" w]
    by (auto simp: then_do_def split: option.splits sum.splits prod.splits)
  have "onMessage m c (set_prod p ?x w) = Some (Inr (c1, set_prod p ?x w1))" using comm [of m c ?x w] h(1) by simp
  moreover have "messageLoop (length ms) onMessage p c1 (set_prod p ?x w1) = Some (Inr (c', w'))"
    using Cons.prems h by (intro Cons.IH [of _ ?x]) (simp_all add: set_prod_def)
  ultimately show ?case using Cons.prems n by (simp add: with_prod_def IsActive_def)
qed

subsection \<open>Closing the channel\<close>

text \<open>
  Each queued message is handed to \<open>handleMessage\<close> in a goroutine; \<open>finishes n\<close> says whether the
  one for message \<open>n\<close> ends within the shutdown timeout. Result: the messages handed over, the
  messages dropped, and the answer of the function.
\<close>

fun close_flush :: "(nat \<Rightarrow> bool) \<Rightarrow> nat \<Rightarrow> message list \<Rightarrow> message list \<times> message list \<times> bool" where
  "close_flush finishes n [] = ([], [], True)"
| "close_flush finishes n (m # ms) =
     (if finishes n then (case close_flush finishes (Suc n) ms of (handled, dropped, ok) \<Rightarrow> (m # handled, dropped, ok))
      else ([m], ms, False))"

fun drop_all :: "enqueue \<Rightarrow> nat \<Rightarrow> message list \<Rightarrow> world \<Rightarrow> world outcome" where
  "drop_all enq p [] w = Some (Inr w)"
| "drop_all enq p (m # ms) w = then_do (Drop enq p m w) (drop_all enq p ms)"

definition CloseMessageChannel ::
  "(nat \<Rightarrow> bool) \<Rightarrow> enqueue \<Rightarrow> nat \<Rightarrow> world \<Rightarrow> ((message list \<times> bool) \<times> world) outcome" where
  "CloseMessageChannel finishes enq p w =
     with_prod p w (\<lambda>x.
       if p_closed x then Some (Inl CloseOfClosedChannel)
       else case close_flush finishes 0 (p_messages x) of
              (handled, dropped, ok) \<Rightarrow>
                then_do (drop_all enq p dropped (set_prod p (x\<lparr>p_messages := [], p_closed := True\<rparr>) w)) (\<lambda>w.
                  Some (Inr ((handled, ok), w))))"

subsection \<open>Shutdown\<close>

text \<open>A producer goes from any state to dead once its dependencies are dead (\<open>StopProducer\<close> without a
  time out); \<open>P\<close> are the producers of the program.\<close>

inductive shutdown_step :: "deps \<Rightarrow> nat set \<Rightarrow> (nat \<Rightarrow> plugin_state) \<Rightarrow> (nat \<Rightarrow> plugin_state) \<Rightarrow> bool" for ds P where
  stopped: "p \<in> P \<Longrightarrow> st p \<noteq> StateDead \<Longrightarrow>
    WaitForDependencies StateDead 0 (map (\<lambda>q. (0, [(st q, 0)])) (ds p)) = Some reached \<Longrightarrow>
    shutdown_step ds P st (st(p := StateDead))"

lemma wait_dead: "(\<exists>r. WaitForDependencies StateDead 0 (map (\<lambda>q. (0, [(st q, 0)])) ps) = Some r) \<longleftrightarrow> (\<forall>q\<in>set ps. st q = StateDead)"
proof (induction ps)
  case (Cons q ps)
  have "\<not> st q < StateDead \<longleftrightarrow> st q = StateDead" by (cases "st q") (simp_all add: state_order_defs)
  then show ?case using Cons by auto
qed simp

text \<open>
  \<open>Enqueue\<close> against a shutdown. An enqueuing goroutine tests the state, sends on the channel and then sets
  the state; the control loop sets the state, closes the channel in \<open>onStop\<close>, and sets the state again.
\<close>

lemma shutdown_possible:
  assumes "wf (dep_rel ds)" "finite P" "\<forall>p\<in>P. set (ds p) \<subseteq> P"
  shows "\<exists>st'. (shutdown_step ds P)\<^sup>*\<^sup>* st st' \<and> (\<forall>p\<in>P. st' p = StateDead)"
proof (induction "card {p \<in> P. st p \<noteq> StateDead}" arbitrary: st rule: less_induct)
  case less
  show ?case
  proof (cases "\<exists>p\<in>P. st p \<noteq> StateDead")
    case True
    then obtain p where p: "p \<in> {p \<in> P. st p \<noteq> StateDead}" by blast
    obtain m where m: "m \<in> {p \<in> P. st p \<noteq> StateDead}" "\<And>q. (q, m) \<in> dep_rel ds \<Longrightarrow> q \<notin> {p \<in> P. st p \<noteq> StateDead}"
      using wfE_min [OF assms(1) p] by metis
    have "\<forall>q\<in>set (ds m). st q = StateDead" using m assms(3) by (auto simp: dep_rel_def)
    then obtain r where "WaitForDependencies StateDead 0 (map (\<lambda>q. (0, [(st q, 0)])) (ds m)) = Some r"
      using wait_dead [of st "ds m"] by blast
    then have step: "shutdown_step ds P st (st(m := StateDead))" using m(1) by (intro stopped) auto
    have "{p \<in> P. (st(m := StateDead)) p \<noteq> StateDead} = {p \<in> P. st p \<noteq> StateDead} - {m}" by auto
    then have "card {p \<in> P. (st(m := StateDead)) p \<noteq> StateDead} < card {p \<in> P. st p \<noteq> StateDead}"
      using card_Diff1_less [OF _ m(1)] assms(2) by simp
    from less.hyps [OF this] step show ?thesis by (meson converse_rtranclp_into_rtranclp)
  qed blast
qed

datatype enq_pc = EOut | EChecked | ESent | EPanicked
datatype ctl_pc = CRunning | CStopping | CClosed | CDead

record enq_race =
  er_state :: plugin_state
  er_closed :: bool
  er_enq :: "nat \<Rightarrow> enq_pc"
  er_ctl :: ctl_pc

inductive race_step :: "enq_race \<Rightarrow> enq_race \<Rightarrow> bool" where
  e_check: "er_enq s t = EOut \<Longrightarrow> er_state s < StateStopping \<Longrightarrow> race_step s (s\<lparr>er_enq := (er_enq s)(t := EChecked)\<rparr>)"
| e_send: "er_enq s t = EChecked \<Longrightarrow> \<not> er_closed s \<Longrightarrow> race_step s (s\<lparr>er_enq := (er_enq s)(t := ESent)\<rparr>)"
| e_panic: "er_enq s t = EChecked \<Longrightarrow> er_closed s \<Longrightarrow> race_step s (s\<lparr>er_enq := (er_enq s)(t := EPanicked)\<rparr>)"
| e_active: "er_enq s t = ESent \<Longrightarrow> race_step s (s\<lparr>er_enq := (er_enq s)(t := EOut), er_state := StateActive\<rparr>)"
| c_stop: "er_ctl s = CRunning \<Longrightarrow> race_step s (s\<lparr>er_ctl := CStopping, er_state := StateStopping\<rparr>)"
| c_close: "er_ctl s = CStopping \<Longrightarrow> race_step s (s\<lparr>er_ctl := CClosed, er_closed := True\<rparr>)"
| c_dead: "er_ctl s = CClosed \<Longrightarrow> race_step s (s\<lparr>er_ctl := CDead, er_state := StateDead\<rparr>)"

definition race_init :: enq_race where
  "race_init = \<lparr>er_state = StateActive, er_closed = False, er_enq = (\<lambda>t. EOut), er_ctl = CRunning\<rparr>"

definition race_inv :: "enq_race \<Rightarrow> bool" where
  "race_inv s \<longleftrightarrow> (er_closed s \<longleftrightarrow> er_ctl s \<in> {CClosed, CDead}) \<and> (\<forall>t. er_enq s t = EPanicked \<longrightarrow> er_closed s)"

lemma race_inv_step: "race_step s s' \<Longrightarrow> race_inv s \<Longrightarrow> race_inv s'"
  by (induction rule: race_step.induct) (auto simp: race_inv_def)

subsection \<open>Properties\<close>

text \<open>C8: linking a producer to a registered stream always returns and keeps the graph of dependencies
  acyclic: no dependency is removed, and the only producer that becomes a dependency of others is the
  linked one.\<close>

theorem link_dependencies_acyclic:
  assumes "wf (dep_rel (world_deps w))" "w_streams w streamID = Some a" "w_heap w a = Some s"
  shows "\<exists>w'. LinkDependencies parent streamID w = Some (Inr w') \<and> wf (dep_rel (world_deps w')) \<and>
    (\<forall>p. set (world_deps w p) \<subseteq> set (world_deps w' p) \<and> set (world_deps w' p) \<subseteq> insert parent (set (world_deps w p)))"
  using link_stored [OF assms(1), of parent "s_Producers s"] assms(2,3)
  by (auto simp: LinkDependencies_def GetStreamOrFallback_def with_stream_def)

theorem link_dependencies_acyclic_witness:
  "\<exists>w'. LinkDependencies 3 7 (two_worlds\<lparr>w_streams := [7 \<mapsto> 0]\<rparr>) = Some (Inr w') \<and> wf (dep_rel (world_deps w'))"
proof -
  have "dep_rel (world_deps (two_worlds\<lparr>w_streams := [7 \<mapsto> 0]\<rparr>)) = {}"
    by (auto simp: dep_rel_def world_deps_def two_worlds_def idle_producer_def split: if_splits option.splits)
  then have "wf (dep_rel (world_deps (two_worlds\<lparr>w_streams := [7 \<mapsto> 0]\<rparr>)))" by simp
  from link_dependencies_acyclic [OF this, of 7 0 "(new_stream Broadcast 5)\<lparr>s_Producers := [1, 2]\<rparr>" 3]
  show ?thesis by (auto simp: two_worlds_def)
qed

text \<open>On an acyclic graph \<open>DependsOn\<close> returns, and it decides whether there is a direct or indirect
  dependency.\<close>

theorem depends_on_decides:
  assumes "wf (dep_rel ds)"
  shows "DependsOn ds p d = Some ((d, p) \<in> (dep_rel ds)\<^sup>+)"
  by (rule DependsOn_spec [OF assms])

theorem depends_on_decides_witness:
  "DependsOn (\<lambda>p. if p = 1 then [2] else []) 1 2 = Some True"
proof -
  have d: "dep_rel (\<lambda>p. if p = (1 :: nat) then [2] else []) = {(2, 1)}" by (auto simp: dep_rel_def split: if_splits)
  then have "wf (dep_rel (\<lambda>p. if p = (1 :: nat) then [2] else []))" by (simp add: wf_insert)
  from depends_on_decides [OF this, of 1 2] d show ?thesis by (simp add: r_into_trancl)
qed

text \<open>With acyclic dependencies among finitely many producers the shutdown can always be completed: from
  any states there is an order in which every producer finds its dependencies dead and dies.\<close>

theorem producers_shutdown_completes:
  assumes "wf (dep_rel ds)" "finite P" "\<forall>p\<in>P. set (ds p) \<subseteq> P"
  shows "\<exists>st'. (shutdown_step ds P)\<^sup>*\<^sup>* st st' \<and> (\<forall>p\<in>P. st' p = StateDead)"
  by (rule shutdown_possible [OF assms])

theorem producers_shutdown_completes_witness:
  "\<exists>st'. (shutdown_step (\<lambda>p. if p = 1 then [2] else []) {1, 2})\<^sup>*\<^sup>* (\<lambda>p. StateActive) st' \<and> st' 1 = StateDead \<and> st' 2 = StateDead"
proof -
  have "dep_rel (\<lambda>p. if p = (1 :: nat) then [2] else []) = {(2, 1)}" by (auto simp: dep_rel_def split: if_splits)
  then have "wf (dep_rel (\<lambda>p. if p = (1 :: nat) then [2] else []))" by (simp add: wf_insert)
  from producers_shutdown_completes [OF this, of "{1, 2}" "\<lambda>p. StateActive"] show ?thesis by auto
qed

text \<open>C36: a goroutine in \<open>Enqueue\<close> can panic during a shutdown: it passes the state test, the control loop
  closes the channel, the send panics; and a second one can set the state of a producer whose channel is
  closed back to active, so that further messages reach the closed channel.\<close>

theorem producer_enqueue_shutdown_race:
  "\<exists>s. race_step\<^sup>*\<^sup>* race_init s \<and> er_enq s 0 = EPanicked \<and> er_closed s \<and> er_state s = StateActive"
proof -
  let ?s = "\<lambda>st c a b k. \<lparr>er_state = st, er_closed = c, er_enq = (\<lambda>t. EOut)(0 := a, 1 := b), er_ctl = k\<rparr>"
  have i: "race_init = ?s StateActive False EOut EOut CRunning" by (simp add: race_init_def fun_eq_iff)
  have "race_step (?s StateActive False EOut EOut CRunning) (?s StateActive False EChecked EOut CRunning)"
    using e_check [of "?s StateActive False EOut EOut CRunning" 0] by (simp add: fun_upd_twist)
  moreover have "race_step (?s StateActive False EChecked EOut CRunning) (?s StateActive False EChecked EChecked CRunning)"
    using e_check [of "?s StateActive False EChecked EOut CRunning" 1] by simp
  moreover have "race_step (?s StateActive False EChecked EChecked CRunning) (?s StateActive False EChecked ESent CRunning)"
    using e_send [of "?s StateActive False EChecked EChecked CRunning" 1] by simp
  moreover have "race_step (?s StateActive False EChecked ESent CRunning) (?s StateStopping False EChecked ESent CStopping)"
    using c_stop [of "?s StateActive False EChecked ESent CRunning"] by simp
  moreover have "race_step (?s StateStopping False EChecked ESent CStopping) (?s StateStopping True EChecked ESent CClosed)"
    using c_close [of "?s StateStopping False EChecked ESent CStopping"] by simp
  moreover have "race_step (?s StateStopping True EChecked ESent CClosed) (?s StateStopping True EPanicked ESent CClosed)"
    using e_panic [of "?s StateStopping True EChecked ESent CClosed" 0] by (simp add: fun_upd_twist)
  moreover have "race_step (?s StateStopping True EPanicked ESent CClosed) (?s StateActive True EPanicked EOut CClosed)"
    using e_active [of "?s StateStopping True EPanicked ESent CClosed" 1] by simp
  ultimately have "race_step\<^sup>*\<^sup>* race_init (?s StateActive True EPanicked EOut CClosed)"
    unfolding i by (meson converse_rtranclp_into_rtranclp rtranclp.rtrancl_refl)
  then show ?thesis by (intro exI [of _ "?s StateActive True EPanicked EOut CClosed"]) simp
qed

end
