(* ===== verification/BufferedReaders.thy ===== *)
theory BufferedReaders
  imports ByteStreams Utilities
begin

text \<open>
  \<open>shared/bufferedreader.go\<close>: messages are cut out of a byte stream that arrives in pieces,
  by a delimiter, a textual or binary run length, a fixed size, or a callback. Go's \<open>int\<close> is
  64 bit: sums of lengths the peer controls are wrapped by \<open>int64\<close>. A Go slice carries its
  capacity, so a check gets the bytes received and the bytes behind them that a slice expression can
  still reach.
\<close>

unbundle bit_operations_syntax

subsection \<open>Slices with spare capacity\<close>

text \<open>\<open>s[lo:hi]\<close> for a slice with the elements \<open>data\<close> and the spare capacity \<open>spare\<close>.\<close>

definition go_slice :: "int \<Rightarrow> int \<Rightarrow> bytes \<Rightarrow> bytes \<Rightarrow> bytes run" where
  "go_slice lo hi data spare =
     (if 0 \<le> lo \<and> lo \<le> hi \<and> hi \<le> int (length data + length spare)
      then Inr (subslice (nat lo) (nat hi) (data @ spare)) else Inl SliceOutOfRange)"

definition go_from :: "int \<Rightarrow> bytes \<Rightarrow> bytes run" where
  "go_from lo data = go_slice lo (int (length data)) data []"

subsection \<open>The reader\<close>

definition BufferedReaderFlagDelimiter :: u8 where "BufferedReaderFlagDelimiter = 0"
definition BufferedReaderFlagMLE :: u8 where "BufferedReaderFlagMLE = 1"
definition BufferedReaderFlagMLE8 :: u8 where "BufferedReaderFlagMLE8 = 2"
definition BufferedReaderFlagMLE16 :: u8 where "BufferedReaderFlagMLE16 = 3"
definition BufferedReaderFlagMLE32 :: u8 where "BufferedReaderFlagMLE32 = 4"
definition BufferedReaderFlagMLE64 :: u8 where "BufferedReaderFlagMLE64 = 5"
definition BufferedReaderFlagMLEFixed :: u8 where "BufferedReaderFlagMLEFixed = 6"
definition BufferedReaderFlagMaskMLE :: u8 where "BufferedReaderFlagMaskMLE = 7"
definition BufferedReaderFlagBigEndian :: u8 where "BufferedReaderFlagBigEndian = 8"
definition BufferedReaderFlagEverything :: u8 where "BufferedReaderFlagEverything = 16"

lemmas reader_flags =
  BufferedReaderFlagDelimiter_def BufferedReaderFlagMLE_def BufferedReaderFlagMLE8_def
  BufferedReaderFlagMLE16_def BufferedReaderFlagMLE32_def BufferedReaderFlagMLE64_def
  BufferedReaderFlagMLEFixed_def BufferedReaderFlagMaskMLE_def BufferedReaderFlagBigEndian_def
  BufferedReaderFlagEverything_def

text \<open>A check answers (message length, start offset, bytes to skip behind the message).\<close>

datatype check_complete =
    CheckCallback "bytes \<Rightarrow> nat \<times> nat \<times> nat"
  | CheckDelimiter | CheckMLEText | CheckMLE8 | CheckMLE16 | CheckMLE32 | CheckMLE64 | CheckMLEFixed

record buffered_reader =
  br_data :: bytes
  br_delimiter :: bytes
  br_checkComplete :: check_complete
  br_sequence :: u64
  br_paramMLE :: int
  br_growSize :: nat
  br_begin :: nat
  br_end :: nat
  br_bigEndian :: bool
  br_flags :: u8
  br_incomplete :: bool

definition select_check :: "u8 \<Rightarrow> (bytes \<Rightarrow> nat \<times> nat \<times> nat) option \<Rightarrow> check_complete" where
  "select_check flags callback =
     (case callback of
        Some f \<Rightarrow> CheckCallback f
      | None \<Rightarrow>
          (let mle = flags AND BufferedReaderFlagMaskMLE
           in if mle = 0 then CheckDelimiter
              else if mle = BufferedReaderFlagMLE8 then CheckMLE8
              else if mle = BufferedReaderFlagMLE16 then CheckMLE16
              else if mle = BufferedReaderFlagMLE32 then CheckMLE32
              else if mle = BufferedReaderFlagMLE64 then CheckMLE64
              else if mle = BufferedReaderFlagMLEFixed then CheckMLEFixed
              else CheckMLEText))"

definition NewBufferedReader ::
  "nat \<Rightarrow> u8 \<Rightarrow> int \<Rightarrow> bytes \<Rightarrow> (bytes \<Rightarrow> nat \<times> nat \<times> nat) option \<Rightarrow> buffered_reader" where
  "NewBufferedReader bufferSize flags offsetOrLength delimiter checkComplete =
     \<lparr>br_data = replicate bufferSize (CHR 0x00), br_delimiter = delimiter,
      br_checkComplete = select_check flags checkComplete, br_sequence = 0,
      br_paramMLE = offsetOrLength, br_growSize = bufferSize, br_begin = 0, br_end = 0,
      br_bigEndian = (flags AND BufferedReaderFlagBigEndian \<noteq> 0), br_flags = flags,
      br_incomplete = True\<rparr>"

definition reader_Reset :: "buffered_reader \<Rightarrow> u64 \<Rightarrow> buffered_reader" where
  "reader_Reset buffer sequence =
     buffer\<lparr>br_sequence := sequence, br_begin := 0, br_end := 0, br_incomplete := True\<rparr>"

definition keep_everything :: "buffered_reader \<Rightarrow> bool" where
  "keep_everything buffer \<longleftrightarrow> br_flags buffer AND BufferedReaderFlagEverything \<noteq> 0"

subsection \<open>The checks\<close>

definition checkCompleteMLEFixed :: "buffered_reader \<Rightarrow> bytes \<Rightarrow> int \<times> int \<times> int" where
  "checkCompleteMLEFixed buffer data =
     (if int (length data) \<ge> br_paramMLE buffer then (br_paramMLE buffer, 0, 0) else (0, 0, 0))"

definition checkCompleteDelimiter :: "buffered_reader \<Rightarrow> bytes \<Rightarrow> int \<times> int \<times> int" where
  "checkCompleteDelimiter buffer data =
     (case str_index data (br_delimiter buffer) of
        None \<Rightarrow> (0, 0, 0)
      | Some delimiterIdx \<Rightarrow>
          if keep_everything buffer then (int delimiterIdx + int (length (br_delimiter buffer)), 0, 0)
          else (int delimiterIdx, 0, int (length (br_delimiter buffer))))"

text \<open>The common end of the run length checks: is the message of that length there?\<close>

definition runlength_result :: "buffered_reader \<Rightarrow> bytes \<Rightarrow> u64 \<Rightarrow> int \<Rightarrow> int \<times> int \<times> int" where
  "runlength_result buffer data msgLen msgStartOffset =
     (let msgLen = int64 (uint msgLen)
      in if int64 (msgLen + msgStartOffset) > int (length data) then (0, 0, 0)
         else if keep_everything buffer then (int64 (msgLen + msgStartOffset), 0, 0)
         else (msgLen, msgStartOffset, 0))"

definition checkCompleteMLEText :: "buffered_reader \<Rightarrow> bytes \<Rightarrow> bytes \<Rightarrow> (int \<times> int \<times> int) run" where
  "checkCompleteMLEText buffer data spare =
     (if int (length data) \<le> br_paramMLE buffer then Inr (0, 0, 0)
      else run_bind (go_from (br_paramMLE buffer) data) (\<lambda>numberBytes.
        let (msgLen, digits) = Btoi numberBytes
        in if digits = 0 then Inr (0, 0, 0)
           else let msgStartOffset = int digits + br_paramMLE buffer;
                    padLen = int (length (br_delimiter buffer))
                in if padLen > 0 then
                     run_bind (go_slice msgStartOffset (msgStartOffset + padLen) data spare) (\<lambda>pad.
                       if pad \<noteq> br_delimiter buffer then Inr (0, 0, 0)
                       else Inr (runlength_result buffer data msgLen (msgStartOffset + padLen)))
                   else Inr (runlength_result buffer data msgLen msgStartOffset)))"

text \<open>\<open>binary.Read\<close> of an unsigned integer of \<open>k\<close> bytes; too few bytes are an error.\<close>

definition binary_uint :: "bool \<Rightarrow> bytes \<Rightarrow> nat" where
  "binary_uint bigEndian bs = foldl (\<lambda>n c. 256 * n + of_char c) 0 (if bigEndian then bs else rev bs)"

definition binary_read :: "bool \<Rightarrow> nat \<Rightarrow> bytes \<Rightarrow> nat option" where
  "binary_read bigEndian k bs = (if length bs < k then None else Some (binary_uint bigEndian (take k bs)))"

definition checkCompleteBinary :: "nat \<Rightarrow> buffered_reader \<Rightarrow> bytes \<Rightarrow> (int \<times> int \<times> int) run" where
  "checkCompleteBinary width buffer data =
     run_bind (go_from (br_paramMLE buffer) data) (\<lambda>lengthBytes.
       case binary_read (br_bigEndian buffer) width lengthBytes of
         None \<Rightarrow> Inr (0, -1, 0)
       | Some msgLen \<Rightarrow>
           Inr (runlength_result buffer data (of_nat msgLen) (br_paramMLE buffer + int width)))"

definition checkCompleteMLE8 :: "buffered_reader \<Rightarrow> bytes \<Rightarrow> (int \<times> int \<times> int) run" where
  "checkCompleteMLE8 = checkCompleteBinary 1"
definition checkCompleteMLE16 :: "buffered_reader \<Rightarrow> bytes \<Rightarrow> (int \<times> int \<times> int) run" where
  "checkCompleteMLE16 = checkCompleteBinary 2"
definition checkCompleteMLE32 :: "buffered_reader \<Rightarrow> bytes \<Rightarrow> (int \<times> int \<times> int) run" where
  "checkCompleteMLE32 = checkCompleteBinary 4"
definition checkCompleteMLE64 :: "buffered_reader \<Rightarrow> bytes \<Rightarrow> (int \<times> int \<times> int) run" where
  "checkCompleteMLE64 = checkCompleteBinary 8"

definition reader_check :: "buffered_reader \<Rightarrow> bytes \<Rightarrow> bytes \<Rightarrow> (int \<times> int \<times> int) run" where
  "reader_check buffer data spare =
     (case br_checkComplete buffer of
        CheckCallback f \<Rightarrow> (case f data of (l, off, pad) \<Rightarrow> Inr (int l, int off, int pad))
      | CheckDelimiter \<Rightarrow> Inr (checkCompleteDelimiter buffer data)
      | CheckMLEText \<Rightarrow> checkCompleteMLEText buffer data spare
      | CheckMLE8 \<Rightarrow> checkCompleteMLE8 buffer data
      | CheckMLE16 \<Rightarrow> checkCompleteMLE16 buffer data
      | CheckMLE32 \<Rightarrow> checkCompleteMLE32 buffer data
      | CheckMLE64 \<Rightarrow> checkCompleteMLE64 buffer data
      | CheckMLEFixed \<Rightarrow> Inr (checkCompleteMLEFixed buffer data))"

subsection \<open>Extraction and reading\<close>

definition extractMessage ::
  "buffered_reader \<Rightarrow> int \<Rightarrow> int \<Rightarrow> int \<Rightarrow> (bytes option \<times> buffered_reader) run" where
  "extractMessage buffer msgLen msgStartOffset padLen =
     (let start = int64 (int (br_begin buffer) + msgStartOffset);
          msgNextBegin = int64 (start + msgLen + padLen)
      in if msgNextBegin > int (br_end buffer) then Inr (None, buffer)
         else run_bind (go_slice start (int64 (start + msgLen)) (br_data buffer) [])
                (\<lambda>dataRtn. Inr (Some dataRtn, buffer\<lparr>br_begin := nat msgNextBegin\<rparr>)))"

definition reader_buffered :: "buffered_reader \<Rightarrow> bytes" where
  "reader_buffered buffer = subslice (br_begin buffer) (br_end buffer) (br_data buffer)"

definition parseComplex :: "buffered_reader \<Rightarrow> (bytes option \<times> buffered_reader) run" where
  "parseComplex buffer =
     run_bind (reader_check buffer (reader_buffered buffer) (drop (br_end buffer) (br_data buffer)))
       (\<lambda>(msgLen, msgStartOffset, padLen).
          if msgLen > 0 then extractMessage buffer msgLen msgStartOffset padLen
          else Inr (None, buffer))"

text \<open>
  The part of \<open>ReadOne\<close> behind the read. The error of a read that delivered bytes is the inner,
  shadowed \<open>err\<close> of the code: it is dropped, so the error returned here is always \<open>nil\<close>.
\<close>

definition reader_grow :: "buffered_reader \<Rightarrow> buffered_reader" where
  "reader_grow buffer =
     (if length (br_data buffer) = br_end buffer then
        if br_begin buffer \<noteq> 0 then
          buffer\<lparr>br_data := copy_at 0 (reader_buffered buffer) (br_data buffer),
                 br_end := br_end buffer - br_begin buffer, br_begin := 0\<rparr>
        else buffer\<lparr>br_data := copy_at 0 (br_data buffer)
                      (replicate (length (br_data buffer) + br_growSize buffer) (CHR 0x00))\<rparr>
      else buffer)"

definition reader_next :: "buffered_reader \<Rightarrow> ((bytes option \<times> u64 \<times> bool) \<times> buffered_reader) run" where
  "reader_next buffer =
     run_bind (parseComplex buffer) (\<lambda>(msgData, buffer).
       case msgData of
         None \<Rightarrow>
           if br_begin buffer = br_end buffer then
             Inr ((None, 0, True), reader_Reset buffer (br_sequence buffer))
           else Inr ((None, 0, True), (reader_grow buffer)\<lparr>br_incomplete := True\<rparr>)
       | Some msg \<Rightarrow>
           let buffer = (if br_begin buffer \<noteq> 0 \<and> br_begin buffer = br_end buffer
                         then reader_Reset buffer (br_sequence buffer) else buffer)
           in Inr ((Some msg, br_sequence buffer, br_end buffer - br_begin buffer > 0),
                   buffer\<lparr>br_sequence := br_sequence buffer + 1\<rparr>))"

definition ReadOne ::
  "('s \<Rightarrow> nat \<Rightarrow> bytes \<times> io_err option \<times> 's) \<Rightarrow> buffered_reader \<Rightarrow> 's \<Rightarrow>
   ((bytes option \<times> u64 \<times> bool \<times> io_err option) \<times> buffered_reader \<times> 's) run" where
  "ReadOne rd buffer s =
     (let finish = (\<lambda>buffer s. run_bind (reader_next buffer)
                      (\<lambda>((msg, seqNum, isMore), buffer). Inr ((msg, seqNum, isMore, None), buffer, s)))
      in if br_incomplete buffer then
           let (chunk, err, s) = rd s (length (br_data buffer) - br_end buffer);
               rest = br_end buffer - br_begin buffer > 0
           in if err \<noteq> None \<and> err \<noteq> Some EOF then Inr ((None, 0, rest, err), buffer, s)
              else if chunk = [] then Inr ((None, 0, rest, err), buffer, s)
              else finish (buffer\<lparr>br_data := copy_at (br_end buffer) chunk (br_data buffer),
                                 br_end := br_end buffer + length chunk, br_incomplete := False\<rparr>) s
         else finish buffer s)"

partial_function (option) ReadAll ::
  "('s \<Rightarrow> nat \<Rightarrow> bytes \<times> io_err option \<times> 's) \<Rightarrow> (bytes \<Rightarrow> u64 \<Rightarrow> 'c \<Rightarrow> 'c) \<Rightarrow>
   buffered_reader \<Rightarrow> 's \<Rightarrow> 'c \<Rightarrow> (io_err option \<times> buffered_reader \<times> 's \<times> 'c) run option" where
  "ReadAll rd callback buffer s c =
     (case ReadOne rd buffer s of
        Inl p \<Rightarrow> Some (Inl p)
      | Inr ((data, sq, isMore, err), buffer, s) \<Rightarrow>
          let c = (case data of None \<Rightarrow> c | Some d \<Rightarrow> callback d sq c)
          in if err \<noteq> None then Some (Inr (err, buffer, s, c))
             else if \<not> isMore then Some (Inr (None, buffer, s, c))
             else ReadAll rd callback buffer s c)"

text \<open>The loop of \<open>streamRead\<close> in \<open>consumer/files.go\<close>: \<open>ReadAll\<close> until it reports an error.\<close>

partial_function (option) streamRead ::
  "('s \<Rightarrow> nat \<Rightarrow> bytes \<times> io_err option \<times> 's) \<Rightarrow> (bytes \<Rightarrow> u64 \<Rightarrow> 'c \<Rightarrow> 'c) \<Rightarrow>
   buffered_reader \<Rightarrow> 's \<Rightarrow> 'c \<Rightarrow> (io_err \<times> buffered_reader \<times> 's \<times> 'c) run option" where
  "streamRead rd callback buffer s c =
     (case ReadAll rd callback buffer s c of
        None \<Rightarrow> None
      | Some (Inl p) \<Rightarrow> Some (Inl p)
      | Some (Inr (Some err, buffer, s, c)) \<Rightarrow> Some (Inr (err, buffer, s, c))
      | Some (Inr (None, buffer, s, c)) \<Rightarrow> streamRead rd callback buffer s c)"

text \<open>A consumer that calls \<open>ReadAll\<close> again and again, \<open>n\<close> times; \<open>post\<close> is what it does with
  the error between two calls.\<close>

fun read_turns ::
  "('s \<Rightarrow> nat \<Rightarrow> bytes \<times> io_err option \<times> 's) \<Rightarrow> (bytes \<Rightarrow> u64 \<Rightarrow> 'c \<Rightarrow> 'c) \<Rightarrow> (io_err option \<Rightarrow> 'c \<Rightarrow> 'c) \<Rightarrow>
   nat \<Rightarrow> buffered_reader \<Rightarrow> 's \<Rightarrow> 'c \<Rightarrow> (buffered_reader \<times> 's \<times> 'c) run option" where
  "read_turns rd callback post 0 buffer s c = Some (Inr (buffer, s, c))"
| "read_turns rd callback post (Suc n) buffer s c =
     (case ReadAll rd callback buffer s c of
        None \<Rightarrow> None
      | Some (Inl p) \<Rightarrow> Some (Inl p)
      | Some (Inr (err, buffer, s, c)) \<Rightarrow> read_turns rd callback post n buffer s (post err c))"

subsection \<open>The messages of a byte string\<close>

text \<open>
  A framing says where the first message of a byte string is: its length, its offset and the bytes
  to skip behind it. \<open>frames\<close> cuts a byte string into its messages and the incomplete rest.
\<close>

function frames :: "(bytes \<Rightarrow> (nat \<times> nat \<times> nat) option) \<Rightarrow> bytes \<Rightarrow> bytes list \<times> bytes" where
  "frames frame d =
     (case frame d of
        None \<Rightarrow> ([], d)
      | Some (l, off, pad) \<Rightarrow>
          if 0 < l \<and> l + off + pad \<le> length d then
            (case frames frame (drop (off + l + pad) d) of (ms, r) \<Rightarrow> (subslice off (off + l) d # ms, r))
          else ([], d))"
  by pat_completeness auto
termination by (relation "measure (length \<circ> snd)") auto

declare frames.simps [simp del]

fun deliver :: "(bytes \<Rightarrow> u64 \<Rightarrow> 'c \<Rightarrow> 'c) \<Rightarrow> u64 \<Rightarrow> bytes list \<Rightarrow> 'c \<Rightarrow> 'c" where
  "deliver callback sq [] c = c"
| "deliver callback sq (m # ms) c = deliver callback (sq + 1) ms (callback m sq c)"

lemma deliver_append:
  "deliver cb sq (xs @ ys) c = deliver cb (sq + of_nat (length xs)) ys (deliver cb sq xs c)"
  by (induction xs arbitrary: sq c) (auto simp: add.assoc)

text \<open>Delivery into a list numbers the messages consecutively.\<close>

lemma deliver_list:
  "deliver (\<lambda>m q acc. acc @ [(m, q)]) sq ms acc = acc @ zip ms (map (\<lambda>i. sq + of_nat i) [0..<length ms])"
proof (induction ms arbitrary: sq acc)
  case (Cons m ms)
  have "map (\<lambda>i. sq + of_nat i) [0..<Suc (length ms)] = sq # map (\<lambda>i. sq + 1 + of_nat i) [0..<length ms]"
    by (simp add: upt_conv_Cons map_Suc_upt [symmetric] add.assoc o_def del: upt_Suc)
  with Cons show ?case by simp
qed simp

text \<open>A check's answer when there is no message yet: a length that is not positive, or a message that
  ends behind the bytes received.\<close>

definition incomplete :: "bytes \<Rightarrow> int \<Rightarrow> int \<Rightarrow> int \<Rightarrow> bool" where
  "incomplete d l off pad \<longleftrightarrow> l \<le> 0 \<or> 0 \<le> off \<and> 0 \<le> pad \<and> int (length d) < off + l + pad \<and> off + l + pad < 2 ^ 62"

lemma incomplete_none [simp]: "l \<le> 0 \<Longrightarrow> incomplete d l off pad"
  by (simp add: incomplete_def)

locale framing =
  fixes check :: "bytes \<Rightarrow> bytes \<Rightarrow> (int \<times> int \<times> int) run"
    and frame :: "bytes \<Rightarrow> (nat \<times> nat \<times> nat) option"
  assumes check_frame: "length d + length h < 2 ^ 62 \<Longrightarrow> frame d = Some (l, off, pad) \<Longrightarrow>
      check d h = Inr (int l, int off, int pad)"
    and check_none: "length d + length h < 2 ^ 62 \<Longrightarrow> frame d = None \<Longrightarrow>
      \<exists>l off pad. check d h = Inr (l, off, pad) \<and> incomplete d l off pad"
    and frame_bounds: "frame d = Some (l, off, pad) \<Longrightarrow> 0 < l \<and> l + off + pad \<le> length d"
    and frame_append: "frame d = Some r \<Longrightarrow> frame (d @ e) = Some r"
begin

lemma frame_Nil: "frame [] = None"
proof (rule ccontr)
  assume "frame [] \<noteq> None"
  then obtain l off pad where "frame [] = Some (l, off, pad)" by (metis not_None_eq prod_cases3)
  from frame_bounds [OF this] show False by auto
qed

lemma frames_none [simp]: "frame d = None \<Longrightarrow> frames frame d = ([], d)"
  by (simp add: frames.simps)

lemma frames_some:
  "frame d = Some (l, off, pad) \<Longrightarrow>
   frames frame d = (subslice off (off + l) d # fst (frames frame (drop (off + l + pad) d)),
                     snd (frames frame (drop (off + l + pad) d)))"
  using frame_bounds [of d l off pad] by (subst frames.simps) (simp add: case_prod_unfold)

lemma frames_rest: "frame (snd (frames frame d)) = None"
proof (induction d rule: length_induct)
  case (1 d)
  show ?case
  proof (cases "frame d")
    case (Some r)
    obtain l off pad where r: "frame d = Some (l, off, pad)" using Some by (cases r) auto
    have "length (drop (off + l + pad) d) < length d" using frame_bounds [OF r] by auto
    with 1 show ?thesis by (simp add: frames_some [OF r])
  qed simp
qed

text \<open>Cutting is independent of where the bytes are split.\<close>

lemma frames_append:
  "frames frame (d @ e) = (fst (frames frame d) @ fst (frames frame (snd (frames frame d) @ e)),
                           snd (frames frame (snd (frames frame d) @ e)))"
proof (induction d rule: length_induct)
  case (1 d)
  show ?case
  proof (cases "frame d")
    case None
    then show ?thesis by simp
  next
    case (Some r)
    obtain l off pad where r: "frame d = Some (l, off, pad)" using Some by (cases r) auto
    let ?n = "off + l + pad"
    have b: "0 < l" "?n \<le> length d" using frame_bounds [OF r] by auto
    have rest: "drop ?n (d @ e) = drop ?n d @ e" using b(2) by simp
    have "length (drop ?n d) < length d" using b by auto
    then have IH: "frames frame (drop ?n d @ e)
        = (fst (frames frame (drop ?n d)) @ fst (frames frame (snd (frames frame (drop ?n d)) @ e)),
           snd (frames frame (snd (frames frame (drop ?n d)) @ e)))" using 1 by blast
    have msg: "subslice off (off + l) (d @ e) = subslice off (off + l) d" using b by (simp add: subslice_def)
    show ?thesis
      using frames_some [OF frame_append [OF r], of e] frames_some [OF r] IH msg unfolding rest by simp
  qed
qed

end

subsection \<open>Reading\<close>

definition reader_ok :: "buffered_reader \<Rightarrow> bool" where
  "reader_ok b \<longleftrightarrow> br_begin b \<le> br_end b \<and> br_end b \<le> length (br_data b) \<and> br_data b \<noteq> [] \<and> 0 < br_growSize b \<and>
     (br_incomplete b \<longrightarrow> br_end b < length (br_data b))"

lemma length_reader_buffered: "reader_ok b \<Longrightarrow> length (reader_buffered b) = br_end b - br_begin b"
  by (auto simp: reader_ok_def reader_buffered_def subslice_def)

lemma reader_buffered_drop:
  assumes "reader_ok b" "n \<le> length (reader_buffered b)"
  shows "reader_buffered (b\<lparr>br_begin := br_begin b + n\<rparr>) = drop n (reader_buffered b)"
  using assms by (simp add: reader_buffered_def subslice_def reader_ok_def drop_take add.commute)

lemma reader_Reset_simps [simp]:
  "reader_buffered (reader_Reset b q) = []" "br_data (reader_Reset b q) = br_data b"
  "br_sequence (reader_Reset b q) = q" "br_incomplete (reader_Reset b q)" "br_growSize (reader_Reset b q) = br_growSize b"
  "reader_ok (reader_Reset b q) \<longleftrightarrow> 0 < br_growSize b \<and> br_data b \<noteq> []"
  by (auto simp: reader_Reset_def reader_buffered_def reader_ok_def)

lemma reader_sequence_simps [simp]:
  "reader_buffered (b\<lparr>br_sequence := q\<rparr>) = reader_buffered b" "reader_ok (b\<lparr>br_sequence := q\<rparr>) = reader_ok b"
  "reader_buffered (b\<lparr>br_incomplete := i\<rparr>) = reader_buffered b"
  by (simp_all add: reader_buffered_def reader_ok_def)

lemma reader_grow_spec:
  assumes ok: "reader_ok b" and ne: "br_begin b \<noteq> br_end b"
  shows "reader_ok ((reader_grow b)\<lparr>br_incomplete := True\<rparr>)"
    and "reader_buffered (reader_grow b) = reader_buffered b"
    and "length (br_data (reader_grow b)) \<le> max (length (br_data b)) (length (reader_buffered b) + br_growSize b)"
    and "br_growSize (reader_grow b) = br_growSize b" "br_sequence (reader_grow b) = br_sequence b"
proof -
  have len: "length (reader_buffered b) = br_end b - br_begin b" by (rule length_reader_buffered [OF ok])
  show "reader_buffered (reader_grow b) = reader_buffered b"
  proof (cases "length (br_data b) = br_end b \<and> br_begin b \<noteq> 0")
    case True
    have "take (br_end b - br_begin b) (copy_at 0 (reader_buffered b) (br_data b)) = reader_buffered b"
      using take_copy_at [of 0 "reader_buffered b" "br_data b"] len True by simp
    with True show ?thesis by (simp add: reader_grow_def reader_buffered_def)
  next
    case False
    have "take (length (br_data b)) (copy_at 0 (br_data b) (replicate (length (br_data b) + br_growSize b) (CHR 0x00))) = br_data b"
      using take_copy_at [of 0 "br_data b" "replicate (length (br_data b) + br_growSize b) (CHR 0x00)"] by simp
    with False show ?thesis by (auto simp: reader_grow_def reader_buffered_def)
  qed
  show "reader_ok ((reader_grow b)\<lparr>br_incomplete := True\<rparr>)"
    using ok ne by (auto simp: reader_ok_def reader_grow_def)
  show "length (br_data (reader_grow b)) \<le> max (length (br_data b)) (length (reader_buffered b) + br_growSize b)"
    using ok len by (auto simp: reader_grow_def reader_ok_def)
qed (simp_all add: reader_grow_def)

text \<open>The static part of a reader: what the checks depend on.\<close>

definition same_config :: "buffered_reader \<Rightarrow> buffered_reader \<Rightarrow> bool" where
  "same_config a b \<longleftrightarrow> br_delimiter a = br_delimiter b \<and> br_checkComplete a = br_checkComplete b \<and>
     br_paramMLE a = br_paramMLE b \<and> br_bigEndian a = br_bigEndian b \<and> br_flags a = br_flags b \<and>
     br_growSize a = br_growSize b"

lemma same_config_result: "same_config a b \<Longrightarrow> runlength_result a = runlength_result b"
  by (intro ext) (simp add: same_config_def runlength_result_def keep_everything_def cong: if_cong)

lemma same_config_check: "same_config a b \<Longrightarrow> reader_check a = reader_check b"
  using same_config_result [of a b]
  by (intro ext) (simp add: same_config_def reader_check_def checkCompleteDelimiter_def checkCompleteMLEText_def
      checkCompleteMLE8_def checkCompleteMLE16_def checkCompleteMLE32_def checkCompleteMLE64_def
      checkCompleteMLEFixed_def checkCompleteBinary_def keep_everything_def
      split: check_complete.splits cong: if_cong option.case_cong)

lemma same_config_refl [simp]: "same_config a a"
  by (simp add: same_config_def)

lemma same_config_trans: "same_config a b \<Longrightarrow> same_config b c \<Longrightarrow> same_config a c"
  by (simp add: same_config_def)

lemma same_config_updates [simp]:
  "same_config (b\<lparr>br_begin := x\<rparr>) a = same_config b a" "same_config (b\<lparr>br_end := x\<rparr>) a = same_config b a"
  "same_config (b\<lparr>br_data := d\<rparr>) a = same_config b a" "same_config (b\<lparr>br_incomplete := i\<rparr>) a = same_config b a"
  "same_config (b\<lparr>br_sequence := q\<rparr>) a = same_config b a" "same_config (reader_Reset b q) a = same_config b a"
  "same_config (reader_grow b) a = same_config b a"
  by (simp_all add: same_config_def reader_Reset_def reader_grow_def)

lemma extractMessage_spec:
  assumes "reader_ok b" "length (br_data b) < 2 ^ 62" "l + off + pad \<le> length (reader_buffered b)"
  shows "extractMessage b (int l) (int off) (int pad) =
    Inr (Some (subslice off (off + l) (reader_buffered b)), b\<lparr>br_begin := br_begin b + (off + l + pad)\<rparr>)"
proof -
  have bnd: "l + off + pad \<le> br_end b - br_begin b" using assms(3) length_reader_buffered [OF assms(1)] by auto
  have ok: "br_begin b \<le> br_end b" "br_end b \<le> length (br_data b)" using assms(1) by (auto simp: reader_ok_def)
  have sum: "br_begin b + off + l + pad \<le> br_end b" using bnd ok by linarith
  have "br_end b < 2 ^ 62" "br_begin b + off + l + pad < 2 ^ 62" using ok(2) sum assms(2) by auto
  then have small: "int (br_end b) < 2 ^ 62" "int (br_begin b + off + l + pad) < 2 ^ 62"
    by (simp_all del: of_nat_add)
  have i: "int64 (int (br_begin b) + int off) = int (br_begin b + off)"
    "int64 (int (br_begin b + off) + int l + int pad) = int (br_begin b + off + l + pad)"
    "int64 (int (br_begin b + off) + int l) = int (br_begin b + off + l)"
    using small by (subst int64_id; simp)+
  have slice: "go_slice (int (br_begin b + off)) (int (br_begin b + off + l)) (br_data b) []
      = Inr (subslice (br_begin b + off) (br_begin b + off + l) (br_data b))"
    using sum ok by (simp add: go_slice_def nat_add_distrib del: of_nat_add)
  have sub: "subslice (br_begin b + off) (br_begin b + off + l) (br_data b) = subslice off (off + l) (reader_buffered b)"
    using bnd by (simp add: reader_buffered_def subslice_def drop_take add.commute min_def)
  from i slice sub sum show ?thesis
    by (simp add: extractMessage_def Let_def add.assoc del: of_nat_add)
qed

lemma extractMessage_incomplete:
  assumes "reader_ok b" "length (br_data b) < 2 ^ 62" "incomplete (reader_buffered b) l off pad" "l > 0"
  shows "extractMessage b l off pad = Inr (None, b)"
proof -
  have i: "0 \<le> off" "0 \<le> pad" "int (br_end b - br_begin b) < off + l + pad" "off + l + pad < 2 ^ 62"
    using assms(3,4) length_reader_buffered [OF assms(1)] by (auto simp: incomplete_def)
  have b: "br_begin b \<le> br_end b" "br_end b < 2 ^ 62" using assms(1,2) by (auto simp: reader_ok_def)
  have z: "int (br_begin b) < 2 ^ 62" using b by simp
  have "int64 (int (br_begin b) + off) = int (br_begin b) + off"
    "int64 (int (br_begin b) + off + l + pad) = int (br_begin b) + off + l + pad"
    using i z assms(4) by (subst int64_id; simp)+
  then show ?thesis using i(3) b(1) by (simp add: extractMessage_def)
qed

locale framed_reader = framing +
  fixes conf :: buffered_reader
  assumes conf_check: "reader_check conf = check"
begin

text \<open>One round of the parser on the buffered bytes.\<close>

lemma parseComplex_spec:
  assumes "reader_ok b" "same_config b conf" "length (br_data b) < 2 ^ 62"
  shows "parseComplex b =
     (case frame (reader_buffered b) of
        None \<Rightarrow> Inr (None, b)
      | Some (l, off, pad) \<Rightarrow>
          Inr (Some (subslice off (off + l) (reader_buffered b)), b\<lparr>br_begin := br_begin b + (off + l + pad)\<rparr>))"
proof -
  have chk: "reader_check b = check" using same_config_check [OF assms(2)] conf_check by simp
  have len: "length (reader_buffered b) + length (drop (br_end b) (br_data b)) < 2 ^ 62"
    using assms length_reader_buffered [OF assms(1)] by (simp add: reader_ok_def)
  show ?thesis
  proof (cases "frame (reader_buffered b)")
    case None
    from check_none [OF len None] obtain l off pad
      where r: "check (reader_buffered b) (drop (br_end b) (br_data b)) = Inr (l, off, pad)"
        "incomplete (reader_buffered b) l off pad" by blast
    then show ?thesis using None chk extractMessage_incomplete [OF assms(1,3) r(2)] by (simp add: parseComplex_def)
  next
    case (Some r)
    obtain l off pad where r: "frame (reader_buffered b) = Some (l, off, pad)" using Some by (cases r) auto
    have bnd: "0 < l" "l + off + pad \<le> length (reader_buffered b)" using frame_bounds [OF r] by auto
    from check_frame [OF len r] chk r bnd(1) extractMessage_spec [OF assms(1,3) bnd(2)] show ?thesis
      by (simp add: parseComplex_def)
  qed
qed

lemma reader_next_spec:
  assumes ok: "reader_ok b" and conf: "same_config b conf" and len: "length (br_data b) < 2 ^ 62"
    and d: "d = reader_buffered b" and inc: "\<not> br_incomplete b"
  obtains (incomplete) b' where "reader_next b = Inr ((None, 0, True), b')" "frame d = None"
      "reader_ok b'" "same_config b' conf" "br_incomplete b'" "reader_buffered b' = d"
      "br_sequence b' = br_sequence b" "length (br_data b') \<le> max (length (br_data b)) (length d + br_growSize conf)"
  | (message) l off pad b' where "frame d = Some (l, off, pad)"
      "reader_next b = Inr ((Some (subslice off (off + l) d), br_sequence b, off + l + pad < length d), b')"
      "reader_ok b'" "same_config b' conf" "reader_buffered b' = drop (off + l + pad) d"
      "br_sequence b' = br_sequence b + 1" "br_data b' = br_data b"
      "br_incomplete b' \<longrightarrow> reader_buffered b' = []"
proof (cases "frame d")
  case None
  with parseComplex_spec [OF ok conf len] d have p: "parseComplex b = Inr (None, b)" by simp
  have gs: "br_growSize b = br_growSize conf" using conf by (simp add: same_config_def)
  show thesis
  proof (cases "br_begin b = br_end b")
    case True
    then have "d = []" using d by (simp add: reader_buffered_def)
    moreover have "0 < br_growSize b" "br_data b \<noteq> []" using ok by (simp_all add: reader_ok_def)
    ultimately show thesis
      using True None p conf that(1) [of "reader_Reset b (br_sequence b)"] by (simp add: reader_next_def)
  next
    case False
    note g = reader_grow_spec [OF ok False]
    from False p have "reader_next b = Inr ((None, 0, True), (reader_grow b)\<lparr>br_incomplete := True\<rparr>)"
      by (simp add: reader_next_def)
    moreover have "reader_buffered ((reader_grow b)\<lparr>br_incomplete := True\<rparr>) = d"
      using g(2) d by (simp add: reader_buffered_def)
    ultimately show thesis
      using None g conf d gs that(1) [of "(reader_grow b)\<lparr>br_incomplete := True\<rparr>"] by simp
  qed
next
  case (Some r)
  obtain l off pad where r: "frame d = Some (l, off, pad)" using Some by (cases r) auto
  let ?n = "off + l + pad" and ?b = "b\<lparr>br_begin := br_begin b + (off + l + pad)\<rparr>"
  have n: "0 < ?n" "?n \<le> length d" using frame_bounds [OF r] by auto
  have p: "parseComplex b = Inr (Some (subslice off (off + l) d), ?b)"
    using parseComplex_spec [OF ok conf len] r d by simp
  have ld: "length d = br_end b - br_begin b" using length_reader_buffered [OF ok] d by simp
  have buf: "reader_buffered ?b = drop ?n d" using reader_buffered_drop [OF ok] n d by simp
  have okb: "reader_ok ?b" using ok n ld by (auto simp: reader_ok_def)
  show thesis
  proof (cases "br_begin ?b = br_end ?b")
    case True
    then have "br_begin b + (off + l + pad) \<noteq> 0" "br_end b \<noteq> 0" using n(1) by auto
    with True p have nx: "reader_next b = Inr ((Some (subslice off (off + l) d), br_sequence b, False),
        (reader_Reset ?b (br_sequence b))\<lparr>br_sequence := br_sequence b + 1\<rparr>)"
      by (simp add: reader_next_def Let_def reader_Reset_def)
    have e: "?n = length d" using True n ld ok by (simp add: reader_ok_def)
    have "br_data b \<noteq> []" using True n ok by (auto simp: reader_ok_def)
    with nx e r ok conf show thesis
      by (intro that(2) [of l off pad "(reader_Reset ?b (br_sequence b))\<lparr>br_sequence := br_sequence b + 1\<rparr>"])
         (simp_all add: reader_ok_def [of b])
  next
    case False
    with p have nx: "reader_next b = Inr ((Some (subslice off (off + l) d), br_sequence b, br_end ?b - br_begin ?b > 0),
        ?b\<lparr>br_sequence := br_sequence b + 1\<rparr>)"
      by (simp add: reader_next_def Let_def)
    have "(br_end ?b - br_begin ?b > 0) = (?n < length d)" using ld by auto
    with nx r okb conf buf inc show thesis
      by (intro that(2) [of l off pad "?b\<lparr>br_sequence := br_sequence b + 1\<rparr>"]) simp_all
  qed
qed

end

text \<open>A reader with a framing, reading from an \<open>io.Reader\<close>.\<close>

locale framed_stream = framed_reader check frame conf + byte_reader rd pend inv
  for check frame conf and rd :: "'s \<Rightarrow> nat \<Rightarrow> bytes \<times> io_err option \<times> 's" and pend inv
begin

definition total :: "buffered_reader \<Rightarrow> 's \<Rightarrow> bytes" where
  "total b s = reader_buffered b @ pend s"

text \<open>The state between two reads; \<open>bnd\<close> bounds the buffer.\<close>

definition ready :: "nat \<Rightarrow> buffered_reader \<Rightarrow> 's \<Rightarrow> bool" where
  "ready bnd b s \<longleftrightarrow> reader_ok b \<and> same_config b conf \<and> inv s \<and>
     (br_incomplete b \<longrightarrow> frame (reader_buffered b) = None) \<and>
     length (br_data b) \<le> bnd \<and> length (total b s) + br_growSize conf \<le> bnd \<and> bnd < 2 ^ 62"

lemma readyD:
  assumes "ready bnd b s"
  shows "reader_ok b" "same_config b conf" "inv s" "length (br_data b) < 2 ^ 62"
  using assms by (auto simp: ready_def)

text \<open>
  What one \<open>ReadOne\<close> does: the bytes still to come lose exactly the message it delivers, and
  either it reports the end or something decreases.
\<close>

definition progress :: "buffered_reader \<Rightarrow> 's \<Rightarrow> nat \<times> nat" where
  "progress b s = (length (pend s) + length (total b s), if br_incomplete b then 0 else 1)"

lemma ReadOne_after:
  assumes rdy: "ready bnd b s" and inc: "\<not> br_incomplete b"
  obtains (more) b' where "reader_next b = Inr ((None, 0, True), b')" "ready bnd b' s"
      "total b' s = total b s" "br_incomplete b'" "br_sequence b' = br_sequence b"
  | (message) m isMore b' where "reader_next b = Inr ((Some m, br_sequence b, isMore), b')" "ready bnd b' s"
      "frames frame (total b s) = (m # fst (frames frame (total b' s)), snd (frames frame (total b' s)))"
      "br_sequence b' = br_sequence b + 1" "isMore = (reader_buffered b' \<noteq> [])"
      "length (total b' s) < length (total b s)"
proof -
  note r = readyD [OF rdy]
  show thesis
  proof (cases rule: reader_next_spec [OF r(1,2,4) refl inc, case_names incomplete message])
    case (incomplete b')
    have "length (br_data b') \<le> bnd"
      using incomplete rdy by (auto simp: ready_def total_def)
    with incomplete rdy show thesis by (intro that(1) [of b']) (simp_all add: ready_def total_def)
  next
    case (message l off pad b')
    let ?d = "reader_buffered b" and ?n = "off + l + pad"
    have n: "0 < ?n" "?n \<le> length ?d" "0 < l" using frame_bounds [OF message(1)] by auto
    have t: "total b' s = drop ?n (total b s)" using n message by (simp add: total_def)
    have f: "frame (total b s) = Some (l, off, pad)" using frame_append [OF message(1)] by (simp add: total_def)
    have sub: "subslice off (off + l) (total b s) = subslice off (off + l) ?d"
      using n by (simp add: total_def subslice_def)
    have short: "length (total b' s) < length (total b s)" using t n by (auto simp: total_def)
    have mo: "(?n < length ?d) = (reader_buffered b' \<noteq> [])" using message(5) n by auto
    have "ready bnd b' s" using rdy message short frame_Nil by (auto simp: ready_def)
    then show thesis
      using message(2,6) frames_some [OF f] t sub short mo by (intro that(2)) auto
  qed
qed

definition reader_fill :: "buffered_reader \<Rightarrow> bytes \<Rightarrow> buffered_reader" where
  "reader_fill b chunk = b\<lparr>br_data := copy_at (br_end b) chunk (br_data b),
                           br_end := br_end b + length chunk, br_incomplete := False\<rparr>"

lemma reader_fill_spec:
  assumes ok: "reader_ok b" and fit: "br_end b + length chunk \<le> length (br_data b)"
  shows "reader_ok (reader_fill b chunk)" "reader_buffered (reader_fill b chunk) = reader_buffered b @ chunk"
    "br_sequence (reader_fill b chunk) = br_sequence b" "\<not> br_incomplete (reader_fill b chunk)"
    "same_config (reader_fill b chunk) conf = same_config b conf"
    "length (br_data (reader_fill b chunk)) = length (br_data b)"
proof -
  show "reader_ok (reader_fill b chunk)" using ok fit by (auto simp: reader_ok_def reader_fill_def)
  have "take (br_end b + length chunk) (copy_at (br_end b) chunk (br_data b)) = take (br_end b) (br_data b) @ chunk"
    by (rule take_copy_at [OF fit])
  moreover have c: "subslice i j xs = drop i (take j xs)" for i j and xs :: bytes by (simp add: subslice_def drop_take)
  moreover have "br_begin b \<le> length (take (br_end b) (br_data b))" using ok by (simp add: reader_ok_def)
  ultimately show "reader_buffered (reader_fill b chunk) = reader_buffered b @ chunk"
    by (simp add: reader_fill_def reader_buffered_def)
qed (simp_all add: reader_fill_def)

lemma ReadOne_filled:
  assumes "\<not> br_incomplete b"
  shows "ReadOne rd b s = run_bind (reader_next b)
           (\<lambda>((msg, seqNum, isMore), buffer). Inr ((msg, seqNum, isMore, None), buffer, s))"
  using assms by (simp add: ReadOne_def)

lemma ReadOne_reads:
  assumes rdy: "ready bnd b s" and inc: "br_incomplete b"
  obtains (end_of_file) r s' where "ReadOne rd b s = Inr ((None, 0, r, Some EOF), b, s')" "ready bnd b s'"
      "pend s = []" "total b s' = total b s" "frame (total b s) = None"
  | (chunk) b1 s1 where "ReadOne rd b s = ReadOne rd b1 s1" "ready bnd b1 s1" "\<not> br_incomplete b1"
      "total b1 s1 = total b s" "length (pend s1) < length (pend s)" "br_sequence b1 = br_sequence b"
proof -
  note r = readyD [OF rdy]
  let ?n = "length (br_data b) - br_end b"
  have n: "0 < ?n" using r(1) inc by (simp add: reader_ok_def)
  obtain ch err s1 where rd: "rd s ?n = (ch, err, s1)" by (metis prod_cases3)
  note R = rd_inv [OF r(3) rd] rd_pend [OF r(3) rd] rd_length [OF r(3) rd] rd_err [OF r(3) rd]
  show thesis
  proof (cases "ch = []")
    case True
    with rd_empty [OF r(3), of ?n err s1] rd n have e: "pend s = []" "err = Some EOF" by auto
    with R(2) True have "total b s1 = total b s" by (simp add: total_def)
    moreover have "frame (total b s) = None" using rdy inc e by (simp add: ready_def total_def)
    ultimately show thesis using rd True e R(1) rdy inc
      by (intro that(1) [of "br_end b - br_begin b > 0" s1]) (simp_all add: ReadOne_def ready_def)
  next
    case False
    let ?b = "reader_fill b ch"
    have fit: "br_end b + length ch \<le> length (br_data b)" using R(3) n by linarith
    note F = reader_fill_spec [OF r(1) fit]
    have t: "total ?b s1 = total b s" using F(2) R(2) by (simp add: total_def)
    have one: "ReadOne rd b s = ReadOne rd ?b s1"
      using ReadOne_filled [OF F(4)] rd inc False R(4) by (auto simp: ReadOne_def reader_fill_def)
    have "ready bnd ?b s1" using rdy F t R(1) by (simp add: ready_def)
    moreover have "length (pend s1) < length (pend s)" using R(2) False by simp
    ultimately show thesis using one F(3,4) t by (intro that(2) [of ?b s1]) simp_all
  qed
qed

definition weight :: "buffered_reader \<Rightarrow> 's \<Rightarrow> nat" where
  "weight b s = 2 * (length (pend s) + length (total b s)) + (if br_incomplete b then 0 else 1)"

text \<open>One round of \<open>ReadAll\<close>, whatever it reads.\<close>

lemma ReadOne_round:
  assumes rdy: "ready bnd b s"
  obtains (end_of_file) r s' where "ReadOne rd b s = Inr ((None, 0, r, Some EOF), b, s')" "ready bnd b s'"
      "total b s' = total b s" "frame (total b s) = None"
  | (more) b' s' where "ReadOne rd b s = Inr ((None, 0, True, None), b', s')" "ready bnd b' s'"
      "total b' s' = total b s" "br_sequence b' = br_sequence b" "weight b' s' < weight b s"
  | (message) m isMore b' s' where "ReadOne rd b s = Inr ((Some m, br_sequence b, isMore, None), b', s')"
      "ready bnd b' s'" "weight b' s' < weight b s" "br_sequence b' = br_sequence b + 1"
      "frames frame (total b s) = (m # fst (frames frame (total b' s')), snd (frames frame (total b' s')))"
      "length (total b' s') < length (total b s)"
proof -
  have filled: thesis if b1: "ready bnd b1 s1" "\<not> br_incomplete b1" "ReadOne rd b s = ReadOne rd b1 s1"
      "total b1 s1 = total b s" "br_sequence b1 = br_sequence b"
      "br_incomplete b \<longrightarrow> length (pend s1) < length (pend s)" "b1 = b \<and> s1 = s \<or> br_incomplete b" for b1 s1
  proof (cases rule: ReadOne_after [OF b1(1,2), case_names none some])
    case (none b')
    have "weight b' s1 < weight b s" using b1 none by (auto simp: weight_def)
    with none b1 ReadOne_filled [OF b1(2), of s1] show thesis by (intro more [of b' s1]) simp_all
  next
    case (some m isMore b')
    have "weight b' s1 < weight b s" using b1 some by (auto simp: weight_def)
    with some b1 ReadOne_filled [OF b1(2), of s1] show thesis
      by (intro message [of m isMore b' s1]) simp_all
  qed
  show thesis
  proof (cases "br_incomplete b")
    case True
    show thesis
    proof (cases rule: ReadOne_reads [OF rdy True, case_names eof chunk])
      case (eof r s')
      then show thesis by (intro that(1) [of r s']) simp_all
    next
      case (chunk b1 s1)
      with True show thesis by (intro filled [of b1 s1]) simp_all
    qed
  next
    case False
    with rdy show thesis by (intro filled [of b s]) simp_all
  qed
qed

text \<open>
  \<open>ms\<close> is what a run from \<open>(b, s)\<close> to \<open>(b', s')\<close> delivers: the messages of the bytes
  still to come, up to those still to come at its end.
\<close>

definition delivers :: "nat \<Rightarrow> buffered_reader \<Rightarrow> 's \<Rightarrow> bytes list \<Rightarrow> buffered_reader \<Rightarrow> 's \<Rightarrow> bool" where
  "delivers bnd b s ms b' s' \<longleftrightarrow> ready bnd b' s' \<and> br_sequence b' = br_sequence b + of_nat (length ms) \<and>
     frames frame (total b s) = (ms @ fst (frames frame (total b' s')), snd (frames frame (total b' s')))"

lemma delivers_trans:
  "delivers bnd b s xs b1 s1 \<Longrightarrow> delivers bnd b1 s1 ys b2 s2 \<Longrightarrow> delivers bnd b s (xs @ ys) b2 s2"
  by (simp add: delivers_def)

lemma ReadAll_spec:
  "ready bnd b s \<Longrightarrow>
   \<exists>e b' s' ms. ReadAll rd cb b s c = Some (Inr (e, b', s', deliver cb (br_sequence b) ms c)) \<and>
     delivers bnd b s ms b' s' \<and> length (total b' s') \<le> length (total b s) \<and>
     (case e of None \<Rightarrow> length (total b' s') < length (total b s) | Some x \<Rightarrow> x = EOF \<and> frame (total b' s') = None)"
proof (induction "weight b s" arbitrary: b s c rule: less_induct)
  case less
  note loop = ReadAll.simps [of rd cb b s c]
  show ?case
  proof (cases rule: ReadOne_round [OF less.prems, case_names eof more message])
    case (eof r s')
    with loop have "ReadAll rd cb b s c = Some (Inr (Some EOF, b, s', deliver cb (br_sequence b) [] c))" by simp
    moreover have "delivers bnd b s [] b s'" using eof by (simp add: delivers_def)
    ultimately show ?thesis using eof by fastforce
  next
    case (more b1 s1)
    from less.hyps [OF more(5,2), of c] more(1,3,4) loop show ?thesis
      by (simp add: delivers_def cong: option.case_cong)
  next
    case (message m isMore b1 s1)
    let ?c = "cb m (br_sequence b) c"
    have one: "delivers bnd b s [m] b1 s1" using message by (simp add: delivers_def)
    show ?thesis
    proof (cases isMore)
      case True
      from less.hyps [OF message(3,2), of ?c] obtain e b2 s2 ms
        where r: "ReadAll rd cb b1 s1 ?c = Some (Inr (e, b2, s2, deliver cb (br_sequence b1) ms ?c))"
          "delivers bnd b1 s1 ms b2 s2" "length (total b2 s2) \<le> length (total b1 s1)"
          "case e of None \<Rightarrow> length (total b2 s2) < length (total b1 s1) | Some x \<Rightarrow> x = EOF \<and> frame (total b2 s2) = None"
        by blast
      have "ReadAll rd cb b s c = Some (Inr (e, b2, s2, deliver cb (br_sequence b) (m # ms) c))"
        using loop message(1,4) True r(1) by simp
      moreover have "delivers bnd b s (m # ms) b2 s2" using delivers_trans [OF one r(2)] by simp
      moreover have "length (total b2 s2) \<le> length (total b s)"
        "case e of None \<Rightarrow> length (total b2 s2) < length (total b s) | Some x \<Rightarrow> x = EOF \<and> frame (total b2 s2) = None"
        using r(3,4) message(6) by (auto split: option.splits)
      ultimately show ?thesis by blast
    next
      case False
      with loop message(1) have "ReadAll rd cb b s c = Some (Inr (None, b1, s1, deliver cb (br_sequence b) [m] c))"
        by simp
      with one message(6) show ?thesis
        by (intro exI [of _ None] exI [of _ b1] exI [of _ s1] exI [of _ "[m]"]) simp
    qed
  qed
qed

text \<open>Reading to the end of the file delivers all messages of the bytes, in order, and returns.\<close>

lemma streamRead_spec:
  "ready bnd b s \<Longrightarrow>
   \<exists>b' s'. streamRead rd cb b s c =
     Some (Inr (EOF, b', s', deliver cb (br_sequence b) (fst (frames frame (total b s))) c))"
proof (induction "length (total b s)" arbitrary: b s c rule: less_induct)
  case less
  obtain e b1 s1 ms where r: "ReadAll rd cb b s c = Some (Inr (e, b1, s1, deliver cb (br_sequence b) ms c))"
      "delivers bnd b s ms b1 s1" "length (total b1 s1) \<le> length (total b s)"
      "case e of None \<Rightarrow> length (total b1 s1) < length (total b s) | Some x \<Rightarrow> x = EOF \<and> frame (total b1 s1) = None"
    using ReadAll_spec [OF less.prems, of cb c] by blast
  have d: "ready bnd b1 s1" "br_sequence b1 = br_sequence b + of_nat (length ms)"
      "fst (frames frame (total b s)) = ms @ fst (frames frame (total b1 s1))"
    using r(2) by (auto simp: delivers_def)
  show ?case
  proof (cases e)
    case None
    with r(4) have short: "length (total b1 s1) < length (total b s)" by simp
    from less.hyps [OF short d(1), of "deliver cb (br_sequence b) ms c"] r(1) d(2,3) None show ?thesis
      by (simp add: streamRead.simps [of rd cb b s c] deliver_append)
  next
    case (Some x)
    with r d show ?thesis by (simp add: streamRead.simps [of rd cb b s c])
  qed
qed

text \<open>The same for a consumer that goes on reading: after some turns it has seen the end of the file for the
  first time and everything was delivered.\<close>

lemma read_turns_spec:
  assumes "ready bnd b s"
    and "\<And>xs. prefix xs (fst (frames frame (total b s))) \<Longrightarrow> post None (deliver cb (br_sequence b) xs c) = deliver cb (br_sequence b) xs c"
  shows "\<exists>n b' s'. read_turns rd cb post n b s c =
    Some (Inr (b', s', post (Some EOF) (deliver cb (br_sequence b) (fst (frames frame (total b s))) c)))"
  using assms
proof (induction "length (total b s)" arbitrary: b s c rule: less_induct)
  case less
  obtain e b1 s1 ms where r: "ReadAll rd cb b s c = Some (Inr (e, b1, s1, deliver cb (br_sequence b) ms c))"
      "delivers bnd b s ms b1 s1" "length (total b1 s1) \<le> length (total b s)"
      "case e of None \<Rightarrow> length (total b1 s1) < length (total b s) | Some x \<Rightarrow> x = EOF \<and> frame (total b1 s1) = None"
    using ReadAll_spec [OF less.prems(1), of cb c] by blast
  have d: "ready bnd b1 s1" "br_sequence b1 = br_sequence b + of_nat (length ms)"
      "fst (frames frame (total b s)) = ms @ fst (frames frame (total b1 s1))"
    using r(2) by (auto simp: delivers_def)
  show ?case
  proof (cases e)
    case None
    let ?c = "deliver cb (br_sequence b) ms c"
    from None r(4) have short: "length (total b1 s1) < length (total b s)" by simp
    have "post None (deliver cb (br_sequence b1) xs ?c) = deliver cb (br_sequence b1) xs ?c"
      if "prefix xs (fst (frames frame (total b1 s1)))" for xs
      using less.prems(2) [of "ms @ xs"] that d(2,3) by (simp add: deliver_append)
    from less.hyps [OF short d(1) this] obtain n b' s' where
      "read_turns rd cb post n b1 s1 ?c = Some (Inr (b', s', post (Some EOF) (deliver cb (br_sequence b1) (fst (frames frame (total b1 s1))) ?c)))"
      by blast
    moreover have "post None ?c = ?c" using less.prems(2) [of ms] d(3) by simp
    ultimately have "read_turns rd cb post (Suc n) b s c =
        Some (Inr (b', s', post (Some EOF) (deliver cb (br_sequence b) (fst (frames frame (total b s))) c)))"
      using r(1) None d(2,3) by (simp add: deliver_append)
    then show ?thesis by blast
  next
    case (Some x)
    with r d have "read_turns rd cb post (Suc 0) b s c =
        Some (Inr (b1, s1, post (Some EOF) (deliver cb (br_sequence b) (fst (frames frame (total b s))) c)))" by simp
    then show ?thesis by blast
  qed
qed

lemma new_ready:
  assumes "inv s" "reader_ok conf" "br_begin conf = br_end conf" "br_sequence conf = 0"
    and "length (pend s) + length (br_data conf) + br_growSize conf < 2 ^ 62"
  shows "ready (length (pend s) + length (br_data conf) + br_growSize conf) conf s" "total conf s = pend s"
proof -
  have t: "reader_buffered conf = []" "total conf s = pend s" using assms(3) by (simp_all add: total_def reader_buffered_def)
  then show "ready (length (pend s) + length (br_data conf) + br_growSize conf) conf s" "total conf s = pend s"
    using assms frame_Nil by (simp_all add: ready_def)
qed

lemma streamRead_new:
  assumes "inv s" "reader_ok conf" "br_begin conf = br_end conf" "br_sequence conf = 0"
    and "length (pend s) + length (br_data conf) + br_growSize conf < 2 ^ 62"
  shows "\<exists>b' s'. streamRead rd cb conf s c = Some (Inr (EOF, b', s', deliver cb 0 (fst (frames frame (pend s))) c))"
  using streamRead_spec [OF new_ready(1) [OF assms], of cb c] new_ready(2) [OF assms] assms(4) by simp

lemma read_turns_new:
  assumes "inv s" "reader_ok conf" "br_begin conf = br_end conf" "br_sequence conf = 0"
    and "length (pend s) + length (br_data conf) + br_growSize conf < 2 ^ 62"
    and "\<And>xs. prefix xs (fst (frames frame (pend s))) \<Longrightarrow> post None (deliver cb 0 xs c) = deliver cb 0 xs c"
  shows "\<exists>n b' s'. read_turns rd cb post n conf s c = Some (Inr (b', s', post (Some EOF) (deliver cb 0 (fst (frames frame (pend s))) c)))"
  using read_turns_spec [OF new_ready(1) [OF assms(1-5)], of post cb c] new_ready(2) [OF assms(1-5)] assms(4,6) by simp

end

subsection \<open>The framings of the code\<close>

definition everything_flag :: "bool \<Rightarrow> u8" where
  "everything_flag ev = (if ev then BufferedReaderFlagEverything else 0)"

definition delimiter_frame :: "bool \<Rightarrow> bytes \<Rightarrow> bytes \<Rightarrow> (nat \<times> nat \<times> nat) option" where
  "delimiter_frame ev delim d =
     (case str_index d delim of
        None \<Rightarrow> None
      | Some i \<Rightarrow>
          if ev then (if i + length delim = 0 then None else Some (i + length delim, 0, 0))
          else (if i = 0 then None else Some (i, 0, length delim)))"

definition delimiter_reader :: "nat \<Rightarrow> bool \<Rightarrow> bytes \<Rightarrow> buffered_reader" where
  "delimiter_reader bufSize ev delim = NewBufferedReader bufSize (everything_flag ev) 0 delim None"

lemma delimiter_reader_simps [simp]:
  "br_checkComplete (delimiter_reader n ev d) = CheckDelimiter" "br_delimiter (delimiter_reader n ev d) = d"
  "keep_everything (delimiter_reader n ev d) = ev"
  by (simp_all add: delimiter_reader_def NewBufferedReader_def select_check_def everything_flag_def
      keep_everything_def reader_flags)

lemma delimiter_framing:
  "framed_reader (reader_check (delimiter_reader n ev delim)) (delimiter_frame ev delim) (delimiter_reader n ev delim)"
proof
  fix d e h :: bytes and l off pad :: nat and r
  show "delimiter_frame ev delim d = Some (l, off, pad) \<Longrightarrow>
      reader_check (delimiter_reader n ev delim) d h = Inr (int l, int off, int pad)"
    by (auto simp: delimiter_frame_def reader_check_def checkCompleteDelimiter_def split: option.splits if_splits)
  show "delimiter_frame ev delim d = None \<Longrightarrow>
      \<exists>l off pad. reader_check (delimiter_reader n ev delim) d h = Inr (l, off, pad) \<and> incomplete d l off pad"
    by (auto simp: delimiter_frame_def reader_check_def checkCompleteDelimiter_def split: option.splits if_splits)
  show "delimiter_frame ev delim d = Some (l, off, pad) \<Longrightarrow> 0 < l \<and> l + off + pad \<le> length d"
    using str_index_Some [of d delim]
    by (auto simp: delimiter_frame_def split: option.splits if_splits)
  show "delimiter_frame ev delim d = Some r \<Longrightarrow> delimiter_frame ev delim (d @ e) = Some r"
    by (auto simp: delimiter_frame_def str_index_append split: option.splits if_splits)
qed simp

definition binary_frame :: "bool \<Rightarrow> bool \<Rightarrow> nat \<Rightarrow> bytes \<Rightarrow> (nat \<times> nat \<times> nat) option" where
  "binary_frame ev big w d =
     (case binary_read big w d of
        None \<Rightarrow> None
      | Some n \<Rightarrow> if w + n > length d then None
                  else if ev then Some (w + n, 0, 0) else if n = 0 then None else Some (n, w, 0))"

definition mle_flag :: "nat \<Rightarrow> u8" where
  "mle_flag w = (if w = 1 then BufferedReaderFlagMLE8 else if w = 2 then BufferedReaderFlagMLE16
                 else if w = 4 then BufferedReaderFlagMLE32 else BufferedReaderFlagMLE64)"

definition binary_reader :: "nat \<Rightarrow> bool \<Rightarrow> bool \<Rightarrow> nat \<Rightarrow> buffered_reader" where
  "binary_reader bufSize ev big w =
     NewBufferedReader bufSize (mle_flag w OR everything_flag ev OR (if big then BufferedReaderFlagBigEndian else 0))
       0 [] None"

lemma binary_reader_check:
  "w \<in> {1, 2, 4} \<Longrightarrow> reader_check (binary_reader n ev big w) d h = checkCompleteBinary w (binary_reader n ev big w) d"
  by (auto simp: binary_reader_def NewBufferedReader_def select_check_def everything_flag_def mle_flag_def
      reader_flags reader_check_def checkCompleteMLE8_def checkCompleteMLE16_def checkCompleteMLE32_def)

lemma binary_reader_simps [simp]:
  "w \<in> {1, 2, 4} \<Longrightarrow> keep_everything (binary_reader n ev big w) = ev"
  "w \<in> {1, 2, 4} \<Longrightarrow> br_bigEndian (binary_reader n ev big w) = big"
  "br_paramMLE (binary_reader n ev big w) = 0"
  by (auto simp: binary_reader_def NewBufferedReader_def everything_flag_def mle_flag_def reader_flags
      keep_everything_def)

lemma foldl_bytes_bound: "foldl (\<lambda>n c. 256 * n + of_char c) m bs < (Suc m) * 256 ^ length bs" for bs :: bytes
proof (induction bs arbitrary: m)
  case (Cons c bs)
  have "(of_char c :: nat) < Suc 255" by simp
  then have "(of_char c :: nat) \<le> 255" by (simp only: less_Suc_eq_le)
  then have "Suc (256 * m + of_char c) \<le> Suc m * 256" by simp
  then have "Suc (256 * m + of_char c) * 256 ^ length bs \<le> Suc m * 256 * 256 ^ length bs" by (rule mult_le_mono1)
  from order_less_le_trans [OF Cons this] show ?case by (simp only: foldl.simps list.size power_Suc mult.assoc add_Suc_right add_0_right)
qed simp

lemma binary_read_bound: "binary_read big w d = Some n \<Longrightarrow> n < 256 ^ w \<and> w \<le> length d"
  using foldl_bytes_bound [of 0 "take w d"] foldl_bytes_bound [of 0 "rev (take w d)"]
  by (auto simp: binary_read_def binary_uint_def split: if_splits)

lemma binary_read_append: "binary_read big w d = Some n \<Longrightarrow> binary_read big w (d @ e) = Some n"
  by (auto simp: binary_read_def split: if_splits)

lemma binary_result:
  assumes "w \<in> {1, 2, 4}" "n < 256 ^ w"
  shows "runlength_result (binary_reader k ev big w) d (of_nat n) (int w) =
     (if w + n > length d then (0, 0, 0) else if ev then (int (w + n), 0, 0) else (int n, int w, 0))"
proof -
  have n: "n < 2 ^ 32" using assms by auto
  then have "uint (of_nat n :: u64) = int n" by (simp add: unsigned_of_nat take_bit_nat_eq_self)
  moreover have "int n < 2 ^ 32" "w \<le> 4" using n assms(1) by auto
  moreover have "int64 (int n) = int n" "int64 (int n + int w) = int (w + n)"
    using \<open>int n < 2 ^ 32\<close> \<open>w \<le> 4\<close> by (subst int64_id; simp)+
  ultimately show ?thesis using assms(1) by (auto simp: runlength_result_def Let_def)
qed

lemma binary_check_frame:
  assumes "w \<in> {1, 2, 4}"
  shows "checkCompleteBinary w (binary_reader k ev big w) d =
     Inr (case binary_read big w d of None \<Rightarrow> (0, -1, 0)
          | Some n \<Rightarrow> if w + n > length d then (0, 0, 0)
                      else if ev then (int (w + n), 0, 0) else (int n, int w, 0))"
proof -
  have "go_from 0 d = Inr d" by (simp add: go_from_def go_slice_def)
  with assms binary_result [OF assms, of _ k ev big d] binary_read_bound [of big w d] show ?thesis
    by (simp add: checkCompleteBinary_def split: option.splits)
qed

lemma binary_framing:
  assumes w: "w \<in> {1, 2, 4}"
  shows "framed_reader (reader_check (binary_reader n ev big w)) (binary_frame ev big w) (binary_reader n ev big w)"
proof
  fix d e h :: bytes and l off pad :: nat and r
  note c = binary_reader_check [OF w] binary_check_frame [OF w]
  show "binary_frame ev big w d = Some (l, off, pad) \<Longrightarrow>
      reader_check (binary_reader n ev big w) d h = Inr (int l, int off, int pad)"
    by (auto simp: binary_frame_def c split: option.splits if_splits)
  show "binary_frame ev big w d = None \<Longrightarrow>
      \<exists>l off pad. reader_check (binary_reader n ev big w) d h = Inr (l, off, pad) \<and> incomplete d l off pad"
    by (auto simp: binary_frame_def c split: option.splits if_splits)
  show "binary_frame ev big w d = Some (l, off, pad) \<Longrightarrow> 0 < l \<and> l + off + pad \<le> length d"
    using w by (auto simp: binary_frame_def split: option.splits if_splits)
  show "binary_frame ev big w d = Some r \<Longrightarrow> binary_frame ev big w (d @ e) = Some r"
    using binary_read_append [of big w d] by (auto simp: binary_frame_def split: option.splits if_splits)
qed simp

definition fixed_frame :: "nat \<Rightarrow> bytes \<Rightarrow> (nat \<times> nat \<times> nat) option" where
  "fixed_frame n d = (if 0 < n \<and> n \<le> length d then Some (n, 0, 0) else None)"

definition fixed_reader :: "nat \<Rightarrow> nat \<Rightarrow> buffered_reader" where
  "fixed_reader bufSize n = NewBufferedReader bufSize BufferedReaderFlagMLEFixed (int n) [] None"

lemma fixed_framing: "framed_reader (reader_check (fixed_reader k n)) (fixed_frame n) (fixed_reader k n)"
proof -
  have c: "reader_check (fixed_reader k n) d h = Inr (if n \<le> length d then (int n, 0, 0) else (0, 0, 0))" for d h
    by (simp add: fixed_reader_def NewBufferedReader_def select_check_def reader_flags reader_check_def
        checkCompleteMLEFixed_def)
  show ?thesis by standard (auto simp: c fixed_frame_def split: if_splits)
qed

text \<open>The model's readers over the model's byte stream, as instances of the contract.\<close>

interpretation delimiter_stream:
  framed_stream "reader_check (delimiter_reader n ev delim)" "delimiter_frame ev delim" "delimiter_reader n ev delim"
    stream_Read stream_rest stream_ok for n ev delim
  by (intro framed_stream.intro delimiter_framing stream_reader.byte_reader_axioms)

interpretation fixed_stream:
  framed_stream "reader_check (fixed_reader n k)" "fixed_frame k" "fixed_reader n k"
    stream_Read stream_rest stream_ok for n k
  by (intro framed_stream.intro fixed_framing stream_reader.byte_reader_axioms)

interpretation binary8_stream:
  framed_stream "reader_check (binary_reader n ev big 1)" "binary_frame ev big 1" "binary_reader n ev big 1"
    stream_Read stream_rest stream_ok for n ev big
  by (intro framed_stream.intro binary_framing stream_reader.byte_reader_axioms) simp

lemma new_reader_ok:
  "0 < n \<Longrightarrow> reader_ok (delimiter_reader n ev delim)" "0 < n \<Longrightarrow> reader_ok (binary_reader n ev big w)"
  "0 < n \<Longrightarrow> reader_ok (fixed_reader n k)"
  "br_begin (delimiter_reader n ev delim) = br_end (delimiter_reader n ev delim)"
  "br_begin (binary_reader n ev big w) = br_end (binary_reader n ev big w)"
  "br_sequence (delimiter_reader n ev delim) = 0" "br_sequence (binary_reader n ev big w) = 0"
  "length (br_data (delimiter_reader n ev delim)) = n" "length (br_data (binary_reader n ev big w)) = n"
  "br_growSize (delimiter_reader n ev delim) = n" "br_growSize (binary_reader n ev big w) = n"
  by (simp_all add: reader_ok_def delimiter_reader_def binary_reader_def fixed_reader_def NewBufferedReader_def)

text \<open>Non-empty lines without the delimiter's first byte, each followed by the delimiter.\<close>

lemma delimiter_frame_line:
  assumes "delim = c # cs" "l \<noteq> []" "c \<notin> set l"
  shows "delimiter_frame False delim (l @ delim @ rest) = Some (length l, 0, length delim)"
  using str_index_skip [OF assms(1,3), of rest] assms by (simp add: delimiter_frame_def)

text \<open>Behind the lines comes what is no frame: an unfinished line, or an empty one.\<close>

lemma frames_lines_rest:
  assumes "delim = c # cs" "\<forall>l\<in>set ls. l \<noteq> [] \<and> c \<notin> set l" "frames (delimiter_frame False delim) rest = ([], rest)"
  shows "frames (delimiter_frame False delim) (concat (map (\<lambda>l. l @ delim) ls) @ rest) = (ls, rest)"
  using assms(2)
proof (induction ls)
  case (Cons l ls)
  let ?r = "concat (map (\<lambda>l. l @ delim) ls) @ rest"
  have f: "delimiter_frame False delim (l @ delim @ ?r) = Some (length l, 0, length delim)"
    using Cons.prems by (intro delimiter_frame_line [OF assms(1)]) auto
  with Cons show ?case
    by (subst frames.simps) (simp add: subslice_def)
qed (simp add: assms(3))

lemma frames_unfinished_line: "delim = c # cs \<Longrightarrow> c \<notin> set rest \<Longrightarrow> frames (delimiter_frame False delim) rest = ([], rest)"
  using str_index_none_single [of c rest cs] by (simp add: frames.simps delimiter_frame_def)

lemma frames_lines:
  assumes "delim = c # cs" "\<forall>l\<in>set ls. l \<noteq> [] \<and> c \<notin> set l" "c \<notin> set rest"
  shows "frames (delimiter_frame False delim) (concat (map (\<lambda>l. l @ delim) ls) @ rest) = (ls, rest)"
  using frames_lines_rest [OF assms(1,2) frames_unfinished_line [OF assms(1,3)]] .

lemma frames_empty_line: "delim \<noteq> [] \<Longrightarrow> frames (delimiter_frame False delim) (delim @ rest) = ([], delim @ rest)"
proof -
  assume "delim \<noteq> []"
  then obtain c cs where "delim = c # cs" by (cases delim) auto
  with str_index_skip [of delim c cs "[]" rest] have "str_index (delim @ rest) delim = Some 0" by simp
  then show ?thesis by (simp add: frames.simps delimiter_frame_def)
qed

text \<open>Every byte string is some non-empty lines, and then an unfinished or an empty line.\<close>

lemma lines_split:
  "\<exists>ls rest. d = concat (map (\<lambda>l. l @ [c]) ls) @ rest \<and> (\<forall>l\<in>set ls. l \<noteq> [] \<and> c \<notin> set l) \<and>
     (c \<notin> set rest \<or> (\<exists>r. rest = c # r))"
proof (induction d rule: length_induct)
  case (1 d)
  show ?case
  proof (cases "c \<in> set d \<and> hd d \<noteq> c")
    case True
    then obtain l r where d: "d = l @ c # r" "c \<notin> set l" by (meson split_list_first)
    with True have "l \<noteq> []" by (cases l) auto
    from d(1) have "length r < length d" by simp
    with 1 obtain ls rest where "r = concat (map (\<lambda>l. l @ [c]) ls) @ rest" "\<forall>l\<in>set ls. l \<noteq> [] \<and> c \<notin> set l"
      "c \<notin> set rest \<or> (\<exists>r. rest = c # r)" by blast
    with d \<open>l \<noteq> []\<close> show ?thesis by (intro exI [of _ "l # ls"] exI [of _ rest]) simp
  next
    case False
    then show ?thesis by (intro exI [of _ "[]"] exI [of _ d]) (cases d; auto)
  qed
qed

subsection \<open>Properties\<close>

text \<open>C4: a delimiter reader over any \<open>io.Reader\<close> returns at the end of the stream, does not panic,
  and delivers the messages the whole byte string has, numbered from 0, however the stream is cut into
  pieces and whatever the buffer size.\<close>

theorem reader_delimiter_chunks:
  assumes "byte_reader rd pend ok" "ok s" "0 < n" "length (pend s) + 2 * n < 2 ^ 62"
  shows "\<exists>b' s'. streamRead rd cb (delimiter_reader n ev delim) s c =
    Some (Inr (EOF, b', s', deliver cb 0 (fst (frames (delimiter_frame ev delim) (pend s))) c))"
  using assms(2-4)
  by (intro framed_stream.streamRead_new [OF framed_stream.intro [OF delimiter_framing assms(1)]])
     (simp_all add: new_reader_ok)

theorem reader_delimiter_chunks_witness:
  "\<exists>b' s'. streamRead stream_Read (\<lambda>m q acc. acc @ [(m, q)]) (delimiter_reader 2 False ''|'') (NewByteStreamFrom ''ab|c'') [] =
    Some (Inr (EOF, b', s', deliver (\<lambda>m q acc. acc @ [(m, q)]) 0 (fst (frames (delimiter_frame False ''|'') ''ab|c'')) []))"
  using reader_delimiter_chunks [OF stream_reader.byte_reader_axioms, of "NewByteStreamFrom ''ab|c''" 2
      "\<lambda>m q acc. acc @ [(m, q)]" False "''|''" "[]"]
  by (simp add: stream_rest_def stream_Bytes_def NewByteStreamFrom_def stream_ok_def)

text \<open>Read line by line, a stream of non-empty lines is delivered line by line: every line
  exactly once, in order, without the delimiter, and the unfinished rest is not delivered.\<close>

theorem reader_delivers_lines:
  assumes "byte_reader rd pend ok" "ok s" "0 < n" "length (pend s) + 2 * n < 2 ^ 62"
    and "pend s = concat (map (\<lambda>l. l @ [nl]) ls) @ rest" "\<forall>l\<in>set ls. l \<noteq> [] \<and> nl \<notin> set l" "nl \<notin> set rest"
  shows "\<exists>b' s'. streamRead rd (\<lambda>m q acc. acc @ [(m, q)]) (delimiter_reader n False [nl]) s [] =
    Some (Inr (EOF, b', s', zip ls (map of_nat [0..<length ls])))"
proof -
  have "fst (frames (delimiter_frame False [nl]) (pend s)) = ls"
    using frames_lines [OF refl assms(6,7)] assms(5) by simp
  moreover have "\<exists>b' s'. streamRead rd (\<lambda>m q acc. acc @ [(m, q)]) (delimiter_reader n False [nl]) s [] =
    Some (Inr (EOF, b', s', deliver (\<lambda>m q acc. acc @ [(m, q)]) 0 (fst (frames (delimiter_frame False [nl]) (pend s))) []))"
    using assms(2-4)
    by (intro framed_stream.streamRead_new [OF framed_stream.intro [OF delimiter_framing assms(1)]])
       (simp_all add: new_reader_ok)
  ultimately show ?thesis by (simp add: deliver_list)
qed

theorem reader_delivers_lines_witness:
  "\<exists>b' s'. streamRead stream_Read (\<lambda>m q acc. acc @ [(m, q)]) (delimiter_reader 3 False ''|'') (NewByteStreamFrom ''ab|cde|f'') [] =
    Some (Inr (EOF, b', s', [(''ab'', 0), (''cde'', 1)]))"
  using reader_delivers_lines [OF stream_reader.byte_reader_axioms, of "NewByteStreamFrom ''ab|cde|f''" 3
      "CHR ''|''" "[''ab'', ''cde'']" "''f''"]
  by (simp add: stream_rest_def stream_Bytes_def NewByteStreamFrom_def stream_ok_def)

text \<open>C37: an empty line stops a delimiter reader for good: a check that answers length 0 means
  "incomplete", so nothing behind the empty line is ever delivered.\<close>

theorem reader_empty_line_blocks:
  assumes "byte_reader rd pend ok" "ok s" "0 < n" "length (pend s) + 2 * n < 2 ^ 62"
    and "delim \<noteq> []" "pend s = delim @ rest"
  shows "\<exists>b' s'. streamRead rd cb (delimiter_reader n False delim) s c = Some (Inr (EOF, b', s', c))"
proof -
  have "\<exists>b' s'. streamRead rd cb (delimiter_reader n False delim) s c =
    Some (Inr (EOF, b', s', deliver cb 0 (fst (frames (delimiter_frame False delim) (pend s))) c))"
    using assms(2-4)
    by (intro framed_stream.streamRead_new [OF framed_stream.intro [OF delimiter_framing assms(1)]])
       (simp_all add: new_reader_ok)
  then show ?thesis using frames_empty_line [OF assms(5), of rest] assms(6) by simp
qed

theorem reader_empty_line_blocks_witness:
  "\<exists>b' s'. streamRead stream_Read (\<lambda>m q acc. acc @ [m]) (delimiter_reader 4 False ''|'') (NewByteStreamFrom ''|ab|cde|'') [] =
    Some (Inr (EOF, b', s', []))"
  using reader_empty_line_blocks [OF stream_reader.byte_reader_axioms, of "NewByteStreamFrom ''|ab|cde|''" 4 "''|''" "''ab|cde|''"]
  by (simp add: stream_rest_def stream_Bytes_def NewByteStreamFrom_def stream_ok_def)

text \<open>The binary run length readers (8, 16 and 32 bit, either byte order, run length at the start)
  deliver exactly the frames of the whole byte string, however it arrives, and do not panic.\<close>

theorem reader_binary_chunks:
  assumes "byte_reader rd pend ok" "ok s" "0 < n" "length (pend s) + 2 * n < 2 ^ 62" "w \<in> {1, 2, 4}"
  shows "\<exists>b' s'. streamRead rd cb (binary_reader n ev big w) s c =
    Some (Inr (EOF, b', s', deliver cb 0 (fst (frames (binary_frame ev big w) (pend s))) c))"
  using assms(2-4)
  by (intro framed_stream.streamRead_new [OF framed_stream.intro [OF binary_framing [OF assms(5)] assms(1)]])
     (simp_all add: new_reader_ok)

theorem reader_binary_chunks_witness:
  "\<exists>b' s'. streamRead stream_Read (\<lambda>m q acc. acc @ [m]) (binary_reader 2 False True 2)
      (NewByteStreamFrom [CHR 0x00, CHR 0x01, CHR ''x'']) [] =
    Some (Inr (EOF, b', s', deliver (\<lambda>m q acc. acc @ [m]) 0
      (fst (frames (binary_frame False True 2) [CHR 0x00, CHR 0x01, CHR ''x''])) []))"
  using reader_binary_chunks [OF stream_reader.byte_reader_axioms, of "NewByteStreamFrom [CHR 0x00, CHR 0x01, CHR ''x'']" 2 2
      "\<lambda>m q acc. acc @ [m]" False True "[]"]
  by (simp add: stream_rest_def stream_Bytes_def NewByteStreamFrom_def stream_ok_def)

text \<open>A textual run length that ends at the end of the buffer makes the check slice behind the
  buffer: with a buffer of 4 bytes and the delimiter ":" the input "1234" panics.\<close>

theorem reader_MLEText_panics:
  "ReadOne stream_Read (NewBufferedReader 4 BufferedReaderFlagMLE 0 '':'' None) (NewByteStreamFrom ''1234'')
     = Inl SliceOutOfRange"
  by (simp add: ReadOne_def NewBufferedReader_def reader_flags select_check_def stream_Read_def
      NewByteStreamFrom_def reader_next_def parseComplex_def reader_check_def checkCompleteMLEText_def
      go_from_def go_slice_def Btoi_eq reader_buffered_def copy_at_def subslice_def is_digit_def Let_def)

text \<open>A textual run length of \<open>2\<^sup>6\<^sup>3 - 1\<close> wraps around in the completeness test, and the message is
  cut out with a negative end: the peer makes the reader panic.\<close>

theorem reader_huge_runlength_panics:
  "ReadOne stream_Read (NewBufferedReader 32 BufferedReaderFlagMLE 0 '':'' None)
     (NewByteStreamFrom ''9223372036854775807:'') = Inl SliceOutOfRange"
  by (simp add: ReadOne_def NewBufferedReader_def reader_flags select_check_def stream_Read_def
      NewByteStreamFrom_def reader_next_def parseComplex_def reader_check_def checkCompleteMLEText_def
      go_from_def go_slice_def Btoi_eq reader_buffered_def copy_at_def subslice_def is_digit_def Let_def
      dec_value_def digit_val_def runlength_result_def keep_everything_def int64_def extractMessage_def)

end
