(* ===== verification/TidingsPlugins.thy ===== *)
theory TidingsPlugins
  imports Producers BufferedReaders
begin

text \<open>
  The splitters of \<open>tidings/csv.go\<close> and \<open>tidings/profile.go\<close> behind the interface of
  \<open>core/tidings.go\<close>, and the steps of a \<open>Configure\<close> that also changes the world: it creates
  metrics, streams or fuses. Such a step (\<open>setup_step\<close>) runs on the configuration of the plugin, the
  plugin registry and the world, whose stream names are those a \<open>cfg\<close> step sees.
\<close>

subsection \<open>Configuration steps on the world\<close>

record setup_state =
  u_conf :: plugin_config
  u_plugins :: "bytes plugin_registry"
  u_world :: world

type_synonym 'a setup_step = "setup_state \<Rightarrow> ((conf_err + 'a) \<times> setup_state) outcome"

definition setup_return :: "'a \<Rightarrow> 'a setup_step" where
  "setup_return x = (\<lambda>u. Some (Inr (Inr x, u)))"

definition setup_fail :: "conf_err \<Rightarrow> 'a setup_step" where
  "setup_fail e = (\<lambda>u. Some (Inr (Inl e, u)))"

definition setup_panic :: "panic \<Rightarrow> 'a setup_step" where
  "setup_panic p = (\<lambda>u. Some (Inl p))"

definition setup_bind :: "'a setup_step \<Rightarrow> ('a \<Rightarrow> 'b setup_step) \<Rightarrow> 'b setup_step" where
  "setup_bind m f = (\<lambda>u. then_do (m u) (\<lambda>(r, u). case r of Inl e \<Rightarrow> Some (Inr (Inl e, u)) | Inr x \<Rightarrow> f x u))"

definition setup_cfg :: "'a cfg \<Rightarrow> 'a setup_step" where
  "setup_cfg m = (\<lambda>u.
     then_do (m \<lparr>cs_conf = u_conf u, cs_plugins = u_plugins u, cs_names = w_names (u_world u)\<rparr>) (\<lambda>(r, st).
       Some (Inr (r, \<lparr>u_conf = cs_conf st, u_plugins = cs_plugins st, u_world = (u_world u)\<lparr>w_names := cs_names st\<rparr>\<rparr>))))"

definition setup_world :: "(world \<Rightarrow> ('a \<times> world) outcome) \<Rightarrow> 'a setup_step" where
  "setup_world f = (\<lambda>u. then_do (f (u_world u)) (\<lambda>(x, w). Some (Inr (Inr x, u\<lparr>u_world := w\<rparr>))))"

text \<open>\<open>NewPluginWithType\<close> for a \<open>Configure\<close> that changes the world.\<close>

definition setup_NewPluginWithType :: "(bytes \<Rightarrow> 'p setup_step option) \<Rightarrow> bytes \<Rightarrow> 'p setup_step" where
  "setup_NewPluginWithType configure typename =
     (case configure typename of
        None \<Rightarrow> setup_fail (UnknownClass typename)
      | Some conf \<Rightarrow> (\<lambda>u. then_do (conf u) (\<lambda>(r, u).
          case r of
            Inr p \<Rightarrow> Some (Inr (Inr p, u))
          | Inl e \<Rightarrow>
              Some (Inr (Inl e, if ID (u_conf u) \<noteq> []
                                then u\<lparr>u_plugins := RegisterUnique (u_plugins u) typename (ID (u_conf u))\<rparr>
                                else u)))))"

lemma setup_simps [simp]:
  "setup_bind (setup_return x) f = f x" "setup_bind (setup_fail e) f = setup_fail e"
  "setup_bind (setup_panic p) g = setup_panic p"
  by (simp_all add: setup_bind_def setup_return_def setup_fail_def setup_panic_def fun_eq_iff)

lemma setup_ok:
  "setup_bind m f u = Some (Inr (Inr y, u')) \<longleftrightarrow> (\<exists>x v. m u = Some (Inr (Inr x, v)) \<and> f x v = Some (Inr (Inr y, u')))"
  "setup_return z u = Some (Inr (Inr y, u')) \<longleftrightarrow> z = y \<and> u = u'"
  by (auto simp: setup_bind_def setup_return_def then_do_def split: option.splits sum.splits prod.splits)

subsection \<open>State and Configure\<close>

text \<open>A value of type \<open>Csv\<close> has \<open>header\<close> and \<open>spliter\<close>, one of type \<open>Profile\<close> has
  \<open>sliceSize\<close> and \<open>msgMetric\<close>.\<close>

datatype tidings =
    Csv bool bytes
  | Profile int bytes

text \<open>\<open>raw.(map[interface{}]interface{})\<close> for a value that is not nil, and a lookup with a string.\<close>

definition message_special :: "gval \<Rightarrow> (gval \<times> gval) list option run" where
  "message_special raw = (case raw of GNil \<Rightarrow> Inr None | GAnyMap m \<Rightarrow> Inr (Some m) | _ \<Rightarrow> Inl TypeAssertionFailed)"

definition special_value :: "(gval \<times> gval) list option \<Rightarrow> bytes \<Rightarrow> gval" where
  "special_value special key =
     (case special of None \<Rightarrow> GNil | Some m \<Rightarrow> (case map_of m (GString key) of None \<Rightarrow> GNil | Some v \<Rightarrow> v))"

definition get_special :: "(gval \<times> gval) list option cfg" where
  "get_special = cfg_get (\<lambda>conf. case GetValue ''MessageSpecial'' GNil conf of
     (raw, conf) \<Rightarrow> run_bind (message_special raw) (\<lambda>m. Inr (m, conf)))"

definition Csv_Configure :: "tidings cfg" where
  "Csv_Configure = cfg_bind get_special (\<lambda>msgSpecial.
     cfg_return (Csv (case special_value msgSpecial ''Header'' of GBool b \<Rightarrow> b | _ \<Rightarrow> False)
                     (case special_value msgSpecial ''Spliter'' of GString s \<Rightarrow> s | _ \<Rightarrow> '','')))"

definition Profile_Configure :: "tidings setup_step" where
  "Profile_Configure = setup_bind (setup_cfg get_special) (\<lambda>msgSpecial.
     let sliceSize = (case special_value msgSpecial ''SliceSize'' of GInt n \<Rightarrow> n | _ \<Rightarrow> 512);
         msgMetric = (case special_value msgSpecial ''MsgMetricName'' of GString s \<Rightarrow> s | _ \<Rightarrow> ''AllMsgCount'')
     in setup_world (\<lambda>w. Some (Inr (Profile sliceSize msgMetric, w\<lparr>w_metrics := metric_New msgMetric (w_metrics w)\<rparr>))))"

definition tidings_types :: "bytes \<Rightarrow> tidings setup_step option" where
  "tidings_types typename =
     (if typename = ''tidings.Csv'' then Some (setup_cfg Csv_Configure)
      else if typename = ''tidings.Profile'' then Some Profile_Configure
      else None)"

subsection \<open>The interface\<close>

text \<open>
  \<open>Identify\<close> answers the length of the next message, whatever the data; a reader treats a length
  that is not positive as "incomplete", so a negative size is a 0 here.
\<close>

fun Identify :: "tidings \<Rightarrow> bytes \<Rightarrow> nat \<times> nat \<times> nat" where
  "Identify (Csv header spliter) data = (256, 0, 0)"
| "Identify (Profile sliceSize msgMetric) data = (nat sliceSize, 0, 0)"

fun tidings_Process :: "tidings \<Rightarrow> bytes \<Rightarrow> u64 \<Rightarrow> metrics \<Rightarrow> metrics run" where
  "tidings_Process (Csv header spliter) msg sequence met = Inr met"
| "tidings_Process (Profile sliceSize msgMetric) msg sequence met = metric_Add msgMetric 1 met"

text \<open>The lines \<open>DumpMetric\<close> logs: name and value.\<close>

fun DumpMetric :: "tidings \<Rightarrow> metrics \<Rightarrow> (bytes \<times> 64 word) list" where
  "DumpMetric (Csv header spliter) met = []"
| "DumpMetric (Profile sliceSize msgMetric) met = [(msgMetric, fst (metric_Get msgMetric met))]"

subsection \<open>Slices of a fixed size\<close>

text \<open>The size both splitters cut with.\<close>

definition slice_size :: "tidings \<Rightarrow> nat" where
  "slice_size t = fst (Identify t [])"

lemma Identify_slice: "Identify t data = (slice_size t, 0, 0)"
  by (cases t) (simp_all add: slice_size_def)

definition slice_frame :: "nat \<Rightarrow> bytes \<Rightarrow> (nat \<times> nat \<times> nat) option" where
  "slice_frame n d = (if 0 < n \<and> n \<le> length d then Some (n, 0, 0) else None)"

definition tidings_reader :: "nat \<Rightarrow> tidings \<Rightarrow> buffered_reader" where
  "tidings_reader growSize t = NewBufferedReader growSize 0 0 [] (Some (Identify t))"

text \<open>The number of bytes the splitter asks for is a Go \<open>int\<close>; a size of \<open>2\<^sup>6\<^sup>2\<close> or more is
  excluded, with it the sum of positions wraps.\<close>

definition small_slices :: "tidings \<Rightarrow> bool" where
  "small_slices t \<longleftrightarrow> slice_size t < 2 ^ 62"

lemma slice_framing:
  assumes "small_slices t"
  shows "framed_reader (reader_check (tidings_reader k t)) (slice_frame (slice_size t)) (tidings_reader k t)"
proof -
  have c: "reader_check (tidings_reader k t) d h = Inr (int (slice_size t), 0, 0)" for d h
    by (simp add: tidings_reader_def NewBufferedReader_def select_check_def reader_check_def Identify_slice)
  have s: "int (slice_size t) < 2 ^ 62" using assms by (simp add: small_slices_def)
  show ?thesis
    by standard (use s in \<open>auto simp: c slice_frame_def incomplete_def split: if_splits\<close>)
qed

text \<open>The slices of a byte string: as many as fit, in order; the rest is not delivered.\<close>

fun slices :: "nat \<Rightarrow> nat \<Rightarrow> bytes \<Rightarrow> bytes list" where
  "slices 0 n d = []"
| "slices (Suc k) n d = take n d # slices k n (drop n d)"

lemma length_slices [simp]: "length (slices k n d) = k"
  by (induction k n d rule: slices.induct) auto

lemma frames_slices:
  assumes "0 < n"
  shows "fst (frames (slice_frame n) d) = slices (length d div n) n d"
proof (induction d rule: length_induct)
  case (1 d)
  show ?case
  proof (cases "n \<le> length d")
    case True
    have "length d div n = Suc (length (drop n d) div n)" using True assms by (simp add: le_div_geq)
    moreover have "fst (frames (slice_frame n) (drop n d)) = slices (length (drop n d) div n) n (drop n d)"
      using 1 True assms by (auto intro: 1 [rule_format])
    ultimately show ?thesis using True assms
      by (subst frames.simps) (simp add: slice_frame_def case_prod_unfold)
  next
    case False
    then show ?thesis by (subst frames.simps) (simp add: slice_frame_def)
  qed
qed

lemma tidings_reader_simps [simp]:
  "0 < n \<Longrightarrow> reader_ok (tidings_reader n t)" "br_begin (tidings_reader n t) = br_end (tidings_reader n t)"
  "br_sequence (tidings_reader n t) = 0" "length (br_data (tidings_reader n t)) = n" "br_growSize (tidings_reader n t) = n"
  by (simp_all add: reader_ok_def tidings_reader_def NewBufferedReader_def)

lemma tidings_streamRead:
  assumes "byte_reader rd pend ok" "ok s" "0 < n" "length (pend s) + 2 * n < 2 ^ 62" "0 < slice_size t" "small_slices t"
  shows "\<exists>b' s'. streamRead rd cb (tidings_reader n t) s c =
    Some (Inr (EOF, b', s', deliver cb 0 (slices (length (pend s) div slice_size t) (slice_size t) (pend s)) c))"
  using framed_stream.streamRead_new [OF framed_stream.intro [OF slice_framing [OF assms(6), of n] assms(1)], of s cb c] assms(2-5)
  by (simp add: frames_slices)

end
