(* ===== verification/Consumers.thy ===== *)
theory Consumers
  imports TidingsPlugins
begin

text \<open>
  \<open>core/consumer.go\<close> and \<open>core/logconsumer.go\<close>: the base of all consumers with its
  configuration, the way of a message into the mapped streams, the control loop with the loop that
  watches the fuse, and the consumer behind the internal log.
\<close>

subsection \<open>State\<close>

text \<open>\<open>c_fuse\<close> is the name under which the registry keeps the fuse. \<open>c_run\<close> is \<open>runState\<close>.\<close>

record consumer =
  c_streams :: "(u64 \<times> nat) list"
  c_run :: run_state
  c_fuse :: "bytes option"
  c_tidings :: tidings

record consumer_callbacks =
  cc_onRoll :: "(world \<Rightarrow> world outcome) option"
  cc_onStop :: "(world \<Rightarrow> world outcome) option"
  cc_onFuseBurned :: "(world \<Rightarrow> world outcome) option"
  cc_onFuseActive :: "(world \<Rightarrow> world outcome) option"

subsection \<open>Configure\<close>

fun map_streams :: "bytes list \<Rightarrow> world \<Rightarrow> ((u64 \<times> nat) list \<times> world) outcome" where
  "map_streams [] w = Some (Inr ([], w))"
| "map_streams (streamName # nms) w =
     (case GetStreamID (w_names w) streamName of (streamID, names) \<Rightarrow>
        then_do (GetStreamOrFallback streamID (w\<lparr>w_names := names\<rparr>)) (\<lambda>(a, w).
        then_do (map_streams nms w) (\<lambda>(mapped, w). Some (Inr ((streamID, a) # mapped, w)))))"

text \<open>\<open>newTidings\<close> is \<open>NewPluginWithType\<close> with the type assertion that follows.\<close>

definition consumer_Configure :: "(bytes \<Rightarrow> tidings setup_step) \<Rightarrow> consumer setup_step" where
  "consumer_Configure newTidings =
     setup_bind (setup_cfg cfg_get_streams) (\<lambda>nms.
     setup_bind (setup_world (map_streams nms)) (\<lambda>mapped.
     setup_bind (setup_cfg (cfg_get (GetString ''Fuse'' []))) (\<lambda>fuseName.
     setup_bind (if fuseName \<noteq> [] then setup_world (\<lambda>w. Some (Inr (Some fuseName, snd (GetFuse fuseName w)))) else setup_return None) (\<lambda>fuse.
     setup_bind (setup_cfg (cfg_get (GetString ''Tidings'' ''tidings.Csv''))) (\<lambda>tname.
     setup_bind (newTidings tname) (\<lambda>t.
     setup_return \<lparr>c_streams = mapped, c_run = NewPluginRunState, c_fuse = fuse, c_tidings = t\<rparr>))))))"

subsection \<open>State and fuse\<close>

definition consumer_setState :: "plugin_state \<Rightarrow> consumer \<Rightarrow> consumer" where
  "consumer_setState state cons = cons\<lparr>c_run := SetState state (c_run cons)\<rparr>"

definition consumer_GetState :: "consumer \<Rightarrow> plugin_state" where "consumer_GetState cons = GetState (c_run cons)"

definition consumer_IsBlocked :: "consumer \<Rightarrow> bool" where "consumer_IsBlocked cons \<longleftrightarrow> consumer_GetState cons = StateWaiting"
definition consumer_IsActive :: "consumer \<Rightarrow> bool" where "consumer_IsActive cons \<longleftrightarrow> consumer_GetState cons \<le> StateActive"
definition consumer_IsStopping :: "consumer \<Rightarrow> bool" where "consumer_IsStopping cons \<longleftrightarrow> consumer_GetState cons = StateStopping"
definition consumer_IsActiveOrStopping :: "consumer \<Rightarrow> bool" where
  "consumer_IsActiveOrStopping cons \<longleftrightarrow> consumer_IsActive cons \<or> consumer_IsStopping cons"

definition IsFuseBurned :: "consumer \<Rightarrow> world \<Rightarrow> bool" where
  "IsFuseBurned cons w =
     (case c_fuse cons of None \<Rightarrow> False | Some nm \<Rightarrow> (case w_fuses w nm of None \<Rightarrow> False | Some fuse \<Rightarrow> IsBurned fuse))"

text \<open>\<open>WaitOnFuse\<close>: \<open>None\<close> while it blocks.\<close>

definition WaitOnFuse :: "consumer \<Rightarrow> world \<Rightarrow> world outcome" where
  "WaitOnFuse cons w = (if IsFuseBurned cons w then None else Some (Inr w))"

definition consumer_SetWorkerWaitGroup :: "int \<Rightarrow> consumer \<Rightarrow> consumer" where
  "consumer_SetWorkerWaitGroup workers cons = cons\<lparr>c_run := SetWorkerWaitGroup workers (c_run cons)\<rparr>"

definition consumer_AddWorker :: "consumer \<Rightarrow> world \<Rightarrow> (consumer \<times> world) outcome" where
  "consumer_AddWorker cons w =
     Some (run_bind (AddWorker (c_run cons) (w_metrics w)) (\<lambda>(st, met). Inr (cons\<lparr>c_run := st\<rparr>, w\<lparr>w_metrics := met\<rparr>)))"

definition consumer_WorkerDone :: "consumer \<Rightarrow> world \<Rightarrow> (consumer \<times> world) outcome" where
  "consumer_WorkerDone cons w =
     Some (run_bind (WorkerDone (c_run cons) (w_metrics w)) (\<lambda>(st, met). Inr (cons\<lparr>c_run := st\<rparr>, w\<lparr>w_metrics := met\<rparr>)))"

definition consumer_AddMainWorker :: "int \<Rightarrow> consumer \<Rightarrow> world \<Rightarrow> (consumer \<times> world) outcome" where
  "consumer_AddMainWorker workers cons w = consumer_AddWorker (consumer_SetWorkerWaitGroup workers cons) w"

subsection \<open>Enqueue\<close>

definition mapped_message :: "u64 \<Rightarrow> message \<Rightarrow> message" where
  "mapped_message i msg = (let msg = msg\<lparr>m_StreamID := i\<rparr> in msg\<lparr>m_PrevStreamID := m_StreamID msg\<rparr>)"

fun enqueue_mapped :: "enqueue \<Rightarrow> (u64 \<times> nat) list \<Rightarrow> message \<Rightarrow> world \<Rightarrow> world outcome" where
  "enqueue_mapped enq [] msg w = Some (Inr w)"
| "enqueue_mapped enq ((i, a) # mapped) msg w =
     (let msg = mapped_message i msg in then_do (enq a msg w) (enqueue_mapped enq mapped msg))"

definition EnqueueMessage :: "enqueue \<Rightarrow> consumer \<Rightarrow> message \<Rightarrow> world \<Rightarrow> world outcome" where
  "EnqueueMessage enq cons msg w = enqueue_mapped enq (c_streams cons) msg w"

text \<open>\<open>self\<close> is the address of the consumer, \<open>now\<close> the time of the new message.\<close>

definition consumer_Enqueue :: "enqueue \<Rightarrow> nat \<Rightarrow> int \<Rightarrow> consumer \<Rightarrow> bytes \<Rightarrow> u64 \<Rightarrow> world \<Rightarrow> world outcome" where
  "consumer_Enqueue enq self now cons data sequence w = EnqueueMessage enq cons (NewMessage (Some self) data sequence now) w"

definition EnqueueCopy :: "enqueue \<Rightarrow> nat \<Rightarrow> int \<Rightarrow> consumer \<Rightarrow> bytes \<Rightarrow> u64 \<Rightarrow> world \<Rightarrow> world outcome" where
  "EnqueueCopy enq self now cons data sequence w =
     (let dataCopy = copy_at 0 data (replicate (length data) (CHR 0x00))
      in EnqueueMessage enq cons (NewMessage (Some self) dataCopy sequence now) w)"

definition consumer_Streams :: "consumer \<Rightarrow> u64 list" where
  "consumer_Streams cons = map fst (c_streams cons)"

subsection \<open>Control loop\<close>

definition consumer_command ::
  "consumer_callbacks \<Rightarrow> plugin_control \<Rightarrow> consumer \<Rightarrow> world \<Rightarrow> (bool \<times> consumer \<times> world) outcome" where
  "consumer_command cb command cons w =
     (case command of
        StopConsumer \<Rightarrow>
          let cons = consumer_setState StateStopping cons
          in then_do (call_back (cc_onStop cb) w) (\<lambda>w. Some (Inr (True, cons, w)))
      | Roll \<Rightarrow> then_do (call_back (cc_onRoll cb) w) (\<lambda>w. Some (Inr (False, cons, w)))
      | FuseBurn \<Rightarrow> then_do (call_back (cc_onFuseBurned cb) w) (\<lambda>w. Some (Inr (False, cons, w)))
      | FuseActive \<Rightarrow> then_do (call_back (cc_onFuseActive cb) w) (\<lambda>w. Some (Inr (False, cons, w)))
      | StopProducer \<Rightarrow> Some (Inr (False, cons, w)))"

text \<open>The commands the loop receives; \<open>None\<close> when it waits for another.\<close>

fun consumer_commands ::
  "consumer_callbacks \<Rightarrow> plugin_control list \<Rightarrow> consumer \<Rightarrow> world \<Rightarrow> (consumer \<times> world) outcome" where
  "consumer_commands cb [] cons w = None"
| "consumer_commands cb (c # cs) cons w =
     then_do (consumer_command cb c cons w) (\<lambda>(stop, cons, w).
       if stop then Some (Inr (cons, w)) else consumer_commands cb cs cons w)"

definition consumer_ControlLoop ::
  "consumer_callbacks \<Rightarrow> plugin_control list \<Rightarrow> consumer \<Rightarrow> world \<Rightarrow> (consumer \<times> world) outcome" where
  "consumer_ControlLoop cb commands cons w =
     then_do (consumer_commands cb commands (consumer_setState StateActive cons) w) (\<lambda>(cons, w).
       Some (Inr (consumer_setState StateDead cons, w)))"

text \<open>
  \<open>fuseControlLoop\<close>: what a turn reads (is the consumer active, is the fuse burned, did the wait
  on the fuse return); the result is what it sends to the control channel. Without a fuse it returns at once.
\<close>

fun fuse_turns :: "(plugin_state \<times> bool \<times> bool) list \<Rightarrow> plugin_control list" where
  "fuse_turns [] = []"
| "fuse_turns ((state, burned, woken) # turns) =
     (if state \<le> StateActive then
        if burned then (if woken then FuseBurn # FuseActive # fuse_turns turns else [FuseBurn])
        else fuse_turns turns
      else [])"

definition fuseControlLoop :: "consumer \<Rightarrow> (plugin_state \<times> bool \<times> bool) list \<Rightarrow> plugin_control list" where
  "fuseControlLoop cons turns = (if c_fuse cons = None then [] else fuse_turns turns)"

definition consumer_tickerLoop :: "int \<Rightarrow> (plugin_state \<times> int) list \<Rightarrow> int list" where
  "consumer_tickerLoop interval rounds = ticker_rounds interval rounds"

definition TickerControlLoop ::
  "consumer_callbacks \<Rightarrow> plugin_control list \<Rightarrow> consumer \<Rightarrow> world \<Rightarrow> (consumer \<times> world) outcome" where
  "TickerControlLoop cb commands cons w = consumer_ControlLoop cb commands (consumer_setState StateActive cons) w"

subsection \<open>The internal log\<close>

record log_consumer =
  lc_logStream :: "nat option"
  lc_sequence :: u64
  lc_metric :: bytes
  lc_lastCount :: "64 word"
  lc_lastCountWarn :: "64 word"
  lc_lastCountError :: "64 word"
  lc_updateTimer :: bool

definition NewLogConsumer :: log_consumer where
  "NewLogConsumer = \<lparr>lc_logStream = None, lc_sequence = 0, lc_metric = [], lc_lastCount = 0, lc_lastCountWarn = 0,
     lc_lastCountError = 0, lc_updateTimer = False\<rparr>"

definition log_metrics :: "bytes \<Rightarrow> bytes list" where
  "log_metrics metric = [metric, metric @ ''Error'', metric @ ''Warning'', metric @ ''Sec'', metric @ ''ErrorSec'', metric @ ''WarningSec'']"

definition LogConsumer_Configure :: "log_consumer \<Rightarrow> log_consumer setup_step" where
  "LogConsumer_Configure cons =
     setup_bind (setup_world (\<lambda>w. Some (Inr (registry_GetStream LogInternalStreamID w, w)))) (\<lambda>logStream.
     setup_bind (setup_cfg (cfg_get (GetString ''MetricKey'' []))) (\<lambda>metric.
       let cons = cons\<lparr>lc_logStream := logStream, lc_metric := metric\<rparr>
       in if metric \<noteq> []
          then setup_world (\<lambda>w. Some (Inr (cons\<lparr>lc_updateTimer := True\<rparr>,
                 w\<lparr>w_metrics := fold metric_New (log_metrics metric) (w_metrics w)\<rparr>)))
          else setup_return cons))"

definition log_Streams :: "u64 list" where "log_Streams = [LogInternalStreamID]"

text \<open>Messages per second since the last call, rounded towards 0.\<close>

definition per_second :: "64 word \<Rightarrow> 64 word \<Rightarrow> 64 word" where
  "per_second currentCount lastCount = of_int (sint (currentCount - lastCount) sdiv 5)"

definition updateMetric :: "log_consumer \<Rightarrow> metrics \<Rightarrow> (log_consumer \<times> metrics) run" where
  "updateMetric cons met =
     (let metric = lc_metric cons;
          currentCount = fst (metric_Get metric met);
          currentCountWarn = fst (metric_Get (metric @ ''Warning'') met);
          currentCountError = fst (metric_Get (metric @ ''Error'') met)
      in run_bind (metric_Set (metric @ ''Sec'') (per_second currentCount (lc_lastCount cons)) met) (\<lambda>met.
         run_bind (metric_Set (metric @ ''WarningSec'') (per_second currentCountWarn (lc_lastCountWarn cons)) met) (\<lambda>met.
         run_bind (metric_Set (metric @ ''ErrorSec'') (per_second currentCountError (lc_lastCountError cons)) met) (\<lambda>met.
           Inr (cons\<lparr>lc_lastCount := currentCount, lc_lastCountWarn := currentCountWarn,
                     lc_lastCountError := currentCountError, lc_updateTimer := True\<rparr>, met)))))"

definition log_counter :: "bytes \<Rightarrow> bytes \<Rightarrow> bytes" where
  "log_counter metric data =
     (if str_has_prefix data ''ERROR'' then metric @ ''Error''
      else if str_has_prefix data ''Warning'' then metric @ ''Warning''
      else metric)"

text \<open>A method call on a stream that was not there when the consumer was configured is a nil call.\<close>

definition log_Write :: "enqueue \<Rightarrow> nat \<Rightarrow> int \<Rightarrow> log_consumer \<Rightarrow> bytes \<Rightarrow> world \<Rightarrow> (nat \<times> world) outcome" where
  "log_Write enq self now cons data w =
     (let dataCopy = copy_at 0 data (replicate (length data) (CHR 0x00));
          msg = (NewMessage (Some self) dataCopy (lc_sequence cons) now)\<lparr>m_StreamID := LogInternalStreamID\<rparr>
      in case lc_logStream cons of
           None \<Rightarrow> Some (Inl NilDereference)
         | Some a \<Rightarrow> then_do (enq a msg w) (\<lambda>w.
             if lc_metric cons \<noteq> []
             then Some (run_bind (metric_Inc (log_counter (lc_metric cons) data) (w_metrics w)) (\<lambda>met.
                    Inr (length data, w\<lparr>w_metrics := met\<rparr>)))
             else Some (Inr (length data, w))))"

text \<open>\<open>Consume\<close>: returns at the first stop command and stops the timer, if there is one.\<close>

fun log_Consume :: "plugin_control list \<Rightarrow> log_consumer \<Rightarrow> log_consumer outcome" where
  "log_Consume [] cons = None"
| "log_Consume (command # commands) cons =
     (if command = StopConsumer
      then (if lc_updateTimer cons then Some (Inr (cons\<lparr>lc_updateTimer := False\<rparr>)) else Some (Inl NilDereference))
      else log_Consume commands cons)"

subsection \<open>Lemmas\<close>

lemma mapped_message_simps [simp]:
  "mapped_message j (mapped_message i msg) = mapped_message j msg" "m_Data (mapped_message i msg) = m_Data msg"
  "m_StreamID (mapped_message i msg) = i" "m_PrevStreamID (mapped_message i msg) = i"
  "m_Sequence (mapped_message i msg) = m_Sequence msg"
  by (simp_all add: mapped_message_def Let_def)

lemma EnqueueCopy_Enqueue: "EnqueueCopy enq self now cons data sequence w = consumer_Enqueue enq self now cons data sequence w"
  by (simp add: EnqueueCopy_def consumer_Enqueue_def copy_at_def Let_def)

text \<open>What a message adds to the queue of a producer: one entry per mapped stream the producer listens to.\<close>

definition offered :: "world \<Rightarrow> (u64 \<times> nat) list \<Rightarrow> nat \<Rightarrow> message \<Rightarrow> message list" where
  "offered w mapped q msg = map (\<lambda>(i, a). mapped_message i msg) (filter (\<lambda>(i, a). q \<in> set (producers_at w a)) mapped)"

lemma offered_simps [simp]:
  "offered w [] q msg = []"
  "offered w ((i, a) # mapped) q msg = (if q \<in> set (producers_at w a) then [mapped_message i msg] else []) @ offered w mapped q msg"
  "offered w mapped q (mapped_message i msg) = offered w mapped q msg"
  by (auto simp: offered_def case_prod_unfold)

lemma offered_length: "length (offered w mapped q msg) \<le> length mapped"
  by (simp add: offered_def)

lemma offered_heap: "w_heap w' = w_heap w \<Longrightarrow> offered w' = offered w"
  by (simp add: offered_def producers_at_def fun_eq_iff)

text \<open>What is left after messages were queued: streams and fuses as before, and each queue extended by its messages.\<close>

definition delivered :: "world \<Rightarrow> world \<Rightarrow> (nat \<Rightarrow> message list) \<Rightarrow> bool" where
  "delivered w w' ms \<longleftrightarrow> w_heap w' = w_heap w \<and> w_fuses w' = w_fuses w \<and>
     (\<forall>q x. w_prods w q = Some x \<longrightarrow> w_prods w' q = Some (x\<lparr>p_messages := p_messages x @ ms q\<rparr>))"

lemma delivered_refl: "(\<And>q. ms q = []) \<Longrightarrow> delivered w w ms"
  by (simp add: delivered_def)

lemma delivered_heap: "delivered w w' ms \<Longrightarrow> w_heap w' = w_heap w"
  unfolding delivered_def by blast

lemma delivered_fuses: "delivered w w' ms \<Longrightarrow> w_fuses w' = w_fuses w"
  unfolding delivered_def by blast

lemma delivered_queue: "delivered w w' ms \<Longrightarrow> w_prods w q = Some x \<Longrightarrow> w_prods w' q = Some (x\<lparr>p_messages := p_messages x @ ms q\<rparr>)"
  unfolding delivered_def by blast

lemma delivered_trans:
  assumes "delivered w u ms" "delivered u v ns"
  shows "delivered w v (\<lambda>q. ms q @ ns q)"
proof -
  have "w_prods v q = Some (x\<lparr>p_messages := p_messages x @ (ms q @ ns q)\<rparr>)" if "w_prods w q = Some x" for q x
    using delivered_queue [OF assms(2) delivered_queue [OF assms(1) that]] by simp
  then show ?thesis using assms [THEN delivered_heap] assms [THEN delivered_fuses] unfolding delivered_def by simp
qed

lemma delivered_burned: "delivered w w' ms \<Longrightarrow> IsFuseBurned cons w' = IsFuseBurned cons w"
  unfolding IsFuseBurned_def by (drule delivered_fuses) (simp only:)

lemma delivered_offered: "delivered w w' ms \<Longrightarrow> offered w' = offered w"
  by (rule offered_heap) (rule delivered_heap)

text \<open>
  What a consumer relies on when it sends to a stream: a stream that is ready for one more message takes it,
  returns, counts it and hands it to each of its producers; and it stays ready for the rest while no queue got more
  messages than it was ready for.
\<close>

locale stream_input =
  fixes enq :: enqueue
    and ready :: "world \<Rightarrow> nat \<Rightarrow> nat \<Rightarrow> bool"
  assumes enq_delivers: "ready w (Suc k) a \<Longrightarrow> \<exists>w'. enq a msg w = Some (Inr w') \<and>
      delivered w w' (\<lambda>q. if q \<in> set (producers_at w a) then [msg] else []) \<and>
      w_counts w' = (w_counts w)\<lparr>n_messages := n_messages (w_counts w) + 1\<rparr>"
    and ready_after: "ready w (k + m) a \<Longrightarrow> delivered w w' ms \<Longrightarrow> \<forall>q. length (ms q) \<le> m \<Longrightarrow> ready w' k a"
begin

lemma enqueue_mapped_delivers:
  assumes "list_all (\<lambda>(i, a). ready w (k + length mapped) a) mapped"
  shows "\<exists>w'. enqueue_mapped enq mapped msg w = Some (Inr w') \<and> delivered w w' (\<lambda>q. offered w mapped q msg) \<and>
    w_counts w' = (w_counts w)\<lparr>n_messages := n_messages (w_counts w) + of_nat (length mapped)\<rparr>"
  using assms
proof (induction mapped arbitrary: w msg)
  case (Cons m mapped)
  obtain i a where m: "m = (i, a)" by (cases m)
  let ?msg = "mapped_message i msg"
  have "ready w (Suc (k + length mapped)) a" using Cons.prems m by simp
  from enq_delivers [OF this, of ?msg] obtain u where u: "enq a ?msg w = Some (Inr u)"
    "delivered w u (\<lambda>q. if q \<in> set (producers_at w a) then [?msg] else [])"
    "w_counts u = (w_counts w)\<lparr>n_messages := n_messages (w_counts w) + 1\<rparr>" by blast
  have "ready u (k + length mapped) b" if "ready w (k + length (m # mapped)) b" for b
    using that by (intro ready_after [of w _ 1, OF _ u(2)]) simp_all
  then have "list_all (\<lambda>(i, a). ready u (k + length mapped) a) mapped" using Cons.prems by (auto simp: list_all_iff)
  from Cons.IH [OF this, of ?msg] obtain w' where w': "enqueue_mapped enq mapped ?msg u = Some (Inr w')"
    "delivered u w' (\<lambda>q. offered w mapped q msg)"
    "w_counts w' = (w_counts u)\<lparr>n_messages := n_messages (w_counts u) + of_nat (length mapped)\<rparr>"
    by (auto simp: delivered_offered [OF u(2)])
  have "delivered w w' (\<lambda>q. offered w (m # mapped) q msg)" using delivered_trans [OF u(2) w'(2)] m by simp
  then show ?case using u(1,3) w'(1,3) m by (intro exI [of _ w']) (simp add: add.assoc)
qed (simp add: delivered_refl)

text \<open>A consumer whose streams are ready for \<open>Suc n\<close> messages sends one and can send \<open>n\<close> more.\<close>

lemma EnqueueMessage_delivers:
  assumes "list_all (\<lambda>(i, a). ready w (k + Suc n * length (c_streams cons)) a) (c_streams cons)"
  shows "\<exists>w'. EnqueueMessage enq cons msg w = Some (Inr w') \<and> delivered w w' (\<lambda>q. offered w (c_streams cons) q msg) \<and>
    list_all (\<lambda>(i, a). ready w' (k + n * length (c_streams cons)) a) (c_streams cons)"
proof -
  let ?S = "c_streams cons"
  have r: "list_all (\<lambda>(i, a). ready w (k + n * length ?S + length ?S) a) ?S" using assms by (simp add: ac_simps)
  from enqueue_mapped_delivers [OF r, of msg] obtain u where u: "enqueue_mapped enq ?S msg w = Some (Inr u)"
    "delivered w u (\<lambda>q. offered w ?S q msg)" by blast
  have "ready u (k + n * length ?S) a" if "ready w (k + n * length ?S + length ?S) a" for a
    using that by (rule ready_after [OF _ u(2)]) (simp add: offered_length)
  then have "list_all (\<lambda>(i, a). ready u (k + n * length ?S) a) ?S" using r by (auto simp: list_all_iff)
  with u show ?thesis by (auto simp: EnqueueMessage_def)
qed

end

text \<open>A plain broadcast stream with room in the queues of its producers is such an input.\<close>

lemma broadcast_delivers:
  assumes "broadcast_ready w (Suc k) a" "e_ticks env \<noteq> []"
  shows "\<exists>w'. stream_Enqueue env (Suc n) a msg w = Some (Inr w') \<and>
    delivered w w' (\<lambda>q. if q \<in> set (producers_at w a) then [msg] else []) \<and>
    w_counts w' = (w_counts w)\<lparr>n_messages := n_messages (w_counts w) + 1\<rparr>"
proof -
  have d: "distinct (producers_at w a)" using assms(1) by (auto simp: broadcast_ready_def producers_at_def)
  show ?thesis unfolding broadcast_Enqueue [OF assms] delivered_def using give_all_queue [OF d]
    by (simp add: give_all_keeps CountProcessedMessage_def)
qed

interpretation broadcast_input: stream_input "stream_Enqueue env (Suc n)" "\<lambda>w k a. e_ticks env \<noteq> [] \<and> broadcast_ready w k a" for env n
proof
  fix w w' k m a ms
  assume "e_ticks env \<noteq> [] \<and> broadcast_ready w (k + m) a" "delivered w w' ms" "\<forall>q. length (ms q) \<le> m"
  then show "e_ticks env \<noteq> [] \<and> broadcast_ready w' k a"
    using broadcast_ready_grown [of w k m a w'] unfolding delivered_def by blast
qed (use broadcast_delivers in blast)

text \<open>What a sequence of payloads adds to a queue; \<open>now\<close> is the time of the message with a number.\<close>

definition line_messages :: "nat \<Rightarrow> (u64 \<Rightarrow> int) \<Rightarrow> u64 \<Rightarrow> bytes list \<Rightarrow> message list" where
  "line_messages self now sq ls = map (\<lambda>(l, k). NewMessage (Some self) l (sq + of_nat k) (now (sq + of_nat k))) (zip ls [0..<length ls])"

lemma line_messages_simps [simp]:
  "line_messages self now sq [] = []"
  "line_messages self now sq (l # ls) = NewMessage (Some self) l sq (now sq) # line_messages self now (sq + 1) ls"
proof -
  have "zip (l # ls) [0..<Suc (length ls)] = (l, 0) # map (\<lambda>(l, k). (l, Suc k)) (zip ls [0..<length ls])"
    by (simp add: upt_conv_Cons zip_map2 map_Suc_upt [symmetric] del: upt_Suc)
  then show "line_messages self now sq (l # ls) = NewMessage (Some self) l sq (now sq) # line_messages self now (sq + 1) ls"
    by (simp add: line_messages_def case_prod_unfold add.assoc o_def del: upt_Suc)
qed (simp add: line_messages_def)

definition enqueue_callback :: "enqueue \<Rightarrow> nat \<Rightarrow> (u64 \<Rightarrow> int) \<Rightarrow> consumer \<Rightarrow> bytes \<Rightarrow> u64 \<Rightarrow> world outcome \<Rightarrow> world outcome" where
  "enqueue_callback enq self now cons data sq c = then_do c (consumer_Enqueue enq self (now sq) cons data sq)"

context stream_input
begin

lemma deliver_lines:
  assumes "list_all (\<lambda>(i, a). ready w (k + length ls * length (c_streams cons)) a) (c_streams cons)"
  shows "\<exists>w'. deliver (enqueue_callback enq self now cons) sq ls (Some (Inr w)) = Some (Inr w') \<and>
    delivered w w' (\<lambda>q. concat (map (offered w (c_streams cons) q) (line_messages self now sq ls)))"
  using assms
proof (induction ls arbitrary: w sq)
  case (Cons l ls)
  let ?m = "NewMessage (Some self) l sq (now sq)"
  from EnqueueMessage_delivers [of w k "length ls" cons ?m] Cons.prems obtain u where u:
    "EnqueueMessage enq cons ?m w = Some (Inr u)" "delivered w u (\<lambda>q. offered w (c_streams cons) q ?m)"
    "list_all (\<lambda>(i, a). ready u (k + length ls * length (c_streams cons)) a) (c_streams cons)" by auto
  from Cons.IH [OF u(3), of "sq + 1"] obtain w' where w':
    "deliver (enqueue_callback enq self now cons) (sq + 1) ls (Some (Inr u)) = Some (Inr w')"
    "delivered u w' (\<lambda>q. concat (map (offered w (c_streams cons) q) (line_messages self now (sq + 1) ls)))"
    by (auto simp: delivered_offered [OF u(2)])
  have "enqueue_callback enq self now cons l sq (Some (Inr w)) = Some (Inr u)"
    using u(1) by (simp add: enqueue_callback_def consumer_Enqueue_def)
  with w' delivered_trans [OF u(2) w'(2)] show ?case by (intro exI [of _ w']) simp
qed (simp add: delivered_refl)

end

lemma map_streams_ok:
  assumes "wf_world w"
  shows "\<exists>mapped w'. map_streams nms w = Some (Inr (mapped, w')) \<and> wf_world w' \<and> map fst mapped = map fnv1a nms \<and>
    list_all (\<lambda>(i, a). w_streams w' i = Some a) mapped \<and> (\<forall>i a. w_streams w i = Some a \<longrightarrow> w_streams w' i = Some a)"
  using assms
proof (induction nms arbitrary: w)
  case (Cons nm nms)
  obtain names where g: "GetStreamID (w_names w) nm = (fnv1a nm, names)" by (simp add: GetStreamID_def Let_def)
  obtain a v where v: "GetStreamOrFallback (fnv1a nm) (w\<lparr>w_names := names\<rparr>) = Some (Inr (a, v))" "wf_world v"
    "w_streams v = (w_streams w)(fnv1a nm \<mapsto> a)" "\<forall>j b. w_streams w j = Some b \<longrightarrow> w_streams v j = Some b"
    using GetStreamOrFallback_ok [of "w\<lparr>w_names := names\<rparr>" "fnv1a nm"] Cons.prems by auto
  obtain mapped w' where w': "map_streams nms v = Some (Inr (mapped, w'))" "wf_world w'" "map fst mapped = map fnv1a nms"
    "list_all (\<lambda>(i, a). w_streams w' i = Some a) mapped" "\<forall>i a. w_streams v i = Some a \<longrightarrow> w_streams w' i = Some a"
    using Cons.IH [OF v(2)] by blast
  with g v show ?case by (intro exI [of _ "(fnv1a nm, a) # mapped"] exI [of _ w']) simp
qed simp

lemma setup_cfg_ok:
  "setup_cfg m u = Some (Inr (Inr x, u')) \<longleftrightarrow>
     (\<exists>st. m \<lparr>cs_conf = u_conf u, cs_plugins = u_plugins u, cs_names = w_names (u_world u)\<rparr> = Some (Inr (Inr x, st)) \<and>
       u' = \<lparr>u_conf = cs_conf st, u_plugins = cs_plugins st, u_world = (u_world u)\<lparr>w_names := cs_names st\<rparr>\<rparr>)"
  by (auto simp: setup_cfg_def then_do_def split: option.splits sum.splits prod.splits)

lemma setup_world_ok:
  "setup_world f u = Some (Inr (Inr x, u')) \<longleftrightarrow> (\<exists>w. f (u_world u) = Some (Inr (x, w)) \<and> u' = u\<lparr>u_world := w\<rparr>)"
  by (auto simp: setup_world_def then_do_def split: option.splits sum.splits prod.splits)

text \<open>A step that changes neither the streams nor the queues of the world nor its well-formedness.\<close>

definition stream_neutral :: "'a setup_step \<Rightarrow> bool" where
  "stream_neutral m \<longleftrightarrow> (\<forall>u x u'. m u = Some (Inr (Inr x, u')) \<longrightarrow>
     w_streams (u_world u') = w_streams (u_world u) \<and> (wf_world (u_world u) \<longrightarrow> wf_world (u_world u')))"

lemma neutral_cfg: "stream_neutral (setup_cfg m)"
  by (auto simp: stream_neutral_def setup_cfg_ok)

lemma neutral_bind:
  assumes "stream_neutral m" "\<And>x. stream_neutral (f x)"
  shows "stream_neutral (setup_bind m f)"
proof -
  have "w_streams (u_world u') = w_streams (u_world u) \<and> (wf_world (u_world u) \<longrightarrow> wf_world (u_world u'))"
    if "m u = Some (Inr (Inr x, v))" "f x v = Some (Inr (Inr y, u'))" for u x v y u'
    using assms(1) [unfolded stream_neutral_def, rule_format, OF that(1)]
      assms(2) [of x, unfolded stream_neutral_def, rule_format, OF that(2)] by simp
  then show ?thesis unfolding stream_neutral_def setup_ok by blast
qed

lemma neutral_return: "stream_neutral (setup_return x)"
  by (auto simp: stream_neutral_def setup_ok)

lemma neutral_metric: "stream_neutral (setup_world (\<lambda>w. Some (Inr (x, w\<lparr>w_metrics := metric_New nm (w_metrics w)\<rparr>))))"
  by (auto simp: stream_neutral_def setup_world_ok)

lemma neutral_fuse: "stream_neutral (setup_world (\<lambda>w. Some (Inr (x, snd (GetFuse nm w)))))"
  by (auto simp: stream_neutral_def setup_world_ok GetFuse_def split: option.splits)

lemma setup_new_ok:
  "setup_NewPluginWithType configure nm u = Some (Inr (Inr x, u')) \<longleftrightarrow> (\<exists>c. configure nm = Some c \<and> c u = Some (Inr (Inr x, u')))"
proof (cases "configure nm")
  case (Some c)
  then show ?thesis
    by (cases "c u") (auto simp: setup_NewPluginWithType_def then_do_def split: sum.splits prod.splits)
qed (simp add: setup_NewPluginWithType_def setup_fail_def)

lemma neutral_new:
  assumes "\<And>c. configure nm = Some c \<Longrightarrow> stream_neutral c"
  shows "stream_neutral (setup_NewPluginWithType configure nm)"
  using assms unfolding stream_neutral_def setup_new_ok by blast

lemma neutral_tidings: "stream_neutral (setup_NewPluginWithType tidings_types nm)"
  by (rule neutral_new) (auto simp: tidings_types_def Profile_Configure_def Let_def split: if_splits
      intro!: neutral_cfg neutral_bind neutral_metric)

lemma consumer_Configure_spec:
  assumes "consumer_Configure (setup_NewPluginWithType tidings_types) u = Some (Inr (Inr cons, u'))" "wf_world (u_world u)"
  shows "consumer_Streams cons = map fnv1a (Stream (u_conf u))" "wf_world (u_world u')"
    "list_all (\<lambda>(i, a). w_streams (u_world u') i = Some a) (c_streams cons)"
    "\<forall>i a. w_streams (u_world u) i = Some a \<longrightarrow> w_streams (u_world u') i = Some a"
proof -
  let ?fuse = "\<lambda>nm. if nm \<noteq> [] then setup_world (\<lambda>w. Some (Inr (Some nm, snd (GetFuse nm w)))) else setup_return None"
  let ?rest = "\<lambda>mapped. setup_bind (setup_cfg (cfg_get (GetString ''Fuse'' []))) (\<lambda>fuseName.
     setup_bind (?fuse fuseName) (\<lambda>fuse.
     setup_bind (setup_cfg (cfg_get (GetString ''Tidings'' ''tidings.Csv''))) (\<lambda>tname.
     setup_bind (setup_NewPluginWithType tidings_types tname) (\<lambda>t.
     setup_return \<lparr>c_streams = mapped, c_run = NewPluginRunState, c_fuse = fuse, c_tidings = t\<rparr>))))"
  have neutral: "stream_neutral (?rest mapped)" for mapped
    by (intro neutral_bind neutral_cfg neutral_tidings neutral_return) (simp add: neutral_fuse neutral_return)
  obtain nms v0 where v0: "setup_cfg cfg_get_streams u = Some (Inr (Inr nms, v0))"
      "setup_bind (setup_world (map_streams nms)) ?rest v0 = Some (Inr (Inr cons, u'))"
    using setup_ok(1) [THEN iffD1, OF assms(1) [unfolded consumer_Configure_def]] by blast
  then have n: "nms = Stream (u_conf u)" "u_world v0 = u_world u" by (auto simp: setup_cfg_ok cfg_get_streams_def)
  obtain mapped v where v: "setup_world (map_streams nms) v0 = Some (Inr (Inr mapped, v))" "?rest mapped v = Some (Inr (Inr cons, u'))"
    using setup_ok(1) [THEN iffD1, OF v0(2)] by blast
  then obtain w where m: "map_streams (Stream (u_conf u)) (u_world u) = Some (Inr (mapped, w))" "u_world v = w"
      "?rest mapped v = Some (Inr (Inr cons, u'))" using n by (auto simp: setup_world_ok)
  obtain mapped' w' where k: "map_streams (Stream (u_conf u)) (u_world u) = Some (Inr (mapped', w'))" "wf_world w'"
    "map fst mapped' = map fnv1a (Stream (u_conf u))" "list_all (\<lambda>(i, a). w_streams w' i = Some a) mapped'"
    "\<forall>i a. w_streams (u_world u) i = Some a \<longrightarrow> w_streams w' i = Some a"
    using map_streams_ok [OF assms(2), of "Stream (u_conf u)"] by blast
  have e: "mapped' = mapped" "w' = w" using k(1) m(1) by simp_all
  have n: "w_streams (u_world u') = w_streams w" "wf_world (u_world u')"
    using neutral [of mapped, unfolded stream_neutral_def, rule_format, OF m(3)] m(2) k(2) e by simp_all
  have c: "c_streams cons = mapped" using m(3) unfolding setup_ok by auto
  show "consumer_Streams cons = map fnv1a (Stream (u_conf u))" "wf_world (u_world u')"
    "list_all (\<lambda>(i, a). w_streams (u_world u') i = Some a) (c_streams cons)"
    "\<forall>i a. w_streams (u_world u) i = Some a \<longrightarrow> w_streams (u_world u') i = Some a"
    using k e n c by (simp_all add: consumer_Streams_def)
qed

text \<open>The fuse loop announces every burned fuse once and its reactivation before the next burn.\<close>

lemma fuse_commands_alternate:
  "\<exists>n. fuseControlLoop cons turns = concat (replicate n [FuseBurn, FuseActive]) \<or>
       fuseControlLoop cons turns = concat (replicate n [FuseBurn, FuseActive]) @ [FuseBurn]"
proof -
  have "\<exists>n. fuse_turns turns = concat (replicate n [FuseBurn, FuseActive]) \<or>
       fuse_turns turns = concat (replicate n [FuseBurn, FuseActive]) @ [FuseBurn]"
  proof (induction turns rule: fuse_turns.induct)
    case (2 state burned woken turns)
    let ?c = "\<lambda>n. concat (replicate n [FuseBurn, FuseActive])"
    show ?case
    proof (cases "state \<le> StateActive")
      case False
      then show ?thesis by (intro exI [of _ 0]) simp
    next
      case True
      show ?thesis
      proof (cases "burned \<and> \<not> woken")
        case True
        then show ?thesis using \<open>state \<le> StateActive\<close> by (intro exI [of _ 0]) simp
      next
        case False
        with 2 \<open>state \<le> StateActive\<close> obtain n where "fuse_turns turns = ?c n \<or> fuse_turns turns = ?c n @ [FuseBurn]"
          by (cases burned) auto
        then show ?thesis using False \<open>state \<le> StateActive\<close>
          by (cases burned) (auto intro: exI [of _ n] exI [of _ "Suc n"])
      qed
    qed
  qed (simp add: exI [of _ 0])
  then show ?thesis by (auto simp: fuseControlLoop_def intro: exI [of _ 0])
qed

text \<open>The internal log without a stream: a consumer may create the stream after the log consumer was
  configured, then the first line that is logged is a call on nil.\<close>

lemma log_Write_nil_stream: "lc_logStream cons = None \<Longrightarrow> log_Write enq self now cons data w = Some (Inl NilDereference)"
  by (simp add: log_Write_def)

subsection \<open>Properties\<close>

text \<open>Over streams of any kind: one call of \<open>Enqueue\<close> per mapped stream, in order.\<close>

lemma enqueue_mapped_calls:
  "then_do r (enqueue_mapped enq mapped msg) =
     foldl (\<lambda>r (i, a). then_do r (enq a (msg\<lparr>m_StreamID := i, m_PrevStreamID := i\<rparr>))) r mapped"
proof (induction mapped arbitrary: r msg)
  case Nil
  have "enqueue_mapped enq [] msg = (\<lambda>w. Some (Inr w))" by (simp add: fun_eq_iff)
  then show ?case by (cases r rule: option.exhaust [OF _ sum.exhaust]) (auto simp: then_do_def split: option.split sum.split)
next
  case (Cons m mapped)
  obtain i a where m: "m = (i, a)" by (cases m)
  let ?msg = "msg\<lparr>m_StreamID := i, m_PrevStreamID := i\<rparr>"
  have mm: "mapped_message i msg = ?msg" by (simp add: mapped_message_def Let_def)
  have "then_do r (enqueue_mapped enq (m # mapped) msg) = then_do (then_do r (enq a ?msg)) (enqueue_mapped enq mapped ?msg)"
    by (simp add: m mm then_do_def split: option.split sum.split)
  with Cons.IH [of "then_do r (enq a ?msg)" ?msg] m show ?case by (simp del: enqueue_mapped.simps)
qed


definition two_stream_consumer :: consumer where
  "two_stream_consumer = \<lparr>c_streams = [(5, 0), (6, 1)], c_run = NewPluginRunState, c_fuse = None, c_tidings = Csv False '',''\<rparr>"

definition consumer_world :: world where
  "consumer_world = two_worlds\<lparr>w_heap := [0 \<mapsto> (new_stream Broadcast 5)\<lparr>s_Producers := [1, 2]\<rparr>,
     1 \<mapsto> (new_stream Broadcast 6)\<lparr>s_Producers := [2, 3]\<rparr>]\<rparr>"


text \<open>C19: a consumer that is configured without an error is mapped to registered streams: one per name in its
  configuration, in order and under the hash of the name, each entered in the registry; the registry keeps its
  other entries and stays well-formed: every registered stream exists and the metric of streams does.\<close>

theorem consumer_Configure_registers:
  assumes "consumer_Configure (setup_NewPluginWithType tidings_types) u = Some (Inr (Inr cons, u'))" "wf_world (u_world u)"
  shows "consumer_Streams cons = map fnv1a (Stream (u_conf u)) \<and> wf_world (u_world u') \<and>
    (\<forall>(i, a)\<in>set (c_streams cons). w_streams (u_world u') i = Some a) \<and>
    (\<forall>i a. w_streams (u_world u) i = Some a \<longrightarrow> w_streams (u_world u') i = Some a)"
  using consumer_Configure_spec [OF assms] by (auto simp: list_all_iff)

theorem consumer_Configure_registers_witness:
  "\<exists>cons u'. consumer_Configure (setup_NewPluginWithType tidings_types)
     \<lparr>u_conf = (NewPluginConfig ''consumer.Console'')\<lparr>Stream := [''*'']\<rparr>, u_plugins = Map.empty, u_world = start_world\<rparr> = Some (Inr (Inr cons, u')) \<and>
     consumer_Streams cons = [WildcardStreamID] \<and> wf_world (u_world u')"
proof -
  let ?u = "\<lparr>u_conf = (NewPluginConfig ''consumer.Console'')\<lparr>Stream := [''*'']\<rparr>, u_plugins = Map.empty, u_world = start_world\<rparr>"
  have wf: "wf_world (u_world ?u)" by (simp add: wf_world_def start_world_def)
  have "\<exists>cons u'. consumer_Configure (setup_NewPluginWithType tidings_types) ?u = Some (Inr (Inr cons, u'))"
  proof -
    have "case consumer_Configure (setup_NewPluginWithType tidings_types) ?u of Some (Inr (Inr cons, u')) \<Rightarrow> True | _ \<Rightarrow> False"
      by code_simp
    then show ?thesis by (auto split: option.splits sum.splits prod.splits)
  qed
  then obtain cons u' where c: "consumer_Configure (setup_NewPluginWithType tidings_types) ?u = Some (Inr (Inr cons, u'))" by blast
  from consumer_Configure_registers [OF c wf] c show ?thesis
    by (auto simp: WildcardStreamID_def WildcardStream_def)
qed

end
