(* ===== verification/WriterAssemblies.thy ===== *)
theory WriterAssemblies
  imports Formatters
begin

text \<open>
  \<open>core/writerassembly.go\<close>: the adapter that formats the messages of a batch into one buffer and
  hands it to an \<open>io.Writer\<close>; messages that could not be written go to a flush function. What the
  writer and the callbacks work on is a state \<open>'s\<close>. A writer answers whether it failed.
\<close>

record 's writer_assembly =
  wa_writer :: "(bytes \<Rightarrow> 's \<Rightarrow> bool \<times> 's) option"
  wa_flush :: "message \<Rightarrow> 's \<Rightarrow> 's"
  wa_formatter :: formatter
  wa_buffer :: bytes
  wa_validate :: "('s \<Rightarrow> bool \<times> 's) option"
  wa_handleError :: "('s \<Rightarrow> bool \<times> 's) option"

definition NewWriterAssembly ::
  "(bytes \<Rightarrow> 's \<Rightarrow> bool \<times> 's) option \<Rightarrow> (message \<Rightarrow> 's \<Rightarrow> 's) \<Rightarrow> formatter \<Rightarrow> 's writer_assembly" where
  "NewWriterAssembly writer flush formatter =
     \<lparr>wa_writer = writer, wa_flush = flush, wa_formatter = formatter, wa_buffer = [], wa_validate = None, wa_handleError = None\<rparr>"

definition SetValidator :: "('s \<Rightarrow> bool \<times> 's) option \<Rightarrow> 's writer_assembly \<Rightarrow> 's writer_assembly" where
  "SetValidator validate asm = asm\<lparr>wa_validate := validate\<rparr>"

definition SetErrorHandler :: "('s \<Rightarrow> bool \<times> 's) option \<Rightarrow> 's writer_assembly \<Rightarrow> 's writer_assembly" where
  "SetErrorHandler handleError asm = asm\<lparr>wa_handleError := handleError\<rparr>"

definition SetWriter :: "(bytes \<Rightarrow> 's \<Rightarrow> bool \<times> 's) option \<Rightarrow> 's writer_assembly \<Rightarrow> 's writer_assembly" where
  "SetWriter writer asm = asm\<lparr>wa_writer := writer\<rparr>"

definition SetFlush :: "(message \<Rightarrow> 's \<Rightarrow> 's) \<Rightarrow> 's writer_assembly \<Rightarrow> 's writer_assembly" where
  "SetFlush flush asm = asm\<lparr>wa_flush := flush\<rparr>"

definition asm_Flush :: "'s writer_assembly \<Rightarrow> message list \<Rightarrow> 's \<Rightarrow> 's" where
  "asm_Flush asm messages s = fold (wa_flush asm) messages s"

text \<open>
  The loop that formats the messages into the buffer. A payload that goes beyond the buffer is appended
  behind the bytes written so far, one that fits is copied over the old contents.
\<close>

fun assemble :: "format_env \<Rightarrow> int \<Rightarrow> formatter \<Rightarrow> message list \<Rightarrow> bytes \<Rightarrow> nat \<Rightarrow> stream_names \<Rightarrow> ((bytes \<times> nat) \<times> stream_names) run" where
  "assemble env now f [] buffer contentLen names = Inr ((buffer, contentLen), names)"
| "assemble env now f (msg # messages) buffer contentLen names =
     run_bind (Format env now f msg names) (\<lambda>((payload, _), names).
       assemble env now f messages
         (if contentLen + length payload > length buffer then take contentLen buffer @ payload
          else copy_at contentLen payload buffer)
         (contentLen + length payload) names)"

definition asm_Write :: "format_env \<Rightarrow> int \<Rightarrow> message list \<Rightarrow> 's writer_assembly \<Rightarrow> stream_names \<Rightarrow> 's \<Rightarrow>
    ('s writer_assembly \<times> stream_names \<times> 's) run" where
  "asm_Write env now messages asm names s =
     (case wa_writer asm of
        None \<Rightarrow> Inr (asm, names, asm_Flush asm messages s)
      | Some writer \<Rightarrow>
          run_bind (assemble env now (wa_formatter asm) messages (wa_buffer asm) 0 names) (\<lambda>((buffer, contentLen), names).
            let asm = asm\<lparr>wa_buffer := buffer\<rparr>;
                (failed, s) = writer (take contentLen buffer) s
            in if failed then
                 (case wa_handleError asm of
                    Some handleError \<Rightarrow>
                      (let (handled, s) = handleError s
                       in if \<not> handled then Inr (asm, names, asm_Flush asm messages s) else Inr (asm, names, s))
                  | None \<Rightarrow> Inr (asm, names, s))
               else
                 (case wa_validate asm of
                    Some validate \<Rightarrow>
                      (let (valid, s) = validate s
                       in if \<not> valid then Inr (asm, names, asm_Flush asm messages s) else Inr (asm, names, s))
                  | None \<Rightarrow> Inr (asm, names, s))))"

text \<open>A sequence of batches.\<close>

fun asm_Writes :: "format_env \<Rightarrow> int \<Rightarrow> message list list \<Rightarrow> 's writer_assembly \<Rightarrow> stream_names \<Rightarrow> 's \<Rightarrow>
    ('s writer_assembly \<times> stream_names \<times> 's) run" where
  "asm_Writes env now [] asm names s = Inr (asm, names, s)"
| "asm_Writes env now (b # bs) asm names s =
     run_bind (asm_Write env now b asm names s) (\<lambda>(asm, names, s). asm_Writes env now bs asm names s)"

subsection \<open>Lemmas\<close>

text \<open>The payloads of a list of messages, the names threaded through.\<close>

fun payloads :: "format_env \<Rightarrow> int \<Rightarrow> formatter \<Rightarrow> message list \<Rightarrow> stream_names \<Rightarrow> (bytes \<times> stream_names) run" where
  "payloads env now f [] names = Inr ([], names)"
| "payloads env now f (msg # messages) names =
     run_bind (Format env now f msg names) (\<lambda>((payload, _), names).
       run_bind (payloads env now f messages names) (\<lambda>(rest, names). Inr (payload @ rest, names)))"

lemma payloads_total: "safe_formatter f \<Longrightarrow> \<exists>d names'. payloads env now f messages names = Inr (d, names')"
proof (induction messages arbitrary: names)
  case (Cons m messages)
  obtain d s names' where "Format env now f m names = Inr ((d, s), names')" using Format_safe [OF Cons.prems] by blast
  then show ?case using Cons.IH [OF Cons.prems, of names'] by auto
qed simp

text \<open>Whatever the buffer held before: the bytes assembled are the payloads.\<close>

lemma assemble_payloads:
  assumes "n \<le> length buffer" "payloads env now f messages names = Inr (d, names')"
  shows "\<exists>buffer'. assemble env now f messages buffer n names = Inr ((buffer', n + length d), names') \<and>
    n + length d \<le> length buffer' \<and> take (n + length d) buffer' = take n buffer @ d"
  using assms
proof (induction messages arbitrary: buffer n names d)
  case (Cons m messages)
  obtain p t names1 d1 where p: "Format env now f m names = Inr ((p, t), names1)" "payloads env now f messages names1 = Inr (d1, names')"
    "d = p @ d1" using Cons.prems(2) by (auto simp: run_bind_Inr_iff)
  let ?b = "if n + length p > length buffer then take n buffer @ p else copy_at n p buffer"
  have b: "n + length p \<le> length ?b" "take (n + length p) ?b = take n buffer @ p"
    using Cons.prems(1) take_copy_at [of n p buffer] by auto
  from Cons.IH [OF b(1) p(2)] b(2) p show ?case by (auto simp: add.assoc)
qed auto

lemma asm_Write_sends:
  assumes "payloads env now (wa_formatter asm) messages names = Inr (d, names')" "wa_writer asm = Some writer"
    "writer d s = (failed, s')"
  shows "\<exists>buffer'. asm_Write env now messages asm names s =
    (let asm' = asm\<lparr>wa_buffer := buffer'\<rparr>
     in if failed then (case wa_handleError asm of
            Some handleError \<Rightarrow> (let (handled, s) = handleError s'
              in if \<not> handled then Inr (asm', names', asm_Flush asm' messages s) else Inr (asm', names', s))
          | None \<Rightarrow> Inr (asm', names', s'))
        else (case wa_validate asm of
            Some validate \<Rightarrow> (let (valid, s) = validate s'
              in if \<not> valid then Inr (asm', names', asm_Flush asm' messages s) else Inr (asm', names', s))
          | None \<Rightarrow> Inr (asm', names', s')))"
proof -
  obtain b where b: "assemble env now (wa_formatter asm) messages (wa_buffer asm) 0 names = Inr ((b, length d), names')"
    "take (length d) b = d" using assemble_payloads [OF _ assms(1), of 0 "wa_buffer asm"] by auto
  show ?thesis using b assms(2,3)
    by (intro exI [of _ b]) (simp add: asm_Write_def Let_def split: option.split)
qed

text \<open>Without an error handler a failed write is only logged: the messages are neither written nor flushed.\<close>

lemma asm_Write_unhandled:
  assumes "safe_formatter (wa_formatter asm)" "wa_writer asm = Some writer" "\<And>d s. writer d s = (True, s)" "wa_handleError asm = None"
  shows "\<exists>asm' names'. asm_Write env now messages asm names s = Inr (asm', names', s)"
proof -
  obtain d names' where "payloads env now (wa_formatter asm) messages names = Inr (d, names')" using payloads_total [OF assms(1)] by blast
  from asm_Write_sends [OF this assms(2,3), of s] obtain c where "asm_Write env now messages asm names s = Inr (asm\<lparr>wa_buffer := c\<rparr>, names', s)"
    using assms(4) by (auto simp: Let_def)
  then show ?thesis by blast
qed

text \<open>
  A sink for the property below: what was written, what was flushed, what the error handler or the validator
  answers next, and the script of the writes: whether each fails, and the answer that follows. An assembly
  over it has an error handler or not, and a validator or not.
\<close>

type_synonym sink = "bytes \<times> message list \<times> bool \<times> (bool \<times> bool) list"

fun sink_write :: "bytes \<Rightarrow> sink \<Rightarrow> bool \<times> sink" where
  "sink_write d (out, flushed, answer, script) = (case script of
     [] \<Rightarrow> (False, (out @ d, flushed, answer, []))
   | (failed, answer) # script \<Rightarrow> (failed, (if failed then out else out @ d, flushed, answer, script)))"

fun sink_flush :: "message \<Rightarrow> sink \<Rightarrow> sink" where
  "sink_flush m (out, flushed, rest) = (out, flushed @ [m], rest)"

fun sink_answer :: "sink \<Rightarrow> bool \<times> sink" where
  "sink_answer (out, flushed, answer, script) = (answer, (out, flushed, answer, script))"

definition sink_assembly :: "bool \<Rightarrow> bool \<Rightarrow> formatter \<Rightarrow> bytes \<Rightarrow> sink writer_assembly" where
  "sink_assembly handles validates f buffer =
     (SetValidator (if validates then Some sink_answer else None)
       (SetErrorHandler (if handles then Some sink_answer else None)
         (NewWriterAssembly (Some sink_write) sink_flush f)))\<lparr>wa_buffer := buffer\<rparr>"

text \<open>The batches that are flushed: a handler declines the error, or a validator the written batch.\<close>

definition declined :: "bool \<Rightarrow> bool \<Rightarrow> bool \<times> bool \<Rightarrow> bool" where
  "declined handles validates = (\<lambda>(failed, answer). \<not> answer \<and> (if failed then handles else validates))"

text \<open>The text of each batch, the stream names threaded through.\<close>

fun batch_texts :: "format_env \<Rightarrow> int \<Rightarrow> formatter \<Rightarrow> message list list \<Rightarrow> stream_names \<Rightarrow> bytes list" where
  "batch_texts env now f [] names = []"
| "batch_texts env now f (b # bs) names =
     (case payloads env now f b names of Inl e \<Rightarrow> [] | Inr (d, names) \<Rightarrow> d # batch_texts env now f bs names)"

lemma sink_flush_all: "fold sink_flush messages (out, flushed, rest) = (out, flushed @ messages, rest)"
  by (induction messages arbitrary: flushed) simp_all

lemma sink_assembly_simps [simp]:
  "wa_writer (sink_assembly h v f b) = Some sink_write" "wa_formatter (sink_assembly h v f b) = f"
  "wa_validate (sink_assembly h v f b) = (if v then Some sink_answer else None)"
  "wa_handleError (sink_assembly h v f b) = (if h then Some sink_answer else None)"
  "wa_flush (sink_assembly h v f b) = sink_flush" "(sink_assembly h v f b)\<lparr>wa_buffer := c\<rparr> = sink_assembly h v f c"
  by (simp_all add: sink_assembly_def SetErrorHandler_def SetValidator_def NewWriterAssembly_def)

lemma sink_Write:
  assumes "payloads env now f b names = Inr (d, names')"
  shows "\<exists>c. asm_Write env now b (sink_assembly h v f buffer) names (out, flushed, ans, (failed, answer) # script) =
    Inr (sink_assembly h v f c, names', (if failed then out else out @ d,
      if declined h v (failed, answer) then flushed @ b else flushed, answer, script))"
proof -
  let ?s = "(if failed then out else out @ d, flushed, answer, script)"
  have w: "sink_write d (out, flushed, ans, (failed, answer) # script) = (failed, ?s)" by simp
  have fl: "asm_Flush (sink_assembly h v f c) b ?s = (if failed then out else out @ d, flushed @ b, answer, script)" for c
    by (simp add: asm_Flush_def sink_flush_all)
  let ?a = "sink_assembly h v f buffer"
  have p: "payloads env now (wa_formatter ?a) b names = Inr (d, names')" "wa_writer ?a = Some sink_write" using assms by simp_all
  note sends = asm_Write_sends [OF p w]
  show ?thesis
  proof (cases failed)
    case True
    then show ?thesis using sends fl by (cases h; cases answer) (auto simp: declined_def Let_def)
  next
    case False
    then show ?thesis using sends fl by (cases v; cases answer) (auto simp: declined_def Let_def)
  qed
qed

lemma sink_Writes:
  assumes "safe_formatter f" "length script = length batches"
  shows "\<exists>buffer' names' ans'. asm_Writes env now batches (sink_assembly h v f buffer) names (out, flushed, ans, script) =
    Inr (sink_assembly h v f buffer', names',
      (out @ concat (map fst (filter (\<lambda>(t, failed, answer). \<not> failed) (zip (batch_texts env now f batches names) script))),
       flushed @ concat (map fst (filter (declined h v \<circ> snd) (zip batches script))), ans', []))"
  using assms(2)
proof (induction batches arbitrary: buffer names out flushed ans script)
  case (Cons b bs)
  obtain failed answer rest where f: "script = (failed, answer) # rest" using Cons.prems by (cases script) auto
  obtain d names1 where d: "payloads env now f b names = Inr (d, names1)" using payloads_total [OF assms(1)] by blast
  obtain c where w: "asm_Write env now b (sink_assembly h v f buffer) names (out, flushed, ans, (failed, answer) # rest) =
    Inr (sink_assembly h v f c, names1, (if failed then out else out @ d,
      if declined h v (failed, answer) then flushed @ b else flushed, answer, rest))" using sink_Write [OF d] by blast
  have "length rest = length bs" using Cons.prems f by simp
  from Cons.IH [OF this, of c names1 "if failed then out else out @ d"
      "if declined h v (failed, answer) then flushed @ b else flushed" answer] w d f
  show ?case by (cases failed; cases "declined h v (failed, answer)") (simp_all add: o_def)
qed auto

lemma no_writer_flushes:
  "asm_Writes env now batches (SetWriter None (sink_assembly h v f buffer)) names (out, flushed, rest) =
     Inr (SetWriter None (sink_assembly h v f buffer), names, (out, flushed @ concat batches, rest))"
proof (induction batches arbitrary: flushed)
  case (Cons b bs)
  have "asm_Write env now b (SetWriter None (sink_assembly h v f buffer)) names (out, flushed, rest) =
      Inr (SetWriter None (sink_assembly h v f buffer), names, (out, flushed @ b, rest))"
    by (simp add: asm_Write_def asm_Flush_def SetWriter_def sink_flush_all)
  then show ?case by (simp add: Cons.IH)
qed simp

subsection \<open>Properties\<close>



end
