(* ===== verification/Consoles.thy ===== *)
theory Consoles
  imports Consumers WriterAssemblies
begin

text \<open>
  \<open>consumer/console.go\<close>, \<open>producer/console.go\<close>, \<open>producer/benchmark.go\<close> and the named pipe of
  \<open>shared/syscall.go\<close>: lines from standard input become messages, messages become text on standard
  output. The last property is the whole way of a line through the program.
\<close>

subsection \<open>Named pipes\<close>

datatype mkfifo_result = FifoCreated | FifoExists | FifoFailed

text \<open>
  \<open>OpenNamedPipe\<close>: \<open>True\<close> when it answers a file. \<open>opened\<close> is \<open>None\<close> when the file cannot be
  opened, otherwise it tells whether it is a named pipe. The test behind \<open>Mkfifo\<close> is \<open>!os.IsExist(err)\<close>:
  no error is not "exists" either.
\<close>

definition OpenNamedPipe :: "mkfifo_result \<Rightarrow> bool option \<Rightarrow> bool" where
  "OpenNamedPipe mkfifo opened =
     (if mkfifo \<noteq> FifoExists then False
      else case opened of None \<Rightarrow> False | Some isNamedPipe \<Rightarrow> isNamedPipe)"

subsection \<open>Consumer\<close>

text \<open>\<open>cn_pipe\<close>: the pipe is open (standard input is from the start).\<close>

record console_consumer =
  cn_base :: consumer
  cn_autoexit :: bool
  cn_pipe :: bool
  cn_pipeName :: bytes
  cn_pipePerm :: u32

text \<open>\<open>strconv.ParseInt(s, 8, 32)\<close>; \<open>None\<close> is an error.\<close>

definition oct_value :: "bytes \<Rightarrow> nat" where
  "oct_value s = foldl (\<lambda>n c. 8 * n + digit_val c) 0 s"

definition parse_octal :: "bytes \<Rightarrow> int option" where
  "parse_octal s =
     (let (neg, ds) = atoi_sign s; v = int (oct_value ds)
      in if ds = [] \<or> \<not> list_all (\<lambda>c. is_digit c \<and> digit_val c < 8) ds then None
         else if neg then (if v \<le> 2 ^ 31 then Some (- v) else None)
         else (if v < 2 ^ 31 then Some v else None))"

definition consoleBufferGrowSize :: nat where "consoleBufferGrowSize = 256"

definition Console_Configure :: "(bytes \<Rightarrow> tidings setup_step) \<Rightarrow> console_consumer setup_step" where
  "Console_Configure newTidings =
     setup_bind (setup_cfg (cfg_get (GetBool ''ExitOnEOF'' False))) (\<lambda>autoexit.
     setup_bind (setup_cfg (cfg_get (GetString ''Console'' ''stdin''))) (\<lambda>inputConsole.
     setup_bind (if str_to_lower inputConsole = ''stdin'' then setup_return (True, ''stdin'', 0)
                 else setup_bind (setup_cfg (cfg_get (GetString ''Permissions'' ''0664''))) (\<lambda>perm.
                        setup_return (False, inputConsole, case parse_octal perm of None \<Rightarrow> 0 | Some v \<Rightarrow> of_int v)))
       (\<lambda>(pipe, pipeName, pipePerm).
     setup_bind (consumer_Configure newTidings) (\<lambda>base.
     setup_return \<lparr>cn_base = base, cn_autoexit = autoexit, cn_pipe = pipe, cn_pipeName = pipeName, cn_pipePerm = pipePerm\<rparr>))))"

text \<open>
  What follows a \<open>ReadAll\<close> in the loop of \<open>readPipe\<close>: the wait on the fuse, and at the end of the
  file the interrupt the process sends to itself; the number counts the interrupts.
\<close>

definition readPipe_post :: "console_consumer \<Rightarrow> io_err option \<Rightarrow> (world \<times> nat) outcome \<Rightarrow> (world \<times> nat) outcome" where
  "readPipe_post cn err c =
     then_do c (\<lambda>(w, interrupts).
     then_do (WaitOnFuse (cn_base cn) w) (\<lambda>w.
       Some (Inr (w, if err = Some EOF \<and> cn_autoexit cn then Suc interrupts else interrupts))))"

definition console_callback ::
  "enqueue \<Rightarrow> nat \<Rightarrow> (u64 \<Rightarrow> int) \<Rightarrow> console_consumer \<Rightarrow> bytes \<Rightarrow> u64 \<Rightarrow> (world \<times> nat) outcome \<Rightarrow> (world \<times> nat) outcome" where
  "console_callback enq self now cn data sq c =
     then_do c (\<lambda>(w, interrupts). then_do (consumer_Enqueue enq self (now sq) (cn_base cn) data sq w) (\<lambda>w. Some (Inr (w, interrupts))))"

text \<open>\<open>readPipe\<close> for \<open>n\<close> turns of its loop, over the standard input or a pipe \<open>rd\<close> that is open.\<close>

definition readPipe ::
  "('s \<Rightarrow> nat \<Rightarrow> bytes \<times> io_err option \<times> 's) \<Rightarrow> enqueue \<Rightarrow> nat \<Rightarrow> (u64 \<Rightarrow> int) \<Rightarrow> console_consumer \<Rightarrow> nat \<Rightarrow> 's \<Rightarrow> world \<Rightarrow>
   (buffered_reader \<times> 's \<times> (world \<times> nat) outcome) run option" where
  "readPipe rd enq self now cn n s w =
     read_turns rd (console_callback enq self now cn) (readPipe_post cn) n
       (NewBufferedReader consoleBufferGrowSize 0 0 [CHR 0x0A] None) s (Some (Inr (w, 0)))"

text \<open>A pipe that is not open is opened first; when that fails the function returns and a timer calls it again.\<close>

definition readPipe_open :: "mkfifo_result \<Rightarrow> bool option \<Rightarrow> console_consumer \<Rightarrow> bool \<times> console_consumer" where
  "readPipe_open mkfifo opened cn =
     (if cn_pipe cn then (True, cn)
      else if OpenNamedPipe mkfifo opened then (True, cn\<lparr>cn_pipe := True\<rparr>) else (False, cn))"

subsection \<open>Producers\<close>

datatype console_file = Stdout | Stderr

record console_producer =
  cp_base :: producer
  cp_console :: console_file

definition ProducerConsole_Configure :: "(bytes \<Rightarrow> formatter cfg) \<Rightarrow> (bytes \<Rightarrow> filter cfg) \<Rightarrow> console_producer cfg" where
  "ProducerConsole_Configure newFormat newFilter =
     cfg_bind (producer_Configure newFormat newFilter) (\<lambda>base.
     cfg_bind (cfg_get (GetString ''Console'' ''stdout'')) (\<lambda>console.
     cfg_return \<lparr>cp_base = base, cp_console = (if str_to_lower console = ''stderr'' then Stderr else Stdout)\<rparr>))"

text \<open>\<open>printMessage\<close>: \<open>f\<close> is the producer's formatter, \<open>out\<close> what was written to its file.\<close>

definition printMessage :: "stream_env \<Rightarrow> formatter \<Rightarrow> message \<Rightarrow> bytes \<Rightarrow> world \<Rightarrow> (bytes \<times> world) outcome" where
  "printMessage env f msg out w =
     Some (run_bind (Format (e_format env) (e_now env) f msg (w_names w)) (\<lambda>((d, _), names). Inr (out @ d, w\<lparr>w_names := names\<rparr>)))"

text \<open>\<open>close\<close>: the channel is closed, the messages left in it are printed.\<close>

definition console_close ::
  "stream_env \<Rightarrow> (nat \<Rightarrow> bool) \<Rightarrow> enqueue \<Rightarrow> formatter \<Rightarrow> nat \<Rightarrow> bytes \<Rightarrow> world \<Rightarrow> (bytes \<times> world) outcome" where
  "console_close env finishes enq f p out w =
     then_do (CloseMessageChannel finishes enq p w) (\<lambda>((handled, ok), w). handle_all (printMessage env f) handled out w)"

definition Console_Produce ::
  "stream_env \<Rightarrow> nat \<Rightarrow> formatter \<Rightarrow> nat \<Rightarrow> bytes \<Rightarrow> world \<Rightarrow> (bytes \<times> world) outcome" where
  "Console_Produce env n f p out w = MessageControlLoop n (printMessage env f) p out w"

definition Benchmark_Configure :: "(bytes \<Rightarrow> formatter cfg) \<Rightarrow> (bytes \<Rightarrow> filter cfg) \<Rightarrow> producer cfg" where
  "Benchmark_Configure newFormat newFilter = producer_Configure newFormat newFilter"

definition Benchmark_Produce :: "nat \<Rightarrow> nat \<Rightarrow> world \<Rightarrow> (unit \<times> world) outcome" where
  "Benchmark_Produce n p w = MessageControlLoop n (\<lambda>msg c w. Some (Inr (c, w))) p () w"

subsection \<open>Lemmas\<close>

text \<open>A pipe that had to be created is reported as a failure; the attempt after that one succeeds.\<close>

lemma OpenNamedPipe_created: "\<not> OpenNamedPipe FifoCreated opened" "OpenNamedPipe FifoExists (Some True)"
  by (simp_all add: OpenNamedPipe_def)

lemma console_reader: "NewBufferedReader consoleBufferGrowSize 0 0 [CHR 0x0A] None = delimiter_reader 256 False [CHR 0x0A]"
  by (simp add: delimiter_reader_def everything_flag_def consoleBufferGrowSize_def)

lemma console_deliver:
  "deliver (console_callback enq self now cn) sq ls c = then_do c (\<lambda>(w, interrupts).
     then_do (deliver (enqueue_callback enq self now (cn_base cn)) sq ls (Some (Inr w))) (\<lambda>w. Some (Inr (w, interrupts))))"
proof (induction ls arbitrary: sq c)
  case Nil
  then show ?case by (cases c) (auto simp: then_do_def split: option.splits sum.splits)
next
  case (Cons l ls)
  let ?cb = "console_callback enq self now cn" and ?eb = "enqueue_callback enq self now (cn_base cn)"
  have stop: "deliver ?eb sq ls None = None" "deliver ?eb sq ls (Some (Inl p)) = Some (Inl p)" for sq p
    by (induction ls arbitrary: sq) (simp_all add: enqueue_callback_def)
  have e: "?eb l sq (Some (Inr w)) = consumer_Enqueue enq self (now sq) (cn_base cn) l sq w" for w
    by (simp add: enqueue_callback_def)
  have c: "?cb l sq None = None" "?cb l sq (Some (Inl p)) = Some (Inl p)"
    "?cb l sq (Some (Inr (w, k))) = then_do (consumer_Enqueue enq self (now sq) (cn_base cn) l sq w) (\<lambda>w. Some (Inr (w, k)))" for p w k
    by (simp_all add: console_callback_def)
  consider "c = None" | p where "c = Some (Inl p)" | w k where "c = Some (Inr (w, k))"
    by (cases c) (auto, metis sum.exhaust surj_pair)
  then show ?case
  proof cases
    case (3 w k)
    show ?thesis unfolding 3 deliver.simps Cons c e
      by (auto simp: then_do_def stop split: option.splits sum.splits)
  qed (simp_all add: Cons c)
qed

lemma printMessage_comm:
  "printMessage env f m out (set_prod p y w) = (case printMessage env f m out w of
     Some (Inr (c', w')) \<Rightarrow> Some (Inr (c', set_prod p y w')) | r \<Rightarrow> r)"
  by (auto simp: printMessage_def set_prod_def run_bind_def split: sum.splits prod.splits)

lemma printMessage_all:
  assumes "payloads (e_format env) (e_now env) f ms (w_names w) = Inr (d, names')"
  shows "handle_all (printMessage env f) ms out w = Some (Inr (out @ d, w\<lparr>w_names := names'\<rparr>))"
  using assms
proof (induction ms arbitrary: out w d)
  case Nil
  then show ?case by simp
next
  case (Cons m ms)
  obtain p t names1 d1 where p: "Format (e_format env) (e_now env) f m (w_names w) = Inr ((p, t), names1)"
    "payloads (e_format env) (e_now env) f ms names1 = Inr (d1, names')" "d = p @ d1"
    using Cons.prems by (auto simp: run_bind_Inr_iff)
  then show ?case using Cons.IH [of "w\<lparr>w_names := names1\<rparr>" d1 "out @ p"] by (simp add: printMessage_def)
qed

text \<open>The queue of a producer on the console, printed by its message loop.\<close>

lemma console_prints:
  assumes "w_prods w p = Some x" "p_state x = StateActive"
    "payloads (e_format env) (e_now env) f (p_messages x) (w_names w) = Inr (d, names')"
  shows "\<exists>w'. Console_Produce env (length (p_messages x)) f p out w = Some (Inr (out @ d, w')) \<and>
    w_prods w' p = Some (x\<lparr>p_messages := []\<rparr>)"
proof -
  let ?w = "(set_prod p (x\<lparr>p_messages := []\<rparr>) w)"
  have h: "handle_all (printMessage env f) (p_messages x) out ?w = Some (Inr (out @ d, ?w\<lparr>w_names := names'\<rparr>))"
    using assms(3) by (intro printMessage_all) (simp add: set_prod_def)
  have "messageLoop (length (p_messages x)) (printMessage env f) p out w = Some (Inr (out @ d, ?w\<lparr>w_names := names'\<rparr>))"
    using assms(1,2) h by (intro messageLoop_drains [where rest = "[]"] printMessage_comm) simp_all
  then show ?thesis using assms(1,2)
    by (simp add: Console_Produce_def MessageControlLoop_def setState_def with_prod_def set_prod_def)
qed

lemma ready_producer: "broadcast_ready w k a \<Longrightarrow> q \<in> set (producers_at w a) \<Longrightarrow> healthy w k q"
  by (auto simp: broadcast_ready_def producers_at_def)

text \<open>What reading the lines does to the queues.\<close>

lemma readPipe_lines:
  assumes rd: "byte_reader rd pend ok" "ok s" "length (pend s) + 512 < 2 ^ 62"
    and lines: "pend s = concat (map (\<lambda>l. l @ [CHR 0x0A]) ls) @ rest" "\<forall>l\<in>set ls. l \<noteq> [] \<and> CHR 0x0A \<notin> set l"
      "CHR 0x0A \<notin> set rest \<or> (\<exists>r. rest = CHR 0x0A # r)"
    and room: "list_all (\<lambda>(i, a). broadcast_ready w (length ls * length (c_streams (cn_base cn))) a) (c_streams (cn_base cn))"
    and env: "e_ticks env \<noteq> []" "\<not> IsFuseBurned (cn_base cn) w"
  shows "\<exists>n b' s' w'. readPipe rd (stream_Enqueue env (Suc m)) self now cn n s w =
      Some (Inr (b', s', Some (Inr (w', if cn_autoexit cn then 1 else 0)))) \<and>
    (\<forall>q x. w_prods w q = Some x \<longrightarrow> w_prods w' q = Some (x\<lparr>p_messages := p_messages x @
       concat (map (offered w (c_streams (cn_base cn)) q) (line_messages self now 0 ls))\<rparr>))"
proof -
  let ?c = "cn_base cn" let ?enq = "stream_Enqueue env (Suc m)" let ?S = "c_streams ?c"
  let ?cb = "console_callback ?enq self now cn" and ?eb = "enqueue_callback ?enq self now ?c"
  have fr: "fst (frames (delimiter_frame False [CHR 0x0A]) (pend s)) = ls"
    using frames_lines_rest [OF refl lines(2), of "[]" rest] lines(1,3) frames_unfinished_line [OF refl, of "CHR 0x0A" rest "[]"]
      frames_empty_line [of "[CHR 0x0A]"] by fastforce
  have part: "\<exists>u. deliver ?eb 0 xs (Some (Inr w)) = Some (Inr u) \<and>
      delivered w u (\<lambda>q. concat (map (offered w ?S q) (line_messages self now 0 xs)))" if "prefix xs ls" for xs
  proof -
    have "length ls * length ?S = (length ls - length xs) * length ?S + length xs * length ?S"
      using prefix_length_le [OF that] by (simp add: add_mult_distrib [symmetric])
    then show ?thesis
      using broadcast_input.deliver_lines [of env w "(length ls - length xs) * length ?S" xs ?c m self now 0] room env(1) by simp
  qed
  have console: "deliver ?cb 0 xs (Some (Inr (w, 0))) = then_do (deliver ?eb 0 xs (Some (Inr w))) (\<lambda>w. Some (Inr (w, 0)))" for xs
    by (simp add: console_deliver)
  have post: "readPipe_post cn None (deliver ?cb 0 xs (Some (Inr (w, 0)))) = deliver ?cb 0 xs (Some (Inr (w, 0)))" if pre: "prefix xs ls" for xs
  proof -
    from part [OF pre] obtain u ms where u: "deliver ?eb 0 xs (Some (Inr w)) = Some (Inr u)" "delivered w u ms" by blast
    have "\<not> IsFuseBurned ?c u" using env(2) delivered_burned [OF u(2)] by simp
    then show ?thesis unfolding console u(1) by (simp add: readPipe_post_def WaitOnFuse_def)
  qed
  from part [of ls] obtain u where u: "deliver ?eb 0 ls (Some (Inr w)) = Some (Inr u)"
    "delivered w u (\<lambda>q. concat (map (offered w ?S q) (line_messages self now 0 ls)))" by auto
  have e: "readPipe_post cn (Some EOF) (deliver ?cb 0 ls (Some (Inr (w, 0)))) = Some (Inr (u, if cn_autoexit cn then 1 else 0))"
    using env(2) delivered_burned [OF u(2), of ?c] unfolding console u(1) by (simp add: readPipe_post_def WaitOnFuse_def)
  have "\<exists>n b' s'. read_turns rd ?cb (readPipe_post cn) n (delimiter_reader 256 False [CHR 0x0A]) s (Some (Inr (w, 0))) =
      Some (Inr (b', s', readPipe_post cn (Some EOF) (deliver ?cb 0 (fst (frames (delimiter_frame False [CHR 0x0A]) (pend s))) (Some (Inr (w, 0))))))"
    using rd(2,3) post fr
    by (intro framed_stream.read_turns_new [OF framed_stream.intro [OF delimiter_framing rd(1)]]) (simp_all add: new_reader_ok)
  then show ?thesis using u(2) unfolding delivered_def fr e readPipe_def console_reader by blast
qed

subsection \<open>Properties\<close>


definition echo_consumer :: console_consumer where
  "echo_consumer = \<lparr>cn_base = \<lparr>c_streams = [(5, 0)], c_run = NewPluginRunState, c_fuse = None, c_tidings = Csv False '',''\<rparr>,
     cn_autoexit = False, cn_pipe = True, cn_pipeName = ''stdin'', cn_pipePerm = 0\<rparr>"


end
