(* ===== verification/FileConsumers.thy ===== *)
theory FileConsumers
  imports Consumers "HOL-Library.Multiset"
begin

text \<open>
  \<open>consumer/files.go\<close>: the consumer that walks through a directory and hands every accepted file to
  a goroutine that cuts it into slices with its splitter. The directory walker is a third-party
  iterator: its \<open>Step\<close> and \<open>SkipDir\<close> are arguments, as are \<open>filepath.Match\<close> and \<open>filepath.Base\<close>. The
  walk and the goroutines it starts are a step relation.
\<close>

subsection \<open>State and Configure\<close>

record files_consumer =
  fc_base :: consumer
  fc_readBufferGrowSize :: int
  fc_concurrency :: int
  fc_currentProcNum :: int
  fc_path :: bytes
  fc_exceptPath :: "bytes list"
  fc_acceptFile :: "bytes list"
  fc_remain :: bool
  fc_keepRunning :: bool
  fc_filesSizeMetric :: bytes
  fc_bytesMetric :: bytes
  fc_msgMetric :: bytes

definition sizeMetricTags :: "bytes list" where
  "sizeMetricTags = [''0KB'', ''1KB'', ''10KB'', ''100KB'', ''1MB'', ''10MB'', ''100MB'', ''1GB'', ''xGB'']"

definition fileBufferGrowSize :: int where "fileBufferGrowSize = 4096000"
definition fileConcurrencyNum :: int where "fileConcurrencyNum = 3"

text \<open>The path sets are maps from names to \<open>true\<close>: the list of their keys.\<close>

definition Files_metrics :: "bytes \<Rightarrow> bytes list" where
  "Files_metrics path = map (\<lambda>tag. path @ '': Size :'' @ tag) sizeMetricTags @ [path @ '': AllBytes :'', path @ '': MessageNum :'']"

definition Files_Configure :: "(bytes \<Rightarrow> tidings setup_step) \<Rightarrow> files_consumer setup_step" where
  "Files_Configure newTidings =
     setup_bind (consumer_Configure newTidings) (\<lambda>base.
     setup_bind (setup_cfg (cfg_get (GetInt ''Concurrency'' fileConcurrencyNum))) (\<lambda>concurrency.
     setup_bind (setup_cfg (cfg_get (GetInt ''ReadBufferGrowSize'' fileBufferGrowSize))) (\<lambda>grow.
     setup_bind (setup_cfg (cfg_get (GetString ''RootPath'' ''/var/log/system.log''))) (\<lambda>path.
     setup_bind (setup_cfg (cfg_get (GetStringArray ''ExceptPaths'' []))) (\<lambda>ep.
     setup_bind (setup_cfg (cfg_get (GetStringArray ''AcceptFiles'' []))) (\<lambda>ap.
     setup_bind (setup_cfg (cfg_get (GetBool ''Remain'' True))) (\<lambda>remain.
     setup_bind (setup_cfg (cfg_get (GetBool ''KeepRunning'' True))) (\<lambda>keepRunning.
     setup_world (\<lambda>w. Some (Inr (
       \<lparr>fc_base = base, fc_readBufferGrowSize = grow, fc_concurrency = concurrency,
        fc_currentProcNum = (if concurrency = 0 then 1 else 0), fc_path = path, fc_exceptPath = remdups ep, fc_acceptFile = remdups ap,
        fc_remain = remain, fc_keepRunning = keepRunning, fc_filesSizeMetric = path @ '': Size :'',
        fc_bytesMetric = path @ '': AllBytes :'', fc_msgMetric = path @ '': MessageNum :''\<rparr>,
       w\<lparr>w_metrics := fold metric_New (Files_metrics path) (w_metrics w)\<rparr>)))))))))))"

subsection \<open>Statistics\<close>

text \<open>The loop over the size in kilobytes; it leaves at the last tag.\<close>

function tag_loop :: "nat \<Rightarrow> int \<Rightarrow> nat" where
  "tag_loop idx ss =
     (if ss > 0 then (if Suc idx + 1 \<ge> length sizeMetricTags then Suc idx else tag_loop (Suc idx) (ss div 10)) else idx)"
  by pat_completeness auto
termination by (relation "measure (\<lambda>(idx, ss). nat ss)") auto

declare tag_loop.simps [simp del]

definition size_tag :: "int \<Rightarrow> nat" where
  "size_tag sz = tag_loop 0 (sz sdiv 1000)"

definition statisticFiles :: "files_consumer \<Rightarrow> int \<Rightarrow> metrics \<Rightarrow> metrics run" where
  "statisticFiles cons sz = metric_Inc (fc_filesSizeMetric cons @ sizeMetricTags ! size_tag sz)"

text \<open>What \<open>dumpMetric\<close> logs: the files per size, their sum, the bytes, and the lines of the splitter.\<close>

definition files_dumpMetric :: "files_consumer \<Rightarrow> metrics \<Rightarrow> (bytes \<times> 64 word) list" where
  "files_dumpMetric cons met =
     (let sizes = map (\<lambda>tag. (fc_filesSizeMetric cons @ tag, fst (metric_Get (fc_filesSizeMetric cons @ tag) met))) sizeMetricTags
      in sizes @ [(fc_path cons @ '': AllFiles :'', sum_list (map snd sizes)),
                  (fc_bytesMetric cons, fst (metric_Get (fc_bytesMetric cons) met))] @ DumpMetric (c_tidings (fc_base cons)) met)"

subsection \<open>Which files\<close>

definition skipFilepath ::
  "(bytes \<Rightarrow> bytes \<Rightarrow> bool) \<Rightarrow> (bytes \<Rightarrow> bytes) \<Rightarrow> files_consumer \<Rightarrow> bytes \<Rightarrow> bool \<Rightarrow> bool" where
  "skipFilepath match base cons path isFile =
     (if isFile then
        (let defAction = length (fc_acceptFile cons) > 0
         in if list_ex (\<lambda>ap. match ap (base path)) (fc_acceptFile cons) then False else defAction)
      else list_ex (\<lambda>ep. match ep path) (fc_exceptPath cons))"

text \<open>\<open>getFilepath\<close>: both functions of the standard library answer nothing on an error.\<close>

definition getFilepath :: "(bytes \<Rightarrow> bytes option) \<Rightarrow> (bytes \<Rightarrow> bytes option) \<Rightarrow> bytes \<Rightarrow> bytes" where
  "getFilepath evalSymlinks absolute path =
     (let baseFilepath = (case evalSymlinks path of None \<Rightarrow> path | Some p \<Rightarrow> p)
      in case absolute baseFilepath of None \<Rightarrow> path | Some p \<Rightarrow> p)"

subsection \<open>Processing a file\<close>

definition process_callback :: "tidings \<Rightarrow> bytes \<Rightarrow> u64 \<Rightarrow> metrics run \<Rightarrow> metrics run" where
  "process_callback t msg sq met = run_bind met (tidings_Process t msg sq)"

text \<open>
  \<open>streamRead\<close> of a file and the statistics behind it. A file that could not be opened is a nil
  file: its first read fails. A read buffer of size 0 cannot grow; \<open>make\<close> panics for a negative size.
\<close>

definition files_streamRead ::
  "('s \<Rightarrow> nat \<Rightarrow> bytes \<times> io_err option \<times> 's) \<Rightarrow> files_consumer \<Rightarrow> 's option \<Rightarrow> metrics \<Rightarrow> metrics outcome" where
  "files_streamRead rd cons file met =
     (if fc_readBufferGrowSize cons < 0 then Some (Inl (ExplicitPanic ''makeslice: len out of range''))
      else case file of
             None \<Rightarrow> Some (Inr met)
           | Some s \<Rightarrow>
               (case streamRead rd (process_callback (c_tidings (fc_base cons)))
                       (NewBufferedReader (nat (fc_readBufferGrowSize cons)) 0 0 [] (Some (Identify (c_tidings (fc_base cons))))) s (Inr met) of
                  None \<Rightarrow> None
                | Some (Inl p) \<Rightarrow> Some (Inl p)
                | Some (Inr (err, b, s, met)) \<Rightarrow> Some met))"

definition files_process ::
  "('s \<Rightarrow> nat \<Rightarrow> bytes \<times> io_err option \<times> 's) \<Rightarrow> files_consumer \<Rightarrow> 's option \<Rightarrow> int \<Rightarrow> metrics \<Rightarrow> metrics outcome" where
  "files_process rd cons file sz met =
     then_do (files_streamRead rd cons file met) (\<lambda>met.
       Some (run_bind (statisticFiles cons sz met) (metric_Add (fc_bytesMetric cons) (of_int sz))))"

subsection \<open>The walk\<close>

text \<open>What the walker answers for one step.\<close>

datatype walk_entry = WalkError | WalkDir bytes | WalkFile bytes

text \<open>
  \<open>wk_pc\<close>: at the head of the loop, with an entry before \<open>monitorConcurrency\<close> or behind it, waiting for all
  files, or done. \<open>wk_running\<close> are the files whose goroutine is not done: its length is the counter of the wait group.
\<close>

datatype walk_pc = WHead | WEntry walk_entry | WBody walk_entry | WFinal | WDone

record 'k walk =
  wk_pc :: walk_pc
  wk_iter :: 'k
  wk_cur :: int
  wk_running :: "bytes list"
  wk_started :: "bytes list"
  wk_finished :: "bytes list"

text \<open>Waiting for the goroutines: \<open>None\<close> while it blocks.\<close>

definition monitorConcurrency :: "int \<Rightarrow> 'k walk \<Rightarrow> 'k walk option" where
  "monitorConcurrency concurrency s =
     (if wk_cur s = 0 then (if wk_running s = [] then Some (s\<lparr>wk_cur := concurrency\<rparr>) else None) else Some s)"

definition waitAllComplete :: "int \<Rightarrow> 'k walk \<Rightarrow> 'k walk option" where
  "waitAllComplete concurrency s = (if wk_running s = [] then Some (s\<lparr>wk_cur := concurrency\<rparr>) else None)"

definition goConcurrency :: "bytes \<Rightarrow> 'k walk \<Rightarrow> 'k walk" where
  "goConcurrency path s = s\<lparr>wk_cur := wk_cur s - 1, wk_running := path # wk_running s, wk_started := path # wk_started s\<rparr>"

inductive walk_step ::
  "('k \<Rightarrow> (walk_entry \<times> 'k) option) \<Rightarrow> ('k \<Rightarrow> 'k) \<Rightarrow> (bytes \<Rightarrow> bool \<Rightarrow> bool) \<Rightarrow> int \<Rightarrow> 'k walk \<Rightarrow> 'k walk \<Rightarrow> bool"
  for step skipDir skip concurrency where
  k_step: "wk_pc s = WHead \<Longrightarrow> step (wk_iter s) = Some (e, it) \<Longrightarrow>
    walk_step step skipDir skip concurrency s (s\<lparr>wk_pc := WEntry e, wk_iter := it\<rparr>)"
| k_end: "wk_pc s = WHead \<Longrightarrow> step (wk_iter s) = None \<Longrightarrow> walk_step step skipDir skip concurrency s (s\<lparr>wk_pc := WFinal\<rparr>)"
| k_monitor: "wk_pc s = WEntry e \<Longrightarrow> monitorConcurrency concurrency s = Some s' \<Longrightarrow>
    walk_step step skipDir skip concurrency s (s'\<lparr>wk_pc := WBody e\<rparr>)"
| k_error: "wk_pc s = WBody WalkError \<Longrightarrow> walk_step step skipDir skip concurrency s (s\<lparr>wk_pc := WHead\<rparr>)"
| k_dir: "wk_pc s = WBody (WalkDir path) \<Longrightarrow>
    walk_step step skipDir skip concurrency s
      (s\<lparr>wk_pc := WHead, wk_iter := (if skip path False then skipDir (wk_iter s) else wk_iter s)\<rparr>)"
| k_skip: "wk_pc s = WBody (WalkFile path) \<Longrightarrow> skip path True \<Longrightarrow> walk_step step skipDir skip concurrency s (s\<lparr>wk_pc := WHead\<rparr>)"
| k_start: "wk_pc s = WBody (WalkFile path) \<Longrightarrow> \<not> skip path True \<Longrightarrow>
    walk_step step skipDir skip concurrency s (goConcurrency path (s\<lparr>wk_pc := WHead\<rparr>))"
| k_finish: "path \<in> set (wk_running s) \<Longrightarrow>
    walk_step step skipDir skip concurrency s
      (s\<lparr>wk_running := remove1 path (wk_running s), wk_finished := path # wk_finished s\<rparr>)"
| k_done: "wk_pc s = WFinal \<Longrightarrow> waitAllComplete concurrency s = Some s' \<Longrightarrow>
    walk_step step skipDir skip concurrency s (s'\<lparr>wk_pc := WDone\<rparr>)"

definition walk_init :: "files_consumer \<Rightarrow> 'k \<Rightarrow> 'k walk" where
  "walk_init cons it = \<lparr>wk_pc = WHead, wk_iter = it, wk_cur = fc_currentProcNum cons, wk_running = [], wk_started = [], wk_finished = []\<rparr>"

subsection \<open>Lemmas\<close>

lemma tag_loop_spec:
  "idx \<le> 7 \<Longrightarrow> 0 < ss \<Longrightarrow> tag_loop idx ss = k \<longleftrightarrow> idx < k \<and> k \<le> 8 \<and> 10 ^ (k - idx - 1) \<le> ss \<and> (k = 8 \<or> ss < 10 ^ (k - idx))"
proof (induction idx ss rule: tag_loop.induct)
  case (1 idx ss)
  show ?case
  proof (cases "idx = 7")
    case True
    then show ?thesis using 1(3) by (subst tag_loop.simps) (auto simp: sizeMetricTags_def le_Suc_eq)
  next
    case False
    with 1(2) have idx: "Suc idx \<le> 7" by simp
    have u: "tag_loop idx ss = tag_loop (Suc idx) (ss div 10)"
      using 1(3) idx by (subst tag_loop.simps) (simp add: sizeMetricTags_def)
    show ?thesis
    proof (cases "ss div 10 > 0")
      case True
      have IH: "tag_loop (Suc idx) (ss div 10) = k \<longleftrightarrow> Suc idx < k \<and> k \<le> 8 \<and> 10 ^ (k - Suc idx - 1) \<le> ss div 10 \<and>
          (k = 8 \<or> ss div 10 < 10 ^ (k - Suc idx))"
        using 1 idx True by (intro 1(1)) (simp_all add: sizeMetricTags_def)
      show ?thesis
      proof (cases "Suc idx < k")
        case True
        then obtain m where k: "k = Suc (Suc (idx + m))" using less_iff_Suc_add by auto
        have d: "n \<le> ss div 10 \<longleftrightarrow> 10 * n \<le> ss" "ss div 10 < n \<longleftrightarrow> ss < 10 * n" for n by presburger+
        show ?thesis using IH u idx unfolding k by (simp add: d)
      next
        case False
        have "\<not> ss < 10" using \<open>ss div 10 > 0\<close> by linarith
        then show ?thesis using IH u False idx by (auto simp: not_less le_Suc_eq less_Suc_eq)
      qed
    next
      case False
      then have "ss < 10" by linarith
      moreover have "tag_loop (Suc idx) (ss div 10) = Suc idx" using False by (subst tag_loop.simps) simp
      moreover have "k = Suc idx" if "idx < k" "10 ^ (k - idx - 1) \<le> ss"
      proof (rule ccontr)
        assume "k \<noteq> Suc idx"
        with that(1) obtain m where "k = Suc (Suc (idx + m))" by (metis less_iff_Suc_add Suc_lessI add_Suc)
        then have "(10 :: int) ^ Suc m \<le> ss" using that(2) by simp
        moreover have "(10 :: int) \<le> 10 ^ Suc m" by simp
        ultimately show False using \<open>ss < 10\<close> by linarith
      qed
      ultimately show ?thesis using u idx 1(3) by auto
    qed
  qed
qed

text \<open>The accounting of the walk; \<open>cur\<close> is what may still be started before the next wait.\<close>

definition walk_inv :: "int \<Rightarrow> 'k walk \<Rightarrow> bool" where
  "walk_inv concurrency s \<longleftrightarrow> 0 \<le> wk_cur s \<and> (wk_pc s \<noteq> WDone \<longrightarrow> wk_cur s + int (length (wk_running s)) \<le> concurrency) \<and>
     (wk_pc s = WDone \<longrightarrow> wk_running s = []) \<and> (\<forall>e. wk_pc s = WBody e \<longrightarrow> 0 < wk_cur s) \<and>
     mset (wk_started s) = mset (wk_running s) + mset (wk_finished s)"

lemma walk_inv_step:
  assumes "0 < concurrency"
  shows "walk_step step skipDir skip concurrency s s' \<Longrightarrow> walk_inv concurrency s \<Longrightarrow> walk_inv concurrency s'"
proof (induction rule: walk_step.induct)
  case (k_finish path s)
  then have "length (remove1 path (wk_running s)) = length (wk_running s) - 1" "wk_running s \<noteq> []"
    by (auto simp: length_remove1)
  then have "int (length (remove1 path (wk_running s))) \<le> int (length (wk_running s))" by simp
  with k_finish show ?case by (auto simp: walk_inv_def)
qed (use assms in \<open>auto simp: walk_inv_def monitorConcurrency_def waitAllComplete_def goConcurrency_def split: if_splits\<close>)

lemma walk_reachable:
  assumes "0 < concurrency" "(walk_step step skipDir skip concurrency)\<^sup>*\<^sup>* s s'" "walk_inv concurrency s"
  shows "walk_inv concurrency s'"
  using assms(2,3) by (induction rule: rtranclp_induct) (auto intro: walk_inv_step [OF assms(1)])

text \<open>With a concurrency that is not positive the counter runs below 0 and the loop never waits: every accepted
  file is started at once.\<close>

lemma walk_unbounded:
  assumes "wk_pc s = WHead" "wk_cur s < 0" "\<And>it. \<exists>path it'. step it = Some (WalkFile path, it') \<and> \<not> skip path True"
  shows "\<exists>s'. (walk_step step skipDir skip concurrency)\<^sup>*\<^sup>* s s' \<and> length (wk_running s') = n + length (wk_running s)"
  using assms(1,2)
proof (induction n arbitrary: s)
  case 0
  then show ?case by auto
next
  case (Suc n)
  obtain path it where p: "step (wk_iter s) = Some (WalkFile path, it)" "\<not> skip path True" using assms(3) by blast
  let ?a = "s\<lparr>wk_pc := WEntry (WalkFile path), wk_iter := it\<rparr>" let ?b = "?a\<lparr>wk_pc := WBody (WalkFile path)\<rparr>"
  let ?c = "goConcurrency path (?b\<lparr>wk_pc := WHead\<rparr>)"
  have 1: "walk_step step skipDir skip concurrency s ?a" using Suc.prems p by (intro k_step)
  have 2: "walk_step step skipDir skip concurrency ?a ?b"
    using Suc.prems by (intro k_monitor) (simp_all add: monitorConcurrency_def)
  have 3: "walk_step step skipDir skip concurrency ?b ?c" using p by (intro k_start) simp_all
  obtain s' where "(walk_step step skipDir skip concurrency)\<^sup>*\<^sup>* ?c s'" "length (wk_running s') = n + length (wk_running ?c)"
    using Suc.IH [of ?c] Suc.prems by (auto simp: goConcurrency_def)
  then show ?case using 1 2 3 by (intro exI [of _ s']) (simp add: converse_rtranclp_into_rtranclp goConcurrency_def)
qed

lemma process_slices:
  assumes "met m = Some v"
  shows "deliver (process_callback (Profile n m)) sq ms (Inr met) = Inr (met(m \<mapsto> v + of_nat (length ms)))"
  using assms
proof (induction ms arbitrary: sq met v)
  case Nil
  then show ?case by (simp add: fun_upd_idem)
next
  case (Cons x xs)
  have "deliver (process_callback (Profile n m)) (sq + 1) xs (Inr (met(m \<mapsto> v + 1))) = Inr ((met(m \<mapsto> v + 1))(m \<mapsto> v + 1 + of_nat (length xs)))"
    by (rule Cons.IH) simp
  moreover have "process_callback (Profile n m) x sq (Inr met) = Inr (met(m \<mapsto> v + 1))"
    using Cons.prems by (simp add: process_callback_def metric_defs metric_update_def)
  ultimately show ?case by (simp only: deliver.simps fun_upd_upd list.size of_nat_Suc add.assoc) (simp add: add.commute fun_upd_def)
qed

subsection \<open>Properties\<close>

text \<open>C22: the walk keeps its bound and loses no file: with a positive concurrency, at every moment, whatever the
  order in which the goroutines end, at most that many files are being processed, every file that was started is
  either being processed or finished, once, and when the walk is complete all started files are finished.\<close>

theorem files_walk_bounded:
  assumes "0 < fc_concurrency cons" "fc_currentProcNum cons = 0"
    "(walk_step step skipDir skip (fc_concurrency cons))\<^sup>*\<^sup>* (walk_init cons it) s"
  shows "int (length (wk_running s)) \<le> fc_concurrency cons \<and> mset (wk_started s) = mset (wk_running s) + mset (wk_finished s) \<and>
    (wk_pc s = WDone \<longrightarrow> mset (wk_finished s) = mset (wk_started s))"
proof -
  have "walk_inv (fc_concurrency cons) (walk_init cons it)" using assms(1,2) by (simp add: walk_inv_def walk_init_def)
  from walk_reachable [OF assms(1,3) this] show ?thesis using assms(1)
    by (cases "wk_pc s = WDone") (auto simp: walk_inv_def)
qed

definition a_files_consumer :: files_consumer where
  "a_files_consumer = \<lparr>fc_base = \<lparr>c_streams = [], c_run = NewPluginRunState, c_fuse = None, c_tidings = Profile 4 ''n''\<rparr>,
     fc_readBufferGrowSize = 8, fc_concurrency = 1, fc_currentProcNum = 0, fc_path = ''/'', fc_exceptPath = [], fc_acceptFile = [],
     fc_remain = True, fc_keepRunning = True, fc_filesSizeMetric = ''s'', fc_bytesMetric = ''b'', fc_msgMetric = ''m''\<rparr>"

theorem files_walk_bounded_witness:
  "\<exists>s. (walk_step (\<lambda>it. case it of [] \<Rightarrow> None | e # es \<Rightarrow> Some (e, es)) id (\<lambda>path isFile. False) 1)\<^sup>*\<^sup>*
      (walk_init a_files_consumer [WalkFile ''a'', WalkFile ''b'']) s \<and> wk_started s = [''a''] \<and> int (length (wk_running s)) \<le> 1"
proof -
  let ?R = "walk_step (\<lambda>it. case it of [] \<Rightarrow> None | e # es \<Rightarrow> Some (e, es)) id (\<lambda>path isFile. False) (1 :: int)"
  let ?w = "\<lambda>pc it cur r. \<lparr>wk_pc = pc, wk_iter = it, wk_cur = cur, wk_running = r, wk_started = r, wk_finished = []\<rparr>"
  let ?a = "WalkFile ''a''" let ?b = "WalkFile ''b''"
  have 1: "?R (?w WHead [?a, ?b] 0 []) (?w (WEntry ?a) [?b] 0 [])"
    using k_step [of "?w WHead [?a, ?b] 0 []" "\<lambda>it. case it of [] \<Rightarrow> None | e # es \<Rightarrow> Some (e, es)" ?a "[?b]"] by simp
  have 2: "?R (?w (WEntry ?a) [?b] 0 []) (?w (WBody ?a) [?b] 1 [])" using k_monitor [of "?w (WEntry ?a) [?b] 0 []" ?a 1 "?w (WEntry ?a) [?b] 1 []"] by (simp add: monitorConcurrency_def)
  have 3: "?R (?w (WBody ?a) [?b] 1 []) (?w WHead [?b] 0 [''a''])" using k_start [of "?w (WBody ?a) [?b] 1 []" "''a''" "\<lambda>path isFile. False"] by (simp add: goConcurrency_def)
  have i: "walk_init a_files_consumer [?a, ?b] = ?w WHead [?a, ?b] 0 []" by (simp add: walk_init_def a_files_consumer_def)
  have r: "?R\<^sup>*\<^sup>* (walk_init a_files_consumer [?a, ?b]) (?w WHead [?b] 0 [''a''])"
    unfolding i by (rule converse_rtranclp_into_rtranclp [OF 1 converse_rtranclp_into_rtranclp [OF 2 r_into_rtranclp [where r = ?R, OF 3]]])
  have c: "fc_concurrency a_files_consumer = 1" "fc_currentProcNum a_files_consumer = 0" by (simp_all add: a_files_consumer_def)
  from files_walk_bounded [of a_files_consumer "\<lambda>it. case it of [] \<Rightarrow> None | e # es \<Rightarrow> Some (e, es)" id "\<lambda>path isFile. False",
      unfolded c, OF _ _ r] r
  show ?thesis by (intro exI [of _ "?w WHead [?b] 0 [''a'']"]) simp
qed

text \<open>C24: a file is counted under the tag of its size: the tags are the powers of ten from a thousand bytes to ten
  thousand million, tag 0 is for files below a thousand bytes and the last one has no upper bound.\<close>

theorem files_size_tags:
  assumes "0 \<le> sz" "sz < 2 ^ 63"
  shows "size_tag sz < length sizeMetricTags \<and>
    (size_tag sz = k \<longleftrightarrow> k \<le> 8 \<and> (k = 0 \<or> 10 ^ (k + 2) \<le> sz) \<and> (k = 8 \<or> sz < 10 ^ (k + 3)))"
proof -
  have q: "sz sdiv 1000 = sz div 1000" using assms(1) by (cases "sz = 0") (simp_all add: signed_divide_int_def)
  have k: "size_tag sz = k \<longleftrightarrow> k \<le> 8 \<and> (k = 0 \<or> 10 ^ (k + 2) \<le> sz) \<and> (k = 8 \<or> sz < 10 ^ (k + 3))" for k
  proof (cases "0 < sz div 1000")
    case True
    have d: "n \<le> sz div 1000 \<longleftrightarrow> 1000 * n \<le> sz" "sz div 1000 < n \<longleftrightarrow> sz < 1000 * n" for n by (intro iffI; linarith)+
    have "1000 \<le> sz" using True by linarith
    moreover have "size_tag sz = k \<longleftrightarrow> 0 < k \<and> k \<le> 8 \<and> 10 ^ (k - 1) \<le> sz div 1000 \<and> (k = 8 \<or> sz div 1000 < 10 ^ k)"
      using tag_loop_spec [of 0 "sz div 1000" k] True q by (simp add: size_tag_def)
    ultimately show ?thesis by (cases k) (simp_all add: d power_add)
  next
    case False
    then have "sz < 1000" by linarith
    moreover have "size_tag sz = 0" using False q by (simp add: size_tag_def tag_loop.simps)
    moreover have "(1000 :: int) \<le> 10 ^ (k + 2)" if "0 < k" using that by (cases k) simp_all
    ultimately show ?thesis by (cases "k = 0") fastforce+
  qed
  from k [of "size_tag sz"] have "size_tag sz \<le> 8" by simp
  with k [of k] show ?thesis by (simp add: sizeMetricTags_def)
qed

theorem files_size_tags_witness: "size_tag 123456 = 3 \<and> sizeMetricTags ! 3 = ''100KB''"
  using files_size_tags [of 123456 3] by (simp add: sizeMetricTags_def)

text \<open>C23: processing a file with the profile splitter counts it right, however it is read: the splitter's metric goes
  up by the number of whole slices in the file, the remainder is not counted, the metric of the file's size by one and
  the metric of bytes by its size; no other metric changes.\<close>

theorem files_process_counts:
  assumes "byte_reader rd pend ok" "ok s" "length (pend s) + 2 * nat (fc_readBufferGrowSize cons) < 2 ^ 62"
    and "0 < fc_readBufferGrowSize cons" "c_tidings (fc_base cons) = Profile n m" "0 < n" "n < 2 ^ 62"
    and "tag = fc_filesSizeMetric cons @ sizeMetricTags ! size_tag sz" "distinct [m, tag, fc_bytesMetric cons]"
    and "met m = Some v" "met tag = Some t" "met (fc_bytesMetric cons) = Some b"
  shows "files_process rd cons (Some s) sz met = Some (Inr (met(m \<mapsto> v + of_nat (length (pend s) div nat n), tag \<mapsto> t + 1,
    fc_bytesMetric cons \<mapsto> b + of_int sz)))"
proof -
  let ?t = "Profile n m" let ?k = "nat (fc_readBufferGrowSize cons)"
  have sl: "slice_size ?t = nat n" "small_slices ?t" using assms(6,7) by (simp_all add: slice_size_def small_slices_def)
  obtain b' s' where "streamRead rd (process_callback ?t) (tidings_reader ?k ?t) s (Inr met) =
      Some (Inr (EOF, b', s', Inr (met(m \<mapsto> v + of_nat (length (pend s) div nat n)))))"
    using tidings_streamRead [OF assms(1,2), of ?k ?t "process_callback ?t" "Inr met"] assms(3,4,6) sl
      process_slices [of met m v n 0 "slices (length (pend s) div nat n) (nat n) (pend s)"] assms(10) by auto
  then have "files_streamRead rd cons (Some s) met = Some (Inr (met(m \<mapsto> v + of_nat (length (pend s) div nat n))))"
    using assms(4,5) by (simp add: files_streamRead_def tidings_reader_def)
  moreover have "m \<noteq> tag" "m \<noteq> fc_bytesMetric cons" "tag \<noteq> fc_bytesMetric cons" "tag \<noteq> m" "fc_bytesMetric cons \<noteq> m" "fc_bytesMetric cons \<noteq> tag"
    using assms(9) by auto
  ultimately show ?thesis using assms(10-12)
    by (simp add: files_process_def statisticFiles_def metric_defs metric_update_def assms(8) [symmetric])
qed

theorem files_process_counts_witness:
  "files_process stream_Read a_files_consumer (Some (NewByteStreamFrom ''0123456789'')) 10 [''n'' \<mapsto> 0, ''s0KB'' \<mapsto> 5, ''b'' \<mapsto> 0] =
     Some (Inr [''n'' \<mapsto> 2, ''s0KB'' \<mapsto> 6, ''b'' \<mapsto> 10])"
proof -
  have p: "stream_rest (NewByteStreamFrom ''0123456789'') = ''0123456789''"
    by (simp add: stream_rest_def stream_Bytes_def NewByteStreamFrom_def)
  have z: "sizeMetricTags ! size_tag 10 = ''0KB''" by (simp add: size_tag_def tag_loop.simps sizeMetricTags_def)
  have "files_process stream_Read a_files_consumer (Some (NewByteStreamFrom ''0123456789'')) 10 [''n'' \<mapsto> 0, ''s0KB'' \<mapsto> 5, ''b'' \<mapsto> 0] =
     Some (Inr ([''n'' \<mapsto> 0, ''s0KB'' \<mapsto> 5, ''b'' \<mapsto> 0](''n'' \<mapsto> 0 + of_nat (length (stream_rest (NewByteStreamFrom ''0123456789'')) div nat 4),
       ''s0KB'' \<mapsto> 5 + 1, fc_bytesMetric a_files_consumer \<mapsto> 0 + of_int 10)))"
    by (rule files_process_counts [OF stream_reader.byte_reader_axioms])
       (simp_all add: z stream_ok_def NewByteStreamFrom_def a_files_consumer_def stream_rest_def stream_Bytes_def)
  then show ?thesis by (simp add: p a_files_consumer_def fun_upd_twist)
qed

end
