(* ===== verification/Profilers.thy ===== *)
theory Profilers
  imports Consumers
begin

text \<open>
  \<open>consumer/profiler.go\<close>: message templates from a format string, and the batches of messages sent with
  them. The random source is a sequence of draws, read by position: \<open>rand.Intn(n)\<close> is the next draw modulo \<open>n\<close>.
  \<open>fmt.Sprintf\<close> is a parameter, and so is the conversion of a power of ten that is no 64 bit integer.
  The times that are measured and logged are left out.
\<close>

subsection \<open>State and Configure\<close>

record profiler =
  pr_base :: consumer
  pr_profileRuns :: int
  pr_batches :: int
  pr_templates :: "bytes list"
  pr_chars :: bytes
  pr_message :: bytes
  pr_delay :: int
  pr_keepRunning :: bool

definition profilerDefaultCharacters :: bytes where
  "profilerDefaultCharacters = ''abcdefghijklmnopqrstuvwxyzABCDEFGHIJKLMNOPQRSTUVWXYZ01234567890 ''"

definition Profiler_Configure :: "(bytes \<Rightarrow> tidings setup_step) \<Rightarrow> profiler setup_step" where
  "Profiler_Configure newTidings =
     setup_bind (consumer_Configure newTidings) (\<lambda>base.
     setup_bind (setup_cfg (cfg_get (GetInt ''TemplateCount'' 10))) (\<lambda>numTemplates.
     setup_bind (setup_cfg (cfg_get (GetInt ''Runs'' 10000))) (\<lambda>runs.
     setup_bind (setup_cfg (cfg_get (GetInt ''Batches'' 10))) (\<lambda>batches.
     setup_bind (setup_cfg (cfg_get (GetString ''Characters'' profilerDefaultCharacters))) (\<lambda>chars.
     setup_bind (setup_cfg (cfg_get (GetString ''Message'' ''%# %256s''))) (\<lambda>message.
     if numTemplates < 0 then setup_panic (ExplicitPanic ''makeslice: len out of range'')
     else
       setup_bind (setup_cfg (cfg_get (GetBool ''KeepRunning'' False))) (\<lambda>keepRunning.
       setup_bind (setup_cfg (cfg_get (GetInt ''DelayMs'' 0))) (\<lambda>delay.
       setup_return \<lparr>pr_base = base, pr_profileRuns = runs, pr_batches = batches,
         pr_templates = replicate (nat numTemplates) [], pr_chars = chars, pr_message = message,
         pr_delay = int64 (int64 delay * 1000000), pr_keepRunning = keepRunning\<rparr>))))))))"

subsection \<open>Templates\<close>

text \<open>The values a template is formatted with; a float is given by its draw and its power of ten.\<close>

datatype dummy_value =
    DFloat nat int
  | DRune int
  | DInt int
  | DString bytes

record profile_env =
  pe_draw :: "nat \<Rightarrow> nat"
  pe_sprintf :: "bytes \<Rightarrow> dummy_value list \<Rightarrow> bytes"
  pe_bigpow :: "int \<Rightarrow> int"
  pe_now :: "u64 \<Rightarrow> int"

definition Intn :: "profile_env \<Rightarrow> int \<Rightarrow> nat \<Rightarrow> (int \<times> nat) run" where
  "Intn env n k = (if n \<le> 0 then Inl (ExplicitPanic ''invalid argument to Intn'') else Inr (int (pe_draw env k) mod n, Suc k))"

text \<open>\<open>int(math.Pow10(size))\<close>\<close>

definition pow10_int :: "profile_env \<Rightarrow> int \<Rightarrow> int" where
  "pow10_int env n = (if 0 \<le> n \<and> n \<le> 18 then 10 ^ nat n else pe_bigpow env n)"

fun rand_chars :: "profile_env \<Rightarrow> bytes \<Rightarrow> nat \<Rightarrow> nat \<Rightarrow> (bytes \<times> nat) run" where
  "rand_chars env chars 0 k = Inr ([], k)"
| "rand_chars env chars (Suc n) k =
     run_bind (Intn env (int (length chars)) k) (\<lambda>(i, k).
     run_bind (rand_chars env chars n k) (\<lambda>(cs, k). Inr (chars ! nat i # cs, k)))"

definition generateString :: "profile_env \<Rightarrow> bytes \<Rightarrow> int \<Rightarrow> nat \<Rightarrow> (bytes \<times> nat) run" where
  "generateString env chars n k =
     (if n < 0 then Inl (ExplicitPanic ''makeslice: len out of range'') else rand_chars env chars (nat n) k)"

text \<open>The digits in front of a verb, and what follows them.\<close>

fun format_size :: "bytes \<Rightarrow> int \<Rightarrow> int \<times> bytes" where
  "format_size [] n = (n, [])"
| "format_size (c # cs) n = (if is_digit c then format_size cs (int64 (n * 10 + int (digit_val c))) else (n, c # cs))"

definition verb_value :: "profile_env \<Rightarrow> bytes \<Rightarrow> char \<Rightarrow> int \<Rightarrow> nat \<Rightarrow> (dummy_value list \<times> nat) run" where
  "verb_value env chars verb n k =
     (if verb = CHR ''%'' then Inr ([], k)
      else if verb \<in> set ''eEfFgG'' then Inr ([DFloat (pe_draw env k) n], Suc k)
      else if verb \<in> set ''Uc'' then run_bind (Intn env 65536 k) (\<lambda>(r, k). Inr ([DRune (r + 32)], k))
      else if verb \<in> set ''dboxX'' then run_bind (Intn env (pow10_int env n) k) (\<lambda>(i, k). Inr ([DInt i], k))
      else run_bind (generateString env chars n k) (\<lambda>(s, k). Inr ([DString s], k)))"

text \<open>A directive: \<open>rest\<close> is the message behind the percent sign.\<close>

definition format_directive :: "profile_env \<Rightarrow> bytes \<Rightarrow> bytes \<Rightarrow> nat \<Rightarrow> (dummy_value list \<times> nat) run" where
  "format_directive env chars rest k =
     (case format_size rest 0 of (n, rest) \<Rightarrow>
      case rest of
        [] \<Rightarrow> Inl IndexOutOfRange
      | c # cs \<Rightarrow>
          (case (if c = CHR ''.'' then dropWhile is_digit cs else c # cs) of
             [] \<Rightarrow> Inl IndexOutOfRange
           | verb # _ \<Rightarrow> verb_value env chars verb (if n = 0 then 1 else n) k))"

fun template_values :: "profile_env \<Rightarrow> bytes \<Rightarrow> bytes \<Rightarrow> nat \<Rightarrow> (dummy_value list \<times> nat) run" where
  "template_values env chars [] k = Inr ([], k)"
| "template_values env chars (c # cs) k =
     (if c = CHR ''%''
      then run_bind (format_directive env chars cs k) (\<lambda>(vs, k).
           run_bind (template_values env chars cs k) (\<lambda>(ws, k). Inr (vs @ ws, k)))
      else template_values env chars cs k)"

definition generateTemplate :: "profile_env \<Rightarrow> profiler \<Rightarrow> nat \<Rightarrow> (bytes \<times> nat) run" where
  "generateTemplate env cons k =
     run_bind (template_values env (pr_chars cons) (pr_message cons) k) (\<lambda>(vs, k). Inr (pe_sprintf env (pr_message cons) vs, k))"

fun generate_all :: "profile_env \<Rightarrow> profiler \<Rightarrow> nat \<Rightarrow> nat \<Rightarrow> (bytes list \<times> nat) run" where
  "generate_all env cons 0 k = Inr ([], k)"
| "generate_all env cons (Suc n) k =
     run_bind (generateTemplate env cons k) (\<lambda>(t, k).
     run_bind (generate_all env cons n k) (\<lambda>(ts, k). Inr (t # ts, k)))"

subsection \<open>Batches\<close>

text \<open>
  \<open>active b i\<close> is what \<open>IsActive\<close> answers in batch \<open>b\<close> before message \<open>i\<close>, \<open>begins b\<close> what it answers before the
  batch. The state is the number of messages, the position in the draws, and the world.
\<close>

fun profile_runs ::
  "profile_env \<Rightarrow> enqueue \<Rightarrow> nat \<Rightarrow> (int \<Rightarrow> int \<Rightarrow> bool) \<Rightarrow> profiler \<Rightarrow> int \<Rightarrow> nat \<Rightarrow> int \<Rightarrow> nat \<times> nat \<times> world \<Rightarrow> (nat \<times> nat \<times> world) outcome" where
  "profile_runs env enq self active cons b 0 i st = Some (Inr st)"
| "profile_runs env enq self active cons b (Suc n) i (count, k, w) =
     (if \<not> active b i then Some (Inr (count, k, w))
      else then_do (WaitOnFuse (pr_base cons) w) (\<lambda>w.
        case Intn env (int (length (pr_templates cons))) k of
          Inl p \<Rightarrow> Some (Inl p)
        | Inr (j, k) \<Rightarrow>
            let sequence = of_int (b * pr_profileRuns cons + i)
            in then_do (EnqueueCopy enq self (pe_now env sequence) (pr_base cons) (pr_templates cons ! nat j) sequence w) (\<lambda>w.
                 profile_runs env enq self active cons b n (i + 1) (Suc count, k, w))))"

fun profile_batches ::
  "profile_env \<Rightarrow> enqueue \<Rightarrow> nat \<Rightarrow> (int \<Rightarrow> bool) \<Rightarrow> (int \<Rightarrow> int \<Rightarrow> bool) \<Rightarrow> profiler \<Rightarrow> nat \<Rightarrow> int \<Rightarrow> nat \<times> nat \<times> world \<Rightarrow>
     (nat \<times> nat \<times> world) outcome" where
  "profile_batches env enq self begins active cons 0 b st = Some (Inr st)"
| "profile_batches env enq self begins active cons (Suc n) b st =
     (if \<not> begins b then Some (Inr st)
      else then_do (profile_runs env enq self active cons b (nat (pr_profileRuns cons)) 0 st) (\<lambda>st.
        if pr_profileRuns cons = 0 then Some (Inl DivideByZero)
        else profile_batches env enq self begins active cons n (b + 1) st))"

text \<open>The result: the number of messages, whether the program interrupts itself, and the world.\<close>

definition profile ::
  "profile_env \<Rightarrow> enqueue \<Rightarrow> nat \<Rightarrow> (int \<Rightarrow> bool) \<Rightarrow> (int \<Rightarrow> int \<Rightarrow> bool) \<Rightarrow> bool \<Rightarrow> profiler \<Rightarrow> world \<Rightarrow> (nat \<times> bool \<times> world) outcome" where
  "profile env enq self begins active ends cons w =
     (case generate_all env cons (length (pr_templates cons)) 0 of
        Inl p \<Rightarrow> Some (Inl p)
      | Inr (templates, k) \<Rightarrow>
          then_do (profile_batches env enq self begins active (cons\<lparr>pr_templates := templates\<rparr>) (nat (pr_batches cons)) 0 (0, k, w))
            (\<lambda>(count, k, w). Some (Inr (count, ends \<and> \<not> pr_keepRunning cons, w))))"

subsection \<open>Lemmas\<close>

lemma Intn_ok: "0 < n \<Longrightarrow> Intn env n k = Inr (int (pe_draw env k) mod n, Suc k)"
  by (simp add: Intn_def)

lemma rand_chars_ok: "chars \<noteq> [] \<Longrightarrow> \<exists>s. rand_chars env chars n k = Inr (s, k + n) \<and> length s = n \<and> set s \<subseteq> set chars"
proof (induction n arbitrary: k)
  case (Suc n)
  have i: "nat (int (pe_draw env k) mod int (length chars)) < length chars" using Suc.prems by (simp add: nat_less_iff)
  obtain s where "rand_chars env chars n (Suc k) = Inr (s, Suc k + n)" "length s = n" "set s \<subseteq> set chars"
    using Suc.IH [OF Suc.prems] by blast
  with i Suc.prems show ?case by (simp add: Intn_ok)
qed simp

text \<open>The part of a message behind a percent sign holds no verb: the directive runs to the end.\<close>

definition no_verb :: "bytes \<Rightarrow> bool" where
  "no_verb rest \<longleftrightarrow> (case dropWhile is_digit rest of [] \<Rightarrow> True | c # cs \<Rightarrow> c = CHR ''.'' \<and> list_all is_digit cs)"

text \<open>The sizes a format string may ask for: at most 18 digits, so that the powers of ten are exact.\<close>

definition small_size :: "bytes \<Rightarrow> bool" where
  "small_size rest \<longleftrightarrow> (case format_size rest 0 of (n, rest) \<Rightarrow> 0 \<le> n \<and> n \<le> 18)"

fun small_sizes :: "bytes \<Rightarrow> bool" where
  "small_sizes [] = True"
| "small_sizes (c # cs) = ((c = CHR ''%'' \<longrightarrow> small_size cs) \<and> small_sizes cs)"

fun cut_directive :: "bytes \<Rightarrow> bool" where
  "cut_directive [] = False"
| "cut_directive (c # cs) = (c = CHR ''%'' \<and> no_verb cs \<or> cut_directive cs)"

lemma cut_directive_iff: "cut_directive m \<longleftrightarrow> (\<exists>pre suf. m = pre @ ''%'' @ suf \<and> no_verb suf)"
proof (induction m)
  case (Cons c cs)
  show ?case
  proof
    assume "cut_directive (c # cs)"
    then consider "c # cs = [] @ ''%'' @ cs" "no_verb cs" | "cut_directive cs" by auto
    then show "\<exists>pre suf. c # cs = pre @ ''%'' @ suf \<and> no_verb suf"
    proof cases
      case 1
      then show ?thesis by blast
    next
      case 2
      with Cons obtain pre suf where "cs = pre @ ''%'' @ suf" "no_verb suf" by blast
      then show ?thesis by (intro exI [of _ "c # pre"] exI [of _ suf]) simp
    qed
  next
    assume "\<exists>pre suf. c # cs = pre @ ''%'' @ suf \<and> no_verb suf"
    then show "cut_directive (c # cs)" using Cons by (auto simp: Cons_eq_append_conv)
  qed
qed simp

lemma format_size_rest: "snd (format_size rest n) = dropWhile is_digit rest"
  by (induction rest n rule: format_size.induct) auto

lemma verb_value_ok:
  assumes "chars \<noteq> []" "0 < n" "n \<le> 18"
  shows "\<exists>vs k'. verb_value env chars verb n k = Inr (vs, k')"
proof -
  have "0 < pow10_int env n" using assms by (simp add: pow10_int_def)
  moreover obtain s where "rand_chars env chars (nat n) k = Inr (s, k + nat n)" using rand_chars_ok [OF assms(1)] by blast
  ultimately show ?thesis using assms by (simp add: verb_value_def Intn_ok generateString_def)
qed

lemma dropWhile_digits: "dropWhile is_digit cs = [] \<longleftrightarrow> list_all is_digit cs"
  by (induction cs) auto

lemma format_directive_ok:
  assumes "chars \<noteq> []" "small_size rest"
  shows "(\<exists>vs k'. format_directive env chars rest k = Inr (vs, k')) \<longleftrightarrow> \<not> no_verb rest"
    "no_verb rest \<Longrightarrow> format_directive env chars rest k = Inl IndexOutOfRange"
proof -
  obtain n r where f: "format_size rest 0 = (n, r)" by fastforce
  have r: "r = dropWhile is_digit rest" using format_size_rest [of rest 0] f by simp
  have n: "0 < (if n = 0 then 1 else n)" "(if n = 0 then 1 else n) \<le> 18" using assms(2) f by (auto simp: small_size_def)
  have v: "\<exists>vs k'. verb_value env chars verb (if n = 0 then 1 else n) k = Inr (vs, k')" for verb
    by (rule verb_value_ok [OF assms(1) n])
  have d: "format_directive env chars rest k = (case r of [] \<Rightarrow> Inl IndexOutOfRange | c # cs \<Rightarrow>
      (case (if c = CHR ''.'' then dropWhile is_digit cs else c # cs) of [] \<Rightarrow> Inl IndexOutOfRange
        | verb # _ \<Rightarrow> verb_value env chars verb (if n = 0 then 1 else n) k))"
    using f by (simp add: format_directive_def)
  show panic: "format_directive env chars rest k = Inl IndexOutOfRange" if "no_verb rest"
    using that unfolding d no_verb_def r [symmetric] by (cases r) (auto simp: dropWhile_digits [THEN iffD2])
  have "\<exists>vs k'. format_directive env chars rest k = Inr (vs, k')" if "\<not> no_verb rest"
    using that v dropWhile_digits unfolding d no_verb_def r [symmetric] by (cases r) (auto split: list.splits)
  with panic show "(\<exists>vs k'. format_directive env chars rest k = Inr (vs, k')) \<longleftrightarrow> \<not> no_verb rest" by fastforce
qed

lemma template_values_panics:
  assumes "chars \<noteq> []" "small_sizes m"
  shows "if cut_directive m then template_values env chars m k = Inl IndexOutOfRange
    else \<exists>vs k'. template_values env chars m k = Inr (vs, k')"
  using assms(2)
proof (induction m arbitrary: k)
  case (Cons c cs)
  show ?case
  proof (cases "c = CHR ''%''")
    case False
    with Cons show ?thesis by auto
  next
    case True
    show ?thesis
    proof (cases "no_verb cs")
      case True
      then show ?thesis using format_directive_ok(2) [OF assms(1), of cs env k] Cons.prems \<open>c = _\<close> by simp
    next
      case False
      then obtain vs k' where d: "format_directive env chars cs k = Inr (vs, k')"
        using format_directive_ok(1) [OF assms(1), of cs env k] Cons.prems \<open>c = _\<close> by auto
      show ?thesis using Cons.IH [of k'] Cons.prems False \<open>c = _\<close> d by (auto split: if_splits)
    qed
  qed
qed simp

text \<open>The messages of a run: \<open>s\<close> is the first sequence number, \<open>k\<close> the position in the draws.\<close>

definition profile_message :: "profile_env \<Rightarrow> nat \<Rightarrow> bytes list \<Rightarrow> int \<Rightarrow> nat \<Rightarrow> message" where
  "profile_message env self ts s k =
     NewMessage (Some self) (ts ! (pe_draw env k mod length ts)) (of_int s) (pe_now env (of_int s))"

definition profile_messages :: "profile_env \<Rightarrow> nat \<Rightarrow> bytes list \<Rightarrow> int \<Rightarrow> nat \<Rightarrow> nat \<Rightarrow> message list" where
  "profile_messages env self ts s k n = map (\<lambda>j. profile_message env self ts (s + int j) (k + j)) [0..<n]"

lemma profile_messages_0 [simp]: "profile_messages env self ts s k 0 = []"
  by (simp add: profile_messages_def)

lemma profile_messages_append:
  "profile_messages env self ts s k (m + n) = profile_messages env self ts s k m @ profile_messages env self ts (s + int m) (k + m) n"
  by (rule nth_equalityI) (auto simp: profile_messages_def nth_append algebra_simps)

lemma profile_messages_Suc:
  "profile_messages env self ts s k (Suc n) = profile_message env self ts s k # profile_messages env self ts (s + 1) (Suc k) n"
  using profile_messages_append [of env self ts s k 1 n] by (simp add: profile_messages_def)

lemma length_profile_messages [simp]: "length (profile_messages env self ts s k n) = n"
  by (simp add: profile_messages_def)

text \<open>A consumer that can send \<open>n\<close> messages: no stream it is mapped to stands in the way, and its fuse is not burned.\<close>

definition can_send :: "consumer \<Rightarrow> nat \<Rightarrow> world \<Rightarrow> bool" where
  "can_send cons n w \<longleftrightarrow> \<not> IsFuseBurned cons w \<and>
     list_all (\<lambda>(i, a). broadcast_ready w (n * length (c_streams cons)) a) (c_streams cons)"

text \<open>The same over any kind of stream, as the interface of the consumer has it.\<close>

definition may_send :: "(world \<Rightarrow> nat \<Rightarrow> nat \<Rightarrow> bool) \<Rightarrow> consumer \<Rightarrow> nat \<Rightarrow> world \<Rightarrow> bool" where
  "may_send ready cons n w \<longleftrightarrow> \<not> IsFuseBurned cons w \<and> list_all (\<lambda>(i, a). ready w (n * length (c_streams cons)) a) (c_streams cons)"

lemma can_send_broadcast:
  "can_send cons n w \<Longrightarrow> e_ticks env \<noteq> [] \<Longrightarrow> may_send (\<lambda>w k a. e_ticks env \<noteq> [] \<and> broadcast_ready w k a) cons n w"
  by (simp add: can_send_def may_send_def)

definition queued :: "world \<Rightarrow> consumer \<Rightarrow> message list \<Rightarrow> nat \<Rightarrow> message list" where
  "queued w cons msgs = (\<lambda>q. concat (map (offered w (c_streams cons) q) msgs))"

lemma queued_Nil [simp]: "delivered w w (queued w cons [])"
  by (simp add: queued_def delivered_refl)

lemma queued_append:
  assumes "delivered w u (queued w cons ms)" "delivered u v (queued u cons ns)"
  shows "delivered w v (queued w cons (ms @ ns))"
  using delivered_trans [OF assms] by (simp add: queued_def delivered_offered [OF assms(1)])

context stream_input
begin

lemma send_one:
  assumes "may_send ready cons (Suc n) w"
  shows "\<exists>w'. EnqueueMessage enq cons msg w = Some (Inr w') \<and> delivered w w' (queued w cons [msg]) \<and> may_send ready cons n w'"
  using EnqueueMessage_delivers [of w 0 n cons msg] assms by (auto simp: may_send_def queued_def delivered_burned)

lemma profile_runs_sends:
  assumes "may_send ready (pr_base cons) (n + m) w" "pr_templates cons \<noteq> []"
  shows "\<exists>w'. profile_runs env enq self (\<lambda>b i. True) cons b n i (count, k, w) = Some (Inr (count + n, k + n, w')) \<and>
    delivered w w' (queued w (pr_base cons) (profile_messages env self (pr_templates cons) (b * pr_profileRuns cons + i) k n)) \<and> may_send ready (pr_base cons) m w'"
  using assms(1)
proof (induction n arbitrary: i count k w)
  case (Suc n)
  let ?c = "pr_base cons" let ?ts = "pr_templates cons" let ?s = "b * pr_profileRuns cons + i"
  let ?msg = "profile_message env self ?ts ?s k"
  obtain u where u: "EnqueueMessage enq ?c ?msg w = Some (Inr u)" "delivered w u (queued w ?c [?msg])"
    "may_send ready ?c (n + m) u" using send_one [of ?c "n + m" w ?msg] Suc.prems by auto
  obtain v where v: "profile_runs env enq self (\<lambda>b i. True) cons b n (i + 1) (Suc count, Suc k, u) =
      Some (Inr (Suc count + n, Suc k + n, v))" "may_send ready ?c m v"
    "delivered u v (queued u ?c (profile_messages env self ?ts (b * pr_profileRuns cons + (i + 1)) (Suc k) n))"
    using Suc.IH [OF u(3), of "i + 1" "Suc count" "Suc k"] by blast
  have f: "WaitOnFuse ?c w = Some (Inr w)" using Suc.prems by (simp add: WaitOnFuse_def may_send_def)
  have e: "EnqueueCopy enq self (pe_now env (of_int ?s)) ?c (?ts ! nat (int (pe_draw env k) mod int (length ?ts)))
      (of_int ?s) w = Some (Inr u)"
    using u(1) by (simp add: EnqueueCopy_Enqueue consumer_Enqueue_def profile_message_def zmod_int [symmetric])
  have "delivered w v (queued w ?c (profile_messages env self ?ts ?s k (Suc n)))"
    using queued_append [OF u(2) v(3)] by (simp add: profile_messages_Suc algebra_simps)
  with f e v assms(2) show ?case
    by (intro exI [of _ v]) (simp add: Intn_ok Let_def)
qed auto

lemma profile_batches_sends:
  assumes "may_send ready (pr_base cons) (n * R) w" "pr_templates cons \<noteq> []"
    and R: "pr_profileRuns cons = int R" "0 < R"
  shows "\<exists>w'. profile_batches env enq self (\<lambda>b. True) (\<lambda>b i. True) cons n b (count, k, w) =
      Some (Inr (count + n * R, k + n * R, w')) \<and>
    delivered w w' (queued w (pr_base cons) (profile_messages env self (pr_templates cons) (b * int R) k (n * R)))"
  using assms(1)
proof (induction n arbitrary: b count k w)
  case (Suc n)
  let ?c = "pr_base cons" let ?ts = "pr_templates cons"
  have s: "may_send ready ?c (R + n * R) w" using Suc.prems by simp
  obtain u where u: "profile_runs env enq self (\<lambda>b i. True) cons b R 0 (count, k, w) = Some (Inr (count + R, k + R, u))"
    "delivered w u (queued w ?c (profile_messages env self ?ts (b * int R) k R))" "may_send ready ?c (n * R) u"
    using profile_runs_sends [where cons = cons and n = R and m = "n * R" and w = w  and b = b and env = env
        and i = 0 and self = self and count = count and k = k, OF s assms(2)] R(1) by auto
  obtain v where v: "profile_batches env enq self (\<lambda>b. True) (\<lambda>b i. True) cons n (b + 1) (count + R, k + R, u) =
      Some (Inr (count + R + n * R, k + R + n * R, v))"
    "delivered u v (queued u ?c (profile_messages env self ?ts ((b + 1) * int R) (k + R) (n * R)))"
    using Suc.IH [OF u(3), of "b + 1" "count + R" "k + R"] by blast
  have "delivered w v (queued w ?c (profile_messages env self ?ts (b * int R) k (R + n * R)))"
    using queued_append [OF u(2) v(2)] by (simp add: profile_messages_append algebra_simps)
  with u v R show ?case
    by (intro exI [of _ v]) (simp add: algebra_simps del: profile_runs.simps)
qed auto

end

text \<open>Without runs the first batch divides by zero, after no message was sent.\<close>

lemma profile_no_runs:
  assumes "generate_all env cons (length (pr_templates cons)) 0 = Inr (ts, k)" "pr_profileRuns cons = 0" "0 < pr_batches cons" "begins 0"
  shows "profile env enq self begins active ends cons w = Some (Inl DivideByZero)"
proof -
  obtain m where "nat (pr_batches cons) = Suc m" using assms(3) by (cases "nat (pr_batches cons)") auto
  with assms show ?thesis by (simp add: profile_def)
qed

subsection \<open>Properties\<close>

text \<open>A template is generated unless a percent sign of the message has no verb behind its size and decimal
  places: then the index runs past the end of the message. Every percent sign counts, also the second one of
  an escaped pair.\<close>

theorem profiler_template_panics:
  assumes "pr_chars cons \<noteq> []" "small_sizes (pr_message cons)"
  shows "(generateTemplate env cons k = Inl IndexOutOfRange \<longleftrightarrow> (\<exists>pre suf. pr_message cons = pre @ ''%'' @ suf \<and> no_verb suf)) \<and>
    ((\<exists>t k'. generateTemplate env cons k = Inr (t, k')) \<longleftrightarrow> (\<nexists>pre suf. pr_message cons = pre @ ''%'' @ suf \<and> no_verb suf))"
  using template_values_panics [OF assms, of env k] unfolding cut_directive_iff [symmetric]
  by (auto simp: generateTemplate_def split: if_splits)

definition load_profiler :: profiler where
  "load_profiler = \<lparr>pr_base = two_stream_consumer, pr_profileRuns = 2, pr_batches = 1, pr_templates = [[], []],
     pr_chars = ''ab'', pr_message = ''100%%'', pr_delay = 0, pr_keepRunning = False\<rparr>"

theorem profiler_template_panics_witness:
  "\<forall>env k. generateTemplate env load_profiler k = Inl IndexOutOfRange"
proof (intro allI)
  fix env k
  have "\<exists>pre suf. pr_message load_profiler = pre @ ''%'' @ suf \<and> no_verb suf"
    by (intro exI [of _ "''100%''"] exI [of _ "[]"]) (simp add: load_profiler_def no_verb_def)
  moreover have "pr_chars load_profiler \<noteq> []" "small_sizes (pr_message load_profiler)" by code_simp+
  ultimately show "generateTemplate env load_profiler k = Inl IndexOutOfRange"
    using profiler_template_panics [of load_profiler env k] by blast
qed

lemma generate_all_ok:
  assumes "pr_chars cons \<noteq> []" "small_sizes (pr_message cons)" "\<nexists>pre suf. pr_message cons = pre @ ''%'' @ suf \<and> no_verb suf"
  shows "\<exists>ts k'. generate_all env cons n k = Inr (ts, k') \<and> length ts = n"
proof (induction n arbitrary: k)
  case (Suc n)
  obtain t k1 where t: "generateTemplate env cons k = Inr (t, k1)" using profiler_template_panics [OF assms(1,2), of env k] assms(3) by blast
  obtain ts k2 where "generate_all env cons n k1 = Inr (ts, k2)" "length ts = n" using Suc by blast
  with t show ?case by simp
qed simp



end
