(* ===== verification/Multiplexers.thy ===== *)
theory Multiplexers
  imports Consoles FileConsumers Profilers
begin

text \<open>
  \<open>multiplexer.go\<close> and \<open>signal_unix.go\<close>: the construction of all plugins from the configuration, which
  attaches producers to streams, links their dependencies and maps consumers to streams; the main loop with
  its samples and signals; the shutdown. The type registry is a parameter (\<open>plugin_types\<close>); the
  plugins modelled in this development are one of its values. A producer's address is the number of producers
  constructed before it. Log output is left out, except for where it goes.
\<close>

subsection \<open>State\<close>

datatype plex_state =
    StateConfigure | StateStartProducers | StateStartConsumers | StateRunning
  | StateShutdown | StateStopConsumers | StateStopProducers | StateStopped

definition plex_rank :: "plex_state \<Rightarrow> nat" where
  "plex_rank s = (case s of StateConfigure \<Rightarrow> 0 | StateStartProducers \<Rightarrow> 1 | StateStartConsumers \<Rightarrow> 2 | StateRunning \<Rightarrow> 3
     | StateShutdown \<Rightarrow> 4 | StateStopConsumers \<Rightarrow> 5 | StateStopProducers \<Rightarrow> 6 | StateStopped \<Rightarrow> 7)"

instantiation plex_state :: linorder
begin

definition less_eq_plex_state :: "plex_state \<Rightarrow> plex_state \<Rightarrow> bool" where
  "less_eq_plex_state a b \<longleftrightarrow> plex_rank a \<le> plex_rank b"

definition less_plex_state :: "plex_state \<Rightarrow> plex_state \<Rightarrow> bool" where
  "less_plex_state a b \<longleftrightarrow> plex_rank a < plex_rank b"

instance
proof
  fix x y z :: plex_state
  show "(x < y) = (x \<le> y \<and> \<not> y \<le> x)" by (auto simp: less_eq_plex_state_def less_plex_state_def)
  show "x \<le> x" by (simp add: less_eq_plex_state_def)
  show "x \<le> y \<Longrightarrow> y \<le> z \<Longrightarrow> x \<le> z" by (simp add: less_eq_plex_state_def)
  show "x \<le> y \<Longrightarrow> y \<le> x \<Longrightarrow> x = y"
    by (cases x; cases y) (simp_all add: less_eq_plex_state_def plex_rank_def)
  show "x \<le> y \<or> y \<le> x" by (auto simp: less_eq_plex_state_def)
qed

end

text \<open>\<open>mx_log\<close> is the first entry of the list of consumers, \<open>mx_consumers\<close> are the others.\<close>

record multiplexer =
  mx_log :: log_consumer
  mx_consumers :: "consumer list"
  mx_producers :: "nat list"
  mx_state :: plex_state
  mx_profile :: bool

subsection \<open>Plugin types\<close>

record plugin_kinds =
  is_consumer :: bool
  is_producer :: bool
  is_stream :: bool

record plugin_types =
  pt_kinds :: "bytes \<Rightarrow> plugin_kinds option"
  pt_stream :: "bytes \<Rightarrow> stream setup_step option"
  pt_producer :: "bytes \<Rightarrow> producer setup_step option"
  pt_consumer :: "bytes \<Rightarrow> consumer setup_step option"

definition setup_map :: "('a \<Rightarrow> 'b) \<Rightarrow> 'a setup_step \<Rightarrow> 'b setup_step" where
  "setup_map f m = setup_bind m (\<lambda>x. setup_return (f x))"

text \<open>The plugins of this development: four streams, two producers, three consumers.\<close>

definition stream_plugins :: "(bytes \<Rightarrow> formatter cfg) \<Rightarrow> (bytes \<Rightarrow> filter cfg) \<Rightarrow> (bytes \<times> stream setup_step) list" where
  "stream_plugins newFormat newFilter =
     [(''stream.Broadcast'', setup_cfg (Broadcast_Configure newFormat newFilter)),
      (''stream.Random'', setup_cfg (Random_Configure newFormat newFilter)),
      (''stream.RoundRobin'', setup_cfg (RoundRobin_Configure newFormat newFilter)),
      (''stream.Route'', \<lambda>u. setup_cfg (Route_Configure (w_streams (u_world u)) newFormat newFilter) u)]"

definition producer_plugins :: "(bytes \<Rightarrow> formatter cfg) \<Rightarrow> (bytes \<Rightarrow> filter cfg) \<Rightarrow> (bytes \<times> producer setup_step) list" where
  "producer_plugins newFormat newFilter =
     [(''producer.Console'', setup_map cp_base (setup_cfg (ProducerConsole_Configure newFormat newFilter))),
      (''producer.Benchmark'', setup_cfg (Benchmark_Configure newFormat newFilter))]"

definition consumer_plugins :: "(bytes \<Rightarrow> tidings setup_step) \<Rightarrow> (bytes \<times> consumer setup_step) list" where
  "consumer_plugins newTidings =
     [(''consumer.Console'', setup_map cn_base (Console_Configure newTidings)),
      (''consumer.Files'', setup_map fc_base (Files_Configure newTidings)),
      (''consumer.Profiler'', setup_map pr_base (Profiler_Configure newTidings))]"

text \<open>The formatters, filters and splitters: registered types that are none of the three.\<close>

definition other_plugins :: "bytes list" where
  "other_plugins =
    [''format.Forward'', ''format.Clear'', ''format.Envelope'', ''format.Runlength'', ''format.Hostname'',
     ''format.Sequence'', ''format.Timestamp'', ''format.Base64Encode'', ''format.Base64Decode'', ''format.StreamName'',
     ''format.StreamRevert'', ''format.StreamRoute'', ''format.SplitPick'', ''format.SplitToJSON'', ''format.Identifier'',
     ''format.Serialize'', ''format.ExtractJSON'', ''format.TemplateJSON'', ''format.CollectdToInflux08'',
     ''format.CollectdToInflux09'', ''format.CollectdToInflux10'', ''format.ProcessTSV'', ''format.ProcessJSON'',
     ''format.JSON'', ''filter.All'', ''filter.None'', ''filter.Any'', ''filter.JSON'', ''filter.RegExp'',
     ''filter.Stream'', ''filter.Rate'', ''filter.Sample'', ''tidings.Csv'', ''tidings.Profile'']"

definition gollum_plugins :: "(bytes \<Rightarrow> formatter cfg) \<Rightarrow> (bytes \<Rightarrow> filter cfg) \<Rightarrow> plugin_types" where
  "gollum_plugins newFormat newFilter =
     (let streams = map_of (stream_plugins newFormat newFilter); producers = map_of (producer_plugins newFormat newFilter);
          consumers = map_of (consumer_plugins (setup_NewPluginWithType tidings_types))
      in \<lparr>pt_kinds = (\<lambda>t. if streams t = None \<and> producers t = None \<and> consumers t = None \<and> t \<notin> set other_plugins then None
                         else Some \<lparr>is_consumer = consumers t \<noteq> None, is_producer = producers t \<noteq> None, is_stream = streams t \<noteq> None\<rparr>),
          pt_stream = streams, pt_producer = producers, pt_consumer = consumers\<rparr>)"

subsection \<open>Construction\<close>

definition metricMessagesSec :: bytes where "metricMessagesSec = ''MessagesPerSec''"
definition metricCons :: bytes where "metricCons = ''Consumers''"
definition metricProds :: bytes where "metricProds = ''Producers''"
definition metricMessages :: bytes where "metricMessages = ''Messages''"
definition metricDiscarded :: bytes where "metricDiscarded = ''DiscardedMessages''"
definition metricDropped :: bytes where "metricDropped = ''DroppedMessages''"
definition metricFiltered :: bytes where "metricFiltered = ''Filtered''"
definition metricNoRoute :: bytes where "metricNoRoute = ''DiscardedNoRoute''"
definition metricDiscardedSec :: bytes where "metricDiscardedSec = ''DiscardedMessagesSec''"
definition metricDroppedSec :: bytes where "metricDroppedSec = ''DroppedMessagesSec''"
definition metricFilteredSec :: bytes where "metricFilteredSec = ''FilteredSec''"
definition metricNoRouteSec :: bytes where "metricNoRouteSec = ''DiscardedNoRouteSec''"
definition metricBlockedProducers :: bytes where "metricBlockedProducers = ''BlockedProducers''"
definition metricVersion :: bytes where "metricVersion = ''Version''"

lemmas plex_metric_names = metricMessagesSec_def metricCons_def metricProds_def metricMessages_def metricDiscarded_def
  metricDropped_def metricFiltered_def metricNoRoute_def metricDiscardedSec_def metricDroppedSec_def metricFilteredSec_def
  metricNoRouteSec_def metricBlockedProducers_def metricVersion_def

definition plex_metrics :: "bytes list" where
  "plex_metrics = [metricCons, metricProds, metricMessages, metricDropped, metricDiscarded, metricNoRoute, metricFiltered,
     metricMessagesSec, metricDroppedSec, metricDiscardedSec, metricNoRouteSec, metricFilteredSec, metricBlockedProducers, metricVersion]"

definition gollumMajorVer :: int where "gollumMajorVer = 0"
definition gollumMinorVer :: int where "gollumMinorVer = 4"
definition gollumPatchVer :: int where "gollumPatchVer = 5"
definition gollumDevVer :: int where "gollumDevVer = 0"

definition version_number :: int where
  "version_number =
     (if gollumDevVer > 0 then gollumMajorVer * 1000000 + gollumMinorVer * 10000 + gollumPatchVer * 100 + gollumDevVer
      else gollumMajorVer * 10000 + gollumMinorVer * 100 + gollumPatchVer)"

text \<open>The configurations by interface, and the number of types that are not registered.\<close>

record sorted_configs =
  sc_consumers :: "plugin_config list"
  sc_producers :: "plugin_config list"
  sc_streams :: "plugin_config list"
  sc_errors :: nat

definition sort_plugin :: "plugin_types \<Rightarrow> plugin_config \<Rightarrow> sorted_configs \<Rightarrow> sorted_configs" where
  "sort_plugin types config sc =
     (if \<not> Enable config then sc
      else case pt_kinds types (Typename config) of
             None \<Rightarrow> sc\<lparr>sc_errors := Suc (sc_errors sc)\<rparr>
           | Some kinds \<Rightarrow>
               let sc = (if is_consumer kinds then sc\<lparr>sc_consumers := sc_consumers sc @ [config]\<rparr> else sc);
                   sc = (if is_producer kinds then sc\<lparr>sc_producers := sc_producers sc @ [config]\<rparr> else sc)
               in if is_stream kinds then sc\<lparr>sc_streams := sc_streams sc @ [config]\<rparr> else sc)"

definition sort_plugins :: "plugin_types \<Rightarrow> plugin_config list \<Rightarrow> sorted_configs" where
  "sort_plugins types confs =
     fold (sort_plugin types) confs \<lparr>sc_consumers = [], sc_producers = [], sc_streams = [], sc_errors = 0\<rparr>"

text \<open>What a faulty plugin looks like, from the numbers of methods that match the interfaces.\<close>

definition dumpFaultyPlugin :: "int \<Rightarrow> int \<Rightarrow> int \<Rightarrow> plugin_kinds" where
  "dumpFaultyPlugin consumerMatch producerMatch streamMatch =
     (if consumerMatch > producerMatch then
        if consumerMatch > streamMatch then \<lparr>is_consumer = True, is_producer = False, is_stream = False\<rparr>
        else \<lparr>is_consumer = False, is_producer = False, is_stream = True\<rparr>
      else if producerMatch > streamMatch then \<lparr>is_consumer = False, is_producer = True, is_stream = False\<rparr>
      else \<lparr>is_consumer = False, is_producer = False, is_stream = True\<rparr>)"

record build =
  b_world :: world
  b_plugins :: "bytes plugin_registry"
  b_errors :: nat
  b_next :: nat
  b_producers :: "nat list"
  b_consumers :: "consumer list"

definition count_error :: "build \<Rightarrow> build" where
  "count_error b = b\<lparr>b_errors := Suc (b_errors b)\<rparr>"

definition plex_NewPlugin :: "(bytes \<Rightarrow> 'p setup_step option) \<Rightarrow> plugin_config \<Rightarrow> build \<Rightarrow> ((conf_err + 'p) \<times> build) outcome" where
  "plex_NewPlugin configure config b =
     then_do (setup_NewPluginWithType configure (Typename config) \<lparr>u_conf = config, u_plugins = b_plugins b, u_world = b_world b\<rparr>)
       (\<lambda>(r, u). Some (Inr (r, b\<lparr>b_world := u_world u, b_plugins := u_plugins u\<rparr>)))"

text \<open>A step on the world of the build.\<close>

definition on_world :: "(world \<Rightarrow> world outcome) \<Rightarrow> build \<Rightarrow> build outcome" where
  "on_world f b = then_do (f (b_world b)) (\<lambda>w. Some (Inr (b\<lparr>b_world := w\<rparr>)))"

definition place_stream :: "stream \<Rightarrow> bytes \<Rightarrow> world \<Rightarrow> world outcome" where
  "place_stream s streamName w =
     (let a = w_next w; (i, names) = GetStreamID (w_names w) streamName
      in Register a i (w\<lparr>w_names := names, w_next := Suc a, w_heap := (w_heap w)(a \<mapsto> s)\<rparr>))"

definition configure_stream :: "plugin_types \<Rightarrow> plugin_config \<Rightarrow> build \<Rightarrow> build outcome" where
  "configure_stream types config b =
     (if Stream config = [] then Some (Inr (count_error b))
      else then_do (plex_NewPlugin (pt_stream types) config b) (\<lambda>(r, b).
        case r of
          Inl e \<Rightarrow> Some (Inr (count_error b))
        | Inr s \<Rightarrow> on_world (place_stream s (hd (Stream config))) b))"

fun attach_streams :: "nat \<Rightarrow> u64 list \<Rightarrow> world \<Rightarrow> world outcome" where
  "attach_streams p [] w = Some (Inr w)"
| "attach_streams p (i # ids) w =
     then_do (if i = WildcardStreamID then Some (Inr (RegisterWildcardProducer [p] w))
              else then_do (GetStreamOrFallback i w) (\<lambda>(a, w). AddProducer a [p] w))
       (attach_streams p ids)"

definition metric_inc_world :: "bytes \<Rightarrow> world \<Rightarrow> world outcome" where
  "metric_inc_world nm w = Some (run_bind (metric_Inc nm (w_metrics w)) (\<lambda>met. Inr (w\<lparr>w_metrics := met\<rparr>)))"

definition is_external :: "u64 \<Rightarrow> bool" where
  "is_external i \<longleftrightarrow> i \<noteq> LogInternalStreamID \<and> i \<noteq> DroppedStreamID"

definition attach_wildcard :: "nat \<Rightarrow> nat \<Rightarrow> u64 list \<Rightarrow> world \<Rightarrow> world outcome" where
  "attach_wildcard wild p ids w = (if list_ex is_external ids then AddProducer wild [p] w else Some (Inr w))"

text \<open>One instance of a producer; \<open>wild\<close> is the wildcard stream.\<close>

definition configure_producer :: "plugin_types \<Rightarrow> nat \<Rightarrow> plugin_config \<Rightarrow> build \<Rightarrow> build outcome" where
  "configure_producer types wild config b =
     then_do (plex_NewPlugin (pt_producer types) config b) (\<lambda>(r, b).
       case r of
         Inl e \<Rightarrow> Some (Inr (count_error b))
       | Inr x \<Rightarrow>
           let p = b_next b; b = b\<lparr>b_next := Suc p, b_world := set_prod p x (b_world b)\<rparr>
           in if p_streams x = [] then Some (Inr (count_error b))
              else
                then_do (on_world (attach_streams p (p_streams x)) b) (\<lambda>b.
                then_do (on_world (attach_wildcard wild p (p_streams x)) b) (\<lambda>b.
                on_world (metric_inc_world metricProds) (b\<lparr>b_producers := b_producers b @ [p]\<rparr>))))"

definition configure_consumer :: "plugin_types \<Rightarrow> plugin_config \<Rightarrow> build \<Rightarrow> build outcome" where
  "configure_consumer types config b =
     then_do (plex_NewPlugin (pt_consumer types) config b) (\<lambda>(r, b).
       case r of
         Inl e \<Rightarrow> Some (Inr (count_error b))
       | Inr cons \<Rightarrow> on_world (metric_inc_world metricCons) (b\<lparr>b_consumers := b_consumers b @ [cons]\<rparr>))"

fun each :: "('a \<Rightarrow> 's \<Rightarrow> 's outcome) \<Rightarrow> 'a list \<Rightarrow> 's \<Rightarrow> 's outcome" where
  "each f [] s = Some (Inr s)"
| "each f (x # xs) s = then_do (f x s) (each f xs)"

definition instances :: "plugin_config list \<Rightarrow> plugin_config list" where
  "instances confs = concat (map (\<lambda>c. replicate (nat (Instances c)) c) confs)"

definition link_producer :: "nat \<Rightarrow> world \<Rightarrow> world outcome" where
  "link_producer p w = with_prod p w (\<lambda>x. LinkDependencies p (p_dropStreamID x) w)"

definition log_config :: plugin_config where
  "log_config = Override ''MetricKey'' (GString ''LogMessages'') (NewPluginConfig ''core.LogConsumer'')"

text \<open>An error of the log consumer's \<open>Configure\<close> is not looked at; it has none.\<close>

definition configure_log :: "build \<Rightarrow> (log_consumer \<times> build) outcome" where
  "configure_log b =
     then_do (LogConsumer_Configure NewLogConsumer \<lparr>u_conf = log_config, u_plugins = b_plugins b, u_world = b_world b\<rparr>)
       (\<lambda>(r, u). Some (Inr (case r of Inl e \<Rightarrow> NewLogConsumer | Inr cons \<Rightarrow> cons, b\<lparr>b_world := u_world u\<rparr>)))"

text \<open>
  \<open>order\<close> lists the keys of the stream registry as its iteration finds them. The result is the multiplexer,
  the number of errors, and the state it was built in.
\<close>

definition newMultiplexer ::
  "plugin_types \<Rightarrow> (world \<Rightarrow> u64 list) \<Rightarrow> plugin_config list \<Rightarrow> bool \<Rightarrow> bytes plugin_registry \<Rightarrow> world \<Rightarrow> (multiplexer \<times> nat \<times> build) outcome" where
  "newMultiplexer types order confs profiling plugins w =
     then_do (Some (metric_Set metricVersion (of_int version_number) (fold metric_New plex_metrics (w_metrics w)))) (\<lambda>met.
     let sc = sort_plugins types confs;
         b = \<lparr>b_world = w\<lparr>w_metrics := met\<rparr>, b_plugins = plugins, b_errors = sc_errors sc, b_next = 0, b_producers = [], b_consumers = []\<rparr>
     in then_do (each (configure_stream types) (sc_streams sc) b) (\<lambda>b.
        then_do (GetStreamOrFallback WildcardStreamID (b_world b)) (\<lambda>(wild, w).
        then_do (each (configure_producer types wild) (instances (sc_producers sc)) (b\<lparr>b_world := w\<rparr>)) (\<lambda>b.
        then_do (each (\<lambda>p. on_world (link_producer p)) (b_producers b) b) (\<lambda>b.
        then_do (configure_log b) (\<lambda>(log, b).
        then_do (each (configure_consumer types) (instances (sc_consumers sc)) b) (\<lambda>b.
        then_do (on_world (\<lambda>w. ForEachStream (order w) (\<lambda>i a. AddWildcardProducersToStream a) w) b) (\<lambda>b.
        Some (Inr (\<lparr>mx_log = log, mx_consumers = b_consumers b, mx_producers = b_producers b, mx_state = StateConfigure,
                    mx_profile = profiling\<rparr>, b_errors b, b))))))))))"

subsection \<open>Signals\<close>

datatype os_signal = SIGINT | SIGTERM | SIGUSR1 | SIGHUP | OtherSignal int

datatype signal_type = SignalNone | SignalExit | SignalRoll

text \<open>The signals the handler's channel receives.\<close>

definition newSignalHandler :: "os_signal list" where
  "newSignalHandler = [SIGINT, SIGTERM, SIGUSR1, SIGHUP]"

definition translateSignal :: "os_signal \<Rightarrow> signal_type" where
  "translateSignal sig = (if sig \<in> {SIGINT, SIGTERM, SIGUSR1} then SignalExit else if sig = SIGHUP then SignalRoll else SignalNone)"

subsection \<open>Main loop and shutdown\<close>

text \<open>What the multiplexer does to its plugins and the log, in order; consumer 0 is the log consumer.\<close>

datatype plex_action =
    StartProducer nat
  | StartConsumer nat
  | BindLog
  | LogToStdout
  | CommandConsumer nat plugin_control
  | CommandProducer nat plugin_control
  | ActivateFuses
  | ConsumersDone
  | ProducersDone

text \<open>
  A tick of the timer carries the conversion of a count into a rate (a float rounded to an integer), which
  depends on the time since the last tick.
\<close>

datatype plex_event =
    Tick "u32 \<Rightarrow> 64 word"
  | Signal os_signal

record running =
  r_plex :: multiplexer
  r_world :: world
  r_trace :: "plex_action list"

definition plex_consumers :: "multiplexer \<Rightarrow> nat list" where
  "plex_consumers plex = [0..<Suc (length (mx_consumers plex))]"

definition emit :: "plex_action list \<Rightarrow> running \<Rightarrow> running" where
  "emit as r = r\<lparr>r_trace := r_trace r @ as\<rparr>"

definition plex_setState :: "plex_state \<Rightarrow> running \<Rightarrow> running" where
  "plex_setState s r = r\<lparr>r_plex := (r_plex r)\<lparr>mx_state := s\<rparr>\<rparr>"

definition blocked_producers :: "nat list \<Rightarrow> world \<Rightarrow> int" where
  "blocked_producers ps w = int (length (filter (\<lambda>p. case w_prods w p of None \<Rightarrow> False | Some x \<Rightarrow> IsBlocked x) ps))"

fun metric_ops :: "(metrics \<Rightarrow> metrics run) list \<Rightarrow> metrics \<Rightarrow> metrics run" where
  "metric_ops [] met = Inr met"
| "metric_ops (f # fs) met = run_bind (f met) (metric_ops fs)"

definition plex_tick :: "(u32 \<Rightarrow> 64 word) \<Rightarrow> multiplexer \<Rightarrow> world \<Rightarrow> world outcome" where
  "plex_tick rate plex w =
     (case GetAndResetMessageCount w of (c, w) \<Rightarrow>
        Some (run_bind (metric_ops
          [metric_Set metricMessagesSec (rate (n_messages c)), metric_Set metricDroppedSec (rate (n_dropped c)),
           metric_Set metricDiscardedSec (rate (n_discarded c)), metric_Set metricFilteredSec (rate (n_filtered c)),
           metric_Set metricNoRouteSec (rate (n_noRoute c)),
           metric_Add metricMessages (ucast (n_messages c)), metric_Add metricDropped (ucast (n_dropped c)),
           metric_Add metricDiscarded (ucast (n_discarded c)), metric_Add metricFiltered (ucast (n_filtered c)),
           metric_Add metricNoRoute (ucast (n_noRoute c)),
           metric_SetI metricBlockedProducers (blocked_producers (mx_producers plex) w)] (w_metrics w))
          (\<lambda>met. Inr (w\<lparr>w_metrics := met\<rparr>))))"

definition plex_roll :: "multiplexer \<Rightarrow> plex_action list" where
  "plex_roll plex = map (\<lambda>c. CommandConsumer c Roll) (plex_consumers plex) @ map (\<lambda>p. CommandProducer p Roll) (mx_producers plex)"

text \<open>The loop ends with a signal to exit; \<open>None\<close> when it waits for another event.\<close>

fun plex_loop :: "plex_event list \<Rightarrow> running \<Rightarrow> running outcome" where
  "plex_loop [] r = None"
| "plex_loop (Tick rate # es) r =
     then_do (plex_tick rate (r_plex r) (r_world r)) (\<lambda>w. plex_loop es (r\<lparr>r_world := w\<rparr>))"
| "plex_loop (Signal sig # es) r =
     (case translateSignal sig of
        SignalExit \<Rightarrow> Some (Inr (plex_setState StateShutdown r))
      | SignalRoll \<Rightarrow> plex_loop es (emit (plex_roll (r_plex r)) r)
      | SignalNone \<Rightarrow> plex_loop es r)"

text \<open>The arguments say whether the workers of the consumers and of the producers end; \<open>None\<close> when they do not.\<close>

definition plex_shutdown :: "bool \<Rightarrow> bool \<Rightarrow> running \<Rightarrow> running option" where
  "plex_shutdown consumersEnd producersEnd r =
     (let stateAtShutdown = mx_state (r_plex r);
          r = plex_setState StateStopConsumers r
      in Option.bind
           (if stateAtShutdown \<ge> StateStartConsumers then
              let r = emit (map (\<lambda>c. CommandConsumer c StopConsumer) (plex_consumers (r_plex r)) @ [ActivateFuses]) r;
                  r = r\<lparr>r_world := ActivateAllFuses (r_world r)\<rparr>
              in if consumersEnd then Some (emit [ConsumersDone] r) else None
            else Some r) (\<lambda>r.
         let r = plex_setState StateStopProducers (emit [LogToStdout] r)
         in Option.bind
              (if stateAtShutdown \<ge> StateStartProducers then
                 let r = emit (map (\<lambda>p. CommandProducer p StopProducer) (mx_producers (r_plex r))) r
                 in if producersEnd then Some (emit [ProducersDone] r) else None
               else Some r) (\<lambda>r. Some (plex_setState StateStopped r))))"

definition plex_run :: "plex_event list \<Rightarrow> bool \<Rightarrow> bool \<Rightarrow> running \<Rightarrow> running outcome" where
  "plex_run events consumersEnd producersEnd r =
     (if plex_consumers (r_plex r) = [] then Some (Inr (emit [LogToStdout] r))
      else if mx_producers (r_plex r) = [] then Some (Inr (emit [LogToStdout] r))
      else
        let r = emit (map StartProducer (mx_producers (r_plex r))) (plex_setState StateStartProducers r);
            r = emit [if IsStreamRegistered LogInternalStreamID (r_world r) then BindLog else LogToStdout] r;
            r = emit (map StartConsumer (plex_consumers (r_plex r))) (plex_setState StateStartConsumers r)
        in then_do (plex_loop events r) (\<lambda>r. map_option Inr (plex_shutdown consumersEnd producersEnd r)))"

subsection \<open>Growth of the world\<close>

text \<open>What configuration steps do to a world: streams stay registered, producers stay in the lists they are in.\<close>

definition grows :: "world \<Rightarrow> world \<Rightarrow> bool" where
  "grows w w' \<longleftrightarrow> wf_world w' \<and> (\<forall>i a. w_streams w i = Some a \<longrightarrow> w_streams w' i = Some a) \<and>
     (\<forall>a s. w_heap w a = Some s \<longrightarrow> (\<exists>s'. w_heap w' a = Some s' \<and> set (s_Producers s) \<subseteq> set (s_Producers s'))) \<and>
     set (w_wildcard w) \<subseteq> set (w_wildcard w') \<and> dom (w_metrics w) \<subseteq> dom (w_metrics w')"

lemma grows_refl: "wf_world w \<Longrightarrow> grows w w"
  by (auto simp: grows_def)

lemma grows_trans: "grows u v \<Longrightarrow> grows v w \<Longrightarrow> grows u w"
  unfolding grows_def by (meson subset_trans)

lemma grows_names [simp]: "wf_world w \<Longrightarrow> grows w (w\<lparr>w_names := names\<rparr>)" "wf_world w \<Longrightarrow> grows w (w\<lparr>w_fuses := fuses\<rparr>)"
  by (auto simp: grows_def)

lemma grows_wf: "grows w w' \<Longrightarrow> wf_world w'"
  by (simp add: grows_def)

lemma dom_metric_New: "dom met \<subseteq> dom (fold metric_New ns met)" "nm \<in> set ns \<Longrightarrow> nm \<in> dom (fold metric_New ns met)"
proof -
  have k: "dom met \<subseteq> dom (fold metric_New ns met)" for met ns
  proof (induction ns arbitrary: met)
    case (Cons n ns)
    have "dom met \<subseteq> dom (metric_New n met)" by (auto simp: metric_New_def)
    with Cons [of "metric_New n met"] show ?case by auto
  qed simp
  show "dom met \<subseteq> dom (fold metric_New ns met)" by (rule k)
  show "nm \<in> dom (fold metric_New ns met)" if "nm \<in> set ns"
    using that
  proof (induction ns arbitrary: met)
    case (Cons n ns)
    have "n \<in> dom (metric_New n met)" by (auto simp: metric_New_def)
    from k [of "metric_New n met" ns] this have "n \<in> dom (fold metric_New ns (metric_New n met))" by (rule subsetD)
    with Cons show ?case by auto
  qed simp
qed

lemma wf_world_metrics: "wf_world w \<Longrightarrow> dom (w_metrics w) \<subseteq> dom met \<Longrightarrow> wf_world (w\<lparr>w_metrics := met\<rparr>)"
  by (auto simp: wf_world_def)

lemma grows_metrics: "wf_world w \<Longrightarrow> dom (w_metrics w) \<subseteq> dom met \<Longrightarrow> grows w (w\<lparr>w_metrics := met\<rparr>)"
  by (auto simp: grows_def wf_world_metrics)

lemma grows_fallback:
  assumes "wf_world w"
  obtains a w' where "GetStreamOrFallback i w = Some (Inr (a, w'))" "grows w w'" "w_prods w' = w_prods w" "w_streams w' i = Some a"
proof -
  obtain a w' where g: "GetStreamOrFallback i w = Some (Inr (a, w'))" "wf_world w'" "w_streams w' = (w_streams w)(i \<mapsto> a)"
    "\<forall>j b. w_streams w j = Some b \<longrightarrow> w_streams w' j = Some b" "w_prods w' = w_prods w" "w_wildcard w' = w_wildcard w"
    "\<forall>b s. w_heap w b = Some s \<longrightarrow> w_heap w' b = Some s" "dom (w_metrics w') = dom (w_metrics w)"
    using GetStreamOrFallback_ok [OF assms, of i] by blast
  then have "grows w w'" unfolding grows_def by auto
  with g show thesis by (intro that [of a w']) simp_all
qed

lemma grows_set_stream:
  assumes "wf_world w" "w_heap w a = Some s" "set (s_Producers s) \<subseteq> set (s_Producers s')"
  shows "grows w (set_stream a s' w)"
  using assms wf_world_set_stream [OF assms(1), of a s'] by (auto simp: grows_def set_stream_def)

lemma add_producers_superset: "set listed \<subseteq> set (add_producers listed ps)"
  by (induction listed ps rule: add_producers.induct) auto

lemma grows_AddProducer:
  assumes "wf_world w" "w_heap w a = Some s"
  obtains s' where "AddProducer a ps w = Some (Inr (set_stream a s' w))" "grows w (set_stream a s' w)"
    "s_Producers s' = add_producers (s_Producers s) ps"
  using AddProducer_ok [OF assms(2), of ps] grows_set_stream [OF assms, of "s\<lparr>s_Producers := add_producers (s_Producers s) ps\<rparr>"]
    add_producers_superset [of "s_Producers s" ps] by (intro that [of "s\<lparr>s_Producers := add_producers (s_Producers s) ps\<rparr>"]) simp_all

subsection \<open>Configuration steps grow the world\<close>

definition step_grows :: "'a setup_step \<Rightarrow> bool" where
  "step_grows m \<longleftrightarrow> (\<forall>u r u'. m u = Some (Inr (r, u')) \<longrightarrow> wf_world (u_world u) \<longrightarrow>
     grows (u_world u) (u_world u') \<and> w_prods (u_world u') = w_prods (u_world u))"

lemma step_growsD:
  "step_grows m \<Longrightarrow> m u = Some (Inr (r, u')) \<Longrightarrow> wf_world (u_world u) \<Longrightarrow> grows (u_world u) (u_world u')"
  "step_grows m \<Longrightarrow> m u = Some (Inr (r, u')) \<Longrightarrow> wf_world (u_world u) \<Longrightarrow> w_prods (u_world u') = w_prods (u_world u)"
  unfolding step_grows_def by blast+

lemma step_grows_cfg: "step_grows (setup_cfg m)"
  by (auto simp: step_grows_def setup_cfg_def then_do_def split: option.splits sum.splits prod.splits)

lemma step_grows_stop: "step_grows (setup_return x)" "step_grows (setup_fail e)" "step_grows (setup_panic p)"
  by (auto simp: step_grows_def setup_return_def setup_fail_def setup_panic_def intro: grows_refl)

lemma setup_bind_cases:
  assumes "setup_bind m f u = Some (Inr (r, u'))"
  obtains e where "m u = Some (Inr (Inl e, u'))" "r = Inl e" | x v where "m u = Some (Inr (Inr x, v))" "f x v = Some (Inr (r, u'))"
  using assms by (auto simp: setup_bind_def then_do_def split: option.splits sum.splits prod.splits)

lemma step_grows_bind:
  assumes "step_grows m" "\<And>x. step_grows (f x)"
  shows "step_grows (setup_bind m f)"
  unfolding step_grows_def
proof (intro allI impI)
  fix u r u' assume s: "setup_bind m f u = Some (Inr (r, u'))" "wf_world (u_world u)"
  from s(1) show "grows (u_world u) (u_world u') \<and> w_prods (u_world u') = w_prods (u_world u)"
  proof (cases rule: setup_bind_cases)
    case (1 e)
    then show ?thesis using step_growsD [OF assms(1) _ s(2)] by blast
  next
    case (2 x v)
    note v = step_growsD [OF assms(1) 2(1) s(2)]
    then show ?thesis using step_growsD [OF assms(2) 2(2) grows_wf [OF v(1)]] grows_trans by auto
  qed
qed

lemma step_grows_map: "step_grows m \<Longrightarrow> step_grows (setup_map f m)"
  by (simp add: setup_map_def step_grows_bind step_grows_stop)

lemma step_grows_metrics: "step_grows (setup_world (\<lambda>w. Some (Inr (x, w\<lparr>w_metrics := fold metric_New ns (w_metrics w)\<rparr>))))"
  by (auto simp: step_grows_def setup_world_def intro!: grows_metrics dom_metric_New)

lemma step_grows_metric: "step_grows (setup_world (\<lambda>w. Some (Inr (x, w\<lparr>w_metrics := metric_New nm (w_metrics w)\<rparr>))))"
  using step_grows_metrics [of x "[nm]"] by simp

lemma step_grows_fuse: "step_grows (setup_world (\<lambda>w. Some (Inr (x, snd (GetFuse nm w)))))"
  by (auto simp: step_grows_def setup_world_def GetFuse_def intro!: grows_names grows_refl split: option.splits)

lemma step_grows_read: "step_grows (setup_world (\<lambda>w. Some (Inr (f w, w))))"
  by (auto simp: step_grows_def setup_world_def grows_refl)

lemma step_grows_new:
  assumes "\<And>c. configure nm = Some c \<Longrightarrow> step_grows c"
  shows "step_grows (setup_NewPluginWithType configure nm)"
proof (cases "configure nm")
  case None
  then show ?thesis by (simp add: setup_NewPluginWithType_def step_grows_stop)
next
  case (Some c)
  show ?thesis
    unfolding step_grows_def
  proof (intro allI impI)
    fix u r u' assume s: "setup_NewPluginWithType configure nm u = Some (Inr (r, u'))" "wf_world (u_world u)"
    then obtain r' v where v: "c u = Some (Inr (r', v))" "u_world u' = u_world v"
      using Some by (auto simp: setup_NewPluginWithType_def then_do_def split: option.splits sum.splits prod.splits if_splits)
    show "grows (u_world u) (u_world u') \<and> w_prods (u_world u') = w_prods (u_world u)"
      using step_growsD [OF assms [OF Some] v(1) s(2)] v(2) by simp
  qed
qed

lemma map_streams_grows:
  assumes "wf_world w"
  shows "\<exists>mapped w'. map_streams nms w = Some (Inr (mapped, w')) \<and> grows w w' \<and> w_prods w' = w_prods w"
  using assms
proof (induction nms arbitrary: w)
  case Nil
  then show ?case by (simp add: grows_refl)
next
  case (Cons nm nms)
  obtain i names where g: "GetStreamID (w_names w) nm = (i, names)" by fastforce
  let ?w = "w\<lparr>w_names := names\<rparr>"
  have wf: "wf_world ?w" using Cons.prems by simp
  obtain a v where v: "GetStreamOrFallback i ?w = Some (Inr (a, v))" "grows ?w v" "w_prods v = w_prods ?w"
    by (rule grows_fallback [OF wf, of i]) blast
  obtain mapped w' where "map_streams nms v = Some (Inr (mapped, w'))" "grows v w'" "w_prods w' = w_prods v"
    using Cons.IH [OF grows_wf [OF v(2)]] by blast
  with g v Cons.prems show ?case by (auto intro: grows_trans grows_names)
qed

lemma step_grows_map_streams: "step_grows (setup_world (map_streams nms))"
  unfolding step_grows_def
proof (intro allI impI)
  fix u r u' assume s: "setup_world (map_streams nms) u = Some (Inr (r, u'))" "wf_world (u_world u)"
  obtain mapped w' where "map_streams nms (u_world u) = Some (Inr (mapped, w'))" "grows (u_world u) w'" "w_prods w' = w_prods (u_world u)"
    using map_streams_grows [OF s(2)] by blast
  with s show "grows (u_world u) (u_world u') \<and> w_prods (u_world u') = w_prods (u_world u)" by (auto simp: setup_world_def)
qed

lemmas step_grows_intros = step_grows_bind step_grows_cfg step_grows_stop step_grows_map step_grows_metric step_grows_metrics
  step_grows_fuse step_grows_new step_grows_map_streams

lemma step_grows_tidings: "step_grows (setup_NewPluginWithType tidings_types nm)"
  by (intro step_grows_new) (auto simp: tidings_types_def Profile_Configure_def Let_def split: if_splits intro!: step_grows_intros)

lemma step_grows_consumer: "step_grows (consumer_Configure (setup_NewPluginWithType tidings_types))"
  unfolding consumer_Configure_def by (intro step_grows_intros step_grows_tidings) (auto intro!: step_grows_intros)

text \<open>A step whose consumer is mapped to registered streams.\<close>

definition mapped_ok :: "world \<Rightarrow> consumer \<Rightarrow> bool" where
  "mapped_ok w cons \<longleftrightarrow> list_all (\<lambda>(i, a). w_streams w i = Some a) (c_streams cons)"

lemma mapped_ok_grows: "mapped_ok w cons \<Longrightarrow> grows w w' \<Longrightarrow> mapped_ok w' cons"
  by (auto simp: mapped_ok_def grows_def list_all_iff)

definition step_maps :: "consumer setup_step \<Rightarrow> bool" where
  "step_maps m \<longleftrightarrow> (\<forall>u cons u'. m u = Some (Inr (Inr cons, u')) \<longrightarrow> wf_world (u_world u) \<longrightarrow> mapped_ok (u_world u') cons)"

text \<open>A step that answers what it was given, whatever else it does.\<close>

definition step_gives :: "'a \<Rightarrow> 'a setup_step \<Rightarrow> bool" where
  "step_gives y m \<longleftrightarrow> step_grows m \<and> (\<forall>u x u'. m u = Some (Inr (Inr x, u')) \<longrightarrow> x = y)"

lemma step_gives_bind: "step_grows m \<Longrightarrow> (\<And>x. step_gives y (f x)) \<Longrightarrow> step_gives y (setup_bind m f)"
  unfolding step_gives_def setup_ok by (blast intro: step_grows_bind)

lemma step_gives_stop: "step_gives y (setup_return y)" "step_gives y (setup_panic p)"
  by (simp_all add: step_gives_def step_grows_stop setup_ok) (simp add: setup_panic_def)

lemma step_maps_base:
  assumes "\<And>base. step_gives base (f base)"
  shows "step_maps (setup_bind (consumer_Configure (setup_NewPluginWithType tidings_types)) f)"
  unfolding step_maps_def
proof (intro allI impI)
  fix u cons u'
  assume s: "setup_bind (consumer_Configure (setup_NewPluginWithType tidings_types)) f u = Some (Inr (Inr cons, u'))" "wf_world (u_world u)"
  then obtain base v where v: "consumer_Configure (setup_NewPluginWithType tidings_types) u = Some (Inr (Inr base, v))"
    "f base v = Some (Inr (Inr cons, u'))" unfolding setup_ok by blast
  have "mapped_ok (u_world v) base" "wf_world (u_world v)" using consumer_Configure_spec [OF v(1) s(2)] by (simp_all add: mapped_ok_def)
  moreover have "cons = base" "step_grows (f base)" using assms [of base] v(2) by (auto simp: step_gives_def)
  ultimately show "mapped_ok (u_world u') cons" using step_growsD(1) [where m = "f base", OF _ v(2)] mapped_ok_grows by blast
qed

lemma step_maps_bind:
  assumes "step_grows m" "\<And>x. step_maps (f x)"
  shows "step_maps (setup_bind m f)"
  using assms step_growsD(1) grows_wf unfolding step_maps_def setup_ok by meson

lemma setup_map_bind: "setup_map g (setup_bind m f) = setup_bind m (\<lambda>x. setup_map g (f x))"
  by (auto simp: setup_map_def setup_bind_def then_do_def fun_eq_iff split: option.splits sum.splits prod.splits)

lemma setup_map_simps [simp]:
  "setup_map g (setup_return x) = setup_return (g x)" "setup_map g (setup_panic p) = setup_panic p"
  "setup_map g (if c then m else n) = (if c then setup_map g m else setup_map g n)"
  by (simp_all add: setup_map_def)

lemma setup_map_world: "setup_map g (setup_world (\<lambda>w. Some (Inr (x, h w)))) = setup_world (\<lambda>w. Some (Inr (g x, h w)))"
  by (simp add: setup_map_def setup_bind_def setup_world_def setup_return_def fun_eq_iff)

lemma consumer_plugins_grow:
  "step_grows (setup_map cn_base (Console_Configure (setup_NewPluginWithType tidings_types)))"
  "step_grows (setup_map fc_base (Files_Configure (setup_NewPluginWithType tidings_types)))"
  "step_grows (setup_map pr_base (Profiler_Configure (setup_NewPluginWithType tidings_types)))"
  unfolding Console_Configure_def Files_Configure_def Profiler_Configure_def
  by (intro step_grows_intros step_grows_consumer; simp split: prod.split add: step_grows_intros step_grows_consumer)+

lemma consumer_plugins_map:
  "step_maps (setup_map cn_base (Console_Configure (setup_NewPluginWithType tidings_types)))"
  "step_maps (setup_map fc_base (Files_Configure (setup_NewPluginWithType tidings_types)))"
  "step_maps (setup_map pr_base (Profiler_Configure (setup_NewPluginWithType tidings_types)))"
proof -
  show "step_maps (setup_map cn_base (Console_Configure (setup_NewPluginWithType tidings_types)))"
    unfolding Console_Configure_def setup_map_bind
    by (intro step_maps_bind step_grows_cfg)
      (auto simp: setup_map_bind intro!: step_grows_intros step_maps_base step_gives_stop split: prod.split)
  show "step_maps (setup_map fc_base (Files_Configure (setup_NewPluginWithType tidings_types)))"
    unfolding Files_Configure_def setup_map_bind setup_map_world
    by (intro step_maps_base step_gives_bind step_grows_cfg) (auto simp: step_gives_def setup_world_ok intro: step_grows_metrics)
  show "step_maps (setup_map pr_base (Profiler_Configure (setup_NewPluginWithType tidings_types)))"
    unfolding Profiler_Configure_def setup_map_bind setup_map_simps
    by (intro step_maps_base step_gives_bind step_grows_cfg)
      (auto simp: setup_map_bind intro!: step_gives_stop step_gives_bind step_grows_cfg)
qed

subsection \<open>Plugin types that grow the world\<close>

locale growing_plugins =
  fixes types :: plugin_types
  assumes streams_grow: "pt_stream types t = Some cs \<Longrightarrow> step_grows cs"
    and producers_grow: "pt_producer types t = Some cp \<Longrightarrow> step_grows cp"
    and consumers_grow: "pt_consumer types t = Some cc \<Longrightarrow> step_grows cc"
    and producers_fresh: "pt_producer types t = Some cp \<Longrightarrow> cp u = Some (Inr (Inr x, u')) \<Longrightarrow> p_dependencies x = []"
    and consumers_map: "pt_consumer types t = Some cc \<Longrightarrow> step_maps cc"

lemma producer_Configure_fresh: "producer_Configure nf ng st = Some (Inr (Inr x, st')) \<Longrightarrow> p_dependencies x = []"
  unfolding producer_Configure_def by (auto simp: cfg_ok split: if_splits)

interpretation gollum: growing_plugins "gollum_plugins newFormat newFilter" for newFormat newFilter
proof
  fix t cs cp cc u x u'
  let ?types = "gollum_plugins newFormat newFilter"
  show "step_grows cs" if "pt_stream ?types t = Some cs"
    using that step_grows_cfg by (auto simp: gollum_plugins_def stream_plugins_def Let_def step_grows_def split: if_splits)
  show "step_grows cp" if "pt_producer ?types t = Some cp"
    using that by (auto simp: gollum_plugins_def producer_plugins_def Let_def intro!: step_grows_intros split: if_splits)
  show "step_grows cc" if "pt_consumer ?types t = Some cc"
    using that consumer_plugins_grow by (auto simp: gollum_plugins_def consumer_plugins_def Let_def split: if_splits)
  show "p_dependencies x = []" if "pt_producer ?types t = Some cp" "cp u = Some (Inr (Inr x, u'))"
    using that by (auto simp: gollum_plugins_def producer_plugins_def Let_def setup_map_def setup_ok setup_cfg_ok cfg_ok
        ProducerConsole_Configure_def Benchmark_Configure_def dest!: producer_Configure_fresh split: if_splits)
  show "step_maps cc" if "pt_consumer ?types t = Some cc"
    using that consumer_plugins_map by (auto simp: gollum_plugins_def consumer_plugins_def Let_def split: if_splits)
qed

subsection \<open>The build\<close>

text \<open>An outcome that is a result with a property; the rules for sequences and loops.\<close>

definition ensures :: "'a outcome \<Rightarrow> ('a \<Rightarrow> bool) \<Rightarrow> bool" where
  "ensures m Q \<longleftrightarrow> (\<exists>x. m = Some (Inr x) \<and> Q x)"

lemma ensures_return [simp]: "ensures (Some (Inr x)) Q = Q x"
  by (simp add: ensures_def)

lemma ensures_bind: "ensures m Q \<Longrightarrow> (\<And>x. Q x \<Longrightarrow> ensures (f x) R) \<Longrightarrow> ensures (then_do m f) R"
  by (auto simp: ensures_def)

lemma ensures_weaken: "ensures m Q \<Longrightarrow> (\<And>x. Q x \<Longrightarrow> R x) \<Longrightarrow> ensures m R"
  by (auto simp: ensures_def)

lemma ensures_each: "I s \<Longrightarrow> (\<And>x s. x \<in> set xs \<Longrightarrow> I s \<Longrightarrow> ensures (f x s) I) \<Longrightarrow> ensures (each f xs s) I"
proof (induction xs arbitrary: s)
  case (Cons x xs)
  have "ensures (f x s) I" using Cons.prems by simp
  then show ?case using Cons by (auto intro: ensures_bind)
qed simp

text \<open>A loop whose turns count up.\<close>

lemma ensures_each_count:
  assumes "I s" "\<And>x s. x \<in> set xs \<Longrightarrow> I s \<Longrightarrow> ensures (f x s) (\<lambda>s'. I s' \<and> e s \<le> e s' \<and> e s' + n s' = Suc (e s + n s))"
  shows "ensures (each f xs s) (\<lambda>s'. I s' \<and> (e s :: nat) \<le> e s' \<and> e s' + (n s' :: nat) = length xs + e s + n s)"
  using assms
proof (induction xs arbitrary: s)
  case (Cons x xs)
  obtain t where t: "f x s = Some (Inr t)" "I t" "e s \<le> e t" "e t + n t = Suc (e s + n s)"
    using Cons.prems by (fastforce simp: ensures_def)
  have "ensures (each f xs t) (\<lambda>s'. I s' \<and> e t \<le> e s' \<and> e s' + n s' = length xs + e t + n t)"
    using Cons.IH [OF t(2)] Cons.prems(2) by simp
  then show ?case using t by (auto elim!: ensures_weaken)
qed simp

text \<open>A producer is attached when it is in the list of every stream it names, wildcards aside, and in the list
  of the wildcard stream unless it only listens to internal streams.\<close>

definition attached :: "nat \<Rightarrow> world \<Rightarrow> nat \<Rightarrow> bool" where
  "attached wild w p \<longleftrightarrow> (\<exists>x. w_prods w p = Some x \<and> p_streams x \<noteq> [] \<and>
     (\<forall>i\<in>set (p_streams x). if i = WildcardStreamID then p \<in> set (w_wildcard w)
        else (\<exists>a. w_streams w i = Some a \<and> p \<in> set (producers_at w a))) \<and>
     ((\<exists>i\<in>set (p_streams x). is_external i) \<longrightarrow> p \<in> set (producers_at w wild)))"

text \<open>The producers of a world keep their streams.\<close>

definition same_streams :: "world \<Rightarrow> world \<Rightarrow> bool" where
  "same_streams w w' \<longleftrightarrow> (\<forall>p. map_option p_streams (w_prods w' p) = map_option p_streams (w_prods w p))"

lemma grows_producers_at: "grows w w' \<Longrightarrow> set (producers_at w a) \<subseteq> set (producers_at w' a)"
proof (cases "w_heap w a")
  case (Some s)
  moreover assume "grows w w'"
  ultimately obtain s' where "w_heap w' a = Some s'" "set (s_Producers s) \<subseteq> set (s_Producers s')" unfolding grows_def by blast
  with Some show ?thesis by (simp add: producers_at_def)
qed (simp add: producers_at_def)

lemma attached_grows:
  assumes "attached wild w p" "grows w w'" "map_option p_streams (w_prods w' p) = map_option p_streams (w_prods w p)"
  shows "attached wild w' p"
proof -
  obtain x where x: "w_prods w p = Some x" "p_streams x \<noteq> []"
    "\<And>i. i \<in> set (p_streams x) \<Longrightarrow> if i = WildcardStreamID then p \<in> set (w_wildcard w)
        else (\<exists>a. w_streams w i = Some a \<and> p \<in> set (producers_at w a))"
    "(\<exists>i\<in>set (p_streams x). is_external i) \<longrightarrow> p \<in> set (producers_at w wild)"
    using assms(1) unfolding attached_def by blast
  obtain x' where x': "w_prods w' p = Some x'" "p_streams x' = p_streams x" using assms(3) x(1) by auto
  have s: "w_streams w i = Some a \<Longrightarrow> w_streams w' i = Some a" "q \<in> set (w_wildcard w) \<Longrightarrow> q \<in> set (w_wildcard w')" for i a q
    using assms(2) by (auto simp: grows_def)
  have "if i = WildcardStreamID then p \<in> set (w_wildcard w') else (\<exists>a. w_streams w' i = Some a \<and> p \<in> set (producers_at w' a))"
    if "i \<in> set (p_streams x)" for i
    using x(3) [OF that] s grows_producers_at [OF assms(2), THEN subsetD] by (auto split: if_splits)
  with x(2,4) x' grows_producers_at [OF assms(2), of wild] show ?thesis unfolding attached_def by auto
qed

text \<open>What holds while the plugins are built; \<open>wild\<close> is the wildcard stream.\<close>

definition build_ok :: "nat \<Rightarrow> build \<Rightarrow> bool" where
  "build_ok wild b \<longleftrightarrow> (let w = b_world b in wf_world w \<and> set plex_metrics \<subseteq> dom (w_metrics w) \<and>
     w_streams w WildcardStreamID = Some wild \<and> list_all (attached wild w) (b_producers b) \<and>
     list_all (mapped_ok w) (b_consumers b))"

definition fresh_ok :: "build \<Rightarrow> bool" where
  "fresh_ok b \<longleftrightarrow> (\<forall>p x. w_prods (b_world b) p = Some x \<longrightarrow> p < b_next b \<and> p_dependencies x = []) \<and> (\<forall>p\<in>set (b_producers b). p < b_next b)"

lemma build_ok_grows:
  assumes "build_ok wild b" "grows (b_world b) w'" "same_streams (b_world b) w'"
  shows "build_ok wild (b\<lparr>b_world := w'\<rparr>)"
proof -
  have "attached wild w' p" if "attached wild (b_world b) p" for p
    using attached_grows [OF that assms(2)] assms(3) by (simp add: same_streams_def)
  moreover have "mapped_ok w' cons" if "mapped_ok (b_world b) cons" for cons using mapped_ok_grows [OF that assms(2)] .
  moreover have "set plex_metrics \<subseteq> dom (w_metrics w')"
    using assms(1,2) unfolding build_ok_def Let_def grows_def by (blast intro: subset_trans)
  note m = subsetD [OF this]
  ultimately show ?thesis using assms(1,2) unfolding build_ok_def Let_def grows_def by (auto simp: list_all_iff dest: m)
qed

lemma build_ok_fields [simp]:
  "build_ok wild (b\<lparr>b_errors := n\<rparr>) = build_ok wild b" "build_ok wild (b\<lparr>b_plugins := ps\<rparr>) = build_ok wild b"
  "build_ok wild (b\<lparr>b_next := k\<rparr>) = build_ok wild b" "build_ok wild (count_error b) = build_ok wild b"
  "fresh_ok (b\<lparr>b_errors := n\<rparr>) = fresh_ok b" "fresh_ok (b\<lparr>b_plugins := ps\<rparr>) = fresh_ok b" "fresh_ok (count_error b) = fresh_ok b"
  by (simp_all add: build_ok_def fresh_ok_def count_error_def)

lemma same_streams_eq: "w_prods w' = w_prods w \<Longrightarrow> same_streams w w'"
  by (simp add: same_streams_def)

text \<open>A configuration whose steps return, with a plugin or an error, in every well-formed world.\<close>

definition step_returns :: "plugin_config \<Rightarrow> 'a setup_step option \<Rightarrow> bool" where
  "step_returns config m \<longleftrightarrow> (\<forall>c plugins w. m = Some c \<longrightarrow> wf_world w \<longrightarrow>
     (\<exists>r u'. c \<lparr>u_conf = config, u_plugins = plugins, u_world = w\<rparr> = Some (Inr (r, u'))))"

definition config_returns :: "plugin_types \<Rightarrow> plugin_config \<Rightarrow> bool" where
  "config_returns types config \<longleftrightarrow> step_returns config (pt_stream types (Typename config)) \<and>
     step_returns config (pt_producer types (Typename config)) \<and> step_returns config (pt_consumer types (Typename config))"

lemma plex_NewPlugin_ok:
  assumes "step_returns config (configure (Typename config))" "\<And>c. configure (Typename config) = Some c \<Longrightarrow> step_grows c"
    "wf_world (b_world b)"
  obtains r w' ps where "plex_NewPlugin configure config b = Some (Inr (r, b\<lparr>b_world := w', b_plugins := ps\<rparr>))"
    "grows (b_world b) w'" "w_prods w' = w_prods (b_world b)"
    "\<forall>x. r = Inr x \<longrightarrow> (\<exists>c u u'. configure (Typename config) = Some c \<and> wf_world (u_world u) \<and>
       c u = Some (Inr (Inr x, u')) \<and> u_world u' = w')"
proof -
  let ?u = "\<lparr>u_conf = config, u_plugins = b_plugins b, u_world = b_world b\<rparr>"
  let ?m = "setup_NewPluginWithType configure (Typename config)"
  have g: "step_grows ?m" using assms(2) by (rule step_grows_new)
  have "\<exists>r u'. ?m ?u = Some (Inr (r, u'))"
  proof (cases "configure (Typename config)")
    case None
    then show ?thesis by (simp add: setup_NewPluginWithType_def setup_fail_def)
  next
    case (Some c)
    then obtain r u' where "c ?u = Some (Inr (r, u'))" using assms(1,3) unfolding step_returns_def by blast
    then show ?thesis using Some by (cases r) (simp_all add: setup_NewPluginWithType_def)
  qed
  then obtain r u' where u': "?m ?u = Some (Inr (r, u'))" by blast
  have "grows (b_world b) (u_world u')" "w_prods (u_world u') = w_prods (b_world b)"
    using step_growsD [OF g u'] assms(3) by simp_all
  moreover have "\<exists>c u v. configure (Typename config) = Some c \<and> wf_world (u_world u) \<and> c u = Some (Inr (Inr x, v)) \<and> u_world v = u_world u'" if rx: "r = Inr x" for x
  proof -
    obtain c where "configure (Typename config) = Some c" "c ?u = Some (Inr (Inr x, u'))"
      using u' rx setup_new_ok [of configure "Typename config" ?u x u'] by auto
    with assms(3) show ?thesis by (intro exI [of _ c] exI [of _ ?u] exI [of _ u']) simp
  qed
  moreover have "plex_NewPlugin configure config b = Some (Inr (r, b\<lparr>b_world := u_world u', b_plugins := u_plugins u'\<rparr>))"
    using u' by (simp add: plex_NewPlugin_def)
  ultimately show thesis by (intro that [where w' = "u_world u'" and ps = "u_plugins u'" and r = r]; simp)
qed

lemma on_world_ok: "ensures (f (b_world b)) Q \<Longrightarrow> (\<And>w. Q w \<Longrightarrow> R (b\<lparr>b_world := w\<rparr>)) \<Longrightarrow> ensures (on_world f b) R"
  by (auto simp: ensures_def on_world_def)

lemma metric_inc_world_ok:
  assumes "wf_world w" "nm \<in> dom (w_metrics w)"
  shows "ensures (metric_inc_world nm w) (\<lambda>w'. grows w w' \<and> w_prods w' = w_prods w)"
proof -
  obtain v where "w_metrics w nm = Some v" using assms(2) by auto
  then show ?thesis using assms(1)
    by (auto simp: metric_inc_world_def metric_defs metric_update_def intro!: grows_metrics)
qed

lemma place_stream_ok:
  assumes "wf_world w"
  shows "\<exists>w'. place_stream s nm w = Some (Inr w') \<and> wf_world w' \<and> w_prods w' = w_prods w \<and> dom (w_metrics w') = dom (w_metrics w)"
proof -
  obtain i names where g: "GetStreamID (w_names w) nm = (i, names)" by fastforce
  obtain v where v: "w_metrics w metricStreams = Some v" using assms by (auto simp: wf_world_def)
  have fresh: "w_heap w (w_next w) = None" using assms by (auto simp: wf_world_def)
  let ?w = "w\<lparr>w_names := names, w_next := Suc (w_next w), w_heap := (w_heap w)(w_next w \<mapsto> s)\<rparr>"
  have "wf_world (?w\<lparr>w_streams := (w_streams w)(i \<mapsto> w_next w)\<rparr>)"
    "wf_world (?w\<lparr>w_metrics := (w_metrics w)(metricStreams \<mapsto> x), w_streams := (w_streams w)(i \<mapsto> w_next w)\<rparr>)" for x
    using assms fresh by (auto simp: wf_world_def less_Suc_eq)
  then show ?thesis using g v
    by (cases "w_streams w i") (auto simp: place_stream_def Register_def metric_defs metric_update_def Let_def)
qed

lemma append_new_wildcard [simp]: "set (foldl append_new xs ps) = set xs \<union> set ps"
  by (induction ps arbitrary: xs) (auto simp: append_new_def)

lemma grows_RegisterWildcard: "wf_world w \<Longrightarrow> grows w (RegisterWildcardProducer ps w)"
  by (auto simp: grows_def RegisterWildcardProducer_def)

lemma producers_at_set [simp]: "producers_at (set_stream a s w) a = s_Producers s"
  by (simp add: producers_at_def set_stream_def)

lemma add_one_producer: "p \<in> set (add_producers listed [p])"
  by simp

lemma registered_exists: "wf_world w \<Longrightarrow> w_streams w i = Some a \<Longrightarrow> \<exists>s. w_heap w a = Some s"
  unfolding wf_world_def by blast

lemma attach_streams_ok:
  assumes "wf_world w"
  shows "ensures (attach_streams p ids w) (\<lambda>w'. grows w w' \<and> w_prods w' = w_prods w \<and>
    (\<forall>i\<in>set ids. if i = WildcardStreamID then p \<in> set (w_wildcard w')
       else (\<exists>a. w_streams w' i = Some a \<and> p \<in> set (producers_at w' a))))"
  using assms
proof (induction ids arbitrary: w)
  case Nil
  then show ?case by (simp add: grows_refl)
next
  case (Cons i ids)
  let ?on = "\<lambda>i w'. if i = WildcardStreamID then p \<in> set (w_wildcard w') else (\<exists>a. w_streams w' i = Some a \<and> p \<in> set (producers_at w' a))"
  have keep: "?on i w''" if "?on i w'" "grows w' w''" for w' w''
    using that grows_producers_at [OF that(2), THEN subsetD] by (auto simp: grows_def split: if_splits)
  have "\<exists>v. (if i = WildcardStreamID then Some (Inr (RegisterWildcardProducer [p] w))
      else then_do (GetStreamOrFallback i w) (\<lambda>(a, w). AddProducer a [p] w)) = Some (Inr v) \<and> grows w v \<and> w_prods v = w_prods w \<and> ?on i v"
  proof (cases "i = WildcardStreamID")
    case True
    then show ?thesis using grows_RegisterWildcard [OF Cons.prems, of "[p]"] by (simp add: RegisterWildcardProducer_def append_new_def)
  next
    case False
    obtain a u where u: "GetStreamOrFallback i w = Some (Inr (a, u))" "grows w u" "w_prods u = w_prods w" "w_streams u i = Some a"
      by (rule grows_fallback [OF Cons.prems, of i])
    have wf: "wf_world u" using u(2) by (rule grows_wf)
    obtain s where s: "w_heap u a = Some s" using registered_exists [OF wf u(4)] by blast
    obtain s' where s': "AddProducer a [p] u = Some (Inr (set_stream a s' u))" "grows u (set_stream a s' u)"
      "s_Producers s' = add_producers (s_Producers s) [p]" by (rule grows_AddProducer [OF wf s])
    have "w_streams (set_stream a s' u) i = Some a" "w_prods (set_stream a s' u) = w_prods w" using u by (simp_all add: set_stream_def)
    moreover have "p \<in> set (producers_at (set_stream a s' u) a)" using s'(3) add_one_producer by simp
    ultimately show ?thesis using False u s' grows_trans [OF u(2) s'(2)] by auto
  qed
  then obtain v where v: "attach_streams p (i # ids) w = attach_streams p ids v" "grows w v" "w_prods v = w_prods w" "?on i v" by auto
  show ?case unfolding v(1)
    by (rule ensures_weaken [OF Cons.IH [OF grows_wf [OF v(2)]]]) (use v grows_trans keep in auto)
qed

text \<open>A new producer without dependencies in the store, and its connection to its streams and the wildcard stream.\<close>

lemma new_producer_ok:
  assumes "build_ok wild b" "fresh_ok b" "p_dependencies x = []"
  shows "build_ok wild (b\<lparr>b_next := Suc (b_next b), b_world := set_prod (b_next b) x (b_world b)\<rparr>)"
    and "fresh_ok (b\<lparr>b_next := Suc (b_next b), b_world := set_prod (b_next b) x (b_world b)\<rparr>)"
proof -
  let ?v = "set_prod (b_next b) x (b_world b)"
  have new: "b_next b \<notin> set (b_producers b)" using assms(2) by (auto simp: fresh_ok_def)
  have wf: "wf_world ?v" using assms(1) by (simp add: build_ok_def set_prod_def Let_def)
  then have gv: "grows (b_world b) ?v" by (auto simp: grows_def set_prod_def)
  have "attached wild ?v q" if "q \<in> set (b_producers b)" for q
  proof (rule attached_grows [OF _ gv])
    show "attached wild (b_world b) q" using assms(1) that by (simp add: build_ok_def list_all_iff Let_def)
    show "map_option p_streams (w_prods ?v q) = map_option p_streams (w_prods (b_world b) q)" using that new by (auto simp: set_prod_def)
  qed
  then show "build_ok wild (b\<lparr>b_next := Suc (b_next b), b_world := ?v\<rparr>)"
    using assms(1) wf mapped_ok_grows [OF _ gv] unfolding build_ok_def by (auto simp: list_all_iff set_prod_def Let_def)
  show "fresh_ok (b\<lparr>b_next := Suc (b_next b), b_world := ?v\<rparr>)" using assms(2,3) by (auto simp: fresh_ok_def set_prod_def less_Suc_eq)
qed

lemma attach_wildcard_ok:
  assumes "wf_world w" "w_streams w WildcardStreamID = Some wild"
  shows "ensures (attach_wildcard wild p ids w) (\<lambda>w'. grows w w' \<and> w_prods w' = w_prods w \<and>
    ((\<exists>i\<in>set ids. is_external i) \<longrightarrow> p \<in> set (producers_at w' wild)))"
proof (cases "list_ex is_external ids")
  case True
  obtain s where s: "w_heap w wild = Some s" using registered_exists [OF assms] by blast
  obtain s' where "AddProducer wild [p] w = Some (Inr (set_stream wild s' w))" "grows w (set_stream wild s' w)"
    "s_Producers s' = add_producers (s_Producers s) [p]" by (rule grows_AddProducer [OF assms(1) s])
  then show ?thesis using True by (simp add: attach_wildcard_def set_stream_def producers_at_def)
next
  case False
  then show ?thesis using grows_refl [OF assms(1)] by (auto simp: attach_wildcard_def list_ex_iff)
qed

lemma attach_producer_ok:
  assumes "build_ok wild c" "fresh_ok c" "w_prods (b_world c) p = Some x" "p_streams x \<noteq> []"
  shows "ensures (then_do (on_world (attach_streams p (p_streams x)) c) (\<lambda>b. then_do (on_world (attach_wildcard wild p (p_streams x)) b) (\<lambda>b.
      on_world (metric_inc_world metricProds) (b\<lparr>b_producers := b_producers b @ [p]\<rparr>))))
    (\<lambda>b'. build_ok wild b' \<and> fresh_ok b' \<and> b_consumers b' = b_consumers c \<and> b_errors b' = b_errors c \<and> b_producers b' = b_producers c @ [p])"
proof -
  let ?v = "b_world c"
  have wf: "wf_world ?v" and metric: "metricProds \<in> dom (w_metrics ?v)" "w_streams ?v WildcardStreamID = Some wild"
    using assms(1) by (simp_all add: build_ok_def Let_def plex_metrics_def)
  let ?on = "\<lambda>i w. if i = WildcardStreamID then p \<in> set (w_wildcard w) else (\<exists>a. w_streams w i = Some a \<and> p \<in> set (producers_at w a))"
  obtain v1 where v1: "attach_streams p (p_streams x) ?v = Some (Inr v1)" "grows ?v v1" "w_prods v1 = w_prods ?v"
    "\<forall>i\<in>set (p_streams x). ?on i v1"
    using attach_streams_ok [OF wf, of p "p_streams x"] unfolding ensures_def by blast
  have "w_streams v1 WildcardStreamID = Some wild" using metric(2) v1(2) by (simp add: grows_def)
  then obtain v2 where v2: "attach_wildcard wild p (p_streams x) v1 = Some (Inr v2)" "grows v1 v2" "w_prods v2 = w_prods v1"
    "(\<exists>i\<in>set (p_streams x). is_external i) \<longrightarrow> p \<in> set (producers_at v2 wild)"
    using attach_wildcard_ok [OF grows_wf [OF v1(2)], of wild p "p_streams x"] unfolding ensures_def by blast
  have m2: "metricProds \<in> dom (w_metrics v2)" using metric(1) grows_trans [OF v1(2) v2(2)] unfolding grows_def by blast
  obtain v3 where v3: "metric_inc_world metricProds v2 = Some (Inr v3)" "grows v2 v3" "w_prods v3 = w_prods v2"
    using metric_inc_world_ok [OF grows_wf [OF v2(2)] m2] unfolding ensures_def by blast
  have g13: "grows v1 v3" using grows_trans [OF v2(2) v3(2)] .
  have prods: "w_prods v3 = w_prods ?v" using v1(3) v2(3) v3(3) by simp
  have "?on i v3" if "i \<in> set (p_streams x)" for i
    using v1(4) that grows_producers_at [OF g13, THEN subsetD] g13 by (auto simp: grows_def split: if_splits)
  then have "attached wild v3 p"
    using assms(3,4) prods v2(4) grows_producers_at [OF v3(2), THEN subsetD] unfolding attached_def by auto
  moreover have "build_ok wild (c\<lparr>b_world := v3\<rparr>)"
    using build_ok_grows [OF assms(1), of v3] grows_trans [OF v1(2) g13] prods by (simp add: same_streams_eq)
  ultimately have "build_ok wild (c\<lparr>b_producers := b_producers c @ [p], b_world := v3\<rparr>)" by (simp add: build_ok_def)
  moreover have "fresh_ok (c\<lparr>b_producers := b_producers c @ [p], b_world := v3\<rparr>)" using assms(2,3) prods by (auto simp: fresh_ok_def)
  ultimately show ?thesis using v1(1) v2(1) v3(1) by (simp add: on_world_def)
qed

context growing_plugins
begin

lemma configure_stream_ok:
  assumes "config_returns types config" "wf_world (b_world b)"
  shows "ensures (configure_stream types config b) (\<lambda>b'. wf_world (b_world b') \<and> w_prods (b_world b') = w_prods (b_world b) \<and>
    dom (w_metrics (b_world b)) \<subseteq> dom (w_metrics (b_world b')) \<and> b_producers b' = b_producers b \<and> b_consumers b' = b_consumers b \<and>
    b_next b' = b_next b \<and> b_errors b \<le> b_errors b')"
proof (cases "Stream config = []")
  case True
  then show ?thesis using assms(2) by (simp add: configure_stream_def count_error_def)
next
  case False
  have r: "step_returns config (pt_stream types (Typename config))" using assms(1) by (simp add: config_returns_def)
  obtain r w' ps where w': "plex_NewPlugin (pt_stream types) config b = Some (Inr (r, b\<lparr>b_world := w', b_plugins := ps\<rparr>))"
    "grows (b_world b) w'" "w_prods w' = w_prods (b_world b)"
    by (rule plex_NewPlugin_ok [where configure = "pt_stream types", OF r streams_grow assms(2)])
  have wf: "wf_world w'" "dom (w_metrics (b_world b)) \<subseteq> dom (w_metrics w')" using w'(2) by (simp_all add: grows_def)
  show ?thesis
  proof (cases r)
    case (Inl e)
    then show ?thesis using False w' wf by (simp add: configure_stream_def count_error_def)
  next
    case (Inr s)
    then show ?thesis using False w' wf place_stream_ok [OF wf(1), of s "hd (Stream config)"]
      by (auto simp: configure_stream_def on_world_def)
  qed
qed

lemma configure_producer_ok:
  assumes "config_returns types config" "build_ok wild b" "fresh_ok b"
  shows "ensures (configure_producer types wild config b) (\<lambda>b'. build_ok wild b' \<and> fresh_ok b' \<and> b_consumers b' = b_consumers b \<and>
    b_errors b \<le> b_errors b' \<and> b_errors b' + length (b_producers b') = Suc (b_errors b + length (b_producers b)))"
proof -
  have r: "step_returns config (pt_producer types (Typename config))" using assms(1) by (simp add: config_returns_def)
  have wf: "wf_world (b_world b)" using assms(2) by (simp add: build_ok_def Let_def)
  obtain r w' ps where w': "plex_NewPlugin (pt_producer types) config b = Some (Inr (r, b\<lparr>b_world := w', b_plugins := ps\<rparr>))"
    "grows (b_world b) w'" "w_prods w' = w_prods (b_world b)"
    "\<forall>x. r = Inr x \<longrightarrow> (\<exists>c u u'. pt_producer types (Typename config) = Some c \<and> wf_world (u_world u) \<and>
       c u = Some (Inr (Inr x, u')) \<and> u_world u' = w')"
    by (rule plex_NewPlugin_ok [where configure = "pt_producer types", OF r producers_grow wf]) blast
  have fresh: "p_dependencies x = []" if "r = Inr x" for x using w'(4) that producers_fresh by blast
  let ?b = "b\<lparr>b_world := w', b_plugins := ps\<rparr>"
  have ok: "build_ok wild ?b" using build_ok_grows [OF assms(2) w'(2) same_streams_eq [OF w'(3)]] by (simp add: build_ok_def)
  have fr: "fresh_ok ?b" using assms(3) w'(3) by (simp add: fresh_ok_def)
  show ?thesis
  proof (cases r)
    case (Inl e)
    then show ?thesis using w'(1) ok fr by (simp add: configure_producer_def) (simp add: count_error_def)
  next
    case (Inr x)
    let ?c = "?b\<lparr>b_next := Suc (b_next b), b_world := set_prod (b_next b) x w'\<rparr>"
    have c: "build_ok wild ?c" "fresh_ok ?c" using new_producer_ok [OF ok fr fresh [OF Inr]] by simp_all
    show ?thesis
    proof (cases "p_streams x = []")
      case True
      then show ?thesis using w'(1) c Inr by (simp add: configure_producer_def Let_def) (simp add: count_error_def)
    next
      case False
      have x: "w_prods (b_world ?c) (b_next b) = Some x" by (simp add: set_prod_def)
      show ?thesis using ensures_weaken [OF attach_producer_ok [OF c(1,2) x False]] w'(1) Inr False
        by (simp add: configure_producer_def Let_def)
    qed
  qed
qed

lemma configure_consumer_ok:
  assumes "config_returns types config" "build_ok wild b"
  shows "ensures (configure_consumer types config b) (\<lambda>b'. build_ok wild b' \<and> w_prods (b_world b') = w_prods (b_world b) \<and>
    b_producers b' = b_producers b \<and> b_errors b \<le> b_errors b' \<and>
    b_errors b' + length (b_consumers b') = Suc (b_errors b + length (b_consumers b)))"
proof -
  have r: "step_returns config (pt_consumer types (Typename config))" using assms(1) by (simp add: config_returns_def)
  have wf: "wf_world (b_world b)" using assms(2) by (simp add: build_ok_def Let_def)
  obtain r w' ps where w': "plex_NewPlugin (pt_consumer types) config b = Some (Inr (r, b\<lparr>b_world := w', b_plugins := ps\<rparr>))"
    "grows (b_world b) w'" "w_prods w' = w_prods (b_world b)"
    "\<forall>x. r = Inr x \<longrightarrow> (\<exists>c u u'. pt_consumer types (Typename config) = Some c \<and> wf_world (u_world u) \<and>
       c u = Some (Inr (Inr x, u')) \<and> u_world u' = w')"
    by (rule plex_NewPlugin_ok [where configure = "pt_consumer types", OF r consumers_grow wf]) blast
  have mapped: "mapped_ok w' cons" if "r = Inr cons" for cons
    using w'(4) that consumers_map unfolding step_maps_def by blast
  let ?b = "b\<lparr>b_world := w', b_plugins := ps\<rparr>"
  have ok: "build_ok wild ?b" using build_ok_grows [OF assms(2) w'(2) same_streams_eq [OF w'(3)]]
    by (simp add: build_ok_def)
  show ?thesis
  proof (cases r)
    case (Inl e)
    then show ?thesis using w' ok by (simp add: configure_consumer_def) (simp add: count_error_def)
  next
    case (Inr cons)
    have m: "metricCons \<in> dom (w_metrics w')" using ok by (simp add: build_ok_def plex_metrics_def)
    obtain v where v: "metric_inc_world metricCons w' = Some (Inr v)" "grows w' v" "w_prods v = w_prods w'"
      using metric_inc_world_ok [OF grows_wf [OF w'(2)] m] unfolding ensures_def by blast
    have "build_ok wild (?b\<lparr>b_world := v\<rparr>)" using build_ok_grows [OF ok, of v] v by (simp add: same_streams_eq)
    moreover have "mapped_ok v cons" using mapped_ok_grows [OF mapped [OF Inr] v(2)] .
    ultimately have "build_ok wild (b\<lparr>b_plugins := ps, b_consumers := b_consumers b @ [cons], b_world := v\<rparr>)" by (simp add: build_ok_def)
    then show ?thesis using w' v Inr by (simp add: configure_consumer_def on_world_def)
  qed
qed

end

lemma link_producer_ok:
  assumes "build_ok wild b" "p \<in> set (b_producers b)" "wf (dep_rel (world_deps (b_world b)))"
    and "\<forall>q. set (world_deps (b_world b) q) \<subseteq> set (b_producers b)"
  shows "ensures (on_world (link_producer p) b) (\<lambda>b'. build_ok wild b' \<and> wf (dep_rel (world_deps (b_world b'))) \<and>
    b_producers b' = b_producers b \<and> (\<forall>q. set (world_deps (b_world b') q) \<subseteq> set (b_producers b)) \<and>
    b_consumers b' = b_consumers b \<and> b_errors b' = b_errors b)"
proof -
  let ?w = "b_world b"
  have wf: "wf_world ?w" using assms(1) by (simp add: build_ok_def Let_def)
  have "attached wild ?w p" using assms(1,2) by (simp add: build_ok_def Let_def list_all_iff)
  then obtain x where x: "w_prods ?w p = Some x" unfolding attached_def by blast
  obtain a u where u: "GetStreamOrFallback (p_dropStreamID x) ?w = Some (Inr (a, u))" "grows ?w u" "w_prods u = w_prods ?w"
    "w_streams u (p_dropStreamID x) = Some a" by (rule grows_fallback [OF wf])
  obtain s where s: "w_heap u a = Some s" using registered_exists [OF grows_wf [OF u(2)] u(4)] by blast
  have deps: "world_deps u = world_deps ?w" using u(3) by (simp add: world_deps_def fun_eq_iff)
  obtain ds where ds: "link_all p (s_Producers s) (world_deps u) = Some ds" "wf (dep_rel (world_deps (store_deps ds u)))"
    "\<forall>q. set (world_deps u q) \<subseteq> set (world_deps (store_deps ds u) q) \<and> set (world_deps (store_deps ds u) q) \<subseteq> insert p (set (world_deps u q))"
    using link_stored [of u p "s_Producers s"] assms(3) deps by auto
  let ?v = "store_deps ds u"
  have g: "grows u ?v" using grows_wf [OF u(2)] by (auto simp: grows_def store_deps_def)
  have "same_streams ?w ?v" using u(3) by (auto simp: same_streams_def store_deps_def option.map_comp o_def)
  then have "build_ok wild (b\<lparr>b_world := ?v\<rparr>)" using build_ok_grows [OF assms(1) grows_trans [OF u(2) g]] by blast
  moreover have "\<forall>q. set (world_deps ?v q) \<subseteq> set (b_producers b)"
  proof
    fix q
    have "set (world_deps ?v q) \<subseteq> insert p (set (world_deps ?w q))" using ds(3) deps by simp
    then show "set (world_deps ?v q) \<subseteq> set (b_producers b)" using assms(2,4) by blast
  qed
  moreover have "link_producer p ?w = Some (Inr ?v)"
    using x u(1) s ds(1) by (simp add: link_producer_def with_prod_def LinkDependencies_def with_stream_def)
  ultimately show ?thesis using ds(2) by (simp add: on_world_def)
qed

lemma log_config_key: "\<exists>conf. GetString ''MetricKey'' [] log_config = Inr (''LogMessages'', conf)"
  by (simp add: getter_defs get_setting_spec log_config_def Override_def registerKey_def NewPluginConfig_def NewMarshalMap_def mm_String_def mm_lookup_def)

lemma configure_log_ok:
  assumes "build_ok wild b"
  shows "ensures (configure_log b) (\<lambda>(log, b'). build_ok wild b' \<and> w_prods (b_world b') = w_prods (b_world b) \<and> b_producers b' = b_producers b \<and>
    b_consumers b' = b_consumers b \<and> b_errors b' = b_errors b)"
proof -
  let ?u = "\<lparr>u_conf = log_config, u_plugins = b_plugins b, u_world = b_world b\<rparr>"
  have wf: "wf_world (u_world ?u)" using assms by (simp add: build_ok_def Let_def)
  have g: "step_grows (LogConsumer_Configure NewLogConsumer)"
    unfolding LogConsumer_Configure_def
    by (intro step_grows_bind step_grows_cfg) (simp_all add: Let_def step_grows_read step_grows_stop step_grows_metrics)
  have "\<exists>r u'. LogConsumer_Configure NewLogConsumer ?u = Some (Inr (r, u'))"
    using log_config_key by (auto simp: LogConsumer_Configure_def setup_bind_def setup_world_def setup_cfg_def cfg_get_def Let_def)
  then obtain r u' where u': "LogConsumer_Configure NewLogConsumer ?u = Some (Inr (r, u'))" by blast
  note v = step_growsD [OF g u' wf]
  have "build_ok wild (b\<lparr>b_world := u_world u'\<rparr>)" using build_ok_grows [OF assms, of "u_world u'"] v by (simp add: same_streams_eq)
  then show ?thesis using u' v by (simp add: configure_log_def)
qed

lemma wildcard_each_ok:
  assumes "wf_world w"
  shows "ensures (ForEachStream ids (\<lambda>i a. AddWildcardProducersToStream a) w) (\<lambda>w'. grows w w' \<and> w_prods w' = w_prods w)"
  using assms
proof (induction ids arbitrary: w)
  case Nil
  then show ?case by (simp add: grows_refl)
next
  case (Cons i ids)
  show ?case
  proof (cases "w_streams w i")
    case None
    then show ?thesis using Cons by simp
  next
    case (Some a)
    then obtain s where s: "w_heap w a = Some s" using registered_exists [OF Cons.prems] by blast
    have "\<exists>v. AddWildcardProducersToStream a w = Some (Inr v) \<and> grows w v \<and> w_prods v = w_prods w"
    proof (cases "s_bound s \<noteq> LogInternalStreamID \<and> s_bound s \<noteq> DroppedStreamID")
      case True
      obtain s' where "AddProducer a (w_wildcard w) w = Some (Inr (set_stream a s' w))" "grows w (set_stream a s' w)"
        by (rule grows_AddProducer [OF Cons.prems s])
      then show ?thesis using True s by (simp add: AddWildcardProducersToStream_def with_stream_def set_stream_def)
    next
      case False
      then have "AddWildcardProducersToStream a w = Some (Inr w)" using s by (auto simp: AddWildcardProducersToStream_def with_stream_def)
      then show ?thesis using grows_refl [OF Cons.prems] by simp
    qed
    then obtain v where v: "AddWildcardProducersToStream a w = Some (Inr v)" "grows w v" "w_prods v = w_prods w" by blast
    have "ensures (ForEachStream ids (\<lambda>i a. AddWildcardProducersToStream a) v) (\<lambda>w'. grows w w' \<and> w_prods w' = w_prods w)"
      by (rule ensures_weaken [OF Cons.IH [OF grows_wf [OF v(2)]]]) (use v grows_trans in auto)
    then show ?thesis using Some v(1) by simp
  qed
qed

lemma sort_plugins_subset:
  "set (sc_streams (sort_plugins types confs)) \<union> set (sc_producers (sort_plugins types confs)) \<union> set (sc_consumers (sort_plugins types confs))
     \<subseteq> set confs"
proof -
  have "set (sc_streams (fold (sort_plugin types) confs sc)) \<union> set (sc_producers (fold (sort_plugin types) confs sc)) \<union>
      set (sc_consumers (fold (sort_plugin types) confs sc)) \<subseteq> set confs \<union> set (sc_streams sc) \<union> set (sc_producers sc) \<union> set (sc_consumers sc)" for sc
  proof (induction confs arbitrary: sc)
    case (Cons c confs)
    have "set (sc_streams (sort_plugin types c sc)) \<subseteq> insert c (set (sc_streams sc))"
      "set (sc_producers (sort_plugin types c sc)) \<subseteq> insert c (set (sc_producers sc))"
      "set (sc_consumers (sort_plugin types c sc)) \<subseteq> insert c (set (sc_consumers sc))"
      by (auto simp: sort_plugin_def Let_def split: option.splits if_splits)
    with Cons [of "sort_plugin types c sc"] show ?case by auto
  qed auto
  from this [of "\<lparr>sc_consumers = [], sc_producers = [], sc_streams = [], sc_errors = 0\<rparr>"] show ?thesis by (simp add: sort_plugins_def)
qed

text \<open>A plugin of none of the three interfaces is not used, and it is not counted as an error either.\<close>

lemma sort_plugin_unqualified:
  assumes "pt_kinds types (Typename config) = Some \<lparr>is_consumer = False, is_producer = False, is_stream = False\<rparr>"
  shows "sort_plugin types config sc = sc"
  using assms by (simp add: sort_plugin_def)

lemma start_metrics:
  assumes "wf_world w"
  shows "\<exists>met. metric_Set metricVersion (of_int version_number) (fold metric_New plex_metrics (w_metrics w)) = Inr met \<and>
    set plex_metrics \<subseteq> dom met \<and> wf_world (w\<lparr>w_metrics := met\<rparr>)"
proof -
  let ?met = "fold metric_New plex_metrics (w_metrics w)"
  have d: "set plex_metrics \<subseteq> dom ?met" using dom_metric_New(2) by blast
  moreover have "metricVersion \<in> set plex_metrics" by (simp add: plex_metrics_def)
  ultimately obtain v where v: "?met metricVersion = Some v" by blast
  have "dom (w_metrics w) \<subseteq> dom ?met" by (rule dom_metric_New)
  with v d show ?thesis by (auto simp: metric_Set_def metric_update_def intro!: wf_world_metrics [OF assms])
qed

lemma fresh_no_deps: "fresh_ok b \<Longrightarrow> world_deps (b_world b) = (\<lambda>q. [])"
  by (auto simp: fresh_ok_def world_deps_def fun_eq_iff split: option.splits)

text \<open>Every stage of the construction keeps what the next one needs; \<open>built\<close> is what the last one leaves.\<close>

definition built :: "sorted_configs \<Rightarrow> multiplexer \<times> nat \<times> build \<Rightarrow> bool" where
  "built sc = (\<lambda>(plex, errors, b). (\<exists>wild. build_ok wild b) \<and> wf (dep_rel (world_deps (b_world b))) \<and>
     (\<forall>q. set (world_deps (b_world b) q) \<subseteq> set (b_producers b)) \<and> mx_producers plex = b_producers b \<and> mx_consumers plex = b_consumers b \<and>
     (errors = 0 \<longrightarrow> sc_errors sc = 0 \<and> length (b_producers b) = length (instances (sc_producers sc)) \<and>
        length (b_consumers b) = length (instances (sc_consumers sc))))"

lemma set_instances: "set (instances confs) \<subseteq> set confs"
  by (auto simp: instances_def)

context growing_plugins
begin

lemma streams_stage:
  assumes "\<forall>c\<in>set confs. config_returns types c" "wf_world (b_world b)"
  shows "ensures (each (configure_stream types) confs b) (\<lambda>b'. wf_world (b_world b') \<and> w_prods (b_world b') = w_prods (b_world b) \<and>
    dom (w_metrics (b_world b)) \<subseteq> dom (w_metrics (b_world b')) \<and> b_producers b' = b_producers b \<and> b_consumers b' = b_consumers b \<and>
    b_next b' = b_next b \<and> b_errors b \<le> b_errors b')"
proof (rule ensures_each)
  fix c and b1 :: build
  assume c: "c \<in> set confs" and I: "wf_world (b_world b1) \<and> w_prods (b_world b1) = w_prods (b_world b) \<and>
    dom (w_metrics (b_world b)) \<subseteq> dom (w_metrics (b_world b1)) \<and> b_producers b1 = b_producers b \<and> b_consumers b1 = b_consumers b \<and>
    b_next b1 = b_next b \<and> b_errors b \<le> b_errors b1"
  then have "config_returns types c" "wf_world (b_world b1)" using assms(1) by auto
  then show "ensures (configure_stream types c b1) (\<lambda>b'. wf_world (b_world b') \<and> w_prods (b_world b') = w_prods (b_world b) \<and>
    dom (w_metrics (b_world b)) \<subseteq> dom (w_metrics (b_world b')) \<and> b_producers b' = b_producers b \<and> b_consumers b' = b_consumers b \<and>
    b_next b' = b_next b \<and> b_errors b \<le> b_errors b')" by (intro ensures_weaken [OF configure_stream_ok [of c b1]]) (use I in \<open>simp_all add: order_trans [of "dom (w_metrics (b_world b))" "dom (w_metrics (b_world b1))"]\<close>)
qed (use assms(2) in simp)

lemma producers_stage:
  assumes "\<forall>c\<in>set confs. config_returns types c" "build_ok wild b" "fresh_ok b" "b_consumers b = []" "b_producers b = []"
  shows "ensures (each (configure_producer types wild) confs b) (\<lambda>b'. build_ok wild b' \<and> fresh_ok b' \<and> b_consumers b' = [] \<and>
    b_errors b \<le> b_errors b' \<and> b_errors b' + length (b_producers b') = length confs + b_errors b)"
proof -
  let ?I = "\<lambda>b. build_ok wild b \<and> fresh_ok b \<and> b_consumers b = []"
  have "?I b" using assms(2-4) by simp
  then have "ensures (each (configure_producer types wild) confs b) (\<lambda>b'. ?I b' \<and> b_errors b \<le> b_errors b' \<and>
      b_errors b' + length (b_producers b') = length confs + b_errors b + length (b_producers b))"
  proof (rule ensures_each_count [where I = ?I and e = b_errors and n = "\<lambda>b. length (b_producers b)"])
    fix c b assume "c \<in> set confs" "?I b"
    then show "ensures (configure_producer types wild c b) (\<lambda>b'. ?I b' \<and> b_errors b \<le> b_errors b' \<and>
        b_errors b' + length (b_producers b') = Suc (b_errors b + length (b_producers b)))"
      using assms(1) by (intro ensures_weaken [OF configure_producer_ok [of c wild b]]) auto
  qed
  then show ?thesis by (rule ensures_weaken) (use assms(5) in auto)
qed

lemma consumers_stage:
  assumes "\<forall>c\<in>set confs. config_returns types c" "build_ok wild b" "b_consumers b = []"
  shows "ensures (each (configure_consumer types) confs b) (\<lambda>b'. build_ok wild b' \<and> w_prods (b_world b') = w_prods (b_world b) \<and>
    b_producers b' = b_producers b \<and> b_errors b \<le> b_errors b' \<and> b_errors b' + length (b_consumers b') = length confs + b_errors b)"
proof -
  let ?I = "\<lambda>b'. build_ok wild b' \<and> w_prods (b_world b') = w_prods (b_world b) \<and> b_producers b' = b_producers b"
  have "?I b" using assms(2) by simp
  then have "ensures (each (configure_consumer types) confs b) (\<lambda>b'. ?I b' \<and> b_errors b \<le> b_errors b' \<and>
      b_errors b' + length (b_consumers b') = length confs + b_errors b + length (b_consumers b))"
  proof (rule ensures_each_count [where I = ?I and e = b_errors and n = "\<lambda>b. length (b_consumers b)"])
    fix c b1 assume "c \<in> set confs" "?I b1"
    then show "ensures (configure_consumer types c b1) (\<lambda>b'. ?I b' \<and> b_errors b1 \<le> b_errors b' \<and>
        b_errors b' + length (b_consumers b') = Suc (b_errors b1 + length (b_consumers b1)))"
      using assms(1) by (intro ensures_weaken [OF configure_consumer_ok [of c wild b1]]) auto
  qed
  then show ?thesis by (rule ensures_weaken) (use assms(3) in auto)
qed

lemma link_stage:
  assumes "build_ok wild b" "fresh_ok b"
  shows "ensures (each (\<lambda>p. on_world (link_producer p)) (b_producers b) b) (\<lambda>b'. build_ok wild b' \<and> wf (dep_rel (world_deps (b_world b'))) \<and>
    (\<forall>q. set (world_deps (b_world b') q) \<subseteq> set (b_producers b)) \<and> b_producers b' = b_producers b \<and> b_consumers b' = b_consumers b \<and>
    b_errors b' = b_errors b)"
    (is "ensures _ ?I")
proof (rule ensures_each [where I = ?I])
  show "?I b" using assms by (simp add: fresh_no_deps dep_rel_def)
  fix p b1 assume "p \<in> set (b_producers b)" "?I b1"
  then show "ensures (on_world (link_producer p) b1) ?I" by (intro ensures_weaken [OF link_producer_ok [of wild b1 p]]) auto
qed

lemma newMultiplexer_built:
  assumes "\<forall>config\<in>set confs. config_returns types config" "wf_world w" "w_prods w = Map.empty"
  shows "ensures (newMultiplexer types order confs profiling plugins w) (built (sort_plugins types confs))"
proof -
  let ?sc = "sort_plugins types confs"
  have ret: "\<forall>c\<in>set (sc_streams ?sc). config_returns types c" "\<forall>c\<in>set (instances (sc_producers ?sc)). config_returns types c"
    "\<forall>c\<in>set (instances (sc_consumers ?sc)). config_returns types c"
    using assms(1) sort_plugins_subset [of types confs] set_instances [of "sc_producers ?sc"] set_instances [of "sc_consumers ?sc"] by blast+
  obtain met where met: "metric_Set metricVersion (of_int version_number) (fold metric_New plex_metrics (w_metrics w)) = Inr met"
    "set plex_metrics \<subseteq> dom met" "wf_world (w\<lparr>w_metrics := met\<rparr>)" using start_metrics [OF assms(2)] by blast
  let ?b0 = "\<lparr>b_world = w\<lparr>w_metrics := met\<rparr>, b_plugins = plugins, b_errors = sc_errors ?sc, b_next = 0, b_producers = [], b_consumers = []\<rparr>"
  obtain b1 where b1: "each (configure_stream types) (sc_streams ?sc) ?b0 = Some (Inr b1)" "wf_world (b_world b1)" "w_prods (b_world b1) = Map.empty"
    "dom met \<subseteq> dom (w_metrics (b_world b1))" "b_producers b1 = []" "b_consumers b1 = []" "b_next b1 = 0" "sc_errors ?sc \<le> b_errors b1"
    using streams_stage [OF ret(1), of ?b0] met(3) assms(3) unfolding ensures_def by auto
  obtain wild w1 where w1: "GetStreamOrFallback WildcardStreamID (b_world b1) = Some (Inr (wild, w1))" "grows (b_world b1) w1"
    "w_prods w1 = w_prods (b_world b1)" "w_streams w1 WildcardStreamID = Some wild" by (rule grows_fallback [OF b1(2)])
  let ?b1 = "b1\<lparr>b_world := w1\<rparr>"
  have "set plex_metrics \<subseteq> dom (w_metrics w1)" using met(2) b1(4) w1(2) unfolding grows_def by (blast intro: subset_trans)
  then have ok1: "build_ok wild ?b1" "fresh_ok ?b1" using b1 w1 by (simp_all add: build_ok_def fresh_ok_def grows_def)
  obtain b2 where b2: "each (configure_producer types wild) (instances (sc_producers ?sc)) ?b1 = Some (Inr b2)" "build_ok wild b2" "fresh_ok b2"
    "b_consumers b2 = []" "b_errors b1 \<le> b_errors b2" "b_errors b2 + length (b_producers b2) = length (instances (sc_producers ?sc)) + b_errors b1"
    using producers_stage [OF ret(2) ok1] b1(5,6) unfolding ensures_def by auto
  obtain b3 where b3: "each (\<lambda>p. on_world (link_producer p)) (b_producers b2) b2 = Some (Inr b3)" "build_ok wild b3"
    "wf (dep_rel (world_deps (b_world b3)))" "\<forall>q. set (world_deps (b_world b3) q) \<subseteq> set (b_producers b2)"
    "b_producers b3 = b_producers b2" "b_consumers b3 = []" "b_errors b3 = b_errors b2"
    using link_stage [OF b2(2,3)] b2(4) unfolding ensures_def by auto
  obtain log b4 where b4: "configure_log b3 = Some (Inr (log, b4))" "build_ok wild b4" "w_prods (b_world b4) = w_prods (b_world b3)"
    "b_producers b4 = b_producers b3" "b_consumers b4 = []" "b_errors b4 = b_errors b2"
    using configure_log_ok [of wild b3] b3 unfolding ensures_def by auto
  obtain b5 where b5: "each (configure_consumer types) (instances (sc_consumers ?sc)) b4 = Some (Inr b5)" "build_ok wild b5"
    "w_prods (b_world b5) = w_prods (b_world b4)" "b_producers b5 = b_producers b4" "b_errors b4 \<le> b_errors b5"
    "b_errors b5 + length (b_consumers b5) = length (instances (sc_consumers ?sc)) + b_errors b4"
    using consumers_stage [OF ret(3) b4(2,5)] unfolding ensures_def by auto
  have wf5: "wf_world (b_world b5)" using b5(2) by (simp add: build_ok_def Let_def)
  obtain w6 where w6: "ForEachStream (order (b_world b5)) (\<lambda>i a. AddWildcardProducersToStream a) (b_world b5) = Some (Inr w6)"
    "grows (b_world b5) w6" "w_prods w6 = w_prods (b_world b5)" using wildcard_each_ok [OF wf5] unfolding ensures_def by blast
  let ?b6 = "b5\<lparr>b_world := w6\<rparr>"
  have ok: "build_ok wild ?b6" using build_ok_grows [of wild b5 w6] b5(2) w6 same_streams_eq by blast
  have deps: "world_deps w6 = world_deps (b_world b3)" using w6(3) b5(3) b4(3) by (simp add: world_deps_def fun_eq_iff)
  have run: "newMultiplexer types order confs profiling plugins w = Some (Inr (\<lparr>mx_log = log, mx_consumers = b_consumers b5,
      mx_producers = b_producers b5, mx_state = StateConfigure, mx_profile = profiling\<rparr>, b_errors b5, ?b6))"
    using met(1) b1(1) w1(1) b2(1) b3(1) b4(1) b5(1) w6(1) by (simp add: newMultiplexer_def on_world_def Let_def)
  show ?thesis unfolding run using ok deps b3(3-5) b5(4-6) b2(5,6) b4(4,5,6) b1(8) by (auto simp: built_def)
qed

end

subsection \<open>Ticks and runs\<close>

definition tick_names :: "bytes list" where
  "tick_names = [metricMessagesSec, metricDroppedSec, metricDiscardedSec, metricFilteredSec, metricNoRouteSec, metricMessages,
     metricDropped, metricDiscarded, metricFiltered, metricNoRoute, metricBlockedProducers]"

text \<open>The five totals with the counters that are added to them.\<close>

definition totals :: "counts \<Rightarrow> (bytes \<times> u32) list" where
  "totals c = [(metricMessages, n_messages c), (metricDropped, n_dropped c), (metricDiscarded, n_discarded c),
     (metricFiltered, n_filtered c), (metricNoRoute, n_noRoute c)]"

text \<open>Updates of different metrics that exist.\<close>

lemma metric_ops_updates:
  assumes "distinct (map fst xs)" "fst ` set xs \<subseteq> dom met"
  shows "\<exists>met'. metric_ops (map (\<lambda>(nm, f). metric_update f nm) xs) met = Inr met' \<and> dom met' = dom met \<and>
    (\<forall>(nm, f)\<in>set xs. met' nm = Some (f (the (met nm)))) \<and> (\<forall>nm. nm \<notin> fst ` set xs \<longrightarrow> met' nm = met nm)"
  using assms
proof (induction xs arbitrary: met)
  case (Cons x xs)
  obtain nm f where x: "x = (nm, f)" by (cases x)
  obtain v where v: "met nm = Some v" using Cons.prems(2) x by auto
  let ?met = "met(nm \<mapsto> f v)"
  have d: "dom ?met = dom met" using v by auto
  have "distinct (map fst xs)" "fst ` set xs \<subseteq> dom ?met" unfolding d using Cons.prems by simp_all
  from Cons.IH [OF this] obtain met' where met': "metric_ops (map (\<lambda>(nm, f). metric_update f nm) xs) ?met = Inr met'" "dom met' = dom ?met"
    "\<forall>(nm, f)\<in>set xs. met' nm = Some (f (the (?met nm)))" "\<forall>nm. nm \<notin> fst ` set xs \<longrightarrow> met' nm = ?met nm"
    by blast
  have "met' nm' = Some (g (the (met nm')))" if "(nm', g) \<in> set (x # xs)" for nm' g
  proof (cases "(nm', g) = x")
    case True
    then have "nm \<notin> fst ` set xs" "nm' = nm" "g = f" using Cons.prems(1) x by auto
    then show ?thesis using met'(4) v by simp
  next
    case False
    then have "(nm', g) \<in> set xs" "nm' \<noteq> nm" using that Cons.prems(1) x by force+
    then show ?thesis using met'(3) by auto
  qed
  then have "\<forall>(nm, f)\<in>set (x # xs). met' nm = Some (f (the (met nm)))" by blast
  moreover have "metric_update f nm met = Inr ?met" using v by (simp add: metric_update_def)
  then have "metric_ops (map (\<lambda>(nm, f). metric_update f nm) (x # xs)) met = Inr met'" using met'(1) x by simp
  moreover have "\<forall>nm. nm \<notin> fst ` set (x # xs) \<longrightarrow> met' nm = met nm" using met'(4) x by auto
  ultimately show ?case using met'(2) d by blast
qed simp

definition tick_updates :: "(u32 \<Rightarrow> 64 word) \<Rightarrow> counts \<Rightarrow> int \<Rightarrow> (bytes \<times> (64 word \<Rightarrow> 64 word)) list" where
  "tick_updates rate c blocked =
     [(metricMessagesSec, \<lambda>_. rate (n_messages c)), (metricDroppedSec, \<lambda>_. rate (n_dropped c)),
      (metricDiscardedSec, \<lambda>_. rate (n_discarded c)), (metricFilteredSec, \<lambda>_. rate (n_filtered c)), (metricNoRouteSec, \<lambda>_. rate (n_noRoute c)),
      (metricMessages, \<lambda>v. v + ucast (n_messages c)), (metricDropped, \<lambda>v. v + ucast (n_dropped c)),
      (metricDiscarded, \<lambda>v. v + ucast (n_discarded c)), (metricFiltered, \<lambda>v. v + ucast (n_filtered c)),
      (metricNoRoute, \<lambda>v. v + ucast (n_noRoute c)), (metricBlockedProducers, \<lambda>_. of_int blocked)]"

lemma plex_tick_ok:
  assumes "set tick_names \<subseteq> dom (w_metrics w)"
  shows "\<exists>met'. plex_tick rate plex w = Some (Inr (w\<lparr>w_counts := no_counts, w_metrics := met'\<rparr>)) \<and> dom met' = dom (w_metrics w) \<and>
    (\<forall>(nm, n)\<in>set (totals (w_counts w)). met' nm = Some (the (w_metrics w nm) + ucast n)) \<and>
    met' metricBlockedProducers = Some (of_int (blocked_producers (mx_producers plex) w))"
proof -
  let ?b = "blocked_producers (mx_producers plex) w"
  let ?xs = "tick_updates rate (w_counts w) ?b"
  have names: "map fst ?xs = tick_names" by (simp add: tick_updates_def tick_names_def)
  have "distinct (map fst ?xs)" unfolding names by (simp add: tick_names_def plex_metric_names)
  moreover have "fst ` set ?xs \<subseteq> dom (w_metrics w)" using assms names by (metis set_map)
  ultimately obtain met' where met': "metric_ops (map (\<lambda>(nm, f). metric_update f nm) ?xs) (w_metrics w) = Inr met'"
    "dom met' = dom (w_metrics w)" "\<forall>(nm, f)\<in>set ?xs. met' nm = Some (f (the (w_metrics w nm)))"
    using metric_ops_updates [of ?xs "w_metrics w"] by blast
  have b: "blocked_producers ps (w\<lparr>w_counts := cs\<rparr>) = blocked_producers ps w" for ps cs by (simp add: blocked_producers_def)
  have run: "plex_tick rate plex w = Some (Inr (w\<lparr>w_counts := no_counts, w_metrics := met'\<rparr>))"
    using met'(1) by (simp add: plex_tick_def GetAndResetMessageCount_def tick_updates_def metric_defs b)
  show ?thesis
    by (intro exI [of _ met'] conjI run met'(2)) (use met'(3) in \<open>simp_all add: totals_def tick_updates_def\<close>)
qed

text \<open>The loop over ticks, signals to roll and other signals.\<close>

definition exits :: "plex_event \<Rightarrow> bool" where
  "exits e \<longleftrightarrow> (case e of Tick rate \<Rightarrow> False | Signal sig \<Rightarrow> translateSignal sig = SignalExit)"

definition event_actions :: "multiplexer \<Rightarrow> plex_event \<Rightarrow> plex_action list" where
  "event_actions plex e = (if e = Signal SIGHUP then plex_roll plex else [])"

lemma translateSignal_cases: "translateSignal sig = SignalRoll \<longleftrightarrow> sig = SIGHUP"
  by (cases sig) (simp_all add: translateSignal_def)

lemma plex_loop_ok:
  assumes "set tick_names \<subseteq> dom (w_metrics (r_world r))" "list_all (\<lambda>e. \<not> exits e) es" "exits e"
  shows "\<exists>met c. plex_loop (es @ [e]) r = Some (Inr (r\<lparr>r_plex := (r_plex r)\<lparr>mx_state := StateShutdown\<rparr>,
     r_world := (r_world r)\<lparr>w_counts := c, w_metrics := met\<rparr>, r_trace := r_trace r @ concat (map (event_actions (r_plex r)) es)\<rparr>))"
  using assms(1,2)
proof (induction es arbitrary: r)
  case Nil
  obtain sig where "e = Signal sig" "translateSignal sig = SignalExit" using assms(3) by (cases e) (auto simp: exits_def)
  moreover have "r = r\<lparr>r_world := (r_world r)\<lparr>w_counts := w_counts (r_world r), w_metrics := w_metrics (r_world r)\<rparr>, r_trace := r_trace r\<rparr>"
    by simp
  ultimately show ?case by (intro exI [of _ "w_metrics (r_world r)"] exI [of _ "w_counts (r_world r)"]) (simp add: plex_setState_def)
next
  case (Cons x es)
  show ?case
  proof (cases x)
    case (Tick rate)
    obtain met' where t: "plex_tick rate (r_plex r) (r_world r) = Some (Inr ((r_world r)\<lparr>w_counts := no_counts, w_metrics := met'\<rparr>))"
      "dom met' = dom (w_metrics (r_world r))" using plex_tick_ok [OF Cons.prems(1), of rate "r_plex r"] by blast
    then show ?thesis using Cons.IH [of "r\<lparr>r_world := (r_world r)\<lparr>w_counts := no_counts, w_metrics := met'\<rparr>\<rparr>"] Cons.prems Tick
      by (simp add: event_actions_def)
  next
    case (Signal sig)
    then have n: "translateSignal sig \<noteq> SignalExit" using Cons.prems(2) by (simp add: exits_def)
    show ?thesis
    proof (cases "sig = SIGHUP")
      case True
      then show ?thesis using Cons.IH [of "emit (plex_roll (r_plex r)) r"] Cons.prems Signal
        by (simp add: translateSignal_def emit_def event_actions_def)
    next
      case False
      then have "translateSignal sig = SignalNone" using n translateSignal_cases by (cases "translateSignal sig") auto
      then show ?thesis using Cons.IH [of r] Cons.prems Signal False by (simp add: event_actions_def)
    qed
  qed
qed

text \<open>After the fuses were activated no consumer waits on one.\<close>

lemma ActivateAllFuses_unburned: "\<not> IsFuseBurned cons (ActivateAllFuses w)"
  by (auto simp: IsFuseBurned_def ActivateAllFuses_def IsBurned_def Broadcast_all_def Activate_swap_def split: option.splits if_splits)

lemma plex_run_ok:
  assumes "set tick_names \<subseteq> dom (w_metrics (r_world r))" "mx_producers (r_plex r) \<noteq> []" "r_trace r = []"
    and "list_all (\<lambda>e. \<not> exits e) es" "exits e"
  shows "\<exists>r'. plex_run (es @ [e]) True True r = Some (Inr r') \<and> mx_state (r_plex r') = StateStopped \<and>
    r_trace r' =
      map StartProducer (mx_producers (r_plex r)) @
      [if IsStreamRegistered LogInternalStreamID (r_world r) then BindLog else LogToStdout] @
      map StartConsumer (plex_consumers (r_plex r)) @
      concat (map (\<lambda>e. if e = Signal SIGHUP then plex_roll (r_plex r) else []) es) @
      map (\<lambda>c. CommandConsumer c StopConsumer) (plex_consumers (r_plex r)) @ [ActivateFuses, ConsumersDone, LogToStdout] @
      map (\<lambda>p. CommandProducer p StopProducer) (mx_producers (r_plex r)) @ [ProducersDone] \<and>
    (\<forall>cons. \<not> IsFuseBurned cons (r_world r'))"
proof -
  let ?plex = "r_plex r"
  let ?r = "r\<lparr>r_plex := ?plex\<lparr>mx_state := StateStartConsumers\<rparr>, r_trace := map StartProducer (mx_producers ?plex) @
    [if IsStreamRegistered LogInternalStreamID (r_world r) then BindLog else LogToStdout] @ map StartConsumer (plex_consumers ?plex)\<rparr>"
  have c: "plex_consumers (?plex\<lparr>mx_state := s\<rparr>) = plex_consumers ?plex" "plex_consumers ?plex \<noteq> []"
    "plex_roll (?plex\<lparr>mx_state := s\<rparr>) = plex_roll ?plex" "event_actions (?plex\<lparr>mx_state := s\<rparr>) = event_actions ?plex" for s
    by (simp_all add: plex_consumers_def plex_roll_def event_actions_def fun_eq_iff)
  obtain met n where l: "plex_loop (es @ [e]) ?r = Some (Inr (?r\<lparr>r_plex := (r_plex ?r)\<lparr>mx_state := StateShutdown\<rparr>,
     r_world := (r_world ?r)\<lparr>w_counts := n, w_metrics := met\<rparr>, r_trace := r_trace ?r @ concat (map (event_actions (r_plex ?r)) es)\<rparr>))"
    using plex_loop_ok [OF _ assms(4,5), of ?r] assms(1) by auto
  let ?s = "?r\<lparr>r_plex := (r_plex ?r)\<lparr>mx_state := StateShutdown\<rparr>,
     r_world := (r_world ?r)\<lparr>w_counts := n, w_metrics := met\<rparr>, r_trace := r_trace ?r @ concat (map (event_actions (r_plex ?r)) es)\<rparr>"
  have run: "plex_run (es @ [e]) True True r = map_option Inr (plex_shutdown True True ?s)"
    using assms(2,3) c l by (simp add: plex_run_def plex_setState_def emit_def Let_def)
  have o: "StateStartConsumers \<le> StateShutdown" "StateStartProducers \<le> StateShutdown"
    by (simp_all add: less_eq_plex_state_def plex_rank_def)
  show ?thesis unfolding run
    by (simp add: plex_shutdown_def plex_setState_def emit_def Let_def o c ActivateAllFuses_unburned) (simp add: event_actions_def [abs_def])
qed

subsection \<open>A configuration for the witnesses\<close>

definition console_confs :: "plugin_config list" where
  "console_confs = [(NewPluginConfig ''producer.Console'')\<lparr>Stream := [''*'']\<rparr>, (NewPluginConfig ''consumer.Console'')\<lparr>Stream := [''*'']\<rparr>]"

definition console_plugins :: plugin_types where
  "console_plugins = gollum_plugins (\<lambda>t. cfg_return Forward) (\<lambda>t. cfg_return FilterAll)"

text \<open>Steps that return when the configuration sets nothing; \<open>Q\<close> holds for their values.\<close>

definition plain_setup :: "setup_state \<Rightarrow> bool" where
  "plain_setup u \<longleftrightarrow> Settings (u_conf u) = [] \<and> Stream (u_conf u) \<noteq> [] \<and> wf_world (u_world u)"

definition step_runs :: "'a setup_step \<Rightarrow> ('a \<Rightarrow> bool) \<Rightarrow> bool" where
  "step_runs m Q \<longleftrightarrow> (\<forall>u. plain_setup u \<longrightarrow> (\<exists>r u'. m u = Some (Inr (r, u')) \<and> plain_setup u' \<and> (\<forall>x. r = Inr x \<longrightarrow> Q x)))"

lemma step_runs_bind:
  assumes "step_runs m Q" "\<And>x. Q x \<Longrightarrow> step_runs (f x) R"
  shows "step_runs (setup_bind m f) R"
  unfolding step_runs_def
proof (intro allI impI)
  fix u assume "plain_setup u"
  then obtain r v where v: "m u = Some (Inr (r, v))" "plain_setup v" "\<forall>x. r = Inr x \<longrightarrow> Q x" using assms(1) unfolding step_runs_def by blast
  show "\<exists>r u'. setup_bind m f u = Some (Inr (r, u')) \<and> plain_setup u' \<and> (\<forall>x. r = Inr x \<longrightarrow> R x)"
  proof (cases r)
    case (Inl e)
    then show ?thesis using v by (simp add: setup_bind_def)
  next
    case (Inr x)
    then show ?thesis using v assms(2) [of x, unfolded step_runs_def, rule_format, OF _ v(2)] by (simp add: setup_bind_def)
  qed
qed

lemma step_runs_return: "step_runs (setup_return x) (\<lambda>y. y = x)" "R x \<Longrightarrow> step_runs (setup_return x) R"
  by (simp_all add: step_runs_def setup_return_def)

lemma plain_registerKey [simp]: "plain_setup (u\<lparr>u_conf := registerKey k (u_conf u)\<rparr>) = plain_setup u"
  by (simp add: plain_setup_def registerKey_def)

lemma step_runs_default: "step_runs (setup_cfg (cfg_get (get_setting getter k d))) (\<lambda>x. x = d)"
  unfolding step_runs_def
proof (intro allI impI)
  fix u assume "plain_setup u"
  then have "setup_cfg (cfg_get (get_setting getter k d)) u = Some (Inr (Inr d, u\<lparr>u_conf := registerKey k (u_conf u)\<rparr>))"
    by (simp add: plain_setup_def setup_cfg_def cfg_get_def get_setting_def HasValue_def registerKey_def Let_def)
  with \<open>plain_setup u\<close> show "\<exists>r u'. setup_cfg (cfg_get (get_setting getter k d)) u = Some (Inr (r, u')) \<and> plain_setup u' \<and>
      (\<forall>x. r = Inr x \<longrightarrow> x = d)" by simp
qed

lemma step_runs_streams: "step_runs (setup_cfg cfg_get_streams) (\<lambda>x. x \<noteq> [])"
  by (auto simp: step_runs_def plain_setup_def setup_cfg_def cfg_get_streams_def)

lemma step_runs_id: "step_runs (setup_cfg (cfg_stream_id nm)) (\<lambda>x. True)"
  by (auto simp: step_runs_def plain_setup_def setup_cfg_def cfg_stream_id_def split: prod.split)

lemma step_runs_map_streams: "step_runs (setup_world (map_streams nms)) (\<lambda>x. True)"
  unfolding step_runs_def
proof (intro allI impI)
  fix u assume u: "plain_setup u"
  then have "wf_world (u_world u)" by (simp add: plain_setup_def)
  from map_streams_grows [OF this, of nms] obtain mapped w' where
    "map_streams nms (u_world u) = Some (Inr (mapped, w'))" "grows (u_world u) w'" by blast
  then show "\<exists>r u'. setup_world (map_streams nms) u = Some (Inr (r, u')) \<and> plain_setup u' \<and> (\<forall>x. r = Inr x \<longrightarrow> True)"
    using u grows_wf by (auto simp: setup_world_def plain_setup_def)
qed

lemma setup_cfg_bind: "setup_cfg (cfg_bind m f) = setup_bind (setup_cfg m) (\<lambda>x. setup_cfg (f x))"
proof -
  have eta: "\<lparr>cs_conf = cs_conf st, cs_plugins = cs_plugins st, cs_names = cs_names st\<rparr> = st" for st :: cfg_state by simp
  then show ?thesis
    by (auto simp: eta setup_cfg_def cfg_bind_def setup_bind_def then_do_def fun_eq_iff split: option.splits sum.splits prod.splits)
qed

lemma setup_cfg_return: "setup_cfg (cfg_return x) = setup_return x"
  by (simp add: setup_cfg_def cfg_return_def setup_return_def fun_eq_iff)

lemma step_runs_ids: "step_runs (setup_cfg (stream_ids nms)) (\<lambda>x. True)"
  by (induction nms) (auto simp: setup_cfg_bind setup_cfg_return intro!: step_runs_bind [OF step_runs_id] step_runs_bind step_runs_return(2))

lemma step_runs_tidings: "step_runs (setup_NewPluginWithType tidings_types ''tidings.Csv'') (\<lambda>x. True)"
  by (auto simp: step_runs_def plain_setup_def setup_NewPluginWithType_def tidings_types_def Csv_Configure_def setup_cfg_def get_special_def
      cfg_get_def cfg_bind_def cfg_return_def GetValue_def message_special_def registerKey_def Let_def)

lemma step_runs_consumer: "step_runs (consumer_Configure (setup_NewPluginWithType tidings_types)) (\<lambda>x. True)"
  unfolding consumer_Configure_def getter_defs
  by (rule step_runs_bind [OF step_runs_streams] step_runs_bind [OF step_runs_map_streams] step_runs_bind [OF step_runs_default]
      | simp add: step_runs_bind [OF step_runs_return(1)] step_runs_bind [OF step_runs_tidings] step_runs_return)+

lemma step_runs_console:
  "step_runs (setup_map cn_base (Console_Configure (setup_NewPluginWithType tidings_types))) (\<lambda>x. True)"
proof -
  have l: "str_to_lower ''stdin'' = ''stdin''" by code_simp
  show ?thesis
    unfolding Console_Configure_def setup_map_bind getter_defs
    by (rule step_runs_bind [OF step_runs_default] step_runs_bind [OF step_runs_consumer]
        | simp add: l setup_map_bind step_runs_bind [OF step_runs_consumer] step_runs_return)+
qed

lemma step_runs_producer: "step_runs (setup_cfg (producer_Configure (\<lambda>t. cfg_return Forward) (\<lambda>t. cfg_return FilterAll))) (\<lambda>x. True)"
  unfolding producer_Configure_def setup_cfg_bind getter_defs
  by (rule step_runs_bind [OF step_runs_default] step_runs_bind [OF step_runs_streams] step_runs_bind [OF step_runs_id]
      step_runs_bind [OF step_runs_ids]
      | simp add: setup_cfg_bind setup_cfg_return step_runs_bind [OF step_runs_return(1)] step_runs_return)+

lemma step_runs_console_producer:
  "step_runs (setup_map cp_base (setup_cfg (ProducerConsole_Configure (\<lambda>t. cfg_return Forward) (\<lambda>t. cfg_return FilterAll)))) (\<lambda>x. True)"
  unfolding ProducerConsole_Configure_def setup_cfg_bind setup_map_bind getter_defs
  by (rule step_runs_bind [OF step_runs_default] step_runs_bind [OF step_runs_producer] | simp add: setup_cfg_return step_runs_return)+

lemma console_confs_return: "\<forall>config\<in>set console_confs. config_returns console_plugins config"
proof -
  have r: "step_returns config (Some m)" if "step_runs m (\<lambda>x. True)" "Settings config = []" "Stream config \<noteq> []" for config and m :: "'a setup_step"
    unfolding step_returns_def
  proof (intro allI impI)
    fix c plugins w assume "Some m = Some c" "wf_world w"
    then have "plain_setup \<lparr>u_conf = config, u_plugins = plugins, u_world = w\<rparr>" "m = c" using that by (simp_all add: plain_setup_def)
    from that(1) [unfolded step_runs_def, rule_format, OF this(1)] this(2)
    show "\<exists>r u'. c \<lparr>u_conf = config, u_plugins = plugins, u_world = w\<rparr> = Some (Inr (r, u'))" by blast
  qed
  have n: "step_returns config (None :: 'b setup_step option)" for config by (simp add: step_returns_def)
  show ?thesis
    by (simp add: console_confs_def config_returns_def console_plugins_def gollum_plugins_def stream_plugins_def producer_plugins_def
        consumer_plugins_def Let_def n r step_runs_console step_runs_console_producer NewPluginConfig_def NewMarshalMap_def)
qed

subsection \<open>Properties\<close>

text \<open>C3: a configuration whose steps return is built into a multiplexer in which everything is connected: every
  producer is in the list of each stream it names (or among the wildcard producers) and in the list of the
  wildcard stream unless it only listens to internal streams; every consumer is mapped to registered
  streams; and when no error is reported, all types are known and each configured instance exists.\<close>

theorem multiplexer_wires:
  assumes "\<forall>config\<in>set confs. config_returns (gollum_plugins newFormat newFilter) config" "wf_world w" "w_prods w = Map.empty"
  shows "\<exists>plex errors b wild. newMultiplexer (gollum_plugins newFormat newFilter) order confs profiling plugins w = Some (Inr (plex, errors, b)) \<and>
    wf_world (b_world b) \<and> w_streams (b_world b) WildcardStreamID = Some wild \<and>
    (\<forall>p\<in>set (mx_producers plex). attached wild (b_world b) p) \<and>
    (\<forall>cons\<in>set (mx_consumers plex). \<forall>(i, a)\<in>set (c_streams cons). w_streams (b_world b) i = Some a) \<and>
    (errors = 0 \<longrightarrow> sc_errors (sort_plugins (gollum_plugins newFormat newFilter) confs) = 0 \<and>
       length (mx_producers plex) = length (instances (sc_producers (sort_plugins (gollum_plugins newFormat newFilter) confs))) \<and>
       length (mx_consumers plex) = length (instances (sc_consumers (sort_plugins (gollum_plugins newFormat newFilter) confs))))"
proof -
  let ?types = "gollum_plugins newFormat newFilter"
  obtain plex errors b where r: "newMultiplexer ?types order confs profiling plugins w = Some (Inr (plex, errors, b))"
    "built (sort_plugins ?types confs) (plex, errors, b)"
    using gollum.newMultiplexer_built [OF assms, of order profiling plugins] unfolding ensures_def by auto
  then obtain wild where "build_ok wild b" by (auto simp: built_def)
  with r show ?thesis
    by (intro exI [of _ plex] exI [of _ errors] exI [of _ b] exI [of _ wild]) (simp add: built_def build_ok_def Let_def mapped_ok_def list_all_iff)
qed

theorem multiplexer_wires_witness:
  "\<exists>plex errors b wild. newMultiplexer console_plugins (\<lambda>w. [WildcardStreamID]) console_confs False Map.empty start_world = Some (Inr (plex, errors, b)) \<and>
    w_streams (b_world b) WildcardStreamID = Some wild \<and> (\<forall>p\<in>set (mx_producers plex). attached wild (b_world b) p)"
proof -
  have "wf_world start_world" "w_prods start_world = Map.empty" by (simp_all add: wf_world_def start_world_def)
  from multiplexer_wires [OF console_confs_return [unfolded console_plugins_def] this, of "\<lambda>w. [WildcardStreamID]" False Map.empty]
  show ?thesis unfolding console_plugins_def by blast
qed


text \<open>C9: the dependencies among the producers of a built multiplexer are acyclic and stay among them, so the
  shutdown can always be completed: from any states there is an order in which every producer finds its
  dependencies dead and dies.\<close>

theorem multiplexer_producers_stop:
  assumes "\<forall>config\<in>set confs. config_returns (gollum_plugins newFormat newFilter) config" "wf_world w" "w_prods w = Map.empty"
  shows "\<exists>plex errors b. newMultiplexer (gollum_plugins newFormat newFilter) order confs profiling plugins w = Some (Inr (plex, errors, b)) \<and>
    wf (dep_rel (world_deps (b_world b))) \<and>
    (\<forall>st. \<exists>st'. (shutdown_step (world_deps (b_world b)) (set (mx_producers plex)))\<^sup>*\<^sup>* st st' \<and> (\<forall>p\<in>set (mx_producers plex). st' p = StateDead))"
proof -
  let ?types = "gollum_plugins newFormat newFilter"
  obtain plex errors b where r: "newMultiplexer ?types order confs profiling plugins w = Some (Inr (plex, errors, b))"
    "built (sort_plugins ?types confs) (plex, errors, b)"
    using gollum.newMultiplexer_built [OF assms, of order profiling plugins] unfolding ensures_def by auto
  then have d: "wf (dep_rel (world_deps (b_world b)))" "\<forall>p\<in>set (mx_producers plex). set (world_deps (b_world b) p) \<subseteq> set (mx_producers plex)"
    by (simp_all add: built_def)
  from shutdown_possible [OF d(1) _ d(2)] r(1) d(1) show ?thesis by blast
qed

theorem multiplexer_producers_stop_witness:
  "\<exists>plex errors b. newMultiplexer console_plugins (\<lambda>w. []) console_confs False Map.empty start_world = Some (Inr (plex, errors, b)) \<and>
    (\<exists>st'. (shutdown_step (world_deps (b_world b)) (set (mx_producers plex)))\<^sup>*\<^sup>* (\<lambda>p. StateActive) st' \<and>
       (\<forall>p\<in>set (mx_producers plex). st' p = StateDead))"
proof -
  have "wf_world start_world" "w_prods start_world = Map.empty" by (simp_all add: wf_world_def start_world_def)
  from multiplexer_producers_stop [OF console_confs_return [unfolded console_plugins_def] this, of "\<lambda>w. []" False Map.empty]
  show ?thesis unfolding console_plugins_def by blast
qed


text \<open>C10: a run does things in order: producers start, the log is bound, consumers start; on each \<open>SIGHUP\<close>
  everything rolls; the first signal to exit stops all consumers, lets those go on that wait on a fuse and
  waits for them, and only then stops the producers and waits for them. Nothing else is done, the run ends
  when the workers do, and no consumer is left waiting on a fuse.\<close>

theorem multiplexer_run_order:
  assumes "set tick_names \<subseteq> dom (w_metrics (r_world r))" "mx_producers (r_plex r) \<noteq> []" "r_trace r = []"
    and "list_all (\<lambda>e. \<not> exits e) es" "exits e"
  shows "\<exists>r'. plex_run (es @ [e]) True True r = Some (Inr r') \<and> mx_state (r_plex r') = StateStopped \<and>
    r_trace r' =
      map StartProducer (mx_producers (r_plex r)) @
      [if IsStreamRegistered LogInternalStreamID (r_world r) then BindLog else LogToStdout] @
      map StartConsumer (plex_consumers (r_plex r)) @
      concat (map (\<lambda>e. if e = Signal SIGHUP then plex_roll (r_plex r) else []) es) @
      map (\<lambda>c. CommandConsumer c StopConsumer) (plex_consumers (r_plex r)) @ [ActivateFuses, ConsumersDone, LogToStdout] @
      map (\<lambda>p. CommandProducer p StopProducer) (mx_producers (r_plex r)) @ [ProducersDone] \<and>
    (\<forall>cons. \<not> IsFuseBurned cons (r_world r'))"
  by (rule plex_run_ok [OF assms])

definition idle_plex :: running where
  "idle_plex = \<lparr>r_plex = \<lparr>mx_log = NewLogConsumer, mx_consumers = [two_stream_consumer], mx_producers = [1, 2], mx_state = StateConfigure, mx_profile = False\<rparr>,
     r_world = consumer_world\<lparr>w_metrics := fold metric_New plex_metrics Map.empty, w_fuses := [''f'' \<mapsto> Burn NewFuse]\<rparr>, r_trace = []\<rparr>"

lemma idle_plex_metrics: "set tick_names \<subseteq> dom (w_metrics (r_world idle_plex))"
proof -
  have "set tick_names \<subseteq> set plex_metrics" by (auto simp: tick_names_def plex_metrics_def)
  then show ?thesis using dom_metric_New(2) [of _ plex_metrics Map.empty] by (auto simp: idle_plex_def)
qed

theorem multiplexer_run_order_witness:
  "\<exists>r'. plex_run ([Signal SIGHUP] @ [Signal SIGTERM]) True True idle_plex = Some (Inr r') \<and> mx_state (r_plex r') = StateStopped \<and>
    length (r_trace r') = 17"
proof -
  have "mx_producers (r_plex idle_plex) \<noteq> []" "r_trace idle_plex = []" "list_all (\<lambda>e. \<not> exits e) [Signal SIGHUP]" "exits (Signal SIGTERM)"
    by (simp_all add: idle_plex_def exits_def translateSignal_def)
  from multiplexer_run_order [OF idle_plex_metrics this] obtain r' where
    "plex_run ([Signal SIGHUP] @ [Signal SIGTERM]) True True idle_plex = Some (Inr r')" "mx_state (r_plex r') = StateStopped"
    "length (r_trace r') = 17" by (auto simp: idle_plex_def plex_consumers_def plex_roll_def)
  then show ?thesis by blast
qed


text \<open>C32: a tick moves the counters into the totals: each of the five totals grows by its counter (modulo
  \<open>2\<^sup>6\<^sup>4\<close>), the counters are 0 afterwards, and the metric of blocked producers is their number.\<close>

theorem multiplexer_tick_conserves:
  assumes "set tick_names \<subseteq> dom (w_metrics w)"
  shows "\<exists>w'. plex_tick rate plex w = Some (Inr w') \<and> w_counts w' = no_counts \<and>
    (\<forall>(nm, n)\<in>set (totals (w_counts w)). fst (metric_Get nm (w_metrics w')) = fst (metric_Get nm (w_metrics w)) + ucast n) \<and>
    fst (metric_Get metricBlockedProducers (w_metrics w')) = of_int (blocked_producers (mx_producers plex) w)"
proof -
  obtain met' where t: "plex_tick rate plex w = Some (Inr (w\<lparr>w_counts := no_counts, w_metrics := met'\<rparr>))"
    "\<forall>(nm, n)\<in>set (totals (w_counts w)). met' nm = Some (the (w_metrics w nm) + ucast n)"
    "met' metricBlockedProducers = Some (of_int (blocked_producers (mx_producers plex) w))"
    using plex_tick_ok [OF assms, of rate plex] by blast
  have "fst (metric_Get nm (w_metrics w)) = the (w_metrics w nm)" if "(nm, n) \<in> set (totals (w_counts w))" for nm n
  proof -
    have "nm \<in> set tick_names" using that by (auto simp: totals_def tick_names_def)
    then show ?thesis using assms by (auto simp: metric_Get_def)
  qed
  with t show ?thesis by (intro exI [of _ "w\<lparr>w_counts := no_counts, w_metrics := met'\<rparr>"]) (auto simp: metric_Get_def)
qed

theorem multiplexer_tick_conserves_witness:
  "\<exists>w'. plex_tick (\<lambda>n. ucast n) (r_plex idle_plex) ((r_world idle_plex)\<lparr>w_counts := no_counts\<lparr>n_dropped := 3\<rparr>\<rparr>) = Some (Inr w') \<and>
    w_counts w' = no_counts \<and> fst (metric_Get metricDropped (w_metrics w')) = 3"
proof -
  let ?w = "(r_world idle_plex)\<lparr>w_counts := no_counts\<lparr>n_dropped := 3\<rparr>\<rparr>"
  have "set tick_names \<subseteq> dom (w_metrics ?w)" using idle_plex_metrics by simp
  from multiplexer_tick_conserves [OF this, of "\<lambda>n. ucast n" "r_plex idle_plex"] obtain w' where
    w': "plex_tick (\<lambda>n. ucast n) (r_plex idle_plex) ?w = Some (Inr w')" "w_counts w' = no_counts"
    "\<forall>(nm, n)\<in>set (totals (w_counts ?w)). fst (metric_Get nm (w_metrics w')) = fst (metric_Get nm (w_metrics ?w)) + ucast n" by blast
  have "fst (metric_Get metricDropped (w_metrics ?w)) = 0"
    by (simp add: idle_plex_def plex_metrics_def plex_metric_names metric_New_def metric_Get_def)
  with w' show ?thesis by (intro exI [of _ w']) (simp add: totals_def)
qed

text \<open>C38: a producer that listens to all streams can miss one: when a stream was created while there were
  wildcard producers, and another wildcard producer is registered later, then the last step of the
  construction does not add it to the stream. It stops at the first wildcard producer, which is already there.\<close>

theorem wildcard_producer_missed:
  assumes "wf_world w" "w_streams w i = None" "w_wildcard w = p # ps" "q \<notin> set (p # ps)" "distinct (p # ps)"
    and "fnv1a (GetStreamName (w_names w) i) = i" "is_external i"
  shows "\<exists>a w1 w2. GetStreamOrFallback i w = Some (Inr (a, w1)) \<and>
    AddWildcardProducersToStream a (RegisterWildcardProducer [q] w1) = Some (Inr w2) \<and>
    w_streams w2 i = Some a \<and> w_wildcard w2 = (p # ps) @ [q] \<and> producers_at w2 a = p # ps"
proof -
  obtain names where g: "GetStreamID (w_names w) (GetStreamName (w_names w) i) = (i, names)"
    using assms(6) by (simp add: GetStreamID_def Let_def)
  obtain v where v: "w_metrics w metricStreams = Some v" using assms(1) by (auto simp: wf_world_def)
  have all: "add_producers [] (p # ps) = p # ps" using add_producers_distinct [of "[]" "p # ps"] assms(5) by simp
  let ?a = "w_next w" let ?s = "(new_stream Broadcast i)\<lparr>s_Producers := p # ps\<rparr>"
  let ?w = "w\<lparr>w_names := names, w_next := Suc ?a, w_heap := (w_heap w)(?a \<mapsto> ?s), w_streams := (w_streams w)(i \<mapsto> ?a),
    w_metrics := (w_metrics w)(metricStreams \<mapsto> v + 1)\<rparr>"
  have ext: "i \<noteq> LogInternalStreamID" "i \<noteq> DroppedStreamID" using assms(7) by (simp_all add: is_external_def)
  have 1: "GetStreamOrFallback i w = Some (Inr (?a, ?w))"
    using assms(2,3) g v ext all by (simp add: GetStreamOrFallback_def AddWildcardProducersToStream_def AddProducer_def with_stream_def
        new_stream_def set_stream_def metric_defs metric_update_def Let_def)
  let ?v = "?w\<lparr>w_wildcard := (p # ps) @ [q]\<rparr>"
  have "RegisterWildcardProducer [q] ?w = ?v"
    using assms(3,4) by (simp add: RegisterWildcardProducer_def append_new_def)
  moreover have "AddWildcardProducersToStream ?a ?v = Some (Inr ?v)"
    using ext by (simp add: AddWildcardProducersToStream_def AddProducer_def with_stream_def new_stream_def set_stream_def)
  ultimately show ?thesis using 1 by (intro exI [of _ ?a] exI [of _ ?w] exI [of _ ?v]) (simp add: producers_at_def)
qed

theorem wildcard_producer_missed_witness:
  "\<exists>a w1 w2. GetStreamOrFallback (fnv1a ''foo'') (start_world\<lparr>w_wildcard := [0], w_names := [fnv1a ''foo'' \<mapsto> ''foo'']\<rparr>) = Some (Inr (a, w1)) \<and>
    AddWildcardProducersToStream a (RegisterWildcardProducer [2] w1) = Some (Inr w2) \<and> w_wildcard w2 = [0, 2] \<and> producers_at w2 a = [0]"
proof -
  let ?w = "start_world\<lparr>w_wildcard := [0], w_names := [fnv1a ''foo'' \<mapsto> ''foo'']\<rparr>"
  have f: "fnv1a ''foo'' \<noteq> DroppedStreamID" "fnv1a ''foo'' \<noteq> LogInternalStreamID" "fnv1a ''foo'' \<noteq> WildcardStreamID"
    by (simp_all add: stream_id_values fnv1a_def)
  have w: "wf_world ?w" "w_streams ?w (fnv1a ''foo'') = None" "w_wildcard ?w = 0 # []" "(2::nat) \<notin> set (0 # [])" "distinct (0 # [] :: nat list)"
    by (simp_all add: wf_world_def start_world_def)
  have n: "fnv1a (GetStreamName (w_names ?w) (fnv1a ''foo'')) = fnv1a ''foo''" using f by (simp add: GetStreamName_def)
  have e: "is_external (fnv1a ''foo'')" using f by (simp add: is_external_def)
  from wildcard_producer_missed [OF w n e] show ?thesis by auto
qed

end
