(* ===== verification/SystemMetrics.thy ===== *)
theory SystemMetrics
  imports Metrics Utilities
begin

text \<open>
  The rest of \<open>shared/metric.go\<close> (float variants, the metrics of the process, the dump and the lock behind
  them), \<open>shared/metricserver.go\<close> and \<open>shared/stoplistener.go\<close>. Rounding a float, reading the memory
  statistics, the JSON encoder and the sockets are parameters.
\<close>

subsection \<open>Metrics of the process\<close>

text \<open>\<open>rounded\<close> is \<open>int64(math.Floor(value + 0.5))\<close> of the float, and of its negation in \<open>SubF\<close>.\<close>

definition metric_SetF :: "('f \<Rightarrow> 64 word) \<Rightarrow> bytes \<Rightarrow> 'f \<Rightarrow> metrics \<Rightarrow> metrics run" where
  "metric_SetF rounded nm value = metric_update (\<lambda>_. rounded value) nm"

definition metric_AddF :: "('f \<Rightarrow> 64 word) \<Rightarrow> bytes \<Rightarrow> 'f \<Rightarrow> metrics \<Rightarrow> metrics run" where
  "metric_AddF rounded nm value = metric_update (\<lambda>v. v + rounded value) nm"

definition metric_SubF :: "('f \<Rightarrow> 64 word) \<Rightarrow> bytes \<Rightarrow> 'f \<Rightarrow> metrics \<Rightarrow> metrics run" where
  "metric_SubF negRounded nm value = metric_update (\<lambda>v. v + negRounded value) nm"

definition MetricProcessStart :: bytes where "MetricProcessStart = ''ProcessStart''"
definition MetricGoRoutines :: bytes where "MetricGoRoutines = ''GoRoutines''"
definition MetricGoVersion :: bytes where "MetricGoVersion = ''GoVersion''"
definition MetricMemoryAllocated :: bytes where "MetricMemoryAllocated = ''GoMemoryAllocated''"
definition MetricMemoryNumObjects :: bytes where "MetricMemoryNumObjects = ''GoMemoryNumObjects''"
definition MetricMemoryGCEnabled :: bytes where "MetricMemoryGCEnabled = ''GoMemoryGCEnabled''"

lemmas system_metric_names = MetricProcessStart_def MetricGoRoutines_def MetricGoVersion_def MetricMemoryAllocated_def
  MetricMemoryNumObjects_def MetricMemoryGCEnabled_def

definition system_metrics :: "bytes list" where
  "system_metrics = [MetricProcessStart, MetricGoRoutines, MetricGoVersion, MetricMemoryAllocated, MetricMemoryNumObjects, MetricMemoryGCEnabled]"

text \<open>\<open>strconv.ParseUint(s, 10, 64)\<close> without its error: 0 for what is no number, the largest value for what is too large.\<close>

definition parse_uint :: "bytes \<Rightarrow> u64" where
  "parse_uint s = (if s = [] \<or> \<not> list_all is_digit s then 0 else if dec_value s < 2 ^ 64 then of_nat (dec_value s) else - 1)"

text \<open>The number of a Go version: \<open>None\<close> when it does not start with \<open>go\<close>.\<close>

definition version_metric :: "bytes \<Rightarrow> u64 option run" where
  "version_metric version =
     (if version = [] then Inl IndexOutOfRange
      else if version ! 0 \<noteq> CHR ''g'' then Inr None
      else if length version < 2 then Inl IndexOutOfRange
      else if version ! 1 \<noteq> CHR ''o'' then Inr None
      else
        let parts = str_split (drop 2 version) ''.'';
            numericVersion = map parse_uint parts @ replicate (3 - length parts) 0
        in Inr (Some (numericVersion ! 0 * 10000 + numericVersion ! 1 * 100 + numericVersion ! 2)))"

definition metrics_init :: "64 word \<Rightarrow> bytes \<Rightarrow> metrics \<Rightarrow> metrics run" where
  "metrics_init processStart version met =
     run_bind (metric_Set MetricProcessStart processStart (fold metric_New system_metrics met)) (\<lambda>met.
     run_bind (version_metric version) (\<lambda>v.
       case v of None \<Rightarrow> Inr met | Some v \<Rightarrow> metric_Set MetricGoVersion v met))"

record mem_stats =
  ms_goroutines :: int
  ms_alloc :: u64
  ms_gc :: bool
  ms_objects :: u64

definition UpdateSystemMetrics :: "mem_stats \<Rightarrow> metrics \<Rightarrow> metrics run" where
  "UpdateSystemMetrics stats met =
     run_bind (metric_SetI MetricGoRoutines (ms_goroutines stats) met) (\<lambda>met.
     run_bind (metric_Set MetricMemoryAllocated (ms_alloc stats) met) (\<lambda>met.
     run_bind (metric_SetB MetricMemoryGCEnabled (ms_gc stats) met) (\<lambda>met.
       metric_Set MetricMemoryNumObjects (ms_objects stats) met)))"

definition metric_Dump :: "(metrics \<Rightarrow> bytes) \<Rightarrow> mem_stats \<Rightarrow> metrics \<Rightarrow> (bytes \<times> metrics) run" where
  "metric_Dump marshal stats met = run_bind (UpdateSystemMetrics stats met) (\<lambda>met. Inr (marshal met, met))"

lemma UpdateSystemMetrics_ok:
  assumes "set system_metrics \<subseteq> dom met"
  shows "UpdateSystemMetrics stats met = Inr (met(MetricGoRoutines \<mapsto> of_int (ms_goroutines stats), MetricMemoryAllocated \<mapsto> ms_alloc stats,
    MetricMemoryGCEnabled \<mapsto> if ms_gc stats then 1 else 0, MetricMemoryNumObjects \<mapsto> ms_objects stats))"
proof -
  obtain a b c d where v: "met MetricGoRoutines = Some a" "met MetricMemoryAllocated = Some b" "met MetricMemoryGCEnabled = Some c"
      "met MetricMemoryNumObjects = Some d"
    using assms by (auto simp: system_metrics_def)
  have "distinct [MetricGoRoutines, MetricMemoryAllocated, MetricMemoryGCEnabled, MetricMemoryNumObjects]"
    by (simp add: system_metric_names)
  with v show ?thesis by (simp add: UpdateSystemMetrics_def metric_defs metric_update_def)
qed

subsection \<open>The lock of the store\<close>

text \<open>
  \<open>UpdateSystemMetrics\<close> holds the read lock while its four setters take it again. A reader does not get
  the lock while a writer waits for it, and \<open>New\<close> is a writer. \<open>UHeld k\<close> holds the outer lock after \<open>k\<close>
  setters, \<open>UNested k\<close> is inside the next.
\<close>

datatype updater_pc = UOut | UHeld nat | UNested nat | UDone
datatype creator_pc = COut | CWaiting | CInside | CDone

record rw_state =
  rw_readers :: nat
  rw_pending :: bool
  rw_updater :: updater_pc
  rw_creator :: creator_pc

inductive rw_step :: "rw_state \<Rightarrow> rw_state \<Rightarrow> bool" where
  u_lock: "rw_updater s = UOut \<Longrightarrow> \<not> rw_pending s \<Longrightarrow> rw_step s (s\<lparr>rw_readers := rw_readers s + 1, rw_updater := UHeld 0\<rparr>)"
| u_nested: "rw_updater s = UHeld k \<Longrightarrow> k < 4 \<Longrightarrow> \<not> rw_pending s \<Longrightarrow>
    rw_step s (s\<lparr>rw_readers := rw_readers s + 1, rw_updater := UNested k\<rparr>)"
| u_nested_done: "rw_updater s = UNested k \<Longrightarrow> rw_step s (s\<lparr>rw_readers := rw_readers s - 1, rw_updater := UHeld (Suc k)\<rparr>)"
| u_unlock: "rw_updater s = UHeld 4 \<Longrightarrow> rw_step s (s\<lparr>rw_readers := rw_readers s - 1, rw_updater := UDone\<rparr>)"
| c_announce: "rw_creator s = COut \<Longrightarrow> rw_step s (s\<lparr>rw_pending := True, rw_creator := CWaiting\<rparr>)"
| c_enter: "rw_creator s = CWaiting \<Longrightarrow> rw_readers s = 0 \<Longrightarrow> rw_step s (s\<lparr>rw_creator := CInside\<rparr>)"
| c_unlock: "rw_creator s = CInside \<Longrightarrow> rw_step s (s\<lparr>rw_pending := False, rw_creator := CDone\<rparr>)"

inductive_cases rw_stepE: "rw_step s s'"

definition rw_init :: rw_state where
  "rw_init = \<lparr>rw_readers = 0, rw_pending = False, rw_updater = UOut, rw_creator = COut\<rparr>"

subsection \<open>Metric server\<close>

record metric_server =
  sv_running :: bool
  sv_listening :: bool

definition NewMetricServer :: metric_server where
  "NewMetricServer = \<lparr>sv_running = False, sv_listening = False\<rparr>"

text \<open>The answer to a request: the dump, or the text of its error, and a line end.\<close>

definition handleMetricRequest :: "bytes + bytes \<Rightarrow> bytes" where
  "handleMetricRequest dump = (case dump of Inl err \<Rightarrow> err | Inr d \<Rightarrow> d) @ [CHR 0x0A]"

text \<open>
  The loop of \<open>Start\<close>: a turn reads whether the server still runs and whether \<open>Accept\<close> returned a client. The
  result is the number of requests that were started; \<open>None\<close> while it waits.
\<close>

fun serve :: "(bool \<times> bool) list \<Rightarrow> nat option" where
  "serve [] = None"
| "serve ((running, client) # turns) =
     (if \<not> running then Some 0 else if \<not> client then Some 0 else map_option Suc (serve turns))"

definition server_Start :: "bool \<Rightarrow> (bool \<times> bool) list \<Rightarrow> metric_server \<Rightarrow> (bool \<times> nat \<times> metric_server) option" where
  "server_Start listens turns server =
     (if sv_running server then Some (False, 0, server)
      else if \<not> listens then Some (True, 0, server)
      else map_option (\<lambda>n. (False, n, server\<lparr>sv_running := True, sv_listening := True\<rparr>)) (serve turns))"

definition server_Stop :: "metric_server \<Rightarrow> metric_server" where
  "server_Stop server = server\<lparr>sv_running := False\<rparr>"

text \<open>The server is still marked as running when an error of \<open>Accept\<close> ended its loop, so it is not started again.\<close>

lemma server_Start_after_error:
  "server_Start True [(True, False)] NewMetricServer = Some (False, 0, \<lparr>sv_running = True, sv_listening = True\<rparr>)"
  "server_Start listens turns \<lparr>sv_running = True, sv_listening = True\<rparr> = Some (False, 0, \<lparr>sv_running = True, sv_listening = True\<rparr>)"
  by (simp_all add: server_Start_def NewMetricServer_def)

subsection \<open>Stoppable listener\<close>

text \<open>\<open>listening\<close> is the answer of \<open>net.Listen\<close>; the listener carries whether it is active.\<close>

definition NewStopListener :: "bytes + 'l \<Rightarrow> bytes + 'l \<times> bool" where
  "NewStopListener listening = (case listening of Inl err \<Rightarrow> Inl err | Inr l \<Rightarrow> Inr (l, True))"

datatype 'c accept_result = Connection 'c | AcceptFailed bytes | StopRequested

definition listener_Accept :: "bool \<Rightarrow> bytes + 'c \<Rightarrow> 'c accept_result" where
  "listener_Accept active r = (if \<not> active then StopRequested else case r of Inl err \<Rightarrow> AcceptFailed err | Inr conn \<Rightarrow> Connection conn)"

definition listener_Close :: "bool \<Rightarrow> bool" where
  "listener_Close active = False"

lemma closed_listener_accepts_nothing: "listener_Accept (listener_Close active) r = StopRequested"
  by (simp add: listener_Accept_def listener_Close_def)

subsection \<open>Properties\<close>


text \<open>The metric of the Go version is the usual number of a version with three parts.\<close>

theorem go_version_metric:
  assumes "a < 1000000" "b < 1000000" "c < 1000000"
  shows "version_metric (''go'' @ str_join [format_uint a 10, format_uint b 10, format_uint c 10] ''.'') =
    Inr (Some (of_nat (a * 10000 + b * 100 + c)))"
proof -
  have p: "parse_uint (format_uint n 10) = of_nat n" if "n < 1000000" for n
    using that by (simp add: parse_uint_def format_uint_digits dec_value_format_uint)
  have d: "CHR ''.'' \<notin> set (format_uint n 10)" for n
    using format_uint_digits [of n] by (auto simp: list_all_iff is_digit_def)
  have "str_split (str_join [format_uint a 10, format_uint b 10, format_uint c 10] ''.'') ''.'' = [format_uint a 10, format_uint b 10, format_uint c 10]"
    using d by (intro str_split_join) auto
  then show ?thesis using assms by (simp add: version_metric_def Let_def p)
qed

theorem go_version_metric_witness: "version_metric ''go1.5.2'' = Inr (Some 10502)"
proof -
  have "''go1.5.2'' = ''go'' @ str_join [format_uint 1 10, format_uint 5 10, format_uint 2 10] ''.''"
    by code_simp
  then show ?thesis using go_version_metric [of 1 5 2] by simp
qed

end
