(* ===== verification/Logs.thy ===== *)
theory Logs
  imports Prelude
begin

text \<open>
  \<open>core/log\<close>: the four log channels behind a verbosity, and where their lines go. Lines are kept in a cache
  until the writer is set; then the cache is flushed and the lines go to the writer, the console or the
  log consumer. The standard library's own log was given a copy of the referrer, with the cache as its writer.
\<close>

subsection \<open>Channels\<close>

datatype log_channel = ChError | ChWarning | ChNote | ChDebug

text \<open>Verbosity is a byte; a value that is none of the four constants means all channels.\<close>

definition SetVerbosity :: "8 word \<Rightarrow> log_channel \<Rightarrow> bool" where
  "SetVerbosity loglevel channel \<longleftrightarrow> channel \<in> set
     (if loglevel = 0 then [ChError]
      else if loglevel = 1 then [ChWarning, ChError]
      else if loglevel = 2 then [ChNote, ChWarning, ChError]
      else [ChDebug, ChNote, ChWarning, ChError])"

definition newline :: char where "newline = CHR 0x0A"

definition channel_prefix :: "log_channel \<Rightarrow> bytes" where
  "channel_prefix channel = (case channel of ChError \<Rightarrow> ''ERROR: '' | ChWarning \<Rightarrow> ''Warning: '' | ChNote \<Rightarrow> [] | ChDebug \<Rightarrow> ''Debug: '')"

text \<open>The line a logger writes; \<open>pos\<close> is the file position that the flag \<open>Lshortfile\<close> asks for.\<close>

definition log_line :: "log_channel \<Rightarrow> bytes \<Rightarrow> bytes \<Rightarrow> bytes" where
  "log_line channel pos msg =
     channel_prefix channel @ (if channel \<in> {ChError, ChWarning} then pos else []) @ msg @
     (if msg \<noteq> [] \<and> last msg = newline then [] else [newline])"

subsection \<open>Writers\<close>

datatype log_writer = WriterNil | WriterCache | WriterConsole | WriterConsumer

text \<open>\<open>lg_std\<close> is the writer in the standard log's copy of the referrer.\<close>

record log_state =
  lg_writer :: log_writer
  lg_std :: log_writer
  lg_cache :: "bytes list"
  lg_console :: "bytes list"
  lg_consumer :: "bytes list"

definition log_init :: log_state where
  "log_init = \<lparr>lg_writer = WriterCache, lg_std = WriterCache, lg_cache = [], lg_console = [], lg_consumer = []\<rparr>"

definition cache_Write :: "bytes \<Rightarrow> log_state \<Rightarrow> nat \<times> log_state" where
  "cache_Write message st = (length message, st\<lparr>lg_cache := lg_cache st @ [message]\<rparr>)"

definition strip_newline :: "bytes \<Rightarrow> bytes" where
  "strip_newline message = (if last message = newline then butlast message else message)"

definition referrer_Write :: "log_writer \<Rightarrow> bytes \<Rightarrow> log_state \<Rightarrow> nat \<times> log_state" where
  "referrer_Write writer message st =
     (if message = [] then (0, st)
      else
        let n = length message; message = strip_newline message
        in case writer of
             WriterNil \<Rightarrow> (n, st\<lparr>lg_console := lg_console st @ [message]\<rparr>)
           | WriterConsole \<Rightarrow> (n, st\<lparr>lg_console := lg_console st @ [message]\<rparr>)
           | WriterCache \<Rightarrow> cache_Write message st
           | WriterConsumer \<Rightarrow> (length message, st\<lparr>lg_consumer := lg_consumer st @ [message]\<rparr>))"

definition cache_flush :: "log_writer \<Rightarrow> log_state \<Rightarrow> log_state" where
  "cache_flush writer st =
     (fold (\<lambda>message st. snd (referrer_Write writer message st)) (lg_cache st) st)\<lparr>lg_cache := []\<rparr>"

definition log_SetWriter :: "log_writer \<Rightarrow> log_state \<Rightarrow> log_state" where
  "log_SetWriter writer st =
     (let oldWriter = lg_writer st; st = st\<lparr>lg_writer := writer\<rparr>
      in if oldWriter = WriterCache then cache_flush writer st else st)"

text \<open>What the program logs: to a channel, with the standard log, or a change of the writer.\<close>

datatype log_cmd =
    LogChannel log_channel bytes bytes
  | LogStandard bytes
  | LogSetWriter log_writer

definition log_step :: "8 word \<Rightarrow> log_cmd \<Rightarrow> log_state \<Rightarrow> log_state" where
  "log_step loglevel cmd st =
     (case cmd of
        LogChannel channel pos msg \<Rightarrow>
          if SetVerbosity loglevel channel then snd (referrer_Write (lg_writer st) (log_line channel pos msg) st) else st
      | LogStandard msg \<Rightarrow> snd (referrer_Write (lg_std st) (log_line ChNote [] msg) st)
      | LogSetWriter writer \<Rightarrow> log_SetWriter writer st)"

definition log_run :: "8 word \<Rightarrow> log_cmd list \<Rightarrow> log_state \<Rightarrow> log_state" where
  "log_run loglevel cmds st = fold (log_step loglevel) cmds st"

subsection \<open>Lemmas\<close>

lemma log_line_nonempty [simp]: "log_line channel pos msg \<noteq> []"
  by (auto simp: log_line_def)

lemma log_line_last: "last (log_line channel pos msg) = newline"
  by (auto simp: log_line_def)

text \<open>What reaches a writer of a list of lines: those of enabled channels, in order, without the line end.\<close>

definition log_output :: "8 word \<Rightarrow> (log_channel \<times> bytes \<times> bytes) list \<Rightarrow> bytes list" where
  "log_output loglevel ms = map (\<lambda>(c, pos, msg). butlast (log_line c pos msg)) (filter (\<lambda>(c, pos, msg). SetVerbosity loglevel c) ms)"

definition log_prints :: "(log_channel \<times> bytes \<times> bytes) list \<Rightarrow> log_cmd list" where
  "log_prints ms = map (\<lambda>(c, pos, msg). LogChannel c pos msg) ms"

definition log_sink :: "log_writer \<Rightarrow> bytes list \<Rightarrow> log_state \<Rightarrow> log_state" where
  "log_sink writer ls st =
     (case writer of WriterCache \<Rightarrow> st\<lparr>lg_cache := lg_cache st @ ls\<rparr> | WriterConsumer \<Rightarrow> st\<lparr>lg_consumer := lg_consumer st @ ls\<rparr>
      | _ \<Rightarrow> st\<lparr>lg_console := lg_console st @ ls\<rparr>)"

lemma log_sink_simps [simp]:
  "log_sink writer [] st = st" "log_sink writer ls (log_sink writer ks st) = log_sink writer (ks @ ls) st"
  "lg_writer (log_sink writer ls st) = lg_writer st" "lg_std (log_sink writer ls st) = lg_std st"
  by (simp_all add: log_sink_def split: log_writer.split)

lemma referrer_Write_sink: "message \<noteq> [] \<Longrightarrow> snd (referrer_Write writer message st) = log_sink writer [strip_newline message] st"
  by (simp add: referrer_Write_def cache_Write_def log_sink_def Let_def split: log_writer.split)

lemma log_run_prints: "log_run loglevel (log_prints ms) st = log_sink (lg_writer st) (log_output loglevel ms) st"
proof (induction ms arbitrary: st)
  case (Cons m ms)
  obtain c pos msg where m: "m = (c, pos, msg)" by (cases m)
  let ?st = "log_step loglevel (LogChannel c pos msg) st"
  have "?st = log_sink (lg_writer st) (log_output loglevel [m]) st"
    by (simp add: m log_step_def referrer_Write_sink log_output_def strip_newline_def log_line_last)
  moreover have "log_output loglevel (m # ms) = log_output loglevel [m] @ log_output loglevel ms" by (simp add: log_output_def)
  ultimately show ?case using Cons.IH [of ?st] by (simp add: log_run_def log_prints_def m)
qed (simp add: log_run_def log_prints_def log_output_def)

lemma flush_lines:
  assumes "\<forall>l\<in>set ls. l \<noteq> [] \<longrightarrow> last l \<noteq> newline"
  shows "fold (\<lambda>message st. snd (referrer_Write writer message st)) ls st = log_sink writer (filter (\<lambda>l. l \<noteq> []) ls) st"
  using assms
proof (induction ls arbitrary: st)
  case (Cons l ls)
  then show ?case
    by (cases "l = []") (simp_all add: referrer_Write_def [of _ "[]"] referrer_Write_sink strip_newline_def)
qed simp

lemma log_run_Cons: "log_run loglevel (c # cs) st = log_run loglevel cs (log_step loglevel c st)"
  by (simp add: log_run_def)

lemma log_run_append: "log_run loglevel (xs @ ys) st = log_run loglevel ys (log_run loglevel xs st)"
  by (simp add: log_run_def)

text \<open>States that differ in the cache only.\<close>

definition same_sinks :: "log_state \<Rightarrow> log_state \<Rightarrow> bool" where
  "same_sinks st st' \<longleftrightarrow> lg_writer st = lg_writer st' \<and> lg_std st = lg_std st' \<and> lg_console st = lg_console st' \<and> lg_consumer st = lg_consumer st'"

subsection \<open>Properties\<close>

text \<open>A verbosity enables the channels up to it: 0 only errors, 1 also warnings, 2 also notes, and every other
  byte all of them; a higher one of these never disables a channel.\<close>

theorem log_verbosity:
  "SetVerbosity v c \<longleftrightarrow> (case c of ChError \<Rightarrow> True | ChWarning \<Rightarrow> v \<noteq> 0 | ChNote \<Rightarrow> v \<noteq> 0 \<and> v \<noteq> 1 | ChDebug \<Rightarrow> v \<noteq> 0 \<and> v \<noteq> 1 \<and> v \<noteq> 2)"
  by (auto simp: SetVerbosity_def split: log_channel.split)

text \<open>C33: no line of an enabled channel is lost when the writer is set, and the order is kept: what was logged before
  the writer was set and what is logged afterwards reaches the writer once and in order; only empty lines in the
  cache are left out. Messages that end with a second line end are excluded: the flush would remove that one too.\<close>

theorem log_cache_flushed:
  assumes "writer \<in> {WriterConsole, WriterConsumer}"
    and "\<forall>l\<in>set (log_output v before). l \<noteq> [] \<longrightarrow> last l \<noteq> newline"
  shows "\<exists>st. log_run v (log_prints before @ [LogSetWriter writer] @ log_prints after) log_init = st \<and> lg_cache st = [] \<and>
    (if writer = WriterConsole then lg_console st else lg_consumer st) =
      filter (\<lambda>l. l \<noteq> []) (log_output v before) @ log_output v after"
proof -
  let ?out = "log_output v before"
  let ?st = "log_run v (log_prints before) log_init"
  have st: "?st = log_sink WriterCache ?out log_init" by (simp add: log_run_prints log_init_def)
  have "log_step v (LogSetWriter writer) ?st = log_sink writer (filter (\<lambda>l. l \<noteq> []) ?out) (log_init\<lparr>lg_writer := writer\<rparr>)"
    unfolding st using assms flush_lines [OF assms(2), of writer]
    by (auto simp: log_step_def log_SetWriter_def cache_flush_def log_sink_def log_init_def Let_def)
  then have "log_run v (log_prints before @ [LogSetWriter writer] @ log_prints after) log_init =
      log_sink writer (filter (\<lambda>l. l \<noteq> []) ?out @ log_output v after) (log_init\<lparr>lg_writer := writer\<rparr>)"
    by (simp only: log_run_append log_run_Cons append.simps) (simp add: log_run_prints)
  then show ?thesis using assms(1) by (auto simp: log_sink_def log_init_def)
qed

theorem log_cache_flushed_witness:
  "lg_console (log_run 1 (log_prints [(ChNote, [], ''a''), (ChWarning, ''x.go:1: '', ''b'')] @ [LogSetWriter WriterConsole] @
     log_prints [(ChError, ''x.go:2: '', ''c'')]) log_init) = [''Warning: x.go:1: b'', ''ERROR: x.go:2: c'']"
  using log_cache_flushed [of WriterConsole 1 "[(ChNote, [], ''a''), (ChWarning, ''x.go:1: '', ''b'')]" "[(ChError, ''x.go:2: '', ''c'')]"]
  by (simp add: log_output_def SetVerbosity_def log_line_def channel_prefix_def newline_def)

text \<open>A message of the standard log is lost once the writer was set: the standard log keeps writing to the cache,
  which is never flushed again. Whatever is logged, the console and the log consumer see exactly what they would
  see without the messages of the standard log.\<close>

theorem log_standard_lost:
  assumes "lg_writer st \<noteq> WriterCache" "lg_std st = WriterCache" "LogSetWriter WriterCache \<notin> set cmds"
  shows "lg_console (log_run v cmds st) = lg_console (log_run v (filter (\<lambda>c. \<nexists>msg. c = LogStandard msg) cmds) st) \<and>
    lg_consumer (log_run v cmds st) = lg_consumer (log_run v (filter (\<lambda>c. \<nexists>msg. c = LogStandard msg) cmds) st)"
proof -
  have "same_sinks (log_run v cmds st) (log_run v (filter (\<lambda>c. \<nexists>msg. c = LogStandard msg) cmds) st')"
    if "same_sinks st st'" "lg_writer st \<noteq> WriterCache" "lg_std st = WriterCache" for st st'
    using assms(3) that
  proof (induction cmds arbitrary: st st')
    case Nil
    then show ?case by (simp add: log_run_def)
  next
    case (Cons c cmds)
    show ?case
    proof (cases "\<exists>msg. c = LogStandard msg")
      case True
      then obtain msg where c: "c = LogStandard msg" by blast
      have "same_sinks (log_step v c st) st'" "lg_writer (log_step v c st) = lg_writer st" "lg_std (log_step v c st) = lg_std st"
        using Cons.prems by (simp_all add: c log_step_def referrer_Write_sink log_sink_def same_sinks_def)
      then show ?thesis using Cons.IH [of "log_step v c st" st'] Cons.prems c by (simp add: log_run_def)
    next
      case False
      have "same_sinks (log_step v c st) (log_step v c st') \<and> lg_writer (log_step v c st) \<noteq> WriterCache \<and>
          lg_std (log_step v c st) = WriterCache"
        using Cons.prems False
        by (cases c) (auto simp: log_step_def referrer_Write_sink log_sink_def log_SetWriter_def same_sinks_def Let_def split: log_writer.splits)
      then show ?thesis using Cons.IH [of "log_step v c st" "log_step v c st'"] Cons.prems False by (auto simp: log_run_def)
    qed
  qed
  from this [of st st] assms(1,2) show ?thesis by (simp add: same_sinks_def)
qed

theorem log_standard_lost_witness:
  "lg_console (log_run 3 [LogStandard ''panic'', LogChannel ChNote [] ''bye''] (log_SetWriter WriterConsole log_init)) = [''bye'']"
  using log_standard_lost [of "log_SetWriter WriterConsole log_init" "[LogStandard ''panic'', LogChannel ChNote [] ''bye'']" 3]
  by (simp add: log_SetWriter_def cache_flush_def log_init_def log_run_def log_step_def SetVerbosity_def referrer_Write_def strip_newline_def
      log_line_def channel_prefix_def newline_def)

end
