(* ===== verification/Mains.thy ===== *)
theory Mains
  imports Multiplexers SystemMetrics Logs
begin

text \<open>
  \<open>main.go\<close> and \<open>flags.go\<close>: what a start of the program does with its flags, up to the run of the
  multiplexer; \<open>DontPanic\<close>, under which all goroutines run; and the comparison of a type with an interface behind
  the report of a faulty plugin (\<open>GetMissingMethods\<close> of \<open>shared/utilities.go\<close>).
\<close>

subsection \<open>Flags\<close>

record main_flags =
  fl_help :: bool
  fl_version :: bool
  fl_report :: bool
  fl_profile :: bool
  fl_loglevel :: int
  fl_numCPU :: int
  fl_metricsPort :: int
  fl_configFile :: bytes
  fl_testConfigFile :: bytes
  fl_cpuProfile :: bytes
  fl_memProfile :: bytes
  fl_trace :: bytes
  fl_pidFile :: bytes

definition default_flags :: main_flags where
  "default_flags = \<lparr>fl_help = False, fl_version = False, fl_report = False, fl_profile = False, fl_loglevel = 0, fl_numCPU = 0,
     fl_metricsPort = 0, fl_configFile = [], fl_testConfigFile = [], fl_cpuProfile = [], fl_memProfile = [], fl_trace = [], fl_pidFile = []\<rparr>"

subsection \<open>Program\<close>

text \<open>What the program needs of its surroundings: the registered types of the contributed packages, the version of
  Go, the number of CPUs, the process id, the configuration in a file, files it may create, the order of the
  stream registry, the events and whether the workers end.\<close>

record main_env =
  me_contrib :: "bytes list"
  me_goVersion :: bytes
  me_cpus :: int
  me_pid :: int
  me_readConfig :: "bytes \<Rightarrow> plugin_config list option"
  me_creates :: "bytes \<Rightarrow> bool"
  me_order :: "world \<Rightarrow> u64 list"
  me_events :: "plex_event list"
  me_consumersEnd :: bool
  me_producersEnd :: bool

datatype main_result =
    ReportPrinted bytes
  | VersionPrinted bytes
  | UsagePrinted
  | ConfigError
  | ConfigFaulty nat
  | ConfigOk
  | Stopped running

text \<open>What \<open>main\<close> does to the process, in order.\<close>

datatype main_effect =
    VerbositySet "8 word"
  | WriterSet log_writer
  | PidWritten bytes bytes
  | MaxProcsSet int
  | CPUProfileStarted bytes
  | CPUProfileStopped
  | TraceStarted bytes
  | TraceStopped
  | HeapProfileWritten bytes
  | ServerStarted int
  | ServerStopped

text \<open>\<open>os.Exit\<close>: the status of the process.\<close>

definition exit_status :: "main_result \<Rightarrow> nat" where
  "exit_status r = (case r of ConfigError \<Rightarrow> 1 | ConfigFaulty n \<Rightarrow> 1 | _ \<Rightarrow> 0)"

definition version_text :: bytes where
  "version_text =
     (if gollumDevVer > 0
      then itoa gollumMajorVer @ ''.'' @ itoa gollumMinorVer @ ''.'' @ itoa gollumPatchVer @ ''.'' @ itoa gollumDevVer @ '' dev''
      else itoa gollumMajorVer @ ''.'' @ itoa gollumMinorVer @ ''.'' @ itoa gollumPatchVer)"

definition main_verbosity :: "main_flags \<Rightarrow> 8 word" where
  "main_verbosity flags = of_int (fl_loglevel flags)"

text \<open>The lines the report lists: the registered types of the contributed packages.\<close>

definition contrib_modules :: "bytes list \<Rightarrow> bytes run" where
  "contrib_modules typeNames =
     foldl (\<lambda>modules typeName. run_bind modules (\<lambda>modules. run_bind (IndexN typeName ''.'' 1) (\<lambda>i.
       Inr (modules @ '' + '' @ drop (nat (i + 1)) typeName @ [CHR 0x0A])))) (Inr []) typeNames"

definition report_text :: "bytes \<Rightarrow> bytes \<Rightarrow> bytes" where
  "report_text goVersion modules = ''Gollum '' @ version_text @ [newline] @ goVersion @ [newline] @ ''Modules:'' @ [newline] @ modules"

text \<open>The files for profiles; a file that cannot be created is a panic.\<close>

definition start_cpu_profile :: "main_flags \<Rightarrow> (bytes \<Rightarrow> bool) \<Rightarrow> main_effect list run" where
  "start_cpu_profile flags creates =
     (if fl_cpuProfile flags = [] then Inr []
      else if \<not> creates (fl_cpuProfile flags) then Inl (ExplicitPanic ''open cpu profile'')
      else Inr [CPUProfileStarted (fl_cpuProfile flags)])"

definition start_trace :: "main_flags \<Rightarrow> (bytes \<Rightarrow> bool) \<Rightarrow> main_effect list run" where
  "start_trace flags creates =
     (if fl_trace flags = [] then Inr []
      else if \<not> creates (fl_trace flags) then Inl (ExplicitPanic ''open trace'')
      else Inr [TraceStarted (fl_trace flags)])"

definition dumpMemoryProfile :: "main_flags \<Rightarrow> (bytes \<Rightarrow> bool) \<Rightarrow> main_effect list run" where
  "dumpMemoryProfile flags creates =
     (if \<not> creates (fl_memProfile flags) then Inl (ExplicitPanic ''open memory profile'')
      else Inr [HeapProfileWritten (fl_memProfile flags)])"

text \<open>What happens before the multiplexer is built, and what was deferred, when \<open>main\<close> returns: the last
  deferred call first.\<close>

definition main_prepare :: "main_env \<Rightarrow> main_flags \<Rightarrow> main_effect list run" where
  "main_prepare env flags =
     run_bind (start_cpu_profile flags (me_creates env)) (\<lambda>cpu.
     run_bind (start_trace flags (me_creates env)) (\<lambda>tr.
       Inr ((if fl_pidFile flags \<noteq> [] then [PidWritten (fl_pidFile flags) (itoa (me_pid env))] else []) @
            [MaxProcsSet (if fl_numCPU flags = 0 then me_cpus env else fl_numCPU flags)] @ cpu @ tr @
            (if fl_metricsPort flags \<noteq> 0 then [ServerStarted (fl_metricsPort flags)] else []))))"

definition main_deferred :: "main_env \<Rightarrow> main_flags \<Rightarrow> main_effect list run" where
  "main_deferred env flags =
     run_bind (if fl_memProfile flags \<noteq> [] then dumpMemoryProfile flags (me_creates env) else Inr []) (\<lambda>heap.
       Inr ((if fl_metricsPort flags \<noteq> 0 then [ServerStopped] else []) @ heap @
            (if fl_trace flags \<noteq> [] then [TraceStopped] else []) @ (if fl_cpuProfile flags \<noteq> [] then [CPUProfileStopped] else [])))"

definition gollum_main :: "plugin_types \<Rightarrow> main_env \<Rightarrow> main_flags \<Rightarrow> world \<Rightarrow> (main_effect list \<times> main_result) outcome" where
  "gollum_main types env flags w =
     (let verbosity = VerbositySet (main_verbosity flags)
      in then_do (Some (contrib_modules (me_contrib env))) (\<lambda>modules.
         if fl_report flags then Some (Inr ([verbosity], ReportPrinted (report_text (me_goVersion env) modules)))
         else if fl_version flags then Some (Inr ([verbosity], VersionPrinted version_text))
         else
           let configFile = (if fl_testConfigFile flags \<noteq> [] then fl_testConfigFile flags else fl_configFile flags)
           in if fl_help flags \<or> configFile = [] then Some (Inr ([verbosity], UsagePrinted))
              else case me_readConfig env configFile of
                     None \<Rightarrow> Some (Inr ([verbosity], ConfigError))
                   | Some confs \<Rightarrow>
                       if fl_testConfigFile flags \<noteq> []
                       then then_do (newMultiplexer types (me_order env) confs False Map.empty w) (\<lambda>(plex, errors, b).
                              Some (Inr (if errors > 0 then ([verbosity, WriterSet WriterConsole], ConfigFaulty errors) else ([verbosity], ConfigOk))))
                       else then_do (Some (main_prepare env flags)) (\<lambda>before.
                            then_do (newMultiplexer types (me_order env) confs (fl_profile flags) Map.empty w) (\<lambda>(plex, errors, b).
                            then_do (plex_run (me_events env) (me_consumersEnd env) (me_producersEnd env)
                                       \<lparr>r_plex = plex, r_world = b_world b, r_trace = []\<rparr>) (\<lambda>r.
                            then_do (Some (main_deferred env flags)) (\<lambda>after.
                              Some (Inr (verbosity # before @ after, Stopped r))))))))"

lemma contrib_modules_ok: "\<exists>modules. contrib_modules typeNames = Inr modules"
proof -
  have "\<exists>modules. foldl (\<lambda>modules typeName. run_bind modules (\<lambda>modules. run_bind (IndexN typeName ''.'' 1) (\<lambda>i.
       Inr (modules @ '' + '' @ drop (nat (i + 1)) typeName @ [CHR 0x0A])))) (Inr ms) typeNames = Inr modules" for ms
  proof (induction typeNames arbitrary: ms)
    case (Cons typeName typeNames)
    obtain i where "IndexN typeName ''.'' 1 = Inr i" using indexN_loop_safe [of "''.''" 0 typeName 1] unfolding IndexN_def by auto
    then show ?case using Cons.IH by simp
  qed simp
  then show ?thesis by (simp add: contrib_modules_def)
qed

subsection \<open>Goroutines\<close>

text \<open>\<open>DontPanic\<close>: a panic of the callback ends the goroutine and interrupts the program; the result says whether
  there was one.\<close>

definition DontPanic :: "'a outcome \<Rightarrow> bool option" where
  "DontPanic m = (case m of None \<Rightarrow> None | Some (Inl p) \<Rightarrow> Some True | Some (Inr x) \<Rightarrow> Some False)"

subsection \<open>Types and interfaces\<close>

text \<open>A signature: the types of parameters and results. A method of a type has its receiver as first parameter.\<close>

type_synonym signature = "bytes list \<times> bytes list"

datatype missing_method = MissingMethod bytes | InvalidMethod bytes

definition signature_mismatch :: "signature \<Rightarrow> signature \<Rightarrow> bool" where
  "signature_mismatch iface obj =
     (if length (snd iface) \<noteq> length (snd obj) then True
      else if length (fst iface) + 1 \<noteq> length (fst obj) then True
      else list_ex (\<lambda>(a, b). a \<noteq> b) (zip (snd iface) (snd obj)) \<or> list_ex (\<lambda>(a, b). a \<noteq> b) (zip (fst iface) (tl (fst obj))))"

text \<open>The number of methods that match, the number of methods, and what is missing.\<close>

definition GetMissingMethods :: "bool \<Rightarrow> (bytes \<rightharpoonup> signature) \<Rightarrow> (bytes \<times> signature) list \<Rightarrow> nat \<times> nat \<times> missing_method list" where
  "GetMissingMethods implements obj iface =
     (if implements then (length iface, length iface, [])
      else
        let missing = concat (map (\<lambda>(nm, sig). case obj nm of
                        None \<Rightarrow> [MissingMethod nm]
                      | Some osig \<Rightarrow> if signature_mismatch sig osig then [InvalidMethod nm] else []) iface)
        in (length iface - length missing, length iface, missing))"

lemma list_ex_zip: "length xs = length ys \<Longrightarrow> list_ex (\<lambda>(a, b). a \<noteq> b) (zip xs ys) \<longleftrightarrow> xs \<noteq> ys"
  by (induction xs ys rule: list_induct2) auto

lemma signature_mismatch_iff: "\<not> signature_mismatch (ins, outs) osig \<longleftrightarrow> (\<exists>recv. osig = (recv # ins, outs))"
proof (cases osig)
  case (Pair oins oouts)
  show ?thesis
  proof (cases oins)
    case Nil
    then show ?thesis by (simp add: Pair signature_mismatch_def)
  next
    case (Cons recv rest)
    then show ?thesis by (auto simp: Pair signature_mismatch_def list_ex_zip)
  qed
qed

text \<open>A start that is neither a report, nor the version, nor the help; profile files that can be created; events
  that end with the first signal to exit, and workers that end.\<close>

definition plain_start :: "main_flags \<Rightarrow> bool" where
  "plain_start flags \<longleftrightarrow> \<not> fl_report flags \<and> \<not> fl_version flags \<and> \<not> fl_help flags"

definition files_open :: "main_flags \<Rightarrow> (bytes \<Rightarrow> bool) \<Rightarrow> bool" where
  "files_open flags creates \<longleftrightarrow> list_all (\<lambda>file. file = [] \<or> creates file) [fl_cpuProfile flags, fl_trace flags, fl_memProfile flags]"

text \<open>Whatever was started is stopped.\<close>

definition all_stopped :: "main_effect list \<Rightarrow> bool" where
  "all_stopped effects \<longleftrightarrow>
     ((\<exists>file. CPUProfileStarted file \<in> set effects) \<longrightarrow> CPUProfileStopped \<in> set effects) \<and>
     ((\<exists>file. TraceStarted file \<in> set effects) \<longrightarrow> TraceStopped \<in> set effects) \<and>
     ((\<exists>port. ServerStarted port \<in> set effects) \<longrightarrow> ServerStopped \<in> set effects)"

lemma files_open_effects:
  assumes "files_open flags (me_creates env)"
  shows "\<exists>before after. main_prepare env flags = Inr before \<and> main_deferred env flags = Inr after \<and> all_stopped (VerbositySet v # before @ after)"
  using assms by (auto simp: files_open_def main_prepare_def main_deferred_def start_cpu_profile_def start_trace_def dumpMemoryProfile_def all_stopped_def)

definition signalled :: "main_env \<Rightarrow> bool" where
  "signalled env \<longleftrightarrow> me_consumersEnd env \<and> me_producersEnd env \<and>
     (\<exists>es e. me_events env = es @ [e] \<and> list_all (\<lambda>e. \<not> exits e) es \<and> exits e)"

text \<open>What was built runs, with or without producers.\<close>

lemma built_runs:
  assumes "\<forall>config\<in>set confs. config_returns (gollum_plugins newFormat newFilter) config" "wf_world w" "w_prods w = Map.empty" "signalled env"
  shows "\<exists>plex errors b r. newMultiplexer (gollum_plugins newFormat newFilter) order confs profiling Map.empty w = Some (Inr (plex, errors, b)) \<and>
    plex_run (me_events env) (me_consumersEnd env) (me_producersEnd env) \<lparr>r_plex = plex, r_world = b_world b, r_trace = []\<rparr> = Some (Inr r)"
proof -
  let ?types = "gollum_plugins newFormat newFilter"
  obtain plex errors b where t: "newMultiplexer ?types order confs profiling Map.empty w = Some (Inr (plex, errors, b))"
    "built (sort_plugins ?types confs) (plex, errors, b)"
    using gollum.newMultiplexer_built [OF assms(1-3), of order profiling Map.empty] unfolding ensures_def by auto
  let ?r = "\<lparr>r_plex = plex, r_world = b_world b, r_trace = []\<rparr>"
  have "set tick_names \<subseteq> set plex_metrics" by (auto simp: tick_names_def plex_metrics_def)
  moreover have "set plex_metrics \<subseteq> dom (w_metrics (b_world b))" using t(2) by (auto simp: built_def build_ok_def Let_def)
  ultimately have m: "set tick_names \<subseteq> dom (w_metrics (r_world ?r))" by simp
  obtain es e where e: "me_events env = es @ [e]" "list_all (\<lambda>e. \<not> exits e) es" "exits e" "me_consumersEnd env" "me_producersEnd env"
    using assms(4) unfolding signalled_def by blast
  have "\<exists>r. plex_run (es @ [e]) True True ?r = Some (Inr r)"
  proof (cases "mx_producers plex = []")
    case True
    then show ?thesis by (simp add: plex_run_def)
  next
    case False
    then show ?thesis using plex_run_ok [OF m _ _ e(2,3)] by auto
  qed
  with t(1) e show ?thesis by auto
qed

text \<open>The loop ends with the first signal to exit and not before; what comes later is not looked at.\<close>

lemma plex_loop_first: "exits e \<Longrightarrow> plex_loop (es @ e # later) r = plex_loop (es @ [e]) r"
proof (induction es arbitrary: r)
  case Nil
  then show ?case by (cases e) (auto simp: exits_def)
next
  case (Cons x es)
  then show ?case by (cases x) (auto simp: then_do_def split: signal_type.split option.split sum.split)
qed

lemma plex_run_first: "exits e \<Longrightarrow> plex_run (es @ e # later) ce pe r = plex_run (es @ [e]) ce pe r"
  by (simp add: plex_run_def plex_loop_first [where later = later] Let_def)

lemma plex_loop_waits:
  assumes "set tick_names \<subseteq> dom (w_metrics (r_world r))" "list_all (\<lambda>e. \<not> exits e) es"
  shows "plex_loop es r = None"
  using assms
proof (induction es arbitrary: r)
  case (Cons x es)
  show ?case
  proof (cases x)
    case (Tick rate)
    obtain met' where t: "plex_tick rate (r_plex r) (r_world r) = Some (Inr ((r_world r)\<lparr>w_counts := no_counts, w_metrics := met'\<rparr>))"
      "dom met' = dom (w_metrics (r_world r))" using plex_tick_ok [OF Cons.prems(1), of rate "r_plex r"] by blast
    have "plex_loop es (r\<lparr>r_world := (r_world r)\<lparr>w_counts := no_counts, w_metrics := met'\<rparr>\<rparr>) = None"
      using t(2) Cons.prems by (intro Cons.IH) simp_all
    with t(1) Tick show ?thesis by simp
  next
    case (Signal sig)
    have "plex_loop es (emit (plex_roll (r_plex r)) r) = None" "plex_loop es r = None"
      using Cons.prems by (intro Cons.IH; simp add: emit_def)+
    with Signal Cons.prems(2) show ?thesis by (cases "translateSignal sig") (simp_all add: exits_def)
  qed
qed simp

lemma plex_run_waits:
  assumes "set tick_names \<subseteq> dom (w_metrics (r_world r))" "list_all (\<lambda>e. \<not> exits e) es" "mx_producers (r_plex r) \<noteq> []"
  shows "plex_run es ce pe r = None"
  using assms by (simp add: plex_run_def plex_consumers_def plex_loop_waits plex_setState_def emit_def Let_def)

text \<open>What a multiplexer does from its start to its end: \<open>es\<close> are the events before the signal to exit.\<close>

definition full_run :: "multiplexer \<Rightarrow> world \<Rightarrow> plex_event list \<Rightarrow> plex_action list" where
  "full_run plex w es =
      map StartProducer (mx_producers plex) @
      [if IsStreamRegistered LogInternalStreamID w then BindLog else LogToStdout] @
      map StartConsumer (plex_consumers plex) @
      concat (map (\<lambda>e. if e = Signal SIGHUP then plex_roll plex else []) es) @
      map (\<lambda>c. CommandConsumer c StopConsumer) (plex_consumers plex) @ [ActivateFuses, ConsumersDone, LogToStdout] @
      map (\<lambda>p. CommandProducer p StopProducer) (mx_producers plex) @ [ProducersDone]"

lemma built_multiplexer:
  assumes "\<forall>config\<in>set confs. config_returns (gollum_plugins newFormat newFilter) config" "wf_world w" "w_prods w = Map.empty"
  shows "\<exists>plex errors b. newMultiplexer (gollum_plugins newFormat newFilter) order confs profiling Map.empty w = Some (Inr (plex, errors, b)) \<and>
    set tick_names \<subseteq> dom (w_metrics (b_world b))"
proof -
  obtain plex errors b where t: "newMultiplexer (gollum_plugins newFormat newFilter) order confs profiling Map.empty w = Some (Inr (plex, errors, b))"
    "built (sort_plugins (gollum_plugins newFormat newFilter) confs) (plex, errors, b)"
    using gollum.newMultiplexer_built [OF assms, of order profiling Map.empty] unfolding ensures_def by auto
  have "set tick_names \<subseteq> set plex_metrics" by (auto simp: tick_names_def plex_metrics_def)
  moreover have "set plex_metrics \<subseteq> dom (w_metrics (b_world b))" using t(2) by (auto simp: built_def build_ok_def Let_def)
  ultimately have "set tick_names \<subseteq> dom (w_metrics (b_world b))" by (rule subset_trans)
  with t(1) show ?thesis by blast
qed

subsection \<open>Properties\<close>


definition unknown_confs :: "plugin_config list" where
  "unknown_confs = console_confs @ [(NewPluginConfig ''producer.Kafka'')\<lparr>Stream := [''*'']\<rparr>]"

definition quiet_env :: main_env where
  "quiet_env = \<lparr>me_contrib = [], me_goVersion = ''go1.5.2'', me_cpus = 4, me_pid = 17, me_readConfig = [''gollum.conf'' \<mapsto> unknown_confs], me_creates = (\<lambda>f. True), me_order = (\<lambda>w. []),
     me_events = [Signal SIGHUP, Signal SIGINT], me_consumersEnd = True, me_producersEnd = True\<rparr>"

lemma quiet_env_ok:
  "signalled quiet_env" "\<forall>config\<in>set unknown_confs. config_returns console_plugins config"
  "wf_world start_world" "w_prods start_world = Map.empty" "plain_start default_flags" "files_open default_flags creates"
proof -
  show "signalled quiet_env" unfolding signalled_def
    by (intro conjI exI [of _ "[Signal SIGHUP]"] exI [of _ "Signal SIGINT"]) (simp_all add: quiet_env_def exits_def translateSignal_def)
  have "config_returns console_plugins ((NewPluginConfig ''producer.Kafka'')\<lparr>Stream := [''*'']\<rparr>)"
    by (simp add: config_returns_def step_returns_def console_plugins_def gollum_plugins_def stream_plugins_def producer_plugins_def
        consumer_plugins_def Let_def NewPluginConfig_def)
  then show "\<forall>config\<in>set unknown_confs. config_returns console_plugins config"
    using console_confs_return by (simp add: unknown_confs_def)
  show "wf_world start_world" "w_prods start_world = Map.empty" by (simp_all add: wf_world_def start_world_def)
  show "plain_start default_flags" "files_open default_flags creates"
    by (simp_all add: plain_start_def default_flags_def files_open_def)
qed


text \<open>C40: a configuration that asks for a type nobody registered fails a test of it, with status 1; an ordinary start
  with the same file runs it all the same until it gets a signal, and exits with status 0: the error of the
  construction is not looked at.\<close>

theorem main_runs_faulty_configuration:
  assumes "plain_start flags" "file \<noteq> []" "me_readConfig env file = Some confs"
    and "\<forall>config\<in>set confs. config_returns (gollum_plugins newFormat newFilter) config" "wf_world w" "w_prods w = Map.empty"
    and "files_open flags (me_creates env)" "signalled env" "sc_errors (sort_plugins (gollum_plugins newFormat newFilter) confs) > 0"
  shows "\<exists>n effects effects' r.
    gollum_main (gollum_plugins newFormat newFilter) env (flags\<lparr>fl_testConfigFile := file\<rparr>) w = Some (Inr (effects, ConfigFaulty n)) \<and>
    exit_status (ConfigFaulty n) = 1 \<and>
    gollum_main (gollum_plugins newFormat newFilter) env (flags\<lparr>fl_testConfigFile := [], fl_configFile := file\<rparr>) w = Some (Inr (effects', Stopped r)) \<and>
    exit_status (Stopped r) = 0"
proof -
  let ?types = "gollum_plugins newFormat newFilter" and ?flags = "flags\<lparr>fl_testConfigFile := [], fl_configFile := file\<rparr>"
  obtain plex errors b where t: "newMultiplexer ?types (me_order env) confs False Map.empty w = Some (Inr (plex, errors, b))"
    "built (sort_plugins ?types confs) (plex, errors, b)"
    using gollum.newMultiplexer_built [OF assms(4-6), of "me_order env" False Map.empty] unfolding ensures_def by auto
  have e: "errors > 0" using t(2) assms(9) by (auto simp: built_def)
  obtain plex' errors' b' r where "newMultiplexer ?types (me_order env) confs (fl_profile flags) Map.empty w = Some (Inr (plex', errors', b'))"
    "plex_run (me_events env) (me_consumersEnd env) (me_producersEnd env) \<lparr>r_plex = plex', r_world = b_world b', r_trace = []\<rparr> = Some (Inr r)"
    using built_runs [OF assms(4-6,8), of "me_order env" "fl_profile flags"] by blast
  moreover obtain modules where "contrib_modules (me_contrib env) = Inr modules" using contrib_modules_ok by blast
  moreover have "files_open ?flags (me_creates env)" using assms(7) by (simp add: files_open_def)
  then obtain before after where "main_prepare env ?flags = Inr before" "main_deferred env ?flags = Inr after"
    using files_open_effects by blast
  ultimately show ?thesis using assms(1-3) t(1) e by (simp add: gollum_main_def plain_start_def exit_status_def)
qed

theorem main_runs_faulty_configuration_witness:
  "\<exists>n effects effects' r.
    gollum_main console_plugins quiet_env (default_flags\<lparr>fl_testConfigFile := ''gollum.conf''\<rparr>) start_world = Some (Inr (effects, ConfigFaulty n)) \<and>
    gollum_main console_plugins quiet_env (default_flags\<lparr>fl_testConfigFile := [], fl_configFile := ''gollum.conf''\<rparr>) start_world =
      Some (Inr (effects', Stopped r))"
proof -
  have c: "''gollum.conf'' \<noteq> []" "me_readConfig quiet_env ''gollum.conf'' = Some unknown_confs" by (simp_all add: quiet_env_def)
  have "sc_errors (sort_plugins console_plugins unknown_confs) = 1"
    by (simp add: sort_plugins_def sort_plugin_def unknown_confs_def console_confs_def NewPluginConfig_def console_plugins_def gollum_plugins_def
        stream_plugins_def producer_plugins_def consumer_plugins_def other_plugins_def Let_def)
  then have "sc_errors (sort_plugins console_plugins unknown_confs) > 0" by simp
  from main_runs_faulty_configuration [OF quiet_env_ok(5) c quiet_env_ok(2) [unfolded console_plugins_def] quiet_env_ok(3,4) quiet_env_ok(6,1)
      this [unfolded console_plugins_def]]
  show ?thesis unfolding console_plugins_def by blast
qed

text \<open>The comparison of a type with an interface misses nothing: nothing is reported exactly when the type has
  every method of the interface with the parameters and results the interface asks for.\<close>

theorem missing_methods_complete:
  "snd (snd (GetMissingMethods False obj iface)) = [] \<longleftrightarrow>
     (\<forall>(nm, ins, outs)\<in>set iface. \<exists>recv. obj nm = Some (recv # ins, outs))"
proof -
  have "(case obj nm of None \<Rightarrow> [MissingMethod nm] | Some osig \<Rightarrow> if signature_mismatch (ins, outs) osig then [InvalidMethod nm] else []) = [] \<longleftrightarrow>
      (\<exists>recv. obj nm = Some (recv # ins, outs))" for nm ins outs
    using signature_mismatch_iff [of ins outs] by (cases "obj nm") auto
  then show ?thesis by (auto simp: GetMissingMethods_def Let_def)
qed

end
