(* ===== verification/Expects.thy ===== *)
theory Expects
  imports GoStrings
begin

text \<open>
  \<open>shared/expect.go\<close>: the expectations of the unit tests. Values of Go's empty interface are a datatype that
  keeps the kinds the comparisons distinguish; \<open>reflect.DeepEqual\<close> and the order of floats are parameters. An
  expectation answers whether it was met and gives the reports it made; a reflection on a value of the wrong kind
  is a panic.
\<close>

subsection \<open>Values\<close>

datatype 'f go_value =
    GoInt "64 word" | GoInt8 "8 word" | GoInt16 "16 word" | GoInt32 "32 word" | GoInt64 "64 word"
  | GoUint "64 word" | GoUint8 "8 word" | GoUint16 "16 word" | GoUint32 "32 word" | GoUint64 "64 word"
  | GoFloat32 'f | GoFloat64 'f
  | GoNil
  | GoReference bytes bool
  | GoOther bytes bytes

text \<open>A value that can be nil (\<open>GoReference\<close>) has a type and may be nil; any other value has a type and a text.\<close>

datatype go_type =
    TInt | TInt8 | TInt16 | TInt32 | TInt64 | TUint | TUint8 | TUint16 | TUint32 | TUint64 | TFloat32 | TFloat64 | TNil | TNamed bytes

fun type_of :: "'f go_value \<Rightarrow> go_type" where
  "type_of (GoInt _) = TInt"
| "type_of (GoInt8 _) = TInt8"
| "type_of (GoInt16 _) = TInt16"
| "type_of (GoInt32 _) = TInt32"
| "type_of (GoInt64 _) = TInt64"
| "type_of (GoUint _) = TUint"
| "type_of (GoUint8 _) = TUint8"
| "type_of (GoUint16 _) = TUint16"
| "type_of (GoUint32 _) = TUint32"
| "type_of (GoUint64 _) = TUint64"
| "type_of (GoFloat32 _) = TFloat32"
| "type_of (GoFloat64 _) = TFloat64"
| "type_of GoNil = TNil"
| "type_of (GoReference nm _) = TNamed nm"
| "type_of (GoOther nm _) = TNamed nm"

text \<open>A report: the text or format string and the values for it. \<open>is_met\<close> and \<open>is_unmet\<close> are the two results.\<close>

type_synonym 'f expect_report = "bytes \<times> 'f go_value list"
type_synonym 'f expectation = "bool \<times> 'f expect_report list"

abbreviation (input) is_met :: "'f expectation" where "is_met \<equiv> (True, [])"
abbreviation (input) is_unmet :: "bytes \<Rightarrow> 'f go_value list \<Rightarrow> 'f expectation" where "is_unmet text args \<equiv> (False, [(text, args)])"

subsection \<open>Scope and position\<close>

definition expectBasePath :: "bytes \<Rightarrow> bytes" where
  "expectBasePath pkgPath = (case str_last_index pkgPath ''/'' of None \<Rightarrow> [] | Some i \<Rightarrow> take (i + 1) pkgPath)"

definition NewExpect :: "bytes \<Rightarrow> bytes" where
  "NewExpect funcName = (case str_last_index funcName ''.'' of None \<Rightarrow> funcName | Some i \<Rightarrow> drop (i + 1) funcName)"

text \<open>The file of a report without the path in front of the repository. A file outside of it is cut at the length
  of the path minus one; a shorter one is out of range.\<close>

definition report_file :: "bytes \<Rightarrow> bytes \<Rightarrow> bytes run" where
  "report_file base file =
     (let from = (case str_index file base of None \<Rightarrow> - 1 | Some i \<Rightarrow> int i) + int (length base)
      in if from < 0 \<or> from > int (length file) then Inl SliceOutOfRange else Inr (drop (nat from) file))"

subsection \<open>Simple expectations\<close>

definition NotExecuted :: "'f expectation" where
  "NotExecuted = is_unmet ''This was expected not to be called'' []"

definition expect_True :: "bool \<Rightarrow> 'f expectation" where
  "expect_True val = (if \<not> val then is_unmet ''Expected true'' [] else is_met)"

definition expect_False :: "bool \<Rightarrow> 'f expectation" where
  "expect_False val = (if val then is_unmet ''Expected false'' [] else is_met)"

text \<open>\<open>reflect.Value.IsNil\<close> of a value that is not nil.\<close>

definition value_IsNil :: "'f go_value \<Rightarrow> bool run" where
  "value_IsNil val = (case val of GoReference _ isNil \<Rightarrow> Inr isNil | _ \<Rightarrow> Inl (ExplicitPanic ''reflect: IsNil''))"

definition expect_Nil :: "'f go_value \<Rightarrow> 'f expectation run" where
  "expect_Nil val =
     (if val = GoNil then Inr is_met
      else run_bind (value_IsNil val) (\<lambda>isNil. Inr (if \<not> isNil then is_unmet ''Expected nil'' [] else is_met)))"

definition expect_NotNil :: "'f go_value \<Rightarrow> 'f expectation run" where
  "expect_NotNil val =
     (if val = GoNil then Inr (is_unmet ''Expected not nil'' [])
      else run_bind (value_IsNil val) (\<lambda>isNil. Inr (if isNil then is_unmet ''Expected not nil'' [] else is_met)))"

definition expect_NoError :: "bytes option \<Rightarrow> 'f expectation" where
  "expect_NoError err = (case err of None \<Rightarrow> is_met | Some text \<Rightarrow> is_unmet (''Expected no error, got '' @ text) [])"

definition expect_Equal :: "('f go_value \<Rightarrow> 'f go_value \<Rightarrow> bool) \<Rightarrow> 'f go_value \<Rightarrow> 'f go_value \<Rightarrow> 'f expectation" where
  "expect_Equal deepEqual val1 val2 =
     (if \<not> deepEqual val1 val2 then is_unmet ''Expected %T(%v), got %T(%v)'' [val1, val1, val2, val2] else is_met)"

definition expect_Neq :: "('f go_value \<Rightarrow> 'f go_value \<Rightarrow> bool) \<Rightarrow> 'f go_value \<Rightarrow> 'f go_value \<Rightarrow> 'f expectation" where
  "expect_Neq deepEqual val1 val2 = (if deepEqual val1 val2 then is_unmet ''Expected not %T(%v)'' [val1, val1] else is_met)"

subsection \<open>Comparisons\<close>

text \<open>The order of the floats: \<open>x <= y\<close> and \<open>x < y\<close>.\<close>

record 'f float_order =
  fo_le :: "'f \<Rightarrow> 'f \<Rightarrow> bool"
  fo_lt :: "'f \<Rightarrow> 'f \<Rightarrow> bool"

text \<open>
  The switch of the four comparisons: a case tests whether the comparison fails, on integers as the
  numbers they stand for, and reports both values with the operator that held. The assertion of the second
  value's type is the inner case.
\<close>

definition compare_switch ::
  "(int \<Rightarrow> int \<Rightarrow> bool) \<Rightarrow> ('f \<Rightarrow> 'f \<Rightarrow> bool) \<Rightarrow> bytes \<Rightarrow> bytes \<Rightarrow> 'f go_value \<Rightarrow> 'f go_value \<Rightarrow> 'f expectation run" where
  "compare_switch fails failsFloat op what val1 val2 =
     (let int_case = (\<lambda>a b. Inr (if fails a b then is_unmet (''%d '' @ op @ '' %d.'') [val1, val2] else is_met));
          float_case = (\<lambda>a b. Inr (if failsFloat a b then is_unmet (''%f '' @ op @ '' %f.'') [val1, val2] else is_met))
      in case val1 of
           GoInt a \<Rightarrow> (case val2 of GoInt b \<Rightarrow> int_case (sint a) (sint b) | _ \<Rightarrow> Inl TypeAssertionFailed)
         | GoInt8 a \<Rightarrow> (case val2 of GoInt8 b \<Rightarrow> int_case (sint a) (sint b) | _ \<Rightarrow> Inl TypeAssertionFailed)
         | GoInt16 a \<Rightarrow> (case val2 of GoInt16 b \<Rightarrow> int_case (sint a) (sint b) | _ \<Rightarrow> Inl TypeAssertionFailed)
         | GoInt32 a \<Rightarrow> (case val2 of GoInt32 b \<Rightarrow> int_case (sint a) (sint b) | _ \<Rightarrow> Inl TypeAssertionFailed)
         | GoInt64 a \<Rightarrow> (case val2 of GoInt64 b \<Rightarrow> int_case (sint a) (sint b) | _ \<Rightarrow> Inl TypeAssertionFailed)
         | GoUint a \<Rightarrow> (case val2 of GoUint b \<Rightarrow> int_case (uint a) (uint b) | _ \<Rightarrow> Inl TypeAssertionFailed)
         | GoUint8 a \<Rightarrow> (case val2 of GoUint8 b \<Rightarrow> int_case (uint a) (uint b) | _ \<Rightarrow> Inl TypeAssertionFailed)
         | GoUint16 a \<Rightarrow> (case val2 of GoUint16 b \<Rightarrow> int_case (uint a) (uint b) | _ \<Rightarrow> Inl TypeAssertionFailed)
         | GoUint32 a \<Rightarrow> (case val2 of GoUint32 b \<Rightarrow> int_case (uint a) (uint b) | _ \<Rightarrow> Inl TypeAssertionFailed)
         | GoUint64 a \<Rightarrow> (case val2 of GoUint64 b \<Rightarrow> int_case (uint a) (uint b) | _ \<Rightarrow> Inl TypeAssertionFailed)
         | GoFloat32 a \<Rightarrow> (case val2 of GoFloat32 b \<Rightarrow> float_case a b | _ \<Rightarrow> Inl TypeAssertionFailed)
         | GoFloat64 a \<Rightarrow> (case val2 of GoFloat64 b \<Rightarrow> float_case a b | _ \<Rightarrow> Inl TypeAssertionFailed)
         | _ \<Rightarrow> Inr (is_unmet (''Cannot test %T for '' @ what @ ''.'') [val1]))"

definition same_type_or :: "bytes \<Rightarrow> 'f go_value \<Rightarrow> 'f go_value \<Rightarrow> 'f expectation run \<Rightarrow> 'f expectation run" where
  "same_type_or nm val1 val2 r =
     (if type_of val1 \<noteq> type_of val2
      then Inr (is_unmet (''Expect.'' @ nm @ '' requires both values to be of the same type. Got %T and %T.'') [val1, val2])
      else r)"

definition Greater :: "'f float_order \<Rightarrow> 'f go_value \<Rightarrow> 'f go_value \<Rightarrow> 'f expectation run" where
  "Greater fo val1 val2 =
     same_type_or ''Greater'' val1 val2 (compare_switch (\<lambda>a b. a \<le> b) (\<lambda>a b. fo_le fo a b) ''<='' ''\"greater than\"'' val1 val2)"

definition Geq :: "'f float_order \<Rightarrow> 'f go_value \<Rightarrow> 'f go_value \<Rightarrow> 'f expectation run" where
  "Geq fo val1 val2 =
     same_type_or ''Geq'' val1 val2 (compare_switch (\<lambda>a b. a < b) (\<lambda>a b. fo_lt fo a b) ''<'' ''\"greater or equal\"'' val1 val2)"

definition Less :: "'f float_order \<Rightarrow> 'f go_value \<Rightarrow> 'f go_value \<Rightarrow> 'f expectation run" where
  "Less fo val1 val2 =
     same_type_or ''Less'' val1 val2 (compare_switch (\<lambda>a b. a \<ge> b) (\<lambda>a b. fo_le fo b a) ''>='' ''\"less than\"'' val1 val2)"

definition Leq :: "'f float_order \<Rightarrow> 'f go_value \<Rightarrow> 'f go_value \<Rightarrow> 'f expectation run" where
  "Leq fo val1 val2 =
     same_type_or ''Leq'' val1 val2 (compare_switch (\<lambda>a b. a > b) (\<lambda>a b. fo_lt fo b a) ''>'' ''\"less or euqal\"'' val1 val2)"

subsection \<open>Maps\<close>

text \<open>A map behind an interface: the values of its keys and which types of keys it accepts. Any other value given
  for it, or a key of another type, is a panic of the reflection.\<close>

record 'f go_map =
  gm_accepts :: "go_type \<Rightarrow> bool"
  gm_index :: "'f go_value \<Rightarrow> 'f go_value option"

definition MapIndex :: "'f go_map option \<Rightarrow> 'f go_value \<Rightarrow> 'f go_value option run" where
  "MapIndex data key =
     (case data of
        None \<Rightarrow> Inl (ExplicitPanic ''reflect: MapIndex'')
      | Some m \<Rightarrow> if key = GoNil \<or> \<not> gm_accepts m (type_of key) then Inl (ExplicitPanic ''reflect: key'') else Inr (gm_index m key))"

definition MapSet :: "'f go_map option \<Rightarrow> 'f go_value \<Rightarrow> 'f expectation run" where
  "MapSet data key = run_bind (MapIndex data key) (\<lambda>v.
     Inr (if v = None then is_unmet ''Expected key \"%v\" to be set'' [key] else is_met))"

definition MapNotSet :: "'f go_map option \<Rightarrow> 'f go_value \<Rightarrow> 'f expectation run" where
  "MapNotSet data key = run_bind (MapIndex data key) (\<lambda>v.
     Inr (if v \<noteq> None then is_unmet ''Expected key \"%v\" not to be set'' [key] else is_met))"

text \<open>The six functions that look up a key and then compare: the value given comes first, the one in the map second.\<close>

definition map_expect ::
  "('f go_value \<Rightarrow> 'f go_value \<Rightarrow> 'f expectation run) \<Rightarrow> 'f go_map option \<Rightarrow> 'f go_value \<Rightarrow> 'f go_value \<Rightarrow> 'f expectation run" where
  "map_expect compare data key val = run_bind (MapIndex data key) (\<lambda>v.
     case v of None \<Rightarrow> Inr (is_unmet ''Expected key \"%v\" to be set'' [key]) | Some v \<Rightarrow> compare val v)"

definition MapEqual where "MapEqual deepEqual = map_expect (\<lambda>a b. Inr (expect_Equal deepEqual a b))"
definition MapNeq where "MapNeq deepEqual = map_expect (\<lambda>a b. Inr (expect_Neq deepEqual a b))"
definition MapLess where "MapLess fo = map_expect (Less fo)"
definition MapGreater where "MapGreater fo = map_expect (Greater fo)"
definition MapLeq where "MapLeq fo = map_expect (Leq fo)"
definition MapGeq where "MapGeq fo = map_expect (Geq fo)"

subsection \<open>Timeout\<close>

text \<open>\<open>ends\<close> is when the routine returns, if it does; \<open>first\<close> is which of two ready channels the select takes.\<close>

definition NonBlocking :: "int \<Rightarrow> int option \<Rightarrow> bool \<Rightarrow> 'f expectation" where
  "NonBlocking t ends first =
     (case ends of
        None \<Rightarrow> is_unmet ''Evaluation timed out.'' []
      | Some d \<Rightarrow> if d < t \<or> d = t \<and> first then is_met else is_unmet ''Evaluation timed out.'' [])"

subsection \<open>Properties\<close>

text \<open>The number in a value of one of the ten integer types.\<close>

fun int_of_value :: "'f go_value \<Rightarrow> int option" where
  "int_of_value (GoInt a) = Some (sint a)"
| "int_of_value (GoInt8 a) = Some (sint a)"
| "int_of_value (GoInt16 a) = Some (sint a)"
| "int_of_value (GoInt32 a) = Some (sint a)"
| "int_of_value (GoInt64 a) = Some (sint a)"
| "int_of_value (GoUint a) = Some (uint a)"
| "int_of_value (GoUint8 a) = Some (uint a)"
| "int_of_value (GoUint16 a) = Some (uint a)"
| "int_of_value (GoUint32 a) = Some (uint a)"
| "int_of_value (GoUint64 a) = Some (uint a)"
| "int_of_value _ = None"

lemmas comparison_defs = Greater_def Geq_def Less_def Leq_def same_type_or_def

text \<open>The type says how a value was built.\<close>

lemma type_of_iff:
  "TInt = type_of w \<longleftrightarrow> (\<exists>b. w = GoInt b)"
  "TInt8 = type_of w \<longleftrightarrow> (\<exists>b. w = GoInt8 b)"
  "TInt16 = type_of w \<longleftrightarrow> (\<exists>b. w = GoInt16 b)"
  "TInt32 = type_of w \<longleftrightarrow> (\<exists>b. w = GoInt32 b)"
  "TInt64 = type_of w \<longleftrightarrow> (\<exists>b. w = GoInt64 b)"
  "TUint = type_of w \<longleftrightarrow> (\<exists>b. w = GoUint b)"
  "TUint8 = type_of w \<longleftrightarrow> (\<exists>b. w = GoUint8 b)"
  "TUint16 = type_of w \<longleftrightarrow> (\<exists>b. w = GoUint16 b)"
  "TUint32 = type_of w \<longleftrightarrow> (\<exists>b. w = GoUint32 b)"
  "TUint64 = type_of w \<longleftrightarrow> (\<exists>b. w = GoUint64 b)"
  "TFloat32 = type_of w \<longleftrightarrow> (\<exists>b. w = GoFloat32 b)"
  "TFloat64 = type_of w \<longleftrightarrow> (\<exists>b. w = GoFloat64 b)"
  by (cases w; simp)+

lemma compare_switch_cases [simp]:
  "compare_switch fails ff op what (GoInt a0) (GoInt b0) = Inr (if fails (sint a0) (sint b0) then is_unmet (''%d '' @ op @ '' %d.'') [GoInt a0, GoInt b0] else is_met)"
  "compare_switch fails ff op what (GoInt8 a1) (GoInt8 b1) = Inr (if fails (sint a1) (sint b1) then is_unmet (''%d '' @ op @ '' %d.'') [GoInt8 a1, GoInt8 b1] else is_met)"
  "compare_switch fails ff op what (GoInt16 a2) (GoInt16 b2) = Inr (if fails (sint a2) (sint b2) then is_unmet (''%d '' @ op @ '' %d.'') [GoInt16 a2, GoInt16 b2] else is_met)"
  "compare_switch fails ff op what (GoInt32 a3) (GoInt32 b3) = Inr (if fails (sint a3) (sint b3) then is_unmet (''%d '' @ op @ '' %d.'') [GoInt32 a3, GoInt32 b3] else is_met)"
  "compare_switch fails ff op what (GoInt64 a4) (GoInt64 b4) = Inr (if fails (sint a4) (sint b4) then is_unmet (''%d '' @ op @ '' %d.'') [GoInt64 a4, GoInt64 b4] else is_met)"
  "compare_switch fails ff op what (GoUint a5) (GoUint b5) = Inr (if fails (uint a5) (uint b5) then is_unmet (''%d '' @ op @ '' %d.'') [GoUint a5, GoUint b5] else is_met)"
  "compare_switch fails ff op what (GoUint8 a6) (GoUint8 b6) = Inr (if fails (uint a6) (uint b6) then is_unmet (''%d '' @ op @ '' %d.'') [GoUint8 a6, GoUint8 b6] else is_met)"
  "compare_switch fails ff op what (GoUint16 a7) (GoUint16 b7) = Inr (if fails (uint a7) (uint b7) then is_unmet (''%d '' @ op @ '' %d.'') [GoUint16 a7, GoUint16 b7] else is_met)"
  "compare_switch fails ff op what (GoUint32 a8) (GoUint32 b8) = Inr (if fails (uint a8) (uint b8) then is_unmet (''%d '' @ op @ '' %d.'') [GoUint32 a8, GoUint32 b8] else is_met)"
  "compare_switch fails ff op what (GoUint64 a9) (GoUint64 b9) = Inr (if fails (uint a9) (uint b9) then is_unmet (''%d '' @ op @ '' %d.'') [GoUint64 a9, GoUint64 b9] else is_met)"
  "compare_switch fails ff op what (GoFloat32 a10) (GoFloat32 b10) = Inr (if ff a10 b10 then is_unmet (''%f '' @ op @ '' %f.'') [GoFloat32 a10, GoFloat32 b10] else is_met)"
  "compare_switch fails ff op what (GoFloat64 a11) (GoFloat64 b11) = Inr (if ff a11 b11 then is_unmet (''%f '' @ op @ '' %f.'') [GoFloat64 a11, GoFloat64 b11] else is_met)"
  "compare_switch fails ff op what GoNil w = Inr (is_unmet (''Cannot test %T for '' @ what @ ''.'') [GoNil])"
  "compare_switch fails ff op what (GoReference nm n) w = Inr (is_unmet (''Cannot test %T for '' @ what @ ''.'') [GoReference nm n])"
  "compare_switch fails ff op what (GoOther nm t) w = Inr (is_unmet (''Cannot test %T for '' @ what @ ''.'') [GoOther nm t])"
  by (simp_all add: compare_switch_def)

lemma compare_switch_int:
  assumes "type_of v = type_of w" "int_of_value v = Some m" "int_of_value w = Some n"
  shows "compare_switch fails ff op what v w = Inr (if fails m n then is_unmet (''%d '' @ op @ '' %d.'') [v, w] else is_met)"
  using assms by (cases v) (auto simp: type_of_iff)

lemma compare_switch_returns:
  assumes "type_of v = type_of w"
  shows "\<exists>r. compare_switch fails ff op what v w = Inr r \<and> (fst r \<longleftrightarrow> snd r = [])"
  using assms by (cases v) (auto simp: type_of_iff)

lemma same_type_or_returns:
  "\<exists>r. same_type_or nm v w (compare_switch fails ff op what v w) = Inr r \<and> (fst r \<longleftrightarrow> snd r = [])"
  using compare_switch_returns [of v w fails ff op what] by (simp add: same_type_or_def)

text \<open>No comparison panics, whatever the values are, and it reports exactly when it is not met.\<close>

lemma comparisons_return:
  "\<exists>r. Greater fo v w = Inr r \<and> (fst r \<longleftrightarrow> snd r = [])" "\<exists>r. Geq fo v w = Inr r \<and> (fst r \<longleftrightarrow> snd r = [])"
  "\<exists>r. Less fo v w = Inr r \<and> (fst r \<longleftrightarrow> snd r = [])" "\<exists>r. Leq fo v w = Inr r \<and> (fst r \<longleftrightarrow> snd r = [])"
  unfolding Greater_def Geq_def Less_def Leq_def by (rule same_type_or_returns)+

text \<open>On two values of the same integer type the four comparisons are the orders of the numbers, signed or
  unsigned as the type is, at every width.\<close>

theorem expect_compares_integers:
  assumes "type_of v = type_of w" "int_of_value v = Some m" "int_of_value w = Some n"
  shows "(Greater fo v w = Inr is_met \<longleftrightarrow> m > n) \<and> (Geq fo v w = Inr is_met \<longleftrightarrow> m \<ge> n) \<and>
    (Less fo v w = Inr is_met \<longleftrightarrow> m < n) \<and> (Leq fo v w = Inr is_met \<longleftrightarrow> m \<le> n)"
  using compare_switch_int [OF assms] assms(1) by (auto simp: Greater_def Geq_def Less_def Leq_def same_type_or_def)

theorem expect_compares_integers_witness:
  "\<forall>fo :: bool float_order. Less fo (GoInt8 255) (GoInt8 1) = Inr is_met \<and> Greater fo (GoUint8 255) (GoUint8 1) = Inr is_met"
proof
  fix fo :: "bool float_order"
  show "Less fo (GoInt8 255) (GoInt8 1) = Inr is_met \<and> Greater fo (GoUint8 255) (GoUint8 1) = Inr is_met"
    using expect_compares_integers [of "GoInt8 255" "GoInt8 1 :: bool go_value" "- 1" 1 fo]
      expect_compares_integers [of "GoUint8 255" "GoUint8 1 :: bool go_value" 255 1 fo] by simp
qed

text \<open>A float that is not a number, for which every comparison of Go is false, meets all four expectations, also
  those that exclude each other.\<close>

theorem expect_nan_passes:
  assumes "\<forall>x. \<not> fo_le fo nan x \<and> \<not> fo_le fo x nan \<and> \<not> fo_lt fo nan x \<and> \<not> fo_lt fo x nan"
  shows "Greater fo (GoFloat64 nan) (GoFloat64 x) = Inr is_met \<and> Leq fo (GoFloat64 nan) (GoFloat64 x) = Inr is_met \<and>
    Less fo (GoFloat64 nan) (GoFloat64 x) = Inr is_met \<and> Geq fo (GoFloat64 nan) (GoFloat64 x) = Inr is_met"
  using assms by (simp add: comparison_defs)

text \<open>Floats with one value that is not a number, as options of integers.\<close>

definition option_order :: "int option float_order" where
  "option_order = \<lparr>fo_le = (\<lambda>x y. case (x, y) of (Some a, Some b) \<Rightarrow> a \<le> b | _ \<Rightarrow> False),
     fo_lt = (\<lambda>x y. case (x, y) of (Some a, Some b) \<Rightarrow> a < b | _ \<Rightarrow> False)\<rparr>"

theorem expect_nan_passes_witness:
  "Greater option_order (GoFloat64 None) (GoFloat64 (Some 1)) = Inr is_met \<and> Leq option_order (GoFloat64 None) (GoFloat64 (Some 1)) = Inr is_met"
proof -
  have "\<forall>x. \<not> fo_le option_order None x \<and> \<not> fo_le option_order x None \<and> \<not> fo_lt option_order None x \<and> \<not> fo_lt option_order x None"
    by (simp add: option_order_def split: option.split)
  from expect_nan_passes [OF this, of "Some 1"] show ?thesis by simp
qed

text \<open>The comparisons with a value of a map put the value given first: \<open>MapLess\<close> is met when the value given is
  less than the one in the map, and likewise for the other three, so they are the mirrored comparisons of the
  value in the map.\<close>

theorem map_comparisons_mirrored:
  assumes "MapIndex data key = Inr (Some v)" "type_of v = type_of w" "int_of_value v = Some m" "int_of_value w = Some n"
  shows "(MapLess fo data key w = Inr is_met \<longleftrightarrow> Greater fo v w = Inr is_met) \<and> (MapGreater fo data key w = Inr is_met \<longleftrightarrow> Less fo v w = Inr is_met) \<and>
    (MapLeq fo data key w = Inr is_met \<longleftrightarrow> Geq fo v w = Inr is_met) \<and> (MapGeq fo data key w = Inr is_met \<longleftrightarrow> Leq fo v w = Inr is_met)"
  using compare_switch_int [OF assms(2-4)] compare_switch_int [OF assms(2) [symmetric] assms(4,3)] assms(1,2)
  by (auto simp: MapLess_def MapGreater_def MapLeq_def MapGeq_def map_expect_def Greater_def Geq_def Less_def Leq_def same_type_or_def)

theorem map_comparisons_mirrored_witness:
  "\<exists>data. MapIndex data (GoInt 1) = Inr (Some (GoInt 5)) \<and> MapLess option_order data (GoInt 1) (GoInt 3) = Inr is_met"
proof -
  let ?m = "Some \<lparr>gm_accepts = (\<lambda>t. t = TInt), gm_index = [GoInt 1 \<mapsto> GoInt 5]\<rparr> :: int option go_map option"
  have m: "MapIndex ?m (GoInt 1) = Inr (Some (GoInt 5))" by (simp add: MapIndex_def)
  have "Greater option_order (GoInt 5) (GoInt 3) = Inr is_met" by (simp add: comparison_defs)
  with map_comparisons_mirrored [OF m, of "GoInt 3" 5 3 option_order] m show ?thesis by (intro exI [of _ ?m]) simp
qed

end
